(* ===== verification/Prelude.thy ===== *)
theory Prelude
  imports Main "HOL-Library.Word"
begin

text \<open>
  What every component of the development shares.

  \<^item> The outcome type: a call that the C program does not survive (the out-of-memory
    handler aborts the process, an \<open>assert\<close> fails, a load or store leaves its object, a
    signed sum leaves its type) is a value of \<open>stop\<close>, so that "no out-of-bounds access" is
    a statement about the model and not an assumption of it. \<open>NoFuel\<close> is the value of a
    loop that is cut off by its fuel; only the safety of main loops that may run for ever
    admits it as an outcome.
  \<^item> The C integer types that are not kept as machine words: \<open>int\<close>, \<open>long long\<close> and
    \<open>size_t\<close> values are HOL integers. Unsigned arithmetic and conversions to a narrower
    type go through \<open>s32\<close>, \<open>s64\<close>, \<open>u32\<close> or \<open>u64\<close>, which wrap around; signed arithmetic
    that may leave its type goes through \<open>c32\<close> or \<open>c64\<close>, which stop.
  \<^item> Byte buffers as \<open>char list\<close> with checked loads and stores, and the part of
    \<open>string.h\<close> and \<open>ctype.h\<close> (in the C locale) that the sources use.
\<close>

unbundle bit_operations_syntax

named_theorems mem_simps \<open>checked loads and stores that are in range\<close>
named_theorems cint_simps \<open>conversions that do not change the value\<close>

subsection \<open>Outcomes\<close>

datatype stop =
    OutOfMemory nat
  | AssertFailure
  | BadAccess
  | SignedOverflow
  | NoFuel

type_synonym 'a res = "stop + 'a"

fun rbind :: "'e + 'a \<Rightarrow> ('a \<Rightarrow> 'e + 'b) \<Rightarrow> 'e + 'b" where
  "rbind (Inl e) f = Inl e"
| "rbind (Inr x) f = f x"

lemma rbind_eq_Inr: "rbind m f = Inr y \<longleftrightarrow> (\<exists>x. m = Inr x \<and> f x = Inr y)"
  by (cases m) auto

lemma rbind_assoc: "rbind (rbind m f) g = rbind m (\<lambda>x. rbind (f x) g)"
  by (cases m) auto

lemma rbind_Inr: "rbind m Inr = m"
  by (cases m) auto

lemma rbind_cong [fundef_cong]:
  "m = m' \<Longrightarrow> (\<And>x. m' = Inr x \<Longrightarrow> f x = f' x) \<Longrightarrow> rbind m f = rbind m' f'"
  by (cases m') auto

subsection \<open>C integers\<close>

definition s32 :: "int \<Rightarrow> int" where
  "s32 x = (x + 2147483648) mod 4294967296 - 2147483648"

definition u32 :: "int \<Rightarrow> int" where
  "u32 x = x mod 4294967296"

definition s64 :: "int \<Rightarrow> int" where
  "s64 x = (x + 9223372036854775808) mod 18446744073709551616 - 9223372036854775808"

definition u64 :: "int \<Rightarrow> int" where
  "u64 x = x mod 18446744073709551616"

definition c32 :: "int \<Rightarrow> int res" where
  "c32 x = (if - 2147483648 \<le> x \<and> x < 2147483648 then Inr x else Inl SignedOverflow)"

definition c64 :: "int \<Rightarrow> int res" where
  "c64 x = (if - 9223372036854775808 \<le> x \<and> x < 9223372036854775808 then Inr x
            else Inl SignedOverflow)"

lemma c32_id [cint_simps]: "- 2147483648 \<le> x \<Longrightarrow> x < 2147483648 \<Longrightarrow> c32 x = Inr x"
  by (simp add: c32_def)

lemma c64_id [cint_simps]:
  "- 9223372036854775808 \<le> x \<Longrightarrow> x < 9223372036854775808 \<Longrightarrow> c64 x = Inr x"
  by (simp add: c64_def)

lemma s32_id [cint_simps]: "- 2147483648 \<le> x \<Longrightarrow> x < 2147483648 \<Longrightarrow> s32 x = x"
  by (simp add: s32_def)

lemma u32_id [cint_simps]: "0 \<le> x \<Longrightarrow> x < 4294967296 \<Longrightarrow> u32 x = x"
  by (simp add: u32_def)

lemma s64_id [cint_simps]:
  "- 9223372036854775808 \<le> x \<Longrightarrow> x < 9223372036854775808 \<Longrightarrow> s64 x = x"
  by (simp add: s64_def)

lemma u64_id [cint_simps]: "0 \<le> x \<Longrightarrow> x < 18446744073709551616 \<Longrightarrow> u64 x = x"
  by (simp add: u64_def)

lemma s32_wrap: "2147483648 \<le> x \<Longrightarrow> x < 4294967296 \<Longrightarrow> s32 x = x - 4294967296"
proof -
  assume x: "2147483648 \<le> x" "x < 4294967296"
  have "(x + 2147483648) mod 4294967296 = (x - 2147483648 + 4294967296) mod 4294967296"
    by (rule arg_cong [where f = "\<lambda>y. y mod 4294967296"]) simp
  also have "\<dots> = x - 2147483648" using x by (simp only: mod_add_self2) simp
  finally show "s32 x = x - 4294967296" by (simp add: s32_def)
qed

lemma s32_range: "- 2147483648 \<le> s32 x \<and> s32 x < 2147483648"
  by (simp add: s32_def)

lemma u64_range: "0 \<le> u64 x \<and> u64 x < 18446744073709551616"
  by (simp add: u64_def)

lemma u64_u64_add [simp]: "u64 (u64 x + y) = u64 (x + y)" "u64 (x + u64 y) = u64 (x + y)"
  by (simp_all add: u64_def mod_simps)

lemma s32_u64 [simp]: "s32 (u64 x) = s32 x"
proof -
  have "(x mod 18446744073709551616 + 2147483648) mod 4294967296
      = (x mod 18446744073709551616 mod 4294967296 + 2147483648) mod 4294967296"
    by (simp add: mod_simps)
  also have "x mod 18446744073709551616 mod 4294967296 = x mod 4294967296"
    by (rule mod_mod_cancel) simp
  also have "(x mod 4294967296 + 2147483648) mod 4294967296 = (x + 2147483648) mod 4294967296"
    by (simp add: mod_simps)
  finally show ?thesis by (simp add: s32_def u64_def)
qed

subsection \<open>Byte buffers\<close>

text \<open>
  A buffer is the list of its bytes. \<open>peek\<close>, \<open>poke\<close>, \<open>read_bytes\<close> and \<open>write_bytes\<close>
  are a load, a store, and the source and destination side of \<open>memcpy\<close>, \<open>memmove\<close>
  and \<open>memset\<close>; outside the buffer they are \<open>BadAccess\<close>.
\<close>

abbreviation NUL :: char where
  "NUL \<equiv> CHR 0x00"

definition peek :: "char list \<Rightarrow> int \<Rightarrow> char res" where
  "peek b i = (if 0 \<le> i \<and> i < int (length b) then Inr (b ! nat i) else Inl BadAccess)"

definition poke :: "char list \<Rightarrow> int \<Rightarrow> char \<Rightarrow> char list res" where
  "poke b i c = (if 0 \<le> i \<and> i < int (length b) then Inr (b[nat i := c]) else Inl BadAccess)"

definition read_bytes :: "char list \<Rightarrow> int \<Rightarrow> int \<Rightarrow> char list res" where
  "read_bytes b i n =
     (if 0 \<le> i \<and> 0 \<le> n \<and> i + n \<le> int (length b)
      then Inr (take (nat n) (drop (nat i) b)) else Inl BadAccess)"

definition write_bytes :: "char list \<Rightarrow> int \<Rightarrow> char list \<Rightarrow> char list res" where
  "write_bytes b i d =
     (if 0 \<le> i \<and> i + int (length d) \<le> int (length b)
      then Inr (take (nat i) b @ d @ drop (nat i + length d) b) else Inl BadAccess)"

lemma peek_in [mem_simps]: "i < length b \<Longrightarrow> peek b (int i) = Inr (b ! i)"
  by (simp add: peek_def)

lemma poke_in [mem_simps]: "i < length b \<Longrightarrow> poke b (int i) c = Inr (b[i := c])"
  by (simp add: poke_def)

lemma poke_append [mem_simps]: "poke (xs @ y # ys) (int (length xs)) c = Inr (xs @ c # ys)"
  by (simp add: poke_def)

lemma peek_append [mem_simps]: "peek (xs @ y # ys) (int (length xs)) = Inr y"
  by (simp add: peek_def)

lemma read_bytes_all [mem_simps]: "read_bytes b 0 (int (length b)) = Inr b"
  by (simp add: read_bytes_def)

lemma read_bytes_in [mem_simps]:
  "i + n \<le> length b \<Longrightarrow> read_bytes b (int i) (int n) = Inr (take n (drop i b))"
  by (simp add: read_bytes_def)

lemma read_bytes_in0 [mem_simps]:
  "n \<le> length b \<Longrightarrow> read_bytes b 0 (int n) = Inr (take n b)"
  by (simp add: read_bytes_def)

lemma write_bytes_in [mem_simps]:
  "i + length d \<le> length b \<Longrightarrow>
     write_bytes b (int i) d = Inr (take i b @ d @ drop (i + length d) b)"
  by (simp add: write_bytes_def)

lemma write_bytes_append:
  "length d \<le> length ys \<Longrightarrow>
     write_bytes (xs @ ys) (int (length xs)) d = Inr (xs @ d @ drop (length d) ys)"
  by (simp add: write_bytes_def nat_int_add)

lemma write_bytes_length: "write_bytes b i d = Inr b' \<Longrightarrow> length b' = length b"
  by (auto simp: write_bytes_def split: if_splits)

lemma poke_length: "poke b i c = Inr b' \<Longrightarrow> length b' = length b"
  by (auto simp: poke_def split: if_splits)

lemma take_poke_eq: "i = length xs \<Longrightarrow> take i ((xs @ ys)[i := c]) = xs"
  by (simp add: list_update_append)

subsection \<open>C strings\<close>

text \<open>
  A \<open>const char *\<close> argument that the code reads as a zero-terminated string is the list
  of the bytes the pointer leads to; the terminator is the first \<open>NUL\<close> of the list or,
  if it has none, the byte after it.
\<close>

definition cstr :: "char list \<Rightarrow> char list" where
  "cstr t = takeWhile (\<lambda>c. c \<noteq> NUL) t"

definition strlen :: "char list \<Rightarrow> int" where
  "strlen t = int (length (cstr t))"

definition strchr_hit :: "char list \<Rightarrow> char \<Rightarrow> bool" where
  \<comment> \<open>\<open>strchr(set, c) != NULL\<close>: the terminator belongs to the string searched\<close>
  "strchr_hit cset c \<longleftrightarrow> c \<in> set (cstr cset) \<or> c = NUL"

lemma cstr_no_NUL [simp]: "NUL \<notin> set t \<Longrightarrow> cstr t = t"
  by (induction t) (auto simp: cstr_def)

lemma cstr_append_NUL: "NUL \<notin> set xs \<Longrightarrow> cstr (xs @ NUL # ys) = xs"
  by (induction xs) (auto simp: cstr_def)

lemma cstr_append_NUL_same: "cstr (xs @ NUL # ys) = cstr xs"
  by (induction xs) (auto simp: cstr_def)

lemma cstr_take: "NUL \<in> set (take k t) \<Longrightarrow> cstr (take k t @ ys) = cstr t"
proof -
  assume a: "NUL \<in> set (take k t)"
  have "cstr (take k t @ zs) = cstr (take k t)" for zs
    unfolding cstr_def using a by (auto simp: takeWhile_append)
  from this [of ys] this [of "drop k t"] show ?thesis by simp
qed

lemma cstr_split: "\<exists>rest. t @ [NUL] = cstr t @ NUL # rest"
proof (cases "NUL \<in> set t")
  case True
  then obtain xs ys where "t = xs @ NUL # ys" "NUL \<notin> set xs" by (metis split_list_first)
  then show ?thesis using cstr_append_NUL [of xs ys] by simp
qed simp

lemma NUL_notin_cstr [simp]: "NUL \<notin> set (cstr t)"
  by (auto simp: cstr_def dest: set_takeWhileD)

lemma length_cstr_le: "length (cstr t) \<le> length t"
  by (simp add: cstr_def length_takeWhile_le)

lemma take_length_cstr [simp]: "take (length (cstr t)) t = cstr t"
  by (metis cstr_def takeWhile_eq_take)

subsection \<open>Character classes of the C locale\<close>

definition code :: "char \<Rightarrow> int" where
  "code c = of_char c"

definition chr :: "int \<Rightarrow> char" where
  "chr n = char_of (nat (n mod 256))"

definition isspace :: "char \<Rightarrow> bool" where
  "isspace c \<longleftrightarrow> code c = 32 \<or> (9 \<le> code c \<and> code c \<le> 13)"

definition isprint :: "char \<Rightarrow> bool" where
  "isprint c \<longleftrightarrow> 32 \<le> code c \<and> code c \<le> 126"

definition tolower :: "char \<Rightarrow> char" where
  "tolower c = (if 65 \<le> code c \<and> code c \<le> 90 then chr (code c + 32) else c)"

definition toupper :: "char \<Rightarrow> char" where
  "toupper c = (if 97 \<le> code c \<and> code c \<le> 122 then chr (code c - 32) else c)"

lemma code_nat: "code c = int (of_char c)"
  by (simp only: code_def of_nat_of_char)

lemma code_range: "0 \<le> code c \<and> code c < 256"
proof -
  have "(of_char c :: nat) < 256" by (rule nat_of_char_less_256)
  then show ?thesis unfolding code_nat by linarith
qed

lemma code_inj [simp]: "code c = code d \<longleftrightarrow> c = d"
  by (simp add: code_def)

lemma code_chr: "0 \<le> n \<Longrightarrow> n < 256 \<Longrightarrow> code (chr n) = n"
  by (simp add: code_nat chr_def)

lemma chr_code [simp]: "chr (code c) = c"
  using code_range [of c] by (simp add: code_chr flip: code_inj)

subsection \<open>Decimal numbers\<close>

definition isdigit :: "char \<Rightarrow> bool" where
  "isdigit c \<longleftrightarrow> 48 \<le> code c \<and> code c \<le> 57"

definition dec_value :: "char list \<Rightarrow> int" where
  "dec_value ds = foldl (\<lambda>v c. 10 * v + (code c - 48)) 0 ds"

definition strtol10 :: "char list \<Rightarrow> int" where
  \<comment> \<open>\<open>strtol(t, NULL, 10)\<close> and \<open>strtoll\<close>: white space, a sign, digits; out of range it is the nearest value\<close>
  "strtol10 t =
     (let u = dropWhile isspace (cstr t);
          neg = (u \<noteq> [] \<and> hd u = CHR ''-'');
          ds = takeWhile isdigit (if u \<noteq> [] \<and> hd u \<in> {CHR ''-'', CHR ''+''} then tl u else u);
          v = (if neg then - dec_value ds else dec_value ds) in
      max (- 9223372036854775808) (min 9223372036854775807 v))"

lemma dec_value_nonneg: "list_all isdigit ds \<Longrightarrow> 0 \<le> dec_value ds"
proof -
  have "0 \<le> foldl (\<lambda>v c. 10 * v + (code c - 48)) e ds" if "list_all isdigit ds" "0 \<le> e" for e
    using that by (induction ds arbitrary: e) (auto simp: isdigit_def)
  then show "list_all isdigit ds \<Longrightarrow> 0 \<le> dec_value ds" by (simp add: dec_value_def)
qed

lemma strtol10_digits:
  assumes "ds \<noteq> []" "list_all isdigit ds" "dec_value ds < 9223372036854775808"
    and "list_all isspace pre" "rest = [] \<or> \<not> isdigit (hd rest)" "NUL \<notin> set rest"
  shows "strtol10 (pre @ ds @ rest) = dec_value ds"
proof -
  obtain d ds' where ds: "ds = d # ds'" "isdigit d" using assms(1,2) by (cases ds) auto
  have nd: "\<not> isspace d" "d \<noteq> CHR ''-''" "d \<noteq> CHR ''+''"
    using ds(2) by (auto simp: isdigit_def isspace_def code_def)
  have nul: "isdigit c \<Longrightarrow> c \<noteq> NUL" "isspace c \<Longrightarrow> c \<noteq> NUL" for c
    by (auto simp: isdigit_def isspace_def code_def)
  have "NUL \<notin> set (pre @ ds @ rest)" using assms(2,4,6) nul by (auto simp: list_all_iff)
  moreover have "dropWhile isspace (pre @ ds @ rest) = ds @ rest"
    using assms(4) nd(1) ds(1) by (simp add: dropWhile_append list_all_iff)
  moreover have "takeWhile isdigit (ds @ rest) = ds"
    using assms(2,5) by (cases rest) (auto simp: takeWhile_append list_all_iff)
  ultimately show ?thesis
    using nd ds assms(2,3) dec_value_nonneg [of ds] by (simp add: strtol10_def Let_def)
qed

end
