(* ===== verification/Zmalloc.thy ===== *)
theory Zmalloc
  imports Prelude
begin

text \<open>
  The accounting allocator of \<open>zmalloc.c\<close>, in its libc configuration
  (\<open>HAVE_MALLOC_SIZE\<close> not defined): every block carries a \<open>size_t\<close> prefix with the
  size that was asked for, and the global \<open>used_memory\<close> counts the bytes of all live
  blocks, rounded up to \<open>sizeof(long)\<close>.

  The state \<open>zheap\<close> holds the globals of the file and the part of the C library's heap
  they depend on. A pointer is the identity of its block (0 is \<open>NULL\<close>), never used
  twice; \<open>blocks\<close> is the byte size of every live block, \<open>hdrs\<close> the contents of its
  prefix. Whether the library serves its \<open>n\<close>-th request is decided by the arbitrary
  function \<open>refuse\<close>, and the bytes of a fresh block are the arbitrary \<open>garbage\<close>, so a
  theorem about all states covers every sequence of refusals. \<open>oom_aborts\<close> is the
  installed handler \<open>zmalloc_oom_handler\<close>: whether a call of it ends the process.
\<close>

type_synonym size_t = "64 word"
type_synonym ptr = nat

definition to_size :: "int \<Rightarrow> size_t" where
  \<comment> \<open>the conversion of an integer to \<open>size_t\<close>\<close>
  "to_size n = word_of_int n"

record zheap =
  used_memory :: size_t
  zmalloc_thread_safe :: int
  oom_aborts :: "size_t \<Rightarrow> bool"
  hdrs :: "ptr \<rightharpoonup> size_t"
  blocks :: "ptr \<rightharpoonup> nat"
  nreq :: nat
  refuse :: "nat \<Rightarrow> bool"
  garbage :: "ptr \<Rightarrow> nat \<Rightarrow> char"

subsection \<open>The C library's heap\<close>

definition libc_malloc :: "size_t \<Rightarrow> zheap \<Rightarrow> ptr \<times> zheap" where
  "libc_malloc n z =
     (let z' = z\<lparr>nreq := Suc (nreq z)\<rparr> in
      if refuse z (nreq z) then (0, z')
      else (Suc (nreq z), z'\<lparr>blocks := (blocks z)(Suc (nreq z) \<mapsto> unat n)\<rparr>))"

definition libc_calloc :: "size_t \<Rightarrow> size_t \<Rightarrow> zheap \<Rightarrow> ptr \<times> zheap" where
  "libc_calloc count n z = libc_malloc (count * n) z"

definition libc_realloc :: "ptr \<Rightarrow> size_t \<Rightarrow> zheap \<Rightarrow> ptr \<times> zheap" where
  "libc_realloc p n z =
     (let z' = z\<lparr>nreq := Suc (nreq z)\<rparr> in
      if refuse z (nreq z) then (0, z')
      else (Suc (nreq z),
            z'\<lparr>blocks := (blocks z)(p := None, Suc (nreq z) \<mapsto> unat n),
               hdrs := (hdrs z)(p := None)\<rparr>))"

definition libc_free :: "ptr \<Rightarrow> zheap \<Rightarrow> zheap" where
  "libc_free p z = z\<lparr>blocks := (blocks z)(p := None), hdrs := (hdrs z)(p := None)\<rparr>"

definition store_size :: "ptr \<Rightarrow> size_t \<Rightarrow> zheap \<Rightarrow> zheap res" where
  \<comment> \<open>\<open>*((size_t*)ptr) = size\<close>\<close>
  "store_size p n z =
     (case blocks z p of
        None \<Rightarrow> Inl BadAccess
      | Some m \<Rightarrow> if p = 0 \<or> m < 8 then Inl BadAccess else Inr (z\<lparr>hdrs := (hdrs z)(p \<mapsto> n)\<rparr>))"

definition load_size :: "ptr \<Rightarrow> zheap \<Rightarrow> size_t res" where
  \<comment> \<open>\<open>*((size_t*)realptr)\<close>\<close>
  "load_size p z = (case hdrs z p of None \<Rightarrow> Inl BadAccess | Some n \<Rightarrow> Inr n)"

definition payload :: "ptr \<Rightarrow> zheap \<Rightarrow> char list" where
  \<comment> \<open>the bytes behind the prefix of a fresh block\<close>
  "payload p z = map (garbage z p) [0..<(case blocks z p of None \<Rightarrow> 0 | Some m \<Rightarrow> m - 8)]"

subsection \<open>\<open>zmalloc.c\<close>\<close>

definition PREFIX_SIZE :: size_t where
  "PREFIX_SIZE = 8"

definition round_long :: "size_t \<Rightarrow> size_t" where
  \<comment> \<open>\<open>if (_n&(sizeof(long)-1)) _n += sizeof(long)-(_n&(sizeof(long)-1))\<close>\<close>
  "round_long n = (if n AND 7 \<noteq> 0 then n + (8 - (n AND 7)) else n)"

definition update_zmalloc_stat_add :: "size_t \<Rightarrow> zheap \<Rightarrow> zheap" where
  "update_zmalloc_stat_add n z = z\<lparr>used_memory := used_memory z + n\<rparr>"

definition update_zmalloc_stat_sub :: "size_t \<Rightarrow> zheap \<Rightarrow> zheap" where
  "update_zmalloc_stat_sub n z = z\<lparr>used_memory := used_memory z - n\<rparr>"

definition update_zmalloc_stat_alloc :: "size_t \<Rightarrow> zheap \<Rightarrow> zheap" where
  "update_zmalloc_stat_alloc n z =
     (if zmalloc_thread_safe z \<noteq> 0 then update_zmalloc_stat_add (round_long n) z
      else z\<lparr>used_memory := used_memory z + round_long n\<rparr>)"

definition update_zmalloc_stat_free :: "size_t \<Rightarrow> zheap \<Rightarrow> zheap" where
  "update_zmalloc_stat_free n z =
     (if zmalloc_thread_safe z \<noteq> 0 then update_zmalloc_stat_sub (round_long n) z
      else z\<lparr>used_memory := used_memory z - round_long n\<rparr>)"

definition zmalloc_oom_handler :: "size_t \<Rightarrow> zheap \<Rightarrow> unit res" where
  "zmalloc_oom_handler n z = (if oom_aborts z n then Inl (OutOfMemory (unat n)) else Inr ())"

definition zmalloc_default_oom :: "size_t \<Rightarrow> bool" where
  \<comment> \<open>prints a message and calls \<open>abort()\<close>\<close>
  "zmalloc_default_oom n = True"

definition zmalloc :: "size_t \<Rightarrow> zheap \<Rightarrow> (ptr \<times> zheap) res" where
  "zmalloc sz z =
     (let (p, z1) = libc_malloc (sz + PREFIX_SIZE) z in
      rbind (if p = 0 then zmalloc_oom_handler sz z1 else Inr ()) (\<lambda>_.
      rbind (store_size p sz z1) (\<lambda>z2.
      Inr (p, update_zmalloc_stat_alloc (sz + PREFIX_SIZE) z2))))"

definition zcalloc :: "size_t \<Rightarrow> zheap \<Rightarrow> (ptr \<times> zheap) res" where
  "zcalloc sz z =
     (let (p, z1) = libc_calloc 1 (sz + PREFIX_SIZE) z in
      rbind (if p = 0 then zmalloc_oom_handler sz z1 else Inr ()) (\<lambda>_.
      rbind (store_size p sz z1) (\<lambda>z2.
      Inr (p, update_zmalloc_stat_alloc (sz + PREFIX_SIZE) z2))))"

definition zrealloc :: "ptr \<Rightarrow> size_t \<Rightarrow> zheap \<Rightarrow> (ptr \<times> zheap) res" where
  "zrealloc ptr sz z =
     (if ptr = 0 then zmalloc sz z else
      rbind (load_size ptr z) (\<lambda>oldsize.
      let (q, z1) = libc_realloc ptr (sz + PREFIX_SIZE) z in
      rbind (if q = 0 then zmalloc_oom_handler sz z1 else Inr ()) (\<lambda>_.
      rbind (store_size q sz z1) (\<lambda>z2.
      Inr (q, update_zmalloc_stat_alloc sz (update_zmalloc_stat_free oldsize z2))))))"

definition zmalloc_size :: "ptr \<Rightarrow> zheap \<Rightarrow> size_t res" where
  "zmalloc_size ptr z = rbind (load_size ptr z) (\<lambda>sz. Inr (round_long sz + PREFIX_SIZE))"

definition zfree :: "ptr \<Rightarrow> zheap \<Rightarrow> zheap res" where
  "zfree ptr z =
     (if ptr = 0 then Inr z else
      rbind (load_size ptr z) (\<lambda>oldsize.
      Inr (libc_free ptr (update_zmalloc_stat_free (oldsize + PREFIX_SIZE) z))))"

definition zstrdup :: "char list \<Rightarrow> zheap \<Rightarrow> ((ptr \<times> char list) \<times> zheap) res" where
  "zstrdup s z =
     (let l = strlen s + 1 in
      rbind (zmalloc (to_size l) z) (\<lambda>(p, z1).
      rbind (write_bytes (payload p z1) 0 (cstr s @ [NUL])) (\<lambda>b.
      Inr ((p, b), z1))))"

definition zmalloc_used_memory :: "zheap \<Rightarrow> size_t" where
  "zmalloc_used_memory z =
     (if zmalloc_thread_safe z \<noteq> 0 then used_memory (update_zmalloc_stat_add 0 z)
      else used_memory z)"

definition zmalloc_enable_thread_safeness :: "zheap \<Rightarrow> zheap" where
  "zmalloc_enable_thread_safeness z = z\<lparr>zmalloc_thread_safe := 1\<rparr>"

definition zmalloc_set_oom_handler :: "(size_t \<Rightarrow> bool) \<Rightarrow> zheap \<Rightarrow> zheap" where
  "zmalloc_set_oom_handler h z = z\<lparr>oom_aborts := h\<rparr>"

subsection \<open>Invariant\<close>

definition charged :: "size_t \<Rightarrow> size_t" where
  \<comment> \<open>what a live block of the given size contributes to \<open>used_memory\<close>\<close>
  "charged n = round_long (n + PREFIX_SIZE)"

definition fits :: "size_t \<Rightarrow> bool" where
  "fits n \<longleftrightarrow> unat n + 8 < 2 ^ 64"

definition zheap_ok :: "zheap \<Rightarrow> bool" where
  "zheap_ok z \<longleftrightarrow>
     finite (dom (hdrs z)) \<and> dom (blocks z) = dom (hdrs z) \<and>
     (\<forall>p n. hdrs z p = Some n \<longrightarrow> 0 < p \<and> p \<le> nreq z \<and> blocks z p = Some (unat n + 8)) \<and>
     (\<forall>n. oom_aborts z n) \<and>
     used_memory z = (\<Sum>p\<in>dom (hdrs z). charged (the (hdrs z p)))"

definition heap_ext :: "zheap \<Rightarrow> zheap \<Rightarrow> bool" where
  \<comment> \<open>what no operation changes of the environment\<close>
  "heap_ext z z' \<longleftrightarrow> nreq z \<le> nreq z' \<and> refuse z' = refuse z \<and> garbage z' = garbage z"

definition yields :: "zheap \<Rightarrow> ('a \<times> zheap) res \<Rightarrow> ('a \<Rightarrow> zheap \<Rightarrow> bool) \<Rightarrow> bool" where
  \<comment> \<open>the call returns with \<open>Q\<close>, or the library refused a request and the process aborted\<close>
  "yields z r Q \<longleftrightarrow>
     (case r of
        Inr (x, z') \<Rightarrow> heap_ext z z' \<and> Q x z'
      | Inl e \<Rightarrow> (\<exists>n. e = OutOfMemory n) \<and> (\<exists>k. nreq z \<le> k \<and> refuse z k))"

definition zheap_init :: "(nat \<Rightarrow> bool) \<Rightarrow> (ptr \<Rightarrow> nat \<Rightarrow> char) \<Rightarrow> zheap" where
  "zheap_init rf gb =
     \<lparr>used_memory = 0, zmalloc_thread_safe = 0, oom_aborts = zmalloc_default_oom,
      hdrs = Map.empty, blocks = Map.empty, nreq = 0, refuse = rf, garbage = gb\<rparr>"

lemma heap_ext_refl [simp]: "heap_ext z z"
  by (simp add: heap_ext_def)

lemma heap_ext_trans: "heap_ext z z1 \<Longrightarrow> heap_ext z1 z2 \<Longrightarrow> heap_ext z z2"
  by (auto simp: heap_ext_def)

lemma yields_Inr [simp]: "yields z (Inr (x, z')) Q \<longleftrightarrow> heap_ext z z' \<and> Q x z'"
  by (simp add: yields_def)

lemma yields_mono:
  "yields z r P \<Longrightarrow> (\<And>x z'. heap_ext z z' \<Longrightarrow> P x z' \<Longrightarrow> Q x z') \<Longrightarrow> yields z r Q"
  by (auto simp: yields_def split: sum.splits)

lemma yields_bind:
  assumes "yields z m P"
    and "\<And>x z1. heap_ext z z1 \<Longrightarrow> P x z1 \<Longrightarrow> yields z1 (f (x, z1)) Q"
  shows "yields z (rbind m f) Q"
proof (cases m)
  case (Inl e)
  with assms(1) show ?thesis by (simp add: yields_def)
next
  case (Inr p)
  obtain x z1 where p: "p = (x, z1)" by (cases p)
  from assms(1) Inr p have e: "heap_ext z z1" and "P x z1" by (auto simp: yields_def)
  then have "yields z1 (f (x, z1)) Q" by (rule assms(2))
  then show ?thesis using e Inr p
    by (auto simp: yields_def heap_ext_def split: sum.splits intro: order_trans)
qed

lemma yields_ext: "heap_ext z z1 \<Longrightarrow> yields z1 r Q \<Longrightarrow> yields z r Q"
  by (auto simp: yields_def heap_ext_def split: sum.splits intro: order_trans)

lemma yields_returns:
  "yields z r Q \<Longrightarrow> (\<And>k. nreq z \<le> k \<Longrightarrow> \<not> refuse z k) \<Longrightarrow> \<exists>x z'. r = Inr (x, z') \<and> Q x z'"
  by (auto simp: yields_def split: sum.splits)


subsection \<open>Rounding\<close>

lemma and_seven: "(n :: size_t) AND 7 = take_bit 3 n"
  by (simp add: take_bit_eq_mask mask_eq_exp_minus_1)

lemma round_long_add8: "round_long (n + 8) = round_long n + 8"
proof -
  have "unat (take_bit 3 (n + 8)) = (unat n + 8) mod 18446744073709551616 mod 8"
    by (simp add: unsigned_take_bit_eq) (simp add: take_bit_eq_mod unat_word_ariths)
  also have "\<dots> = (unat n + 8) mod 8"
    by (rule mod_mod_cancel) simp
  also have "\<dots> = unat (take_bit 3 n)"
    by (simp add: unsigned_take_bit_eq) (simp add: take_bit_eq_mod)
  finally have "take_bit 3 (n + 8) = take_bit 3 n"
    by (simp only: word_unat_eq_iff)
  then show ?thesis by (simp add: round_long_def and_seven)
qed

lemma charged_eq: "charged n = round_long n + 8"
  by (simp add: charged_def PREFIX_SIZE_def round_long_add8)

lemma stat_alloc_eq: "update_zmalloc_stat_alloc n z = z\<lparr>used_memory := used_memory z + round_long n\<rparr>"
  by (simp add: update_zmalloc_stat_alloc_def update_zmalloc_stat_add_def)

lemma stat_free_eq: "update_zmalloc_stat_free n z = z\<lparr>used_memory := used_memory z - round_long n\<rparr>"
  by (simp add: update_zmalloc_stat_free_def update_zmalloc_stat_sub_def)

lemmas stat_eqs = stat_alloc_eq stat_free_eq

subsection \<open>Every operation keeps the books\<close>

lemma sum_hdrs_insert:
  assumes "finite (dom m)" "m p = None"
  shows "(\<Sum>q\<in>dom (m(p \<mapsto> n)). charged (the ((m(p \<mapsto> n)) q)))
       = (\<Sum>q\<in>dom m. charged (the (m q))) + charged n"
proof -
  have "p \<notin> dom m" using assms(2) by blast
  then have "(\<Sum>q\<in>dom m. charged (the ((m(p \<mapsto> n)) q))) = (\<Sum>q\<in>dom m. charged (the (m q)))"
    by (intro sum.cong) auto
  with \<open>p \<notin> dom m\<close> assms(1) show ?thesis by (simp add: add.commute)
qed

lemma sum_hdrs_remove:
  assumes "finite (dom m)" "m p = Some n"
  shows "(\<Sum>q\<in>dom (m(p := None)). charged (the ((m(p := None)) q)))
       = (\<Sum>q\<in>dom m. charged (the (m q))) - charged n"
proof -
  have "m = (m(p := None))(p \<mapsto> n)" using assms(2) by auto
  then have "(\<Sum>q\<in>dom m. charged (the (m q)))
           = (\<Sum>q\<in>dom (m(p := None)). charged (the ((m(p := None)) q))) + charged n"
    using sum_hdrs_insert [of "m(p := None)" p n] assms(1) by simp
  then show ?thesis by simp
qed

lemma zheap_ok_live:
  "zheap_ok z \<Longrightarrow> hdrs z p = Some n \<Longrightarrow> 0 < p \<and> p \<le> nreq z \<and> blocks z p = Some (unat n + 8)"
  by (simp add: zheap_ok_def)

lemma zheap_ok_fresh: "zheap_ok z \<Longrightarrow> hdrs z (Suc (nreq z)) = None"
  by (metis Suc_n_not_le_n not_Some_eq zheap_ok_live)

lemma fits_add8: "fits n \<Longrightarrow> unat (n + 8) = unat n + 8"
  by (simp add: fits_def unat_word_ariths)

lemma unat_to_size:
  "0 \<le> n \<Longrightarrow> n < 18446744073709551616 \<Longrightarrow> unat (to_size n) = nat n"
  by (simp add: to_size_def unsigned_of_int take_bit_eq_mod)

lemma fits_to_size: "0 \<le> n \<Longrightarrow> n < 9223372036854775808 \<Longrightarrow> fits (to_size n)"
  by (simp add: fits_def unat_to_size)

lemma zmalloc_cases:
  assumes "zheap_ok z" "fits n"
  shows "zmalloc n z =
    (if refuse z (nreq z) then Inl (OutOfMemory (unat n))
     else Inr (Suc (nreq z),
       z\<lparr>used_memory := used_memory z + charged n, nreq := Suc (nreq z),
         blocks := (blocks z)(Suc (nreq z) \<mapsto> unat n + 8),
         hdrs := (hdrs z)(Suc (nreq z) \<mapsto> n)\<rparr>))"
  using assms
  by (auto simp: zmalloc_def libc_malloc_def zmalloc_oom_handler_def store_size_def stat_eqs
      charged_def PREFIX_SIZE_def fits_add8 zheap_ok_def)

lemma zcalloc_eq_zmalloc: "zcalloc n z = zmalloc n z"
  by (simp add: zcalloc_def zmalloc_def libc_calloc_def)

lemma zrealloc_cases:
  assumes "zheap_ok z" "fits n" "hdrs z p = Some old"
  shows "zrealloc p n z =
    (if refuse z (nreq z) then Inl (OutOfMemory (unat n))
     else Inr (Suc (nreq z),
       z\<lparr>used_memory := used_memory z - round_long old + round_long n, nreq := Suc (nreq z),
         blocks := (blocks z)(p := None, Suc (nreq z) \<mapsto> unat n + 8),
         hdrs := (hdrs z)(p := None, Suc (nreq z) \<mapsto> n)\<rparr>))"
proof -
  have "p \<noteq> 0" using zheap_ok_live [OF assms(1,3)] by simp
  with assms show ?thesis
    by (auto simp: zrealloc_def load_size_def libc_realloc_def zmalloc_oom_handler_def
        store_size_def stat_eqs PREFIX_SIZE_def fits_add8 zheap_ok_def)
qed

lemma zfree_cases:
  assumes "zheap_ok z" "hdrs z p = Some n"
  shows "zfree p z =
    Inr (z\<lparr>used_memory := used_memory z - charged n, blocks := (blocks z)(p := None),
           hdrs := (hdrs z)(p := None)\<rparr>)"
proof -
  have "p \<noteq> 0" using zheap_ok_live [OF assms] by simp
  with assms show ?thesis
    by (simp add: zfree_def load_size_def libc_free_def stat_eqs charged_def)
qed

lemma zheap_ok_alloc:
  assumes "zheap_ok z"
  shows "zheap_ok (z\<lparr>used_memory := used_memory z + charged n, nreq := Suc (nreq z),
         blocks := (blocks z)(Suc (nreq z) \<mapsto> unat n + 8),
         hdrs := (hdrs z)(Suc (nreq z) \<mapsto> n)\<rparr>)"
proof -
  have "hdrs z (Suc (nreq z)) = None" using assms by (rule zheap_ok_fresh)
  moreover have "finite (dom (hdrs z))" using assms by (simp add: zheap_ok_def)
  ultimately show ?thesis using assms sum_hdrs_insert [of "hdrs z" "Suc (nreq z)" n]
    by (auto simp: zheap_ok_def le_SucI)
qed

lemma zheap_ok_free:
  assumes "zheap_ok z" "hdrs z p = Some n"
  shows "zheap_ok (z\<lparr>used_memory := used_memory z - charged n, blocks := (blocks z)(p := None),
           hdrs := (hdrs z)(p := None)\<rparr>)"
proof -
  have fin: "finite (dom (hdrs z))" using assms(1) by (simp add: zheap_ok_def)
  show ?thesis
    using assms sum_hdrs_remove [OF fin assms(2)]
    by (auto simp: zheap_ok_def split: if_splits)
qed

lemma zheap_ok_realloc:
  assumes ok: "zheap_ok z" and old: "hdrs z p = Some old"
  shows "zheap_ok (z\<lparr>used_memory := used_memory z - round_long old + round_long n,
         nreq := Suc (nreq z), blocks := (blocks z)(p := None, Suc (nreq z) \<mapsto> unat n + 8),
         hdrs := (hdrs z)(p := None, Suc (nreq z) \<mapsto> n)\<rparr>)"
proof -
  have "used_memory z - round_long old + round_long n = used_memory z - charged old + charged n"
    by (simp add: charged_eq)
  moreover have "zheap_ok (z\<lparr>used_memory := used_memory z - charged old + charged n,
         nreq := Suc (nreq z), blocks := (blocks z)(p := None, Suc (nreq z) \<mapsto> unat n + 8),
         hdrs := (hdrs z)(p := None, Suc (nreq z) \<mapsto> n)\<rparr>)"
    using zheap_ok_alloc [OF zheap_ok_free [OF ok old], of n] by simp
  ultimately show ?thesis by (simp only:)
qed

lemma zmalloc_yields:
  assumes "zheap_ok z" "fits n"
  shows "yields z (zmalloc n z)
    (\<lambda>p z'. zheap_ok z' \<and> p \<noteq> 0 \<and> hdrs z p = None \<and> hdrs z' = (hdrs z)(p \<mapsto> n) \<and>
            length (payload p z') = unat n)"
  using assms zheap_ok_alloc [OF assms(1), of n] zheap_ok_fresh [OF assms(1)]
  by (auto simp: zmalloc_cases yields_def heap_ext_def payload_def)

lemma zrealloc_yields:
  assumes "zheap_ok z" "fits n" "hdrs z p = Some old"
  shows "yields z (zrealloc p n z)
    (\<lambda>q z'. zheap_ok z' \<and> q \<noteq> 0 \<and> hdrs z q = None \<and> hdrs z' = (hdrs z)(p := None, q \<mapsto> n))"
  using assms zheap_ok_realloc [OF assms(1,3), of n] zheap_ok_fresh [OF assms(1)]
  by (auto simp: zrealloc_cases yields_def heap_ext_def)

lemma zfree_returns:
  assumes "zheap_ok z" "hdrs z p = Some n"
  shows "\<exists>z'. zfree p z = Inr z' \<and> zheap_ok z' \<and> heap_ext z z' \<and> hdrs z' = (hdrs z)(p := None)"
  using zfree_cases [OF assms] zheap_ok_free [OF assms] by (auto simp: heap_ext_def)

lemma zheap_ok_init: "zheap_ok (zheap_init rf gb)"
  by (simp add: zheap_ok_def zheap_init_def zmalloc_default_oom_def)

lemma zheap_ok_used:
  "zheap_ok z \<Longrightarrow> zheap_ok z' \<Longrightarrow> hdrs z = hdrs z' \<Longrightarrow> used_memory z = used_memory z'"
  by (simp add: zheap_ok_def)


subsection \<open>The allocator as an interface\<close>

text \<open>
  What the clients of the allocator rely on, stated over any implementation: three
  operations, the map from live blocks to their sizes, and a counter that depends on
  that map only.
\<close>

locale accounted_heap =
  fixes alloc :: "size_t \<Rightarrow> 'h \<Rightarrow> (ptr \<times> 'h) res"
    and resize :: "ptr \<Rightarrow> size_t \<Rightarrow> 'h \<Rightarrow> (ptr \<times> 'h) res"
    and release :: "ptr \<Rightarrow> 'h \<Rightarrow> 'h res"
    and ok :: "'h \<Rightarrow> bool"
    and sizes :: "'h \<Rightarrow> ptr \<rightharpoonup> size_t"
    and used :: "'h \<Rightarrow> size_t"
    and admissible :: "size_t \<Rightarrow> bool"
  assumes alloc_law: "ok h \<Longrightarrow> admissible n \<Longrightarrow> alloc n h = Inr (p, h') \<Longrightarrow>
      ok h' \<and> p \<noteq> 0 \<and> sizes h p = None \<and> sizes h' = (sizes h)(p \<mapsto> n)"
    and resize_law: "ok h \<Longrightarrow> admissible n \<Longrightarrow> sizes h p = Some m \<Longrightarrow>
      resize p n h = Inr (q, h') \<Longrightarrow>
      ok h' \<and> q \<noteq> 0 \<and> sizes h q = None \<and> sizes h' = (sizes h)(p := None, q \<mapsto> n)"
    and release_law: "ok h \<Longrightarrow> sizes h p = Some m \<Longrightarrow>
      \<exists>h'. release p h = Inr h' \<and> ok h' \<and> sizes h' = (sizes h)(p := None)"
    and used_law: "ok h \<Longrightarrow> ok h' \<Longrightarrow> sizes h = sizes h' \<Longrightarrow> used h = used h'"
begin

primrec release_all :: "ptr list \<Rightarrow> 'h \<Rightarrow> 'h res" where
  "release_all [] h = Inr h"
| "release_all (p # ps) h = rbind (release p h) (release_all ps)"

lemma alloc_release:
  assumes "ok h" "admissible n" "alloc n h = Inr (p, h1)"
  shows "\<exists>h2. release p h1 = Inr h2 \<and> ok h2 \<and> sizes h2 = sizes h \<and> used h2 = used h"
proof -
  have h1: "ok h1" "sizes h p = None" "sizes h1 = (sizes h)(p \<mapsto> n)"
    using alloc_law [OF assms] by auto
  then obtain h2 where h2: "release p h1 = Inr h2" "ok h2" "sizes h2 = (sizes h1)(p := None)"
    using release_law [of h1 p n] by auto
  moreover have "sizes h2 = sizes h" using h1 h2 by (auto simp: fun_eq_iff)
  ultimately show ?thesis using used_law [OF h2(2) assms(1)] by blast
qed

lemma alloc_resize_release:
  assumes "ok h" "admissible n" "admissible m" "alloc n h = Inr (p, h1)"
    and "resize p m h1 = Inr (q, h2)"
  shows "\<exists>h3. release q h2 = Inr h3 \<and> ok h3 \<and> sizes h3 = sizes h \<and> used h3 = used h"
proof -
  have h1: "ok h1" "sizes h p = None" "sizes h1 = (sizes h)(p \<mapsto> n)"
    using alloc_law [OF assms(1,2,4)] by auto
  have h2: "ok h2" "sizes h1 q = None" "sizes h2 = (sizes h1)(p := None, q \<mapsto> m)"
    using resize_law [OF h1(1) assms(3) _ assms(5), of n] h1(3) by auto
  then obtain h3 where h3: "release q h2 = Inr h3" "ok h3" "sizes h3 = (sizes h2)(q := None)"
    using release_law [of h2 q m] by auto
  moreover have "sizes h3 = sizes h" using h1 h2 h3 by (auto simp: fun_eq_iff)
  ultimately show ?thesis using used_law [OF h3(2) assms(1)] by blast
qed

lemma release_all_returns:
  "ok h \<Longrightarrow> distinct ps \<Longrightarrow> set ps \<subseteq> dom (sizes h) \<Longrightarrow>
     \<exists>h'. release_all ps h = Inr h' \<and> ok h' \<and> sizes h' = (sizes h) |` (- set ps)"
proof (induction ps arbitrary: h)
  case Nil
  then show ?case by simp
next
  case (Cons p ps)
  then obtain n where "sizes h p = Some n" by auto
  then obtain h1 where h1: "release p h = Inr h1" "ok h1" "sizes h1 = (sizes h)(p := None)"
    using release_law [OF Cons.prems(1)] by blast
  moreover have "set ps \<subseteq> dom (sizes h1)" using Cons.prems h1(3) by auto
  moreover have "distinct ps" using Cons.prems by simp
  ultimately obtain h2 where
    "release_all ps h1 = Inr h2" "ok h2" "sizes h2 = (sizes h1) |` (- set ps)"
    using Cons.IH [of h1] by blast
  then show ?case using h1 Cons.prems
    by (auto simp: restrict_map_def fun_eq_iff)
qed

end

interpretation zh: accounted_heap zmalloc zrealloc zfree zheap_ok hdrs used_memory fits
proof unfold_locales
  fix h h' :: zheap and n p
  assume "zheap_ok h" "fits n" "zmalloc n h = Inr (p, h')"
  then show "zheap_ok h' \<and> p \<noteq> 0 \<and> hdrs h p = None \<and> hdrs h' = (hdrs h)(p \<mapsto> n)"
    using zmalloc_yields [of h n] by simp
next
  fix h h' :: zheap and n p m q
  assume "zheap_ok h" "fits n" "hdrs h p = Some m" "zrealloc p n h = Inr (q, h')"
  then show "zheap_ok h' \<and> q \<noteq> 0 \<and> hdrs h q = None \<and> hdrs h' = (hdrs h)(p := None, q \<mapsto> n)"
    using zrealloc_yields [of h n p m] by simp
next
  fix h :: zheap and p m
  assume "zheap_ok h" "hdrs h p = Some m"
  then show "\<exists>h'. zfree p h = Inr h' \<and> zheap_ok h' \<and> hdrs h' = (hdrs h)(p := None)"
    using zfree_returns [of h p m] by blast
next
  fix h h' :: zheap
  assume "zheap_ok h" "zheap_ok h'" "hdrs h = hdrs h'"
  then show "used_memory h = used_memory h'" by (rule zheap_ok_used)
qed

subsection \<open>Reachable states\<close>

inductive zstep :: "zheap \<Rightarrow> zheap \<Rightarrow> bool" where
  zs_malloc: "fits n \<Longrightarrow> zmalloc n z = Inr (p, z') \<Longrightarrow> zstep z z'"
| zs_calloc: "fits n \<Longrightarrow> zcalloc n z = Inr (p, z') \<Longrightarrow> zstep z z'"
| zs_realloc: "fits n \<Longrightarrow> zrealloc p n z = Inr (q, z') \<Longrightarrow> zstep z z'"
| zs_free: "zfree p z = Inr z' \<Longrightarrow> zstep z z'"
| zs_threads: "zstep z (zmalloc_enable_thread_safeness z)"

inductive zreach :: "zheap \<Rightarrow> bool" where
  zr_init: "zreach (zheap_init rf gb)"
| zr_step: "zreach z \<Longrightarrow> zstep z z' \<Longrightarrow> zreach z'"

inductive_simps zreach_simps: "zreach z"

lemma zmalloc_keeps_ok: "zheap_ok z \<Longrightarrow> fits n \<Longrightarrow> zmalloc n z = Inr (p, z') \<Longrightarrow> zheap_ok z'"
  using zh.alloc_law by blast

lemma zrealloc_keeps_ok:
  assumes ok: "zheap_ok z" and n: "fits n" and r: "zrealloc p n z = Inr (q, z')"
  shows "zheap_ok z'"
proof (cases "p = 0")
  case True
  then show ?thesis using ok n r zmalloc_keeps_ok by (simp add: zrealloc_def)
next
  case False
  with r obtain m where "hdrs z p = Some m"
    by (auto simp: zrealloc_def load_size_def split: option.splits)
  then show ?thesis using zh.resize_law [OF ok n _ r] by blast
qed

lemma zfree_keeps_ok:
  assumes ok: "zheap_ok z" and r: "zfree p z = Inr z'"
  shows "zheap_ok z'"
proof (cases "p = 0")
  case True
  then show ?thesis using ok r by (simp add: zfree_def)
next
  case False
  with r obtain m where "hdrs z p = Some m"
    by (auto simp: zfree_def load_size_def split: option.splits)
  then show ?thesis using zh.release_law [OF ok] r by fastforce
qed

lemma zstep_keeps_ok: "zstep z z' \<Longrightarrow> zheap_ok z \<Longrightarrow> zheap_ok z'"
proof (induction rule: zstep.induct)
  case (zs_calloc n z p z')
  then show ?case using zmalloc_keeps_ok by (simp add: zcalloc_eq_zmalloc)
next
  case (zs_threads z)
  then show ?case by (simp add: zheap_ok_def zmalloc_enable_thread_safeness_def)
qed (blast intro: zmalloc_keeps_ok zrealloc_keeps_ok zfree_keeps_ok)+

lemma zreach_ok: "zreach z \<Longrightarrow> zheap_ok z"
  by (induction rule: zreach.induct) (auto intro: zheap_ok_init zstep_keeps_ok)

subsection \<open>Correctness of the allocator\<close>

definition sample_heap :: zheap where
  \<comment> \<open>one live block of 11 bytes, no refusals\<close>
  "sample_heap =
     \<lparr>used_memory = 24, zmalloc_thread_safe = 0, oom_aborts = zmalloc_default_oom,
      hdrs = [1 \<mapsto> 11], blocks = [1 \<mapsto> 19], nreq = 1, refuse = (\<lambda>_. False),
      garbage = (\<lambda>_ _. CHR ''?'')\<rparr>"

lemma charged_11: "charged 11 = 24"
  by (simp add: charged_def round_long_def PREFIX_SIZE_def)

lemma sample_heap_reach: "zreach sample_heap"
proof -
  let ?z0 = "zheap_init (\<lambda>_. False) (\<lambda>_ _. CHR ''?'')"
  have "fits 11" by (simp add: fits_def)
  then have "zmalloc 11 ?z0 = Inr (1, sample_heap)"
    using zmalloc_cases [OF zheap_ok_init, of 11]
    by (simp add: zheap_init_def sample_heap_def charged_11)
  with \<open>fits 11\<close> show ?thesis by (intro zr_step [OF zr_init] zs_malloc)
qed

lemma sample_heap_ok: "zheap_ok sample_heap"
  using sample_heap_reach by (rule zreach_ok)

text \<open>
  C6. In every state that calls of the allocator can reach, \<open>zmalloc_used_memory\<close> is the sum
  over the live blocks of their size with the prefix, rounded up to \<open>sizeof(long)\<close>; that
  summand is what \<open>zmalloc_size\<close> reports for the block.
\<close>

theorem used_memory_is_sum_of_sizes:
  assumes "zreach z"
  shows "zmalloc_used_memory z = (\<Sum>p\<in>dom (hdrs z). round_long (the (hdrs z p) + PREFIX_SIZE)) \<and>
    (\<forall>p\<in>dom (hdrs z).
      zmalloc_size p z = Inr (round_long (the (hdrs z p) + PREFIX_SIZE)) \<and>
      blocks z p = Some (unat (the (hdrs z p)) + unat PREFIX_SIZE))"
  using zreach_ok [OF assms] round_long_add8
  by (auto simp: zheap_ok_def zmalloc_used_memory_def update_zmalloc_stat_add_def charged_def
      zmalloc_size_def load_size_def PREFIX_SIZE_def)

theorem used_memory_is_sum_of_sizes_witness:
  "zreach sample_heap \<and> zmalloc_used_memory sample_heap = 24 \<and>
   zmalloc_size 1 sample_heap = Inr 24"
  using used_memory_is_sum_of_sizes [OF sample_heap_reach] sample_heap_reach charged_11
  by (simp add: sample_heap_def charged_def)

text \<open>
  Allocating a block, resizing it and releasing it leaves no trace: the release does not
  fault, the set of live blocks is the one before, and so is \<open>used_memory\<close>, although
  \<open>zrealloc\<close> adjusts the counter without the prefix and \<open>zmalloc\<close> and \<open>zfree\<close> with it.
\<close>

theorem malloc_realloc_free_balances:
  assumes "zreach z" "fits n" "fits m" "zmalloc n z = Inr (p, z1)" "zrealloc p m z1 = Inr (q, z2)"
  shows "\<exists>z3. zfree q z2 = Inr z3 \<and> hdrs z3 = hdrs z \<and>
    zmalloc_used_memory z3 = zmalloc_used_memory z"
  using zh.alloc_resize_release [OF zreach_ok [OF assms(1)] assms(2-5)]
  by (auto simp: zmalloc_used_memory_def update_zmalloc_stat_add_def)

theorem malloc_realloc_free_balances_witness:
  "\<exists>p z1 q z2 z3. zmalloc 5 sample_heap = Inr (p, z1) \<and> zrealloc p 100 z1 = Inr (q, z2) \<and>
     zfree q z2 = Inr z3 \<and> zmalloc_used_memory z3 = zmalloc_used_memory sample_heap"
proof -
  have f: "fits 5" "fits 100" by (simp_all add: fits_def)
  obtain p z1 where 1: "zmalloc 5 sample_heap = Inr (p, z1)"
    using zmalloc_cases [OF sample_heap_ok f(1)] by (auto simp: sample_heap_def)
  have z1: "zheap_ok z1" "hdrs z1 p = Some 5" "refuse z1 = (\<lambda>_. False)"
    using zmalloc_yields [OF sample_heap_ok f(1)] 1
    by (auto simp: heap_ext_def sample_heap_def)
  obtain q z2 where 2: "zrealloc p 100 z1 = Inr (q, z2)"
    using zrealloc_cases [OF z1(1) f(2) z1(2)] z1(3) by auto
  show ?thesis
    using malloc_realloc_free_balances [OF sample_heap_reach f 1 2] 1 2 by blast
qed

text \<open>
  A request that the library serves never yields \<open>NULL\<close>, and a request that it refuses
  never returns, because the default handler aborts: the checks for \<open>NULL\<close> behind
  \<open>zmalloc\<close> in the callers cannot fire. A size within 8 of \<open>SIZE_MAX\<close> is not guarded
  against: the sum with the prefix wraps around, the block is too small for the prefix, and
  the store of the size leaves it.
\<close>

theorem zmalloc_outcomes:
  assumes "zreach z"
  shows "zmalloc n z =
    (if refuse z (nreq z) then Inl (OutOfMemory (unat n))
     else if unat n + 8 \<ge> 2 ^ 64 then Inl BadAccess
     else Inr (Suc (nreq z),
       z\<lparr>used_memory := used_memory z + round_long (n + 8), nreq := Suc (nreq z),
         blocks := (blocks z)(Suc (nreq z) \<mapsto> unat n + 8),
         hdrs := (hdrs z)(Suc (nreq z) \<mapsto> n)\<rparr>))"
proof (cases "fits n")
  case True
  then show ?thesis
    using zmalloc_cases [OF zreach_ok [OF assms] True]
    by (simp add: fits_def charged_def PREFIX_SIZE_def)
next
  case False
  have "unat n < 2 ^ 64" using unsigned_less [of n] by simp
  then have "unat (n + 8) < 8" using False by (simp add: fits_def unat_word_ariths mod_if) linarith
  with False zreach_ok [OF assms] show ?thesis
    by (auto simp: zmalloc_def libc_malloc_def zmalloc_oom_handler_def store_size_def
        PREFIX_SIZE_def fits_def zheap_ok_def)
qed

theorem zmalloc_outcomes_witness:
  "zmalloc (- 1) sample_heap = Inl BadAccess \<and>
   (\<exists>z'. zmalloc 5 sample_heap = Inr (2, z') \<and> used_memory z' = 40)"
  using zmalloc_outcomes [OF sample_heap_reach, of "- 1"]
    zmalloc_outcomes [OF sample_heap_reach, of 5]
  by (simp add: sample_heap_def unsigned_minus_1_eq_mask mask_eq_exp_minus_1 round_long_def)

end
