(* ===== verification/Sds.thy ===== *)
theory Sds
  imports Zmalloc
begin

text \<open>
  The dynamic strings of \<open>sds.c\<close> and \<open>sds.h\<close>: representation, creation, growth and
  the operations that append, overwrite or truncate.

  An \<open>sds\<close> pointer is the record of the block that holds its \<open>struct sdshdr\<close> together
  with the header fields and the bytes of \<open>buf[]\<close>; passing it to an operation and using
  the result afterwards is the ownership discipline the source documents ("the passed sds
  string is no longer valid"). \<open>len\<close> and \<open>free\<close> are C \<open>int\<close>s, lengths are \<open>size_t\<close>.
  A result of type \<open>sds option\<close> is a pointer that may be \<open>NULL\<close>.
\<close>

record sds =
  blk :: ptr
  len :: int
  free :: int
  buf :: "char list"

definition SDS_MAX_PREALLOC :: int where
  "SDS_MAX_PREALLOC = 1024 * 1024"

definition sdslen :: "sds \<Rightarrow> int" where
  "sdslen s = u64 (len s)"

definition sdsavail :: "sds \<Rightarrow> int" where
  "sdsavail s = u64 (free s)"

definition sdsnewlen :: "char list option \<Rightarrow> int \<Rightarrow> zheap \<Rightarrow> (sds option \<times> zheap) res" where
  "sdsnewlen init initlen z =
     (let sz = to_size (8 + initlen + 1) in
      rbind (case init of Some _ \<Rightarrow> zmalloc sz z | None \<Rightarrow> zcalloc sz z) (\<lambda>(p, z1).
      if p = 0 then Inr (None, z1) else
      let b0 = (case init of
                  Some _ \<Rightarrow> drop 8 (payload p z1)
                | None \<Rightarrow> replicate (length (payload p z1) - 8) NUL) in
      rbind (case init of
               Some t \<Rightarrow> if initlen \<noteq> 0 then rbind (read_bytes t 0 initlen) (write_bytes b0 0)
                         else Inr b0
             | None \<Rightarrow> Inr b0) (\<lambda>b1.
      rbind (poke b1 initlen NUL) (\<lambda>b2.
      Inr (Some \<lparr>blk = p, len = s32 initlen, free = 0, buf = b2\<rparr>, z1)))))"

definition sdsempty :: "zheap \<Rightarrow> (sds option \<times> zheap) res" where
  "sdsempty z = sdsnewlen (Some '''') 0 z"

definition sdsnew :: "char list option \<Rightarrow> zheap \<Rightarrow> (sds option \<times> zheap) res" where
  "sdsnew init z =
     (let initlen = (case init of None \<Rightarrow> 0 | Some t \<Rightarrow> strlen t) in sdsnewlen init initlen z)"

definition sdsdup :: "sds \<Rightarrow> zheap \<Rightarrow> (sds option \<times> zheap) res" where
  "sdsdup s z = sdsnewlen (Some (buf s)) (sdslen s) z"

definition sdsfree :: "sds option \<Rightarrow> zheap \<Rightarrow> zheap res" where
  "sdsfree s z = (case s of None \<Rightarrow> Inr z | Some s \<Rightarrow> zfree (blk s) z)"

definition sdsupdatelen :: "sds \<Rightarrow> sds res" where
  "sdsupdatelen s =
     (if NUL \<notin> set (buf s) then Inl BadAccess else
      let reallen = s32 (strlen (buf s)) in
      rbind (c32 (len s - reallen)) (\<lambda>d.
      rbind (c32 (free s + d)) (\<lambda>f.
      Inr (s\<lparr>free := f, len := reallen\<rparr>))))"

definition sdsclear :: "sds \<Rightarrow> sds res" where
  "sdsclear s =
     rbind (c32 (free s + len s)) (\<lambda>f.
     rbind (poke (buf s) 0 NUL) (\<lambda>b.
     Inr (s\<lparr>free := f, len := 0, buf := b\<rparr>)))"

definition resize_buf :: "ptr \<Rightarrow> nat \<Rightarrow> char list \<Rightarrow> zheap \<Rightarrow> char list" where
  \<comment> \<open>what \<open>realloc\<close> leaves in \<open>buf[]\<close>: the old bytes, then uninitialised ones\<close>
  "resize_buf p n b z = take n b @ map (garbage z p) [length b..<n]"

definition sdsMakeRoomFor :: "sds \<Rightarrow> int \<Rightarrow> zheap \<Rightarrow> (sds option \<times> zheap) res" where
  "sdsMakeRoomFor s addlen z =
     (let fr = sdsavail s in
      if addlen \<le> fr then Inr (Some s, z) else
      let ln = sdslen s;
          need = u64 (ln + addlen);
          newlen = (if need < SDS_MAX_PREALLOC then u64 (need * 2)
                    else u64 (need + SDS_MAX_PREALLOC)) in
      rbind (zrealloc (blk s) (to_size (8 + newlen + 1)) z) (\<lambda>(p, z1).
      if p = 0 then Inr (None, z1) else
      Inr (Some (s\<lparr>blk := p, free := s32 (newlen - ln),
                   buf := resize_buf p (nat (u64 (8 + newlen + 1)) - 8) (buf s) z1\<rparr>), z1)))"

definition sdsRemoveFreeSpace :: "sds \<Rightarrow> zheap \<Rightarrow> (sds \<times> zheap) res" where
  "sdsRemoveFreeSpace s z =
     (let sz = u64 (8 + len s + 1) in
      rbind (zrealloc (blk s) (to_size sz) z) (\<lambda>(p, z1).
      if p = 0 then Inl BadAccess else
      Inr (s\<lparr>blk := p, free := 0, buf := resize_buf p (nat sz - 8) (buf s) z1\<rparr>, z1)))"

definition sdsAllocSize :: "sds \<Rightarrow> int" where
  "sdsAllocSize s = u64 (8 + len s + free s + 1)"

definition sdsIncrLen :: "sds \<Rightarrow> int \<Rightarrow> sds res" where
  "sdsIncrLen s incr =
     (if \<not> incr \<le> free s then Inl AssertFailure else
      rbind (c32 (len s + incr)) (\<lambda>l.
      rbind (c32 (free s - incr)) (\<lambda>f.
      if \<not> 0 \<le> f then Inl AssertFailure else
      rbind (poke (buf s) l NUL) (\<lambda>b. Inr (s\<lparr>len := l, free := f, buf := b\<rparr>)))))"

definition sdsgrowzero :: "sds \<Rightarrow> int \<Rightarrow> zheap \<Rightarrow> (sds option \<times> zheap) res" where
  "sdsgrowzero s n z =
     (let curlen = u64 (len s) in
      if n \<le> curlen then Inr (Some s, z) else
      rbind (sdsMakeRoomFor s (u64 (n - curlen)) z) (\<lambda>(r, z1).
      case r of None \<Rightarrow> Inr (None, z1) | Some s1 \<Rightarrow>
        rbind (write_bytes (buf s1) curlen (replicate (nat (u64 (n - curlen + 1))) NUL)) (\<lambda>b.
        rbind (c32 (len s1 + free s1)) (\<lambda>totlen.
        Inr (Some (s1\<lparr>len := s32 n, free := s32 (u64 totlen - s32 n), buf := b\<rparr>), z1)))))"

definition sdscatlen :: "sds \<Rightarrow> char list \<Rightarrow> int \<Rightarrow> zheap \<Rightarrow> (sds option \<times> zheap) res" where
  "sdscatlen s t n z =
     (let curlen = sdslen s in
      rbind (sdsMakeRoomFor s n z) (\<lambda>(r, z1).
      case r of None \<Rightarrow> Inr (None, z1) | Some s1 \<Rightarrow>
        rbind (read_bytes t 0 n) (\<lambda>d.
        rbind (write_bytes (buf s1) curlen d) (\<lambda>b.
        rbind (poke b (u64 (curlen + n)) NUL) (\<lambda>b'.
        Inr (Some (s1\<lparr>len := s32 (curlen + n), free := s32 (free s1 - n), buf := b'\<rparr>), z1))))))"

definition sdscat :: "sds \<Rightarrow> char list \<Rightarrow> zheap \<Rightarrow> (sds option \<times> zheap) res" where
  "sdscat s t z = sdscatlen s t (strlen t) z"

definition sdscatsds :: "sds \<Rightarrow> sds \<Rightarrow> zheap \<Rightarrow> (sds option \<times> zheap) res" where
  "sdscatsds s t z = sdscatlen s (buf t) (sdslen t) z"

definition sdscpylen :: "sds \<Rightarrow> char list \<Rightarrow> int \<Rightarrow> zheap \<Rightarrow> (sds option \<times> zheap) res" where
  "sdscpylen s t n z =
     rbind (c32 (free s + len s)) (\<lambda>totlen.
      rbind (if u64 totlen < n then sdsMakeRoomFor s (u64 (n - len s)) z else Inr (Some s, z))
        (\<lambda>(r, z1).
      case r of None \<Rightarrow> Inr (None, z1) | Some s1 \<Rightarrow>
        rbind (if u64 totlen < n then c32 (free s1 + len s1) else Inr totlen) (\<lambda>totlen1.
        rbind (read_bytes t 0 n) (\<lambda>d.
        rbind (write_bytes (buf s1) 0 d) (\<lambda>b.
        rbind (poke b n NUL) (\<lambda>b'.
        Inr (Some (s1\<lparr>len := s32 n, free := s32 (u64 totlen1 - n), buf := b'\<rparr>), z1)))))))"

definition sdscpy :: "sds \<Rightarrow> char list \<Rightarrow> zheap \<Rightarrow> (sds option \<times> zheap) res" where
  "sdscpy s t z = sdscpylen s t (strlen t) z"

subsection \<open>Well-formed strings\<close>

definition sds_inv :: "sds \<Rightarrow> bool" where
  "sds_inv s \<longleftrightarrow>
     0 \<le> len s \<and> 0 \<le> free s \<and> len s + free s < 2147483648 \<and>
     int (length (buf s)) = len s + free s + 1 \<and> buf s ! nat (len s) = NUL"

definition sds_shape :: "sds \<Rightarrow> bool" where
  \<comment> \<open>as \<open>sds_inv\<close>, while a caller is writing behind the end of the string\<close>
  "sds_shape s \<longleftrightarrow>
     0 \<le> len s \<and> 0 \<le> free s \<and> len s + free s < 2147483648 \<and>
     int (length (buf s)) = len s + free s + 1"

definition sdsstr :: "sds \<Rightarrow> char list" where
  \<comment> \<open>the binary-safe string that an sds stands for\<close>
  "sdsstr s = take (nat (len s)) (buf s)"

definition owns :: "zheap \<Rightarrow> sds \<Rightarrow> bool" where
  \<comment> \<open>the string is well formed and its block is live with exactly its size\<close>
  "owns z s \<longleftrightarrow> sds_inv s \<and> hdrs z (blk s) = Some (to_size (sdsAllocSize s))"

definition holds :: "zheap \<Rightarrow> sds \<Rightarrow> bool" where
  "holds z s \<longleftrightarrow> sds_shape s \<and> hdrs z (blk s) = Some (to_size (sdsAllocSize s))"

definition moved :: "zheap \<Rightarrow> sds \<Rightarrow> zheap \<Rightarrow> sds \<Rightarrow> bool" where
  \<comment> \<open>the heap changed at the string's own block only\<close>
  "moved z s z' s' \<longleftrightarrow>
     (blk s' = blk s \<or> hdrs z (blk s') = None) \<and>
     hdrs z' = (hdrs z)(blk s := None, blk s' \<mapsto> to_size (sdsAllocSize s'))"

definition becomes :: "zheap \<Rightarrow> sds \<Rightarrow> char list \<Rightarrow> sds option \<Rightarrow> zheap \<Rightarrow> bool" where
  \<comment> \<open>postcondition of an operation that turns \<open>s\<close> into a string with contents \<open>c\<close>\<close>
  "becomes z s c r z' \<longleftrightarrow>
     (\<exists>s'. r = Some s' \<and> sdsstr s' = c \<and> owns z' s' \<and> zheap_ok z' \<and> moved z s z' s')"

definition created :: "zheap \<Rightarrow> char list \<Rightarrow> sds option \<Rightarrow> zheap \<Rightarrow> bool" where
  \<comment> \<open>postcondition of an operation that makes a new string with contents \<open>c\<close>\<close>
  "created z c r z' \<longleftrightarrow>
     (\<exists>s'. r = Some s' \<and> sdsstr s' = c \<and> owns z' s' \<and> zheap_ok z' \<and>
           hdrs z (blk s') = None \<and>
           hdrs z' = (hdrs z)(blk s' \<mapsto> to_size (sdsAllocSize s')))"

lemma sds_inv_rep:
  assumes "sds_inv s"
  obtains c r where "sdsstr s = c" "buf s = c @ NUL # r" "len s = int (length c)"
    "free s = int (length r)" "int (length c) + int (length r) < 2147483648"
proof -
  let ?n = "nat (len s)" and ?r = "drop (Suc (nat (len s))) (buf s)"
  have n: "?n < length (buf s)" using assms unfolding sds_inv_def by linarith
  have b: "buf s = sdsstr s @ NUL # ?r"
    using id_take_nth_drop [OF n] assms by (simp add: sdsstr_def sds_inv_def)
  have l: "len s = int (length (sdsstr s))"
    using assms n by (simp add: sdsstr_def sds_inv_def)
  have "int (length ?r) = int (length (buf s)) - (int ?n + 1)"
    using n by (simp add: of_nat_diff)
  then have f: "free s = int (length ?r)"
    using assms unfolding sds_inv_def by linarith
  have "int (length (sdsstr s)) + int (length ?r) < 2147483648"
    using assms l f unfolding sds_inv_def by linarith
  with b l f show ?thesis by (intro that [OF refl])
qed

lemma sds_inv_intro:
  assumes "buf s = c @ NUL # r" "len s = int (length c)" "free s = int (length r)"
    "int (length c) + int (length r) < 2147483648"
  shows "sds_inv s \<and> sdsstr s = c"
  using assms by (simp add: sds_inv_def sdsstr_def)

lemma sds_inv_shape: "sds_inv s \<longleftrightarrow> sds_shape s \<and> buf s ! nat (len s) = NUL"
  by (auto simp: sds_inv_def sds_shape_def)

lemma sdslen_shape: "sds_shape s \<Longrightarrow> sdslen s = len s"
  by (simp add: sdslen_def sds_shape_def cint_simps)

lemma sdsavail_shape: "sds_shape s \<Longrightarrow> sdsavail s = free s"
  by (simp add: sdsavail_def sds_shape_def cint_simps)

lemma sdsAllocSize_shape: "sds_shape s \<Longrightarrow> sdsAllocSize s = 9 + len s + free s"
  by (simp add: sdsAllocSize_def sds_shape_def cint_simps)

lemma sdslen_eq: "sds_inv s \<Longrightarrow> sdslen s = len s"
  by (simp add: sds_inv_shape sdslen_shape)

lemma sdsavail_eq: "sds_inv s \<Longrightarrow> sdsavail s = free s"
  by (simp add: sds_inv_shape sdsavail_shape)

lemma length_sdsstr: "sds_inv s \<Longrightarrow> int (length (sdsstr s)) = len s"
  by (auto elim: sds_inv_rep)

lemma sdsAllocSize_eq: "sds_inv s \<Longrightarrow> sdsAllocSize s = 9 + len s + free s"
  by (simp add: sds_inv_shape sdsAllocSize_shape)

subsection \<open>Creation\<close>

lemma write_poke:
  assumes "i + length d < length b"
  shows "rbind (write_bytes b (int i) d) (\<lambda>b'. rbind (poke b' (int i + int (length d)) NUL) f)
       = f (take i b @ d @ NUL # drop (Suc (i + length d)) b)"
proof -
  have cons: "drop (i + length d) b = b ! (i + length d) # drop (Suc (i + length d)) b"
    using assms by (simp add: Cons_nth_drop_Suc)
  have "write_bytes b (int i) d = Inr (take i b @ d @ drop (i + length d) b)"
    using assms by (simp add: mem_simps)
  moreover have "int i + int (length d) = int (length (take i b @ d))" using assms by simp
  ultimately show ?thesis
    using poke_append [of "take i b @ d" "b ! (i + length d)" "drop (Suc (i + length d)) b" NUL]
    by (simp add: cons del: length_append length_take)
qed

lemma write_poke0:
  "length d < length b \<Longrightarrow> rbind (write_bytes b 0 d) (\<lambda>b'. rbind (poke b' (int (length d)) NUL) f)
     = f (d @ NUL # drop (Suc (length d)) b)"
  using write_poke [of 0 d b f] by simp

lemma new_owned:
  assumes "zheap_ok z'" "hdrs z p = None" "hdrs z' = (hdrs z)(p \<mapsto> to_size (9 + int (length c)))"
    and "length c < 2147483648"
  shows "created z c (Some \<lparr>blk = p, len = int (length c), free = 0, buf = c @ [NUL]\<rparr>) z'"
proof -
  let ?s = "\<lparr>blk = p, len = int (length c), free = 0, buf = c @ [NUL]\<rparr>"
  have i: "sds_inv ?s \<and> sdsstr ?s = c"
    using assms(4) by (intro sds_inv_intro [where r = "[]"]) simp_all
  then have "sdsAllocSize ?s = 9 + int (length c)" by (simp add: sdsAllocSize_eq)
  with i assms show ?thesis by (simp add: created_def owns_def)
qed

lemma sdsnewlen_yields:
  assumes ok: "zheap_ok z" and m: "m \<le> length t" "m < 2147483648"
  shows "yields z (sdsnewlen (Some t) (int m) z) (created z (take m t))"
proof -
  let ?sz = "to_size (9 + int m)"
  have sz: "unat ?sz = m + 9" "fits ?sz"
    using m by (simp_all add: unat_to_size fits_to_size)
  have body: "yields z1 (rbind (if int m \<noteq> 0
            then rbind (read_bytes t 0 (int m)) (write_bytes (drop 8 (payload p z1)) 0)
            else Inr (drop 8 (payload p z1))) (\<lambda>b1. rbind (poke b1 (int m) NUL) (\<lambda>b2.
          Inr (Some \<lparr>blk = p, len = s32 (int m), free = 0, buf = b2\<rparr>, z1))))
        (created z (take m t))"
    if a: "zheap_ok z1" "hdrs z p = None" "hdrs z1 = (hdrs z)(p \<mapsto> ?sz)"
      "length (payload p z1) = unat ?sz" for p z1
  proof -
    have b: "length (drop 8 (payload p z1)) = Suc m" using a(4) sz(1) by simp
    have c: "created z (take m t)
        (Some \<lparr>blk = p, len = int m, free = 0, buf = take m t @ [NUL]\<rparr>) z1"
      using new_owned [OF a(1,2), of "take m t"] a(3) m by (simp add: min_absorb2)
    have w: "rbind (write_bytes (drop 8 (payload p z1)) 0 (take m t))
          (\<lambda>b'. rbind (poke b' (int m) NUL) f) = f (take m t @ [NUL])"
      for f :: "char list \<Rightarrow> (sds option \<times> zheap) res"
      using write_poke0 [of "take m t" "drop 8 (payload p z1)" f] b m by (simp add: min_absorb2)
    have e: "(if int m \<noteq> 0
            then rbind (read_bytes t 0 (int m)) (write_bytes (drop 8 (payload p z1)) 0)
            else Inr (drop 8 (payload p z1))) = write_bytes (drop 8 (payload p z1)) 0 (take m t)"
      using m by (simp add: mem_simps) (simp add: write_bytes_def)
    show ?thesis
      unfolding e using m c by (simp add: w cint_simps)
  qed
  have nine: "8 + int m + 1 = 9 + int m" by simp
  show ?thesis
    unfolding sdsnewlen_def Let_def option.case nine
    by (rule yields_bind [OF zmalloc_yields [OF ok sz(2)]])
      (elim conjE, simp only: prod.case if_False, rule body, assumption+)
qed

lemma sdsnewlen_zero_yields:
  assumes ok: "zheap_ok z" and m: "m < 2147483648"
  shows "yields z (sdsnewlen None (int m) z) (created z (replicate m NUL))"
proof -
  let ?sz = "to_size (9 + int m)"
  have sz: "unat ?sz = m + 9" "fits ?sz"
    using m by (simp_all add: unat_to_size fits_to_size)
  have nine: "8 + int m + 1 = 9 + int m" by simp
  have fill: "poke (replicate (Suc m) NUL) (int m) NUL = Inr (replicate m NUL @ [NUL])"
    using poke_append [of "replicate m NUL" NUL "[]" NUL] by (simp add: replicate_append_same)
  show ?thesis
    unfolding sdsnewlen_def Let_def option.case nine zcalloc_eq_zmalloc
    using new_owned [of _ z _ "replicate m NUL"] m sz
    by (intro yields_bind [OF zmalloc_yields [OF ok sz(2)]])
      (auto simp: fill cint_simps simp del: replicate_Suc)
qed

subsection \<open>Growth\<close>

definition grown :: "int \<Rightarrow> int" where
  "grown n = (if n < SDS_MAX_PREALLOC then 2 * n else n + SDS_MAX_PREALLOC)"

definition SDS_LIMIT :: int where
  \<comment> \<open>below this length the preallocation cannot overflow the \<open>int\<close> fields\<close>
  "SDS_LIMIT = 2147483648 - SDS_MAX_PREALLOC"

definition roomy :: "zheap \<Rightarrow> sds \<Rightarrow> int \<Rightarrow> sds option \<Rightarrow> zheap \<Rightarrow> bool" where
  "roomy z s addlen r z' \<longleftrightarrow>
     (\<exists>s'. r = Some s' \<and> sdsstr s' = sdsstr s \<and> len s' = len s \<and> addlen \<le> free s' \<and>
           (if addlen \<le> free s then s' = s else len s' + free s' = grown (len s + addlen)) \<and>
           owns z' s' \<and> zheap_ok z' \<and> moved z s z' s')"

lemma holds_moved_refl: "holds z s \<Longrightarrow> moved z s z s"
  by (auto simp: holds_def moved_def)

lemma owns_moved_refl: "owns z s \<Longrightarrow> moved z s z s"
  by (auto simp: owns_def moved_def)

lemma grown_bounds:
  assumes "0 \<le> n" "n < SDS_LIMIT"
  shows "n \<le> grown n" "grown n < 2147483648"
  using assms by (auto simp: grown_def SDS_LIMIT_def SDS_MAX_PREALLOC_def)

lemma grown_u64:
  assumes "0 \<le> n" "n < SDS_LIMIT"
  shows "(if n < SDS_MAX_PREALLOC then u64 (n * 2) else u64 (n + SDS_MAX_PREALLOC)) = grown n"
  using assms by (simp add: grown_def SDS_LIMIT_def SDS_MAX_PREALLOC_def cint_simps)

lemma resize_buf_grow:
  assumes "length b \<le> n"
  shows "\<exists>r. resize_buf p n b z = b @ r \<and> length b + length r = n"
  using assms by (simp add: resize_buf_def)

definition widened :: "zheap \<Rightarrow> sds \<Rightarrow> int \<Rightarrow> sds option \<Rightarrow> zheap \<Rightarrow> bool" where
  \<comment> \<open>the same bytes at the start of a buffer with at least \<open>addlen\<close> free ones\<close>
  "widened z s addlen r z' \<longleftrightarrow>
     (\<exists>s' x. r = Some s' \<and> buf s' = buf s @ x \<and> len s' = len s \<and> addlen \<le> free s' \<and>
           (if addlen \<le> free s then s' = s else len s' + free s' = grown (len s + addlen)) \<and>
           holds z' s' \<and> zheap_ok z' \<and> moved z s z' s')"

lemma resized_rep:
  assumes sh: "sds_shape s" and n: "len s + free s \<le> n" "n < 2147483648"
  shows "\<exists>x. let s' = s\<lparr>blk := p, free := n - len s, buf := resize_buf p (nat (n + 1)) (buf s) z1\<rparr>
         in buf s' = buf s @ x \<and> sds_shape s' \<and> sdsAllocSize s' = 9 + n"
proof -
  have "length (buf s) \<le> nat (n + 1)" using sh n unfolding sds_shape_def by linarith
  then obtain x where x: "resize_buf p (nat (n + 1)) (buf s) z1 = buf s @ x"
    "length (buf s) + length x = nat (n + 1)"
    using resize_buf_grow by blast
  let ?s = "s\<lparr>blk := p, free := n - len s, buf := resize_buf p (nat (n + 1)) (buf s) z1\<rparr>"
  have "int (length (buf s)) + int (length x) = n + 1"
    using x(2) sh n unfolding sds_shape_def by linarith
  then have "sds_shape ?s" using sh n x(1) by (simp add: sds_shape_def)
  then show ?thesis using x(1) by (auto simp: Let_def sdsAllocSize_shape)
qed

lemma sdsMakeRoomFor_widens:
  assumes ok: "zheap_ok z" and own: "holds z s" and a: "0 \<le> addlen" "len s + addlen < SDS_LIMIT"
  shows "yields z (sdsMakeRoomFor s addlen z) (widened z s addlen)"
proof (cases "addlen \<le> free s")
  case True
  have "sds_shape s" using own by (simp add: holds_def)
  with True ok own show ?thesis
    by (simp add: sdsMakeRoomFor_def Let_def sdsavail_shape widened_def holds_moved_refl)
next
  case False
  have sh: "sds_shape s" using own by (simp add: holds_def)
  let ?n = "len s + addlen"
  have n0: "0 \<le> ?n" "0 \<le> len s" "0 \<le> free s" using sh a by (simp_all add: sds_shape_def)
  have g: "?n \<le> grown ?n" "grown ?n < 2147483648" using grown_bounds [OF n0(1) a(2)] by auto
  have u: "u64 ?n = ?n" using n0 a by (simp add: cint_simps SDS_LIMIT_def SDS_MAX_PREALLOC_def)
  have nine: "8 + grown ?n + 1 = 9 + grown ?n" by simp
  have fits: "fits (to_size (9 + grown ?n))" using g n0 by (simp add: fits_to_size)
  have nat9: "nat (u64 (9 + grown ?n)) - 8 = nat (grown ?n + 1)"
    using g n0 by (simp add: cint_simps nat_diff_distrib')
  have s32: "s32 (grown ?n - len s) = grown ?n - len s" using g n0 a(1) by (simp add: cint_simps)
  have old: "hdrs z (blk s) = Some (to_size (sdsAllocSize s))" using own by (simp add: holds_def)
  have body: "widened z s addlen (Some (s\<lparr>blk := p, free := grown ?n - len s,
        buf := resize_buf p (nat (grown ?n + 1)) (buf s) z1\<rparr>)) z1"
    if "zheap_ok z1" "hdrs z p = None" "hdrs z1 = (hdrs z)(blk s := None, p \<mapsto> to_size (9 + grown ?n))"
    for p z1
    using that resized_rep [OF sh _ g(2), of p z1] g False n0
    by (auto simp: widened_def Let_def holds_def moved_def)
  show ?thesis
    unfolding sdsMakeRoomFor_def Let_def sdsavail_shape [OF sh] sdslen_shape [OF sh] u
      grown_u64 [OF n0(1) a(2)] nine nat9 s32
    using False body
    by (auto intro!: yields_bind [OF zrealloc_yields [OF ok fits old]])
qed

lemma widened_roomy:
  assumes "widened z s addlen r z'" "sds_inv s"
  shows "roomy z s addlen r z'"
proof -
  obtain s' x where s': "r = Some s'" "buf s' = buf s @ x" "len s' = len s" "addlen \<le> free s'"
    "holds z' s'" "zheap_ok z'" "moved z s z' s'"
    "if addlen \<le> free s then s' = s else len s' + free s' = grown (len s + addlen)"
    using assms(1) by (auto simp: widened_def)
  have n: "nat (len s) < length (buf s)" using assms(2) by (auto simp: sds_inv_def)
  have "sds_inv s'" using s' n assms(2)
    by (simp add: sds_inv_shape holds_def nth_append)
  moreover have "sdsstr s' = sdsstr s" using s' n by (simp add: sdsstr_def)
  ultimately show ?thesis using s' by (auto simp: roomy_def owns_def holds_def)
qed

lemma length_owned: "owns z s \<Longrightarrow> len s = int (length (sdsstr s))"
  by (simp add: owns_def length_sdsstr)

lemma owns_holds: "owns z s \<Longrightarrow> holds z s"
  by (simp add: owns_def holds_def sds_inv_shape)

lemma sdsMakeRoomFor_yields:
  assumes "zheap_ok z" "owns z s" "0 \<le> addlen" "len s + addlen < SDS_LIMIT"
  shows "yields z (sdsMakeRoomFor s addlen z) (roomy z s addlen)"
  using sdsMakeRoomFor_widens [OF assms(1) owns_holds [OF assms(2)] assms(3,4)] assms(2)
  by (auto elim: yields_mono intro: widened_roomy simp: owns_def)

lemma sdsMakeRoomFor_too_long:
  \<comment> \<open>from the limit on \<open>free\<close> wraps, or \<open>len + free\<close> is no \<open>int\<close> any more\<close>
  assumes ok: "zheap_ok z" and own: "holds z s"
    and a: "free s < addlen" "addlen < 2147483648" "SDS_LIMIT \<le> len s + addlen"
  shows "yields z (sdsMakeRoomFor s addlen z) (\<lambda>r z'. \<exists>s'. r = Some s' \<and>
    (if addlen < SDS_LIMIT then sdsclear s' = Inl SignedOverflow else free s' < 0))"
proof -
  have sh: "sds_shape s" using own by (simp add: holds_def)
  let ?n = "len s + addlen"
  have n0: "0 \<le> len s" "0 \<le> free s" "len s < 2147483648" using sh by (simp_all add: sds_shape_def)
  have u: "u64 ?n = ?n" "\<not> ?n < SDS_MAX_PREALLOC" "u64 (?n + SDS_MAX_PREALLOC) = ?n + SDS_MAX_PREALLOC"
    using n0 a by (simp_all add: cint_simps SDS_LIMIT_def SDS_MAX_PREALLOC_def)
  have nine: "8 + (?n + SDS_MAX_PREALLOC) + 1 = 9 + (len s + (addlen + SDS_MAX_PREALLOC))" by simp
  have fits: "fits (to_size (9 + (len s + (addlen + SDS_MAX_PREALLOC))))"
    using n0 a by (intro fits_to_size) (simp_all add: SDS_MAX_PREALLOC_def)
  have old: "hdrs z (blk s) = Some (to_size (sdsAllocSize s))" using own by (simp add: holds_def)
  have diff: "?n + SDS_MAX_PREALLOC - len s = addlen + SDS_MAX_PREALLOC" by simp
  have field: "if addlen < SDS_LIMIT then s32 (addlen + SDS_MAX_PREALLOC) + len s \<ge> 2147483648
      else s32 (addlen + SDS_MAX_PREALLOC) < 0"
    using n0 a s32_wrap [of "addlen + SDS_MAX_PREALLOC"] by (simp add: cint_simps SDS_LIMIT_def SDS_MAX_PREALLOC_def)
  have body: "if addlen < SDS_LIMIT then sdsclear (s\<lparr>blk := p, free := s32 (addlen + SDS_MAX_PREALLOC), buf := b\<rparr>) = Inl SignedOverflow
      else free (s\<lparr>blk := p, free := s32 (addlen + SDS_MAX_PREALLOC), buf := b\<rparr>) < 0" for p b
    using field by (auto simp: sdsclear_def c32_def)
  show ?thesis
    unfolding sdsMakeRoomFor_def Let_def sdsavail_shape [OF sh] sdslen_shape [OF sh] u(1,3) if_not_P [OF u(2)] diff nine
    using a(1) body by (cases "addlen < SDS_LIMIT") (auto intro!: yields_bind [OF zrealloc_yields [OF ok fits old]])
qed

subsection \<open>Appending and overwriting\<close>

lemma becomes_rewrite:
  assumes "owns z1 s1" "zheap_ok z1" "moved z s z1 s1"
    and "int (length c) + int (length r) = len s1 + free s1"
    and "s' = s1\<lparr>len := int (length c), free := int (length r), buf := c @ NUL # r\<rparr>"
  shows "becomes z s c (Some s') z1"
proof -
  have inv: "sds_inv s1" using assms(1) by (simp add: owns_def)
  have "sds_inv s' \<and> sdsstr s' = c"
    using assms inv by (intro sds_inv_intro [where r = r]) (simp_all add: sds_inv_def)
  moreover have "sdsAllocSize s' = sdsAllocSize s1"
    using assms inv calculation by (simp add: sdsAllocSize_eq)
  ultimately show ?thesis using assms by (auto simp: becomes_def owns_def moved_def)
qed

lemma roomyE:
  assumes "roomy z s addlen r z'" "sds_inv s"
  obtains s' c x where "r = Some s'" "owns z' s'" "zheap_ok z'" "moved z s z' s'"
    "sdsstr s = c" "buf s' = c @ NUL # x" "len s = int (length c)" "len s' = int (length c)"
    "free s' = int (length x)" "addlen \<le> int (length x)"
proof -
  obtain s' where s': "r = Some s'" "sdsstr s' = sdsstr s" "len s' = len s" "addlen \<le> free s'"
    "owns z' s'" "zheap_ok z'" "moved z s z' s'"
    using assms(1) by (auto simp: roomy_def)
  have "sds_inv s'" using s'(5) by (simp add: owns_def)
  then obtain c x where "sdsstr s' = c" "buf s' = c @ NUL # x" "len s' = int (length c)"
    "free s' = int (length x)"
    by (rule sds_inv_rep)
  then show ?thesis using s' by (intro that) auto
qed

lemma sdscatlen_yields:
  assumes ok: "zheap_ok z" and own: "owns z s" and n: "n \<le> length t" "len s + int n < SDS_LIMIT"
  shows "yields z (sdscatlen s t (int n) z) (becomes z s (sdsstr s @ take n t))"
proof -
  have inv: "sds_inv s" using own by (simp add: owns_def)
  have read: "read_bytes t 0 (int n) = Inr (take n t)" using n by (simp add: mem_simps)
  have body: "yields z1 (case r of None \<Rightarrow> Inr (None, z1) | Some s1 \<Rightarrow>
        rbind (read_bytes t 0 (int n)) (\<lambda>d.
        rbind (write_bytes (buf s1) (len s) d) (\<lambda>b.
        rbind (poke b (u64 (len s + int n)) NUL) (\<lambda>b'.
        Inr (Some (s1\<lparr>len := s32 (len s + int n), free := s32 (free s1 - int n), buf := b'\<rparr>), z1)))))
      (becomes z s (sdsstr s @ take n t))"
    if "roomy z s (int n) r z1" for r z1
    using that inv
  proof (rule roomyE)
    fix s1 c x
    assume r: "r = Some s1" "owns z1 s1" "zheap_ok z1" "moved z s z1 s1" "sdsstr s = c"
      "buf s1 = c @ NUL # x" "len s = int (length c)" "len s1 = int (length c)"
      "free s1 = int (length x)" "int n \<le> int (length x)"
    have b1: "int (length c) + int (length x) < 2147483648"
      using r(2,8,9) by (simp add: owns_def sds_inv_def)
    have c1: "u64 (int (length c) + int n) = int (length c) + int n"
      "s32 (int (length c) + int n) = int (length c) + int n"
      "s32 (int (length x) - int n) = int (length x - n)"
      using b1 r(10) by (simp_all add: cint_simps of_nat_diff)
    have w: "rbind (write_bytes (c @ NUL # x) (int (length c)) (take n t))
          (\<lambda>b. rbind (poke b (int (length c) + int n) NUL) f)
        = f ((c @ take n t) @ NUL # drop n x)" for f :: "char list \<Rightarrow> (sds option \<times> zheap) res"
      using write_poke [of "length c" "take n t" "c @ NUL # x" f] n r(10)
      by (simp add: min_absorb2)
    show ?thesis
      using r(10) n
      by (simp add: r(1,5-9) read c1 w)
        (rule becomes_rewrite [OF r(2,3,4), where r = "drop n x"], simp_all add: r(8,9) min_absorb2)
  qed
  show ?thesis
    unfolding sdscatlen_def Let_def sdslen_eq [OF inv]
    using sdsMakeRoomFor_yields [OF ok own _ n(2)] body
    by (intro yields_bind [where P = "roomy z s (int n)"]) auto
qed

lemma sdscat_yields:
  assumes "zheap_ok z" "owns z s" "len s + strlen t < SDS_LIMIT"
  shows "yields z (sdscat s t z) (becomes z s (sdsstr s @ cstr t))"
  using sdscatlen_yields [OF assms(1,2), of "length (cstr t)" t] assms(3) length_cstr_le [of t]
  by (simp add: sdscat_def strlen_def)

lemma take_len_buf: "sds_inv s \<Longrightarrow> take (length (sdsstr s)) (buf s) = sdsstr s"
  by (erule sds_inv_rep) simp

lemma length_sdsstr_le: "sds_inv s \<Longrightarrow> length (sdsstr s) \<le> length (buf s)"
  by (erule sds_inv_rep) simp

lemma sdscatsds_yields:
  assumes "zheap_ok z" "owns z s" "sds_inv t" "len s + len t < SDS_LIMIT"
  shows "yields z (sdscatsds s t z) (becomes z s (sdsstr s @ sdsstr t))"
  using sdscatlen_yields [OF assms(1,2) length_sdsstr_le [OF assms(3)]] assms(3,4)
  by (simp add: sdscatsds_def sdslen_eq length_sdsstr take_len_buf)

lemma sdsnew_yields:
  assumes "zheap_ok z" "strlen t < 2147483648"
  shows "yields z (sdsnew (Some t) z) (created z (cstr t))"
  using sdsnewlen_yields [OF assms(1) length_cstr_le [of t]] assms(2)
  by (simp add: sdsnew_def strlen_def)

lemma sdsempty_yields: "zheap_ok z \<Longrightarrow> yields z (sdsempty z) (created z [])"
  using sdsnewlen_yields [of z 0 "[]"] by (simp add: sdsempty_def)

lemma sdsdup_yields:
  assumes "zheap_ok z" "sds_inv s"
  shows "yields z (sdsdup s z) (created z (sdsstr s))"
proof -
  have "len s < 2147483648" using assms(2) by (simp add: sds_inv_def)
  then show ?thesis
    using sdsnewlen_yields [OF assms(1) length_sdsstr_le [OF assms(2)]] length_sdsstr [OF assms(2)]
    by (simp add: sdsdup_def sdslen_eq assms(2) take_len_buf)
qed

lemma sdsgrowzero_yields:
  assumes ok: "zheap_ok z" and own: "owns z s" and k: "0 < k" "len s + int k < SDS_LIMIT"
  shows "yields z (sdsgrowzero s (len s + int k) z) (becomes z s (sdsstr s @ replicate k NUL))"
proof -
  have inv: "sds_inv s" using own by (simp add: owns_def)
  have l0: "0 \<le> len s" using inv by (simp add: sds_inv_def)
  have n31: "len s + int k < 2147483648" using k by (simp add: SDS_LIMIT_def SDS_MAX_PREALLOC_def)
  have u: "u64 (len s) = len s" "u64 (len s + int k - len s) = int k"
    "nat (u64 (len s + int k - len s + 1)) = Suc k" "s32 (len s + int k) = len s + int k"
    using l0 n31 by (simp_all add: cint_simps)
  have body: "yields z1 (case r of None \<Rightarrow> Inr (None, z1) | Some s1 \<Rightarrow>
        rbind (write_bytes (buf s1) (len s) (replicate (Suc k) NUL)) (\<lambda>b.
        rbind (c32 (len s1 + free s1)) (\<lambda>totlen.
        Inr (Some (s1\<lparr>len := len s + int k, free := s32 (u64 totlen - (len s + int k)),
          buf := b\<rparr>), z1))))
      (becomes z s (sdsstr s @ replicate k NUL))"
    if "roomy z s (int k) r z1" for r z1
    using that inv
  proof (rule roomyE)
    fix s1 c x
    assume r: "r = Some s1" "owns z1 s1" "zheap_ok z1" "moved z s z1 s1" "sdsstr s = c"
      "buf s1 = c @ NUL # x" "len s = int (length c)" "len s1 = int (length c)"
      "free s1 = int (length x)" "int k \<le> int (length x)"
    have b1: "int (length c) + int (length x) < 2147483648"
      using r(2,8,9) by (simp add: owns_def sds_inv_def)
    have w: "write_bytes (c @ NUL # x) (int (length c)) (replicate (Suc k) NUL)
        = Inr ((c @ replicate k NUL) @ NUL # drop k x)"
      using write_bytes_append [of "replicate (Suc k) NUL" "NUL # x" c] r(10)
      by (simp add: replicate_app_Cons_same)
    have i: "s32 (u64 (int (length c) + int (length x)) - (int (length c) + int k))
        = int (length x - k)"
      "c32 (int (length c) + int (length x)) = Inr (int (length c) + int (length x))"
      using b1 r(10) by (simp_all add: cint_simps of_nat_diff)
    show ?thesis
      using r(10) by (simp add: r(1,5-9) w i del: replicate_Suc)
        (rule becomes_rewrite [OF r(2,3,4), where r = "drop k x"], simp_all add: r(8,9))
  qed
  show ?thesis
    unfolding sdsgrowzero_def Let_def u
    using body k sdsMakeRoomFor_yields [OF ok own _ k(2)]
    by (auto intro!: yields_bind [where P = "roomy z s (int k)"] simp del: replicate_Suc)
qed

lemma sdsgrowzero_noop: "sds_inv s \<Longrightarrow> n \<le> len s \<Longrightarrow> sdsgrowzero s n z = Inr (Some s, z)"
  by (simp add: sdsgrowzero_def Let_def sds_inv_def cint_simps)

lemma sdscpylen_fill:
  assumes r: "roomy z s addlen r z1" and inv: "sds_inv s"
    and tot: "\<And>s1. r = Some s1 \<Longrightarrow> tot = len s1 + free s1 \<and> int n \<le> tot" and t: "n \<le> length t"
  shows "yields z1 (case r of None \<Rightarrow> Inr (None, z1) | Some s1 \<Rightarrow>
      rbind (read_bytes t 0 (int n)) (\<lambda>d.
      rbind (write_bytes (buf s1) 0 d) (\<lambda>b.
      rbind (poke b (int n) NUL) (\<lambda>b'.
      Inr (Some (s1\<lparr>len := s32 (int n), free := s32 (tot - int n), buf := b'\<rparr>), z1)))))
    (becomes z s (take n t))"
  using r inv
proof (rule roomyE)
  fix s1 c x
  assume a: "r = Some s1" "owns z1 s1" "zheap_ok z1" "moved z s z1 s1"
    "buf s1 = c @ NUL # x" "len s1 = int (length c)" "free s1 = int (length x)"
  have b1: "int (length c) + int (length x) < 2147483648"
    using a(2,6,7) by (simp add: owns_def sds_inv_def)
  have n: "tot = int (length c + length x)" "n \<le> length c + length x"
    using tot [OF a(1)] a(6,7) by auto
  let ?y = "drop (Suc n) (c @ NUL # x)"
  have y: "length ?y = length c + length x - n" by simp
  have w: "rbind (write_bytes (c @ NUL # x) 0 (take n t)) (\<lambda>b. rbind (poke b (int n) NUL) f)
      = f (take n t @ NUL # ?y)" for f :: "char list \<Rightarrow> (sds option \<times> zheap) res"
    using write_poke0 [of "take n t" "c @ NUL # x" f] t n by (simp add: min_absorb2)
  have i: "s32 (int n) = int n" "s32 (tot - int n) = int (length ?y)"
    using b1 n by (simp_all add: cint_simps of_nat_diff)
  have "becomes z s (take n t)
      (Some (s1\<lparr>len := int n, free := int (length ?y), buf := take n t @ NUL # ?y\<rparr>)) z1"
    using n t y
    by (intro becomes_rewrite [OF a(2,3,4), where r = "?y"]) (simp_all add: a(6,7) min_absorb2)
  then show ?thesis using t by (simp only: a(1,5) option.case read_bytes_in0 rbind.simps w i) simp
qed

lemma sdscpylen_yields:
  assumes ok: "zheap_ok z" and own: "owns z s" and n: "n \<le> length t" "int n < SDS_LIMIT"
  shows "yields z (sdscpylen s t (int n) z) (becomes z s (take n t))"
proof -
  have inv: "sds_inv s" using own by (simp add: owns_def)
  have tot: "c32 (free s + len s) = Inr (len s + free s)" "u64 (len s + free s) = len s + free s"
    using inv by (simp_all add: sds_inv_def cint_simps add.commute)
  show ?thesis
  proof (cases "len s + free s < int n")
    case True
    have d: "u64 (int n - len s) = int n - len s" "0 \<le> int n - len s"
      using True inv n by (simp_all add: sds_inv_def cint_simps SDS_LIMIT_def SDS_MAX_PREALLOC_def)
    have m: "yields z (sdsMakeRoomFor s (int n - len s) z) (roomy z s (int n - len s))"
      using n(2) d(2) by (intro sdsMakeRoomFor_yields [OF ok own]) simp_all
    have fill: "yields z1 (case r of None \<Rightarrow> Inr (None, z1) | Some s1 \<Rightarrow>
        rbind (c32 (free s1 + len s1)) (\<lambda>totlen1.
        rbind (read_bytes t 0 (int n)) (\<lambda>d. rbind (write_bytes (buf s1) 0 d) (\<lambda>b.
        rbind (poke b (int n) NUL) (\<lambda>b'. Inr (Some (s1\<lparr>len := s32 (int n),
          free := s32 (u64 totlen1 - int n), buf := b'\<rparr>), z1))))))
        (becomes z s (take n t))" if r: "roomy z s (int n - len s) r z1" for r z1
    proof -
      obtain s1 where s1: "r = Some s1" "len s1 = len s" "int n - len s \<le> free s1" "sds_inv s1"
        using r by (auto simp: roomy_def owns_def)
      then have u: "c32 (free s1 + len s1) = Inr (len s1 + free s1)"
        "u64 (len s1 + free s1) = len s1 + free s1"
        by (simp_all add: sds_inv_def cint_simps add.commute)
      show ?thesis
        using sdscpylen_fill [OF r inv, of "len s1 + free s1" n t] s1 u n(1) by simp
    qed
    show ?thesis
      unfolding sdscpylen_def tot rbind.simps if_P [OF True] d(1)
      by (rule yields_bind [OF m]) (simp only: prod.case, rule fill)
  next
    case False
    have "roomy z s 0 (Some s) z"
      using ok own inv by (simp add: roomy_def owns_moved_refl sds_inv_def)
    from sdscpylen_fill [OF this inv, of "len s + free s" n t] False n(1)
    show ?thesis by (simp add: sdscpylen_def tot)
  qed
qed

lemma sdscpy_yields:
  assumes "zheap_ok z" "owns z s" "strlen t < SDS_LIMIT"
  shows "yields z (sdscpy s t z) (becomes z s (cstr t))"
  using sdscpylen_yields [OF assms(1,2), of "length (cstr t)" t] assms(3) length_cstr_le [of t]
  by (simp add: sdscpy_def strlen_def)

lemma sdsRemoveFreeSpace_yields:
  assumes ok: "zheap_ok z" and own: "owns z s"
  shows "yields z (sdsRemoveFreeSpace s z)
    (\<lambda>s' z'. becomes z s (sdsstr s) (Some s') z' \<and> free s' = 0)"
proof -
  have inv: "sds_inv s" using own by (simp add: owns_def)
  then obtain c r where rep: "sdsstr s = c" "buf s = c @ NUL # r" "len s = int (length c)"
    "free s = int (length r)" "int (length c) + int (length r) < 2147483648"
    by (rule sds_inv_rep)
  have sz: "u64 (8 + len s + 1) = 9 + len s" "nat (9 + len s) - 8 = Suc (length c)"
    using rep by (simp_all add: cint_simps)
  have fits: "fits (to_size (9 + len s))" using rep by (simp add: fits_to_size)
  have old: "hdrs z (blk s) = Some (to_size (sdsAllocSize s))" using own by (simp add: owns_def)
  have b: "resize_buf p (Suc (length c)) (buf s) z1 = c @ [NUL]" for p z1
    using rep by (simp add: resize_buf_def)
  have body: "becomes z s c (Some (s\<lparr>blk := p, free := 0, buf := c @ [NUL]\<rparr>)) z1"
    if "zheap_ok z1" "hdrs z p = None" "hdrs z1 = (hdrs z)(blk s := None, p \<mapsto> to_size (9 + len s))"
    for p z1
  proof -
    let ?s = "s\<lparr>blk := p, free := 0, buf := c @ [NUL]\<rparr>"
    have "sds_inv ?s \<and> sdsstr ?s = c"
      using rep by (intro sds_inv_intro [where r = "[]"]) simp_all
    then show ?thesis using that by (simp add: becomes_def owns_def moved_def sdsAllocSize_eq)
  qed
  show ?thesis
    unfolding sdsRemoveFreeSpace_def Let_def sz(1) sz(2) b rep(1)
    using body by (auto intro!: yields_bind [OF zrealloc_yields [OF ok fits old]])
qed

subsection \<open>Operations in place\<close>

definition inplace :: "sds \<Rightarrow> char list \<Rightarrow> sds res \<Rightarrow> bool" where
  \<comment> \<open>the call returns, with the contents \<open>c\<close> in the same block\<close>
  "inplace s c r \<longleftrightarrow>
     (\<exists>s'. r = Inr s' \<and> sds_inv s' \<and> sdsstr s' = c \<and> blk s' = blk s \<and>
           sdsAllocSize s' = sdsAllocSize s)"

lemma inplace_intro:
  assumes "sds_shape s" "int (length c) + int (length r) = len s + free s"
    "s' = s\<lparr>len := int (length c), free := int (length r), buf := c @ NUL # r\<rparr>"
  shows "inplace s c (Inr s')"
proof -
  have "sds_inv s' \<and> sdsstr s' = c"
    using assms by (intro sds_inv_intro [where r = r]) (simp_all add: sds_shape_def)
  then show ?thesis using assms by (simp add: inplace_def sdsAllocSize_eq sdsAllocSize_shape)
qed

lemma inplace_owns: "inplace s c (Inr s') \<Longrightarrow> holds z s \<Longrightarrow> owns z s'"
  by (auto simp: inplace_def owns_def holds_def)

lemma inplace_poke:
  \<comment> \<open>a terminator stored inside the buffer cuts the string there\<close>
  assumes "sds_shape s" "n < length (buf s)"
  shows "inplace s (take n (buf s)) (rbind (poke (buf s) (int n) NUL) (\<lambda>b.
           Inr (s\<lparr>len := int n, free := len s + free s - int n, buf := b\<rparr>)))"
proof -
  have b: "(buf s)[n := NUL] = take n (buf s) @ NUL # drop (Suc n) (buf s)"
    using assms(2) by (rule upd_conv_take_nth_drop)
  have l: "length (take n (buf s)) = n" using assms(2) by simp
  have d: "int (length (drop (Suc n) (buf s))) = len s + free s - int n"
    using assms by (simp add: sds_shape_def of_nat_diff)
  have "inplace s (take n (buf s))
      (Inr (s\<lparr>len := int n, free := len s + free s - int n, buf := (buf s)[n := NUL]\<rparr>))"
    using l d by (intro inplace_intro [OF assms(1), where r = "drop (Suc n) (buf s)"]) (simp_all add: b)
  then show ?thesis using assms(2) by (simp add: mem_simps)
qed

lemma sds_update_swap:
  "s\<lparr>free := f, len := n\<rparr> = s\<lparr>len := n, free := f\<rparr>"
  "s\<lparr>free := f, len := n, buf := b\<rparr> = s\<lparr>len := n, free := f, buf := b\<rparr>"
  for s :: sds
  by simp_all

lemma shape_nonempty: "sds_shape s \<Longrightarrow> buf s \<noteq> []"
  by (auto simp: sds_shape_def)

lemma sdsclear_inplace:
  assumes "sds_shape s"
  shows "inplace s [] (sdsclear s)"
  using inplace_poke [OF assms, of 0] assms shape_nonempty [OF assms]
  by (auto simp: sdsclear_def sds_shape_def cint_simps add.commute sds_update_swap)

lemma sdsIncrLen_inplace:
  assumes "sds_shape s" "- len s \<le> incr" "incr \<le> free s"
  shows "inplace s (take (nat (len s + incr)) (buf s)) (sdsIncrLen s incr)"
proof -
  have n: "nat (len s + incr) < length (buf s)" using assms by (auto simp: sds_shape_def)
  have "c32 (len s + incr) = Inr (len s + incr)" "c32 (free s - incr) = Inr (free s - incr)"
    using assms by (simp_all add: sds_shape_def cint_simps)
  then show ?thesis
    using inplace_poke [OF assms(1) n] assms by (simp add: sdsIncrLen_def)
qed

lemma sdsIncrLen_overrun: "free s < incr \<Longrightarrow> sdsIncrLen s incr = Inl AssertFailure"
  by (simp add: sdsIncrLen_def)

lemma sdsIncrLen_underrun:
  assumes "sds_shape s" "incr < - len s" "- 2147483648 \<le> incr" "free s - incr < 2147483648"
  shows "sdsIncrLen s incr = Inl BadAccess"
  using assms by (auto simp: sdsIncrLen_def sds_shape_def cint_simps poke_def)

lemma sdsIncrLen_overflow:
  assumes "sds_shape s" "incr \<le> free s" "- 2147483648 \<le> incr" "2147483648 \<le> free s - incr"
  shows "sdsIncrLen s incr = Inl SignedOverflow"
  using assms by (simp add: sdsIncrLen_def sds_shape_def c32_def)

lemma sdsupdatelen_inplace:
  assumes "sds_inv s"
  shows "inplace s (cstr (buf s)) (sdsupdatelen s)"
proof -
  have sh: "sds_shape s" using assms by (simp add: sds_inv_shape)
  have nul: "NUL \<in> set (buf s)" using assms by (auto elim!: sds_inv_rep)
  then obtain xs ys where b: "buf s = xs @ NUL # ys" "NUL \<notin> set xs"
    by (metis split_list_first)
  then have c: "cstr (buf s) = xs" by (simp add: cstr_append_NUL)
  have n: "length xs < length (buf s)" using b by simp
  have "poke (buf s) (int (length xs)) NUL = Inr (buf s)" using b by (simp add: poke_append)
  moreover have "s32 (int (length xs)) = int (length xs)"
    "c32 (len s - int (length xs)) = Inr (len s - int (length xs))"
    "c32 (free s + (len s - int (length xs))) = Inr (len s + free s - int (length xs))"
    using n sh by (simp_all add: sds_shape_def cint_simps)
  moreover have "take (length xs) (buf s) = xs" using b by simp
  ultimately show ?thesis
    using inplace_poke [OF sh n] nul c
    by (simp add: sdsupdatelen_def Let_def strlen_def sds_update_swap)
qed

subsection \<open>Release\<close>

lemma sdsfree_owned:
  assumes "zheap_ok z" "owns z s"
  shows "\<exists>z'. sdsfree (Some s) z = Inr z' \<and> zheap_ok z' \<and> heap_ext z z' \<and>
    hdrs z' = (hdrs z)(blk s := None)"
  using zfree_returns [OF assms(1)] assms(2) by (auto simp: sdsfree_def owns_def)

lemma sdsfree_created:
  assumes "zheap_ok z" "created z c (Some s) z1"
  shows "\<exists>z2. sdsfree (Some s) z1 = Inr z2 \<and> zheap_ok z2 \<and> hdrs z2 = hdrs z \<and>
    used_memory z2 = used_memory z"
proof -
  have c: "zheap_ok z1" "owns z1 s" "hdrs z (blk s) = None"
    "hdrs z1 = (hdrs z)(blk s \<mapsto> to_size (sdsAllocSize s))"
    using assms(2) by (auto simp: created_def)
  then obtain z2 where z2: "sdsfree (Some s) z1 = Inr z2" "zheap_ok z2"
    "hdrs z2 = (hdrs z1)(blk s := None)"
    using sdsfree_owned by blast
  then have "hdrs z2 = hdrs z" using c(3,4) by auto
  then show ?thesis using z2 zheap_ok_used [OF z2(2) assms(1)] by blast
qed

lemma created_becomes:
  assumes "created z c (Some s) z1" "becomes z1 s d r z2"
  shows "created z d r z2"
proof -
  have c: "hdrs z (blk s) = None" "hdrs z1 = (hdrs z)(blk s \<mapsto> to_size (sdsAllocSize s))"
    using assms(1) by (auto simp: created_def)
  obtain s' where s': "r = Some s'" "sdsstr s' = d" "owns z2 s'" "zheap_ok z2"
    "blk s' = blk s \<or> hdrs z1 (blk s') = None"
    "hdrs z2 = (hdrs z1)(blk s := None, blk s' \<mapsto> to_size (sdsAllocSize s'))"
    using assms(2) by (auto simp: becomes_def moved_def)
  have "hdrs z (blk s') = None" using s'(5) c by (auto split: if_splits)
  moreover have "hdrs z2 = (hdrs z)(blk s' \<mapsto> to_size (sdsAllocSize s'))"
    using s'(6) c by (auto simp: fun_eq_iff)
  ultimately show ?thesis using s' by (auto simp: created_def)
qed

subsection \<open>Correctness of the string operations\<close>

definition sample_sds :: sds where
  "sample_sds = \<lparr>blk = 1, len = 2, free = 0, buf = ''ab'' @ [NUL]\<rparr>"

lemma sample_owned: "owns sample_heap sample_sds"
  by (simp add: owns_def sds_inv_def sample_sds_def sample_heap_def sdsAllocSize_def u64_def
      to_size_def)

lemma sample_simps:
  "len sample_sds = 2" "free sample_sds = 0" "sdsstr sample_sds = ''ab''" "sds_inv sample_sds"
  by (simp_all add: sample_sds_def sdsstr_def sds_inv_def)

text \<open>
  \<open>sdsnewlen\<close> makes a well-formed string in a new block of exactly its size, and
  touches no other block: its contents are the first \<open>initlen\<close> bytes of \<open>init\<close>, zero bytes
  included, or \<open>initlen\<close> zero bytes when \<open>init\<close> is \<open>NULL\<close>. The only other outcome is the
  abort after a refusal of the library.
\<close>

theorem sdsnewlen_creates:
  assumes "zheap_ok z" "n < 2147483648" "\<And>t. init = Some t \<Longrightarrow> n \<le> length t"
  shows "yields z (sdsnewlen init (int n) z)
    (created z (case init of Some t \<Rightarrow> take n t | None \<Rightarrow> replicate n NUL))"
  using sdsnewlen_yields [OF assms(1) _ assms(2)] sdsnewlen_zero_yields [OF assms(1,2)] assms(3)
  by (cases init) auto

theorem sdsnewlen_creates_witness:
  "yields sample_heap (sdsnewlen (Some [CHR ''x'', NUL, CHR ''y'']) 3 sample_heap)
     (created sample_heap [CHR ''x'', NUL, CHR ''y''])"
  using sdsnewlen_creates [OF sample_heap_ok, of 3 "Some [CHR ''x'', NUL, CHR ''y'']"] by simp



text \<open>
  C13. \<open>sdscatlen\<close> appends the first \<open>len\<close> bytes of its argument, as long as the new length is
  below \<open>2^31 - SDS_MAX_PREALLOC\<close>: no load or store leaves
  its object, the result is well formed and zero-terminated, owns a block of exactly its
  size, and no other block of the heap changes.
\<close>

theorem sdscatlen_appends:
  assumes "zheap_ok z" "owns z s" "n \<le> length t" "len s + int n < SDS_LIMIT"
  shows "yields z (sdscatlen s t (int n) z) (becomes z s (sdsstr s @ take n t))"
  using assms by (rule sdscatlen_yields)

theorem sdscatlen_appends_witness:
  "yields sample_heap (sdscatlen sample_sds ''cde'' 2 sample_heap)
     (becomes sample_heap sample_sds ''abcd'')"
  using sdscatlen_appends [OF sample_heap_ok sample_owned, of 2 "''cde''"]
  by (simp add: sample_simps SDS_LIMIT_def SDS_MAX_PREALLOC_def)

text \<open>
  \<open>sdscpylen\<close> replaces the contents by the first \<open>len\<close> bytes of its argument, in place
  when the buffer is large enough and in a grown buffer otherwise.
\<close>

theorem sdscpylen_overwrites:
  assumes "zheap_ok z" "owns z s" "n \<le> length t" "int n < SDS_LIMIT"
  shows "yields z (sdscpylen s t (int n) z) (becomes z s (take n t))"
  using assms by (rule sdscpylen_yields)

theorem sdscpylen_overwrites_witness:
  "yields sample_heap (sdscpylen sample_sds ''xyz'' 3 sample_heap)
     (becomes sample_heap sample_sds ''xyz'')"
  using sdscpylen_overwrites [OF sample_heap_ok sample_owned, of 3 "''xyz''"]
  by (simp add: SDS_LIMIT_def SDS_MAX_PREALLOC_def)

text \<open>
  \<open>sdsgrowzero\<close> pads the string with zero bytes up to the wanted length and does nothing
  when the string is at least that long.
\<close>

theorem sdsgrowzero_pads:
  assumes "zheap_ok z" "owns z s" "int n < SDS_LIMIT"
  shows "yields z (sdsgrowzero s (int n) z)
    (becomes z s (sdsstr s @ replicate (n - length (sdsstr s)) NUL))"
proof (cases "int n \<le> len s")
  case True
  have inv: "sds_inv s" using assms(2) by (simp add: owns_def)
  have "n \<le> length (sdsstr s)" using True length_sdsstr [OF inv] by simp
  then show ?thesis using True inv assms
    by (simp add: sdsgrowzero_noop becomes_def owns_moved_refl)
next
  case False
  have inv: "sds_inv s" using assms(2) by (simp add: owns_def)
  let ?k = "n - length (sdsstr s)"
  have k: "0 < ?k" "len s + int ?k = int n" using False length_sdsstr [OF inv] by auto
  then show ?thesis using sdsgrowzero_yields [OF assms(1,2) k(1)] assms(3) by simp
qed

theorem sdsgrowzero_pads_witness:
  "yields sample_heap (sdsgrowzero sample_sds 4 sample_heap)
     (becomes sample_heap sample_sds [CHR ''a'', CHR ''b'', NUL, NUL])"
  using sdsgrowzero_pads [OF sample_heap_ok sample_owned, of 4]
  by (simp add: sample_simps SDS_LIMIT_def SDS_MAX_PREALLOC_def numeral_2_eq_2)

text \<open>
  \<open>sdsRemoveFreeSpace\<close> keeps the contents and leaves no free byte.
\<close>

theorem sdsRemoveFreeSpace_compacts:
  assumes "zheap_ok z" "owns z s"
  shows "yields z (sdsRemoveFreeSpace s z)
    (\<lambda>s' z'. becomes z s (sdsstr s) (Some s') z' \<and> sdsavail s' = 0 \<and>
             sdsAllocSize s' = 9 + len s)"
  using sdsRemoveFreeSpace_yields [OF assms]
proof (rule yields_mono)
  fix s' z'
  assume a: "becomes z s (sdsstr s) (Some s') z' \<and> free s' = 0"
  then have "sds_inv s'" "sdsstr s' = sdsstr s" by (auto simp: becomes_def owns_def)
  then have "len s' = len s" using length_sdsstr assms(2) by (metis owns_def)
  with a \<open>sds_inv s'\<close> show "becomes z s (sdsstr s) (Some s') z' \<and> sdsavail s' = 0 \<and>
      sdsAllocSize s' = 9 + len s"
    by (simp add: sdsavail_eq sdsAllocSize_eq)
qed

theorem sdsRemoveFreeSpace_compacts_witness:
  "yields sample_heap (sdsRemoveFreeSpace sample_sds sample_heap)
     (\<lambda>s' z'. becomes sample_heap sample_sds ''ab'' (Some s') z' \<and> sdsavail s' = 0)"
  using sdsRemoveFreeSpace_compacts [OF sample_heap_ok sample_owned]
  by (elim yields_mono) (simp add: sample_simps)

text \<open>
  \<open>sdsIncrLen\<close> after a caller wrote behind the end of the string (so that the terminator
  may be gone): for every increment between \<open>-len\<close> and \<open>free\<close> the string becomes the prefix
  of the buffer of the new length, terminated again; a larger increment trips the assertion;
  a decrement by more than the length, which no assertion tests, stores in front of the
  buffer, unless the subtraction from \<open>free\<close> overflows first.
\<close>

theorem sdsIncrLen_outcomes:
  assumes "sds_shape s" "- 2147483648 \<le> incr"
  shows "if free s < incr then sdsIncrLen s incr = Inl AssertFailure
    else if 2147483648 \<le> free s - incr then sdsIncrLen s incr = Inl SignedOverflow
    else if incr < - len s then sdsIncrLen s incr = Inl BadAccess
    else inplace s (take (nat (len s + incr)) (buf s)) (sdsIncrLen s incr)"
  using assms sdsIncrLen_inplace [OF assms(1)] sdsIncrLen_underrun [OF assms(1)]
    sdsIncrLen_overflow [OF assms(1)]
  by (simp add: sdsIncrLen_overrun)

theorem sdsIncrLen_outcomes_witness:
  "inplace \<lparr>blk = 1, len = 2, free = 3, buf = ''abcde?''\<rparr> ''abcd''
     (sdsIncrLen \<lparr>blk = 1, len = 2, free = 3, buf = ''abcde?''\<rparr> 2) \<and>
   sdsIncrLen \<lparr>blk = 1, len = 2, free = 3, buf = ''abcde?''\<rparr> (- 3) = Inl BadAccess"
  using sdsIncrLen_outcomes [of "\<lparr>blk = 1, len = 2, free = 3, buf = ''abcde?''\<rparr>" 2]
    sdsIncrLen_outcomes [of "\<lparr>blk = 1, len = 2, free = 3, buf = ''abcde?''\<rparr>" "- 3"]
  by (simp add: sds_shape_def)

end
