(* ===== verification/Sds_Text.thy ===== *)
theory Sds_Text
  imports Sds
begin

text \<open>
  The text side of \<open>sds.c\<close>: numbers to decimal (\<open>sdsll2str\<close>, \<open>sdsull2str\<close>,
  \<open>sdsfromlonglong\<close>), formatted appends (\<open>sdscatvprintf\<close>, \<open>sdscatprintf\<close>, \<open>sdscatfmt\<close>),
  and the operations that rewrite a string in place (\<open>sdstrim\<close>, \<open>sdsrange\<close>,
  \<open>sdstolower\<close>, \<open>sdstoupper\<close>) or compare two (\<open>sdscmp\<close>).

  A loop over pointers is a recursive function over the indices of the buffer, with every
  load and store checked. An uninitialised array on the stack has the arbitrary bytes that
  \<open>garbage\<close> gives for the block 0, which is never allocated.
\<close>

subsection \<open>Numbers\<close>

definition SDS_LLSTR_SIZE :: nat where
  "SDS_LLSTR_SIZE = 21"

definition stack_bytes :: "nat \<Rightarrow> zheap \<Rightarrow> char list" where
  "stack_bytes n z = map (garbage z 0) [0..<n]"

fun emit_digits :: "char list \<Rightarrow> int \<Rightarrow> nat \<Rightarrow> (char list \<times> int) res" where
  \<comment> \<open>\<open>do { *p++ = '0'+(v%10); v /= 10; } while(v);\<close>\<close>
  "emit_digits b p v =
     rbind (poke b p (chr (48 + int (v mod 10)))) (\<lambda>b'.
     if v div 10 \<noteq> 0 then emit_digits b' (p + 1) (v div 10) else Inr (b', p + 1))"

declare emit_digits.simps [simp del]

function swap_ends :: "char list \<Rightarrow> int \<Rightarrow> int \<Rightarrow> char list res" where
  \<comment> \<open>\<open>while(s < p) { aux = *s; *s = *p; *p = aux; s++; p--; }\<close>\<close>
  "swap_ends b s p =
     (if s < p then
        rbind (peek b s) (\<lambda>aux.
        rbind (peek b p) (\<lambda>c.
        rbind (poke b s c) (\<lambda>b1.
        rbind (poke b1 p aux) (\<lambda>b2.
        swap_ends b2 (s + 1) (p - 1)))))
      else Inr b)"
  by pat_completeness auto
termination by (relation "measure (\<lambda>(b, s, p). nat (p - s))") auto

declare swap_ends.simps [simp del]

definition sdsll2str :: "char list \<Rightarrow> int \<Rightarrow> (char list \<times> int) res" where
  "sdsll2str s value =
     rbind (if value < 0 then c64 (- value) else Inr value) (\<lambda>v.
     rbind (emit_digits s 0 (nat v)) (\<lambda>(b1, p1).
     rbind (if value < 0 then rbind (poke b1 p1 (CHR ''-'')) (\<lambda>b. Inr (b, p1 + 1))
            else Inr (b1, p1)) (\<lambda>(b2, p2).
     let l = p2 in
     rbind (poke b2 p2 NUL) (\<lambda>b3.
     rbind (swap_ends b3 0 (p2 - 1)) (\<lambda>b4.
     Inr (b4, s32 l))))))"

definition sdsull2str :: "char list \<Rightarrow> int \<Rightarrow> (char list \<times> int) res" where
  "sdsull2str s v =
     rbind (emit_digits s 0 (nat v)) (\<lambda>(b1, p1).
     let l = p1 in
     rbind (poke b1 p1 NUL) (\<lambda>b2.
     rbind (swap_ends b2 0 (p1 - 1)) (\<lambda>b3.
     Inr (b3, s32 l))))"

definition sdsfromlonglong :: "int \<Rightarrow> zheap \<Rightarrow> (sds option \<times> zheap) res" where
  "sdsfromlonglong value z =
     rbind (sdsll2str (stack_bytes SDS_LLSTR_SIZE z) value) (\<lambda>(b, ln).
     sdsnewlen (Some b) (u64 ln) z)"

subsection \<open>Decimal numerals\<close>

fun dec :: "nat \<Rightarrow> char list" where
  "dec n = (if n < 10 then [chr (48 + int n)] else dec (n div 10) @ [chr (48 + int (n mod 10))])"

declare dec.simps [simp del]

definition dec_int :: "int \<Rightarrow> char list" where
  "dec_int i = (if i < 0 then CHR ''-'' # dec (nat (- i)) else dec (nat i))"

definition dec_value :: "char list \<Rightarrow> int" where
  "dec_value ds = foldl (\<lambda>a c. 10 * a + (code c - 48)) 0 ds"

lemma dec_nonempty [simp]: "dec n \<noteq> []"
  by (subst dec.simps) simp

lemma dec_round_trip: "dec_value (dec n) = int n"
proof (induction n rule: dec.induct)
  case (1 n)
  show ?case
  proof (cases "n < 10")
    case True
    then show ?thesis by (subst dec.simps) (simp add: dec_value_def code_chr)
  next
    case False
    then have "dec_value (dec n) = 10 * dec_value (dec (n div 10)) + int (n mod 10)"
      by (subst dec.simps) (simp add: dec_value_def code_chr)
    also have "\<dots> = int n" using 1 False by (simp add: zdiv_int zmod_int)
    finally show ?thesis .
  qed
qed

lemma dec_digits: "c \<in> set (dec n) \<Longrightarrow> 48 \<le> code c \<and> code c \<le> 57"
proof (induction n rule: dec.induct)
  case (1 n)
  then show ?case
    by (subst (asm) (2) dec.simps) (auto simp: code_chr split: if_splits)
qed

lemma dec_length: "n < 10 ^ k \<Longrightarrow> 0 < k \<Longrightarrow> length (dec n) \<le> k"
proof (induction k arbitrary: n)
  case (Suc k)
  show ?case
  proof (cases "n < 10")
    case True
    then show ?thesis by (subst dec.simps) simp
  next
    case False
    then have "0 < k" using Suc.prems by (cases k) auto
    moreover have "n div 10 < 10 ^ k" using Suc.prems by (simp add: less_mult_imp_div_less)
    ultimately have "length (dec (n div 10)) \<le> k" using Suc.IH by simp
    then show ?thesis using False by (subst dec.simps) simp
  qed
qed simp

lemma emit_digits_writes:
  "length (dec v) \<le> length ys \<Longrightarrow>
   emit_digits (xs @ ys) (int (length xs)) v
     = Inr (xs @ rev (dec v) @ drop (length (dec v)) ys, int (length xs + length (dec v)))"
proof (induction v arbitrary: xs ys rule: dec.induct)
  case (1 v)
  obtain y ys' where ys: "ys = y # ys'" using 1(2) by (cases ys) auto
  show ?case
  proof (cases "v < 10")
    case True
    then have "dec v = [chr (48 + int v)]" by (subst dec.simps) simp
    with True ys show ?thesis by (subst emit_digits.simps) (simp add: poke_append)
  next
    case False
    then have d: "dec v = dec (v div 10) @ [chr (48 + int (v mod 10))]" by (subst dec.simps) simp
    have "emit_digits ((xs @ [chr (48 + int (v mod 10))]) @ ys')
        (int (length (xs @ [chr (48 + int (v mod 10))]))) (v div 10)
      = Inr ((xs @ [chr (48 + int (v mod 10))]) @ rev (dec (v div 10))
          @ drop (length (dec (v div 10))) ys',
          int (length (xs @ [chr (48 + int (v mod 10))]) + length (dec (v div 10))))"
      using 1(1) [OF False, of ys' "xs @ [chr (48 + int (v mod 10))]"] 1(2) d ys by simp
    then show ?thesis using False d ys
      by (subst emit_digits.simps) (simp add: poke_append add_ac)
  qed
qed

lemma swap_ends_reverses:
  "swap_ends (xs @ m @ ys) (int (length xs)) (int (length xs) + int (length m) - 1)
     = Inr (xs @ rev m @ ys)"
proof (induction "length m" arbitrary: xs m ys rule: less_induct)
  case less
  show ?case
  proof (cases "length m < 2")
    case True
    then have "rev m = m" by (cases m; cases "tl m") auto
    with True show ?thesis by (subst swap_ends.simps) simp
  next
    case False
    then obtain a m' c where m: "m = a # m' @ [c]"
      by (cases m; cases "tl m" rule: rev_cases) auto
    let ?p = "int (length (xs @ a # m'))"
    have p: "int (length xs) + int (length m) - 1 = ?p" using m by simp
    have 1: "peek (xs @ m @ ys) (int (length xs)) = Inr a"
      "peek (xs @ m @ ys) ?p = Inr c"
      using m peek_append [of xs a "m' @ c # ys"] peek_append [of "xs @ a # m'" c ys] by simp_all
    have 2: "poke (xs @ m @ ys) (int (length xs)) c = Inr ((xs @ c # m') @ c # ys)"
      using m by (simp add: poke_append)
    have 3: "poke ((xs @ c # m') @ c # ys) ?p a = Inr ((xs @ [c]) @ m' @ (a # ys))"
      using poke_append [of "xs @ c # m'" c ys a] by simp
    have 4: "swap_ends ((xs @ [c]) @ m' @ (a # ys)) (int (length xs) + 1) (?p - 1)
        = Inr ((xs @ [c]) @ rev m' @ (a # ys))"
      using less [of m' "xs @ [c]" "a # ys"] m by (simp add: algebra_simps)
    have lt: "int (length xs) < ?p" by simp
    show ?thesis
      unfolding p by (subst swap_ends.simps) (simp only: lt if_True 1 2 3 rbind.simps 4, simp add: m)
  qed
qed

lemma sdsull2str_writes:
  assumes "length (dec (nat v)) < length b" "length (dec (nat v)) < 2147483648"
  shows "sdsull2str b v = Inr (dec (nat v) @ NUL # drop (Suc (length (dec (nat v)))) b,
    int (length (dec (nat v))))"
proof -
  let ?d = "dec (nat v)"
  obtain y ys where y: "drop (length ?d) b = y # ys" "ys = drop (Suc (length ?d)) b"
    using assms(1) by (metis Cons_nth_drop_Suc)
  have 1: "emit_digits b 0 (nat v) = Inr (rev ?d @ y # ys, int (length ?d))"
    using emit_digits_writes [of "nat v" b "[]"] assms(1) y(1) by simp
  have 2: "poke (rev ?d @ y # ys) (int (length ?d)) NUL = Inr (rev ?d @ NUL # ys)"
    using poke_append [of "rev ?d" y ys NUL] by simp
  have 3: "swap_ends (rev ?d @ NUL # ys) 0 (int (length ?d) - 1) = Inr (?d @ NUL # ys)"
    using swap_ends_reverses [of "[]" "rev ?d" "NUL # ys"] by simp
  show ?thesis
    unfolding y(2) [symmetric] using assms(2) by (simp add: sdsull2str_def 1 2 3 cint_simps)
qed

lemma sdsll2str_writes:
  assumes "- 9223372036854775808 < v" "length (dec_int v) < length b"
    "length (dec_int v) < 2147483648"
  shows "sdsll2str b v = Inr (dec_int v @ NUL # drop (Suc (length (dec_int v))) b,
    int (length (dec_int v)))"
proof (cases "v < 0")
  case False
  then have "sdsll2str b v = sdsull2str b v" by (simp add: sdsll2str_def sdsull2str_def)
  with False show ?thesis using sdsull2str_writes [of v b] assms by (simp add: dec_int_def)
next
  case True
  let ?d = "dec (nat (- v))"
  have d: "dec_int v = CHR ''-'' # ?d" using True by (simp add: dec_int_def)
  obtain x y ys where y: "drop (length ?d) b = x # y # ys" "ys = drop (Suc (Suc (length ?d))) b"
    using assms(2) d by (metis Cons_nth_drop_Suc length_Cons Suc_lessD)
  have 0: "c64 (- v) = Inr (- v)" using True assms(1) by (simp add: cint_simps)
  have 1: "emit_digits b 0 (nat (- v)) = Inr (rev ?d @ x # y # ys, int (length ?d))"
    using emit_digits_writes [of "nat (- v)" b "[]"] assms(2) d y(1) by simp
  have 2: "poke (rev ?d @ x # y # ys) (int (length ?d)) (CHR ''-'')
      = Inr ((rev ?d @ ''-'') @ y # ys)"
    using poke_append [of "rev ?d" x "y # ys" "CHR ''-''"] by simp
  have 3: "poke ((rev ?d @ ''-'') @ y # ys) (int (length ?d) + 1) NUL
      = Inr ((rev ?d @ ''-'') @ NUL # ys)"
    using poke_append [of "rev ?d @ ''-''" y ys NUL] by (simp add: add.commute)
  have 4: "swap_ends ((rev ?d @ ''-'') @ NUL # ys) 0 (int (length ?d)) = Inr (dec_int v @ NUL # ys)"
    using swap_ends_reverses [of "[]" "rev ?d @ ''-''" "NUL # ys"] d by simp
  have 5: "s32 (int (length ?d) + 1) = int (length ?d) + 1" using assms(3) d by (simp add: cint_simps)
  have 6: "drop (Suc (length (dec_int v))) b = ys" "int (length (dec_int v)) = int (length ?d) + 1"
    using d y(2) by simp_all
  show ?thesis
    unfolding sdsll2str_def Let_def 6
    using True by (simp add: 0 1 2 3 4 5 del: append_assoc append.simps)
qed

lemma dec_int_length: "- 9223372036854775808 \<le> v \<Longrightarrow> v < 9223372036854775808 \<Longrightarrow> length (dec_int v) \<le> 20"
  using dec_length [of "nat v" 20] dec_length [of "nat (- v)" 19] by (auto simp: dec_int_def)

lemma dec_int_NUL [simp]: "NUL \<notin> set (dec_int v)"
  using dec_digits [of NUL] by (auto simp: dec_int_def code_def)

lemma sdsfromlonglong_yields:
  assumes "zheap_ok z" "- 9223372036854775808 < v" "v < 9223372036854775808"
  shows "yields z (sdsfromlonglong v z) (created z (dec_int v))"
proof -
  have l: "length (dec_int v) \<le> 20" using assms by (simp add: dec_int_length)
  then have "sdsll2str (stack_bytes SDS_LLSTR_SIZE z) v
    = Inr (dec_int v @ NUL # drop (Suc (length (dec_int v))) (stack_bytes SDS_LLSTR_SIZE z),
        int (length (dec_int v)))"
    using assms by (intro sdsll2str_writes) (simp_all add: stack_bytes_def SDS_LLSTR_SIZE_def)
  with l show ?thesis
    using sdsnewlen_yields [OF assms(1), of "length (dec_int v)"
        "dec_int v @ NUL # drop (Suc (length (dec_int v))) (stack_bytes SDS_LLSTR_SIZE z)"]
    by (simp add: sdsfromlonglong_def cint_simps)
qed

subsection \<open>Trimming, ranges, case and comparison\<close>

function trim_left :: "char list \<Rightarrow> char list \<Rightarrow> int \<Rightarrow> int \<Rightarrow> int res" where
  \<comment> \<open>\<open>while(sp <= end && strchr(cset, *sp)) sp++;\<close>\<close>
  "trim_left b cset en sp =
     (if sp \<le> en then
        rbind (peek b sp) (\<lambda>c. if strchr_hit cset c then trim_left b cset en (sp + 1) else Inr sp)
      else Inr sp)"
  by pat_completeness auto
termination by (relation "measure (\<lambda>(b, cset, en, sp). nat (en + 1 - sp))") auto

function trim_right :: "char list \<Rightarrow> char list \<Rightarrow> int \<Rightarrow> int res" where
  \<comment> \<open>\<open>while(ep > start && strchr(cset, *ep)) ep--;\<close>\<close>
  "trim_right b cset ep =
     (if ep > 0 then
        rbind (peek b ep) (\<lambda>c. if strchr_hit cset c then trim_right b cset (ep - 1) else Inr ep)
      else Inr ep)"
  by pat_completeness auto
termination by (relation "measure (\<lambda>(b, cset, ep). nat ep)") auto

declare trim_left.simps [simp del] trim_right.simps [simp del]

definition sdstrim :: "sds \<Rightarrow> char list \<Rightarrow> sds res" where
  "sdstrim s cset =
     (let en = sdslen s - 1 in
      rbind (trim_left (buf s) cset en 0) (\<lambda>sp.
      rbind (trim_right (buf s) cset en) (\<lambda>ep.
      let n = (if sp > ep then 0 else ep - sp + 1) in
      rbind (if sp \<noteq> 0 then rbind (read_bytes (buf s) sp n) (write_bytes (buf s) 0)
             else Inr (buf s)) (\<lambda>b.
      rbind (poke b n NUL) (\<lambda>b'.
      Inr (s\<lparr>free := s32 (u64 (free s + (len s - n))), len := s32 n, buf := b'\<rparr>))))))"

definition sdsrange :: "sds \<Rightarrow> int \<Rightarrow> int \<Rightarrow> sds res" where
  "sdsrange s start0 end0 =
     (let ln = sdslen s in
      if ln = 0 then Inr s else
      let start1 = (if start0 < 0 then max (s32 (u64 (ln + start0))) 0 else start0);
          end1 = (if end0 < 0 then max (s32 (u64 (ln + end0))) 0 else end0) in
      rbind (if start1 > end1 then Inr 0
             else rbind (c32 (end1 - start1)) (\<lambda>d. c32 (d + 1))) (\<lambda>new1.
      let newlen1 = u64 new1 in
      rbind (if newlen1 \<noteq> 0 then
               if start1 \<ge> s32 ln then Inr (start1, 0)
               else if end1 \<ge> s32 ln then
                 let end2 = s32 (u64 (ln - 1)) in
                 rbind (if start1 > end2 then Inr 0
                        else rbind (c32 (end2 - start1)) (\<lambda>d. c32 (d + 1))) (\<lambda>new2.
                 Inr (start1, u64 new2))
               else Inr (start1, newlen1)
             else Inr (0, 0)) (\<lambda>(start, newlen).
      rbind (if start \<noteq> 0 \<and> newlen \<noteq> 0
             then rbind (read_bytes (buf s) start newlen) (write_bytes (buf s) 0)
             else Inr (buf s)) (\<lambda>b.
      rbind (poke b newlen NUL) (\<lambda>b'.
      Inr (s\<lparr>free := s32 (u64 (free s + (len s - newlen))), len := s32 newlen, buf := b'\<rparr>))))))"

function case_loop :: "(char \<Rightarrow> char) \<Rightarrow> char list \<Rightarrow> int \<Rightarrow> int \<Rightarrow> char list res" where
  \<comment> \<open>\<open>for (j = 0; j < len; j++) s[j] = f(s[j]);\<close>\<close>
  "case_loop f b j n =
     (if j < n then
        rbind (peek b j) (\<lambda>c. rbind (poke b j (f c)) (\<lambda>b'. case_loop f b' (j + 1) n))
      else Inr b)"
  by pat_completeness auto
termination by (relation "measure (\<lambda>(f, b, j, n). nat (n - j))") auto

declare case_loop.simps [simp del]

definition sdstolower :: "sds \<Rightarrow> sds res" where
  "sdstolower s =
     (let ln = s32 (sdslen s) in rbind (case_loop tolower (buf s) 0 ln) (\<lambda>b. Inr (s\<lparr>buf := b\<rparr>)))"

definition sdstoupper :: "sds \<Rightarrow> sds res" where
  "sdstoupper s =
     (let ln = s32 (sdslen s) in rbind (case_loop toupper (buf s) 0 ln) (\<lambda>b. Inr (s\<lparr>buf := b\<rparr>)))"

fun memcmp_bytes :: "char list \<Rightarrow> char list \<Rightarrow> int" where
  \<comment> \<open>the sign that \<open>memcmp\<close> promises, bytes compared as \<open>unsigned char\<close>\<close>
  "memcmp_bytes (x # xs) (y # ys) =
     (if code x < code y then - 1 else if code y < code x then 1 else memcmp_bytes xs ys)"
| "memcmp_bytes _ _ = 0"

definition sdscmp :: "sds \<Rightarrow> sds \<Rightarrow> int res" where
  "sdscmp s1 s2 =
     (let l1 = sdslen s1; l2 = sdslen s2; minlen = (if l1 < l2 then l1 else l2) in
      rbind (read_bytes (buf s1) 0 minlen) (\<lambda>a.
      rbind (read_bytes (buf s2) 0 minlen) (\<lambda>b.
      let cmp = memcmp_bytes a b in
      Inr (if cmp = 0 then s32 (u64 (l1 - l2)) else cmp))))"

lemma inplace_shift:
  \<comment> \<open>move \<open>n\<close> bytes at \<open>i\<close> to the front and cut there\<close>
  assumes sh: "sds_shape s" and n: "n < length (buf s)" "i + n \<le> length (buf s)"
    and skip: "\<not> mv \<Longrightarrow> take n (drop i (buf s)) = take n (buf s)"
  shows "inplace s (take n (drop i (buf s)))
    (rbind (if mv then rbind (read_bytes (buf s) (int i) (int n)) (write_bytes (buf s) 0)
            else Inr (buf s)) (\<lambda>b.
     rbind (poke b (int n) NUL) (\<lambda>b'.
     Inr (s\<lparr>free := s32 (u64 (free s + (len s - int n))), len := s32 (int n), buf := b'\<rparr>))))"
proof -
  let ?d = "take n (drop i (buf s))"
  have d: "length ?d = n" using n by simp
  have e: "(if mv then rbind (read_bytes (buf s) (int i) (int n)) (write_bytes (buf s) 0)
            else Inr (buf s)) = write_bytes (buf s) 0 ?d"
    using n skip by (auto simp: mem_simps) (auto simp: write_bytes_def)
  have w: "rbind (write_bytes (buf s) 0 ?d) (\<lambda>b. rbind (poke b (int n) NUL) f)
      = f (?d @ NUL # drop (Suc n) (buf s))" for f :: "char list \<Rightarrow> sds res"
    using write_poke0 [of ?d "buf s" f] n d by simp
  have c: "s32 (u64 (free s + (len s - int n))) = len s + free s - int n" "s32 (int n) = int n"
    using sh n(1) by (simp_all add: sds_shape_def cint_simps)
  have "int (length (drop (Suc n) (buf s))) = len s + free s - int n"
    using sh n(1) by (simp add: sds_shape_def of_nat_diff)
  then show ?thesis
    unfolding e w c using d sh
    by (intro inplace_intro [where r = "drop (Suc n) (buf s)"]) simp_all
qed

lemma trim_left_run:
  assumes "\<forall>x\<in>set xs. strchr_hit cset x" "rest = [] \<or> \<not> strchr_hit cset (hd rest)"
    "en = int (length (pre @ xs @ rest)) - 1"
  shows "trim_left (pre @ xs @ rest @ tail) cset en (int (length pre)) = Inr (int (length (pre @ xs)))"
  using assms
proof (induction xs arbitrary: pre)
  case Nil
  then show ?case
    by (cases rest) (auto simp: trim_left.simps [of _ _ _ "int (length pre)"] peek_append)
next
  case (Cons x xs)
  then show ?case
    using Cons.IH [of "pre @ [x]"]
    by (subst trim_left.simps) (simp add: peek_append add.commute)
qed

lemma trim_right_run:
  assumes "\<forall>x\<in>set ys. strchr_hit cset x" "m = [] \<or> \<not> strchr_hit cset (last m)"
  shows "trim_right (m @ ys @ tail) cset (int (length (m @ ys)) - 1) =
    Inr (if m = [] \<and> ys \<noteq> [] then 0 else int (length m) - 1)"
  using assms
proof (induction ys arbitrary: tail rule: rev_induct)
  case Nil
  show ?case
  proof (cases m rule: rev_cases)
    case Nil
    then show ?thesis by (simp add: trim_right.simps)
  next
    case (snoc m' x)
    then show ?thesis using \<open>m = [] \<or> _\<close>
      by (subst trim_right.simps) (simp add: peek_append)
  qed
next
  case (snoc y ys)
  have ih: "trim_right (m @ ys @ [y] @ tail) cset (int (length (m @ ys)) - 1) =
    Inr (if m = [] \<and> ys \<noteq> [] then 0 else int (length m) - 1)"
    using snoc.IH [of "y # tail"] snoc.prems by simp
  have pk: "peek (m @ ys @ y # tail) (int (length m) + int (length ys)) = Inr y"
    using peek_append [of "m @ ys" y tail] by simp
  have "m \<noteq> [] \<Longrightarrow> 0 < int (length m) + int (length ys)" by (cases m) auto
  then show ?case
    using ih snoc.prems by (subst trim_right.simps) (auto simp: pk)
qed

definition trimmed :: "(char \<Rightarrow> bool) \<Rightarrow> char list \<Rightarrow> char list" where
  "trimmed P c = rev (dropWhile P (rev (dropWhile P c)))"

lemma trimmed_split:
  obtains xs ys where "c = xs @ trimmed P c @ ys" "\<forall>x\<in>set xs. P x" "\<forall>x\<in>set ys. P x"
    "trimmed P c = [] \<or> \<not> P (hd (trimmed P c)) \<and> \<not> P (last (trimmed P c))"
proof -
  let ?d = "dropWhile P c" and ?ys = "rev (takeWhile P (rev (dropWhile P c)))"
  have d: "?d = trimmed P c @ ?ys"
    unfolding trimmed_def by (metis rev_append rev_rev_ident takeWhile_dropWhile_id)
  then have "c = takeWhile P c @ trimmed P c @ ?ys" by (metis takeWhile_dropWhile_id)
  moreover have "trimmed P c \<noteq> [] \<Longrightarrow> \<not> P (hd (trimmed P c))"
    using d by (metis append_is_Nil_conv hd_append2 hd_dropWhile)
  moreover have "trimmed P c \<noteq> [] \<Longrightarrow> \<not> P (last (trimmed P c))"
    unfolding trimmed_def by (metis hd_dropWhile last_rev rev_is_Nil_conv)
  ultimately show ?thesis
    by (intro that [of "takeWhile P c" ?ys]) (auto dest: set_takeWhileD)
qed

lemma sdstrim_inplace:
  assumes "sds_inv s"
  shows "inplace s (trimmed (strchr_hit cset) (sdsstr s)) (sdstrim s cset)"
proof -
  obtain c r where rep: "sdsstr s = c" "buf s = c @ NUL # r" "len s = int (length c)"
    "free s = int (length r)"
    using assms by (rule sds_inv_rep)
  let ?m = "trimmed (strchr_hit cset) c"
  obtain xs ys where x: "c = xs @ ?m @ ys" "\<forall>x\<in>set xs. strchr_hit cset x"
    "\<forall>x\<in>set ys. strchr_hit cset x"
    "?m = [] \<or> \<not> strchr_hit cset (hd ?m) \<and> \<not> strchr_hit cset (last ?m)"
    by (rule trimmed_split)
  have en: "sdslen s = int (length c)" using assms rep by (simp add: sdslen_eq)
  obtain sp ep where run: "trim_left (buf s) cset (int (length c) - 1) 0 = Inr sp"
    "trim_right (buf s) cset (int (length c) - 1) = Inr ep"
    "(if sp > ep then 0 else ep - sp + 1) = int (length ?m)"
    "\<exists>i. sp = int i \<and> i + length ?m \<le> length c \<and> take (length ?m) (drop i (buf s)) = ?m"
  proof (cases "?m = []")
    case True
    then have all: "\<forall>x\<in>set c. strchr_hit cset x" using x by (metis Un_iff append_Nil set_append)
    have "trim_left (buf s) cset (int (length c) - 1) 0 = Inr (int (length c))"
      using trim_left_run [OF all, of "[]" _ "[]" "NUL # r"] rep(2) by simp
    moreover have "trim_right (buf s) cset (int (length c) - 1) = Inr (if c \<noteq> [] then 0 else - 1)"
      using trim_right_run [OF all, of "[]" "NUL # r"] rep(2) by simp
    ultimately show ?thesis
      using True by (intro that [of "int (length c)" "if c \<noteq> [] then 0 else - 1"]) auto
  next
    case False
    have b: "buf s = xs @ (?m @ ys) @ NUL # r" "buf s = (xs @ ?m) @ ys @ NUL # r"
      using x(1) rep(2) by simp_all
    have l: "int (length c) = int (length xs) + (int (length ?m) + int (length ys))"
      using x(1) by (metis length_append of_nat_add)
    have "trim_left (buf s) cset (int (length c) - 1) 0 = Inr (int (length xs))"
      unfolding b(1) using trim_left_run [OF x(2), of "?m @ ys" _ "[]" "NUL # r"] x(4) False l by simp
    moreover have "trim_right (buf s) cset (int (length c) - 1) = Inr (int (length xs + length ?m) - 1)"
      unfolding b(2) using trim_right_run [OF x(3), of "xs @ ?m" "NUL # r"] x(4) False l by simp
    moreover have "take (length ?m) (drop (length xs) (buf s)) = ?m" unfolding b(1) by simp
    ultimately show ?thesis using False l by (intro that) auto
  qed
  then obtain i where i: "sp = int i" "i + length ?m \<le> length c"
    "take (length ?m) (drop i (buf s)) = ?m"
    by blast
  have sh: "sds_shape s" using assms by (simp add: sds_inv_shape)
  have n: "length ?m < length (buf s)" "i + length ?m \<le> length (buf s)"
    using i(2) rep(2) by simp_all
  have skip: "\<not> int i \<noteq> 0 \<Longrightarrow> take (length ?m) (drop i (buf s)) = take (length ?m) (buf s)"
    by simp
  show ?thesis
    unfolding sdstrim_def Let_def en run(1,2) rbind.simps run(3) [unfolded i(1)] rep(1) i(1)
    by (rule inplace_shift [OF sh n skip, where mv = "int i \<noteq> 0", unfolded i(3)])
qed

definition slice :: "int \<Rightarrow> int \<Rightarrow> char list \<Rightarrow> char list" where
  \<comment> \<open>the substring of \<open>sdsrange\<close>: inclusive bounds, negative ones count from the end\<close>
  "slice i j c =
     (let n = int (length c);
          i' = (if i < 0 then max 0 (n + i) else i);
          j' = (if j < 0 then max 0 (n + j) else j) in
      take (nat (j' - i' + 1)) (drop (nat i') c))"

lemma inplace_refl: "sds_inv s \<Longrightarrow> inplace s (sdsstr s) (Inr s)"
  by (simp add: inplace_def)

lemma sdsrange_inplace:
  assumes inv: "sds_inv s" and i: "- 2147483648 \<le> i" "i < 2147483648"
    and j: "- 2147483648 \<le> j" "j < 2147483647"
  shows "inplace s (slice i j (sdsstr s)) (sdsrange s i j)"
proof -
  obtain c r where rep: "sdsstr s = c" "buf s = c @ NUL # r" "len s = int (length c)"
    "free s = int (length r)" "int (length c) + int (length r) < 2147483648"
    using inv by (rule sds_inv_rep)
  have sh: "sds_shape s" using inv by (simp add: sds_inv_shape)
  let ?n = "int (length c)"
  have ln: "sdslen s = ?n" using inv rep by (simp add: sdslen_eq)
  define i' where "i' = (if i < 0 then max 0 (?n + i) else i)"
  define j' where "j' = (if j < 0 then max 0 (?n + j) else j)"
  have sl: "slice i j c = take (nat (j' - i' + 1)) (drop (nat i') c)"
    by (simp add: slice_def i'_def j'_def Let_def)
  have conv: "(if i < 0 then max (s32 (u64 (?n + i))) 0 else i) = i'"
    "(if j < 0 then max (s32 (u64 (?n + j))) 0 else j) = j'"
    using rep(5) i j by (auto simp: i'_def j'_def cint_simps max.commute)
  have ij: "0 \<le> i'" "0 \<le> j'" "i' < 2147483648" "j' < 2147483647"
    using i j rep(5) by (auto simp: i'_def j'_def)
  have s32n: "s32 ?n = ?n" "s32 (u64 (?n - 1)) = ?n - 1"
    using rep(5) by (auto simp: cint_simps)
  let ?k = "\<lambda>(start, newlen).
      rbind (if start \<noteq> 0 \<and> newlen \<noteq> 0
             then rbind (read_bytes (buf s) start newlen) (write_bytes (buf s) 0)
             else Inr (buf s)) (\<lambda>b.
      rbind (poke b newlen NUL) (\<lambda>b'.
      Inr (s\<lparr>free := s32 (u64 (free s + (len s - newlen))), len := s32 newlen, buf := b'\<rparr>)))"
  have fin: "inplace s (take nl (drop st c)) (?k (int st, int nl))" if "st + nl \<le> length c" for st nl
    using inplace_shift [OF sh, of nl st "int st \<noteq> 0 \<and> int nl \<noteq> 0"] that rep(2) by auto
  have fin0: "inplace s [] (?k (st, 0))" for st
    using fin [of 0 0] by simp
  consider (empty) "c = []" | (cross) "c \<noteq> []" "j' < i'" | (beyond) "c \<noteq> []" "i' \<le> j'" "?n \<le> i'"
    | (clip) "c \<noteq> []" "i' \<le> j'" "i' < ?n" "?n \<le> j'" | (inside) "c \<noteq> []" "i' \<le> j'" "j' < ?n"
    by linarith
  then show ?thesis
  proof cases
    case empty
    then have "slice i j c = []" by (simp add: slice_def Let_def)
    then show ?thesis using empty inplace_refl [OF inv] rep(1)
      by (simp add: sdsrange_def ln)
  next
    case cross
    then show ?thesis using fin0
      by (simp add: sdsrange_def Let_def ln sl conv rep(1) cint_simps)
  next
    case beyond
    then show ?thesis using fin0 [of i'] ij
      by (simp add: sdsrange_def Let_def ln sl conv rep(1) s32n cint_simps)
  next
    case clip
    have "slice i j c = take (nat (?n - i')) (drop (nat i') c)" using clip ij by (simp add: sl)
    then show ?thesis using clip fin [of "nat i'" "nat (?n - i')"] ij rep(5)
      by (simp add: sdsrange_def Let_def ln conv rep(1) s32n cint_simps)
  next
    case inside
    then show ?thesis using fin [of "nat i'" "nat (j' - i' + 1)"] ij rep(5)
      by (simp add: sdsrange_def Let_def ln sl conv rep(1) s32n cint_simps)
  qed
qed

lemma case_loop_maps:
  "case_loop f (xs @ ys @ zs) (int (length xs)) (int (length xs + length ys))
     = Inr (xs @ map f ys @ zs)"
proof (induction ys arbitrary: xs)
  case Nil
  then show ?case by (simp add: case_loop.simps)
next
  case (Cons y ys)
  then show ?case
    using Cons [of "xs @ [f y]"]
    by (subst case_loop.simps) (simp add: mem_simps add_ac)
qed

lemma case_inplace:
  assumes "sds_inv s"
  shows "inplace s (map f (sdsstr s))
    (let ln = s32 (sdslen s) in rbind (case_loop f (buf s) 0 ln) (\<lambda>b. Inr (s\<lparr>buf := b\<rparr>)))"
proof -
  obtain c r where rep: "sdsstr s = c" "buf s = c @ NUL # r" "len s = int (length c)"
    "free s = int (length r)" "int (length c) + int (length r) < 2147483648"
    using assms by (rule sds_inv_rep)
  have "s32 (sdslen s) = int (length c)" using assms rep by (simp add: sdslen_eq cint_simps)
  moreover have "case_loop f (buf s) 0 (int (length c)) = Inr (map f c @ NUL # r)"
    using case_loop_maps [of f "[]" c "NUL # r"] rep(2) by simp
  moreover have "sds_shape s" using assms by (simp add: sds_inv_shape)
  ultimately show ?thesis
    using rep by (simp add: Let_def) (rule inplace_intro [where r = r], simp_all)
qed

lemma sdstolower_inplace: "sds_inv s \<Longrightarrow> inplace s (map tolower (sdsstr s)) (sdstolower s)"
  unfolding sdstolower_def by (rule case_inplace)

lemma sdstoupper_inplace: "sds_inv s \<Longrightarrow> inplace s (map toupper (sdsstr s)) (sdstoupper s)"
  unfolding sdstoupper_def by (rule case_inplace)

definition byte_less :: "(char \<times> char) set" where
  "byte_less = {(x, y). code x < code y}"

lemma memcmp_prefix:
  "memcmp_bytes (take (min (length a) (length b)) a) (take (min (length a) (length b)) b) =
     (if (a, b) \<in> lexord byte_less \<and> \<not> (\<exists>v. v \<noteq> [] \<and> b = a @ v) then - 1
      else if (b, a) \<in> lexord byte_less \<and> \<not> (\<exists>v. v \<noteq> [] \<and> a = b @ v) then 1 else 0)"
proof (induction a b rule: memcmp_bytes.induct)
  case (1 x xs y ys)
  then show ?case by (auto simp: byte_less_def)
qed (auto simp: lexord_def)

lemma byte_less_total: "(x, y) \<in> byte_less \<or> x = y \<or> (y, x) \<in> byte_less"
  by (auto simp: byte_less_def simp flip: code_inj)

lemma byte_lex_asym: "(a, b) \<in> lexord byte_less \<Longrightarrow> (b, a) \<notin> lexord byte_less"
  by (rule lexord_asymmetric [of byte_less]) (auto simp: asym_on_def byte_less_def)

lemma sdscmp_sign:
  assumes "sds_inv s" "sds_inv t"
  shows "\<exists>v. sdscmp s t = Inr v \<and>
    sgn v = (if (sdsstr s, sdsstr t) \<in> lexord byte_less then - 1
             else if (sdsstr t, sdsstr s) \<in> lexord byte_less then 1 else 0)"
proof -
  obtain a r where a: "sdsstr s = a" "buf s = a @ NUL # r" "len s = int (length a)"
    "int (length a) + int (length r) < 2147483648"
    using assms(1) by (rule sds_inv_rep)
  obtain b q where b: "sdsstr t = b" "buf t = b @ NUL # q" "len t = int (length b)"
    "int (length b) + int (length q) < 2147483648"
    using assms(2) by (rule sds_inv_rep)
  let ?m = "min (length a) (length b)" and ?c = "memcmp_bytes (take (min (length a) (length b)) a)
    (take (min (length a) (length b)) b)"
  have m: "(if int (length a) < int (length b) then int (length a) else int (length b)) = int ?m"
    by simp
  have "s32 (u64 (int (length a) - int (length b))) = int (length a) - int (length b)"
    using a(4) b(4) by (simp add: cint_simps)
  then have e: "sdscmp s t = Inr (if ?c = 0 then int (length a) - int (length b) else ?c)"
    using assms a b unfolding sdscmp_def Let_def sdslen_eq [OF assms(1)] sdslen_eq [OF assms(2)] a(3) b(3) m
    by (simp add: mem_simps)
  have pre: "(a, a @ v) \<in> lexord byte_less" if "v \<noteq> []" for a v :: "char list"
    using that by (cases v) (auto intro: lexord_append_rightI)
  show ?thesis
    unfolding e memcmp_prefix a(1) b(1)
    using lexord_linear [of byte_less a b] byte_less_total byte_lex_asym [of a b] byte_lex_asym [of b a]
      pre
    by (auto simp: sgn_if)
qed

subsection \<open>Formatted appends\<close>

definition vsnprintf :: "char list \<Rightarrow> int \<Rightarrow> char list \<Rightarrow> char list res" where
  \<comment> \<open>\<open>vsnprintf(buf, n, ...)\<close> when the formatted text is \<open>out\<close>\<close>
  "vsnprintf b n out = (if n = 0 then Inr b else write_bytes b 0 (take (nat (n - 1)) out @ [NUL]))"

fun vprintf_loop ::
  "nat \<Rightarrow> ptr \<Rightarrow> char list \<Rightarrow> int \<Rightarrow> char list \<Rightarrow> zheap \<Rightarrow> ((ptr \<times> char list) option \<times> zheap) res"
where
  \<comment> \<open>the \<open>while(1)\<close> of \<open>sdscatvprintf\<close>; the pointer 0 stands for \<open>staticbuf\<close>\<close>
  "vprintf_loop 0 p b buflen out z = Inl NoFuel"
| "vprintf_loop (Suc k) p b buflen out z =
     rbind (poke b (u64 (buflen - 2)) NUL) (\<lambda>b1.
     rbind (vsnprintf b1 buflen out) (\<lambda>b2.
     rbind (peek b2 (u64 (buflen - 2))) (\<lambda>c.
     if c \<noteq> NUL then
       rbind (if p \<noteq> 0 then zfree p z else Inr z) (\<lambda>z1.
       let buflen' = u64 (buflen * 2) in
       rbind (zmalloc (to_size buflen') z1) (\<lambda>(p', z2).
       if p' = 0 then Inr (None, z2) else vprintf_loop k p' (payload p' z2) buflen' out z2))
     else Inr (Some (p, b2), z))))"

definition sdscatvprintf ::
  "(char list \<Rightarrow> 'va \<Rightarrow> char list) \<Rightarrow> sds \<Rightarrow> char list \<Rightarrow> 'va \<Rightarrow> zheap \<Rightarrow> (sds option \<times> zheap) res"
where
  \<comment> \<open>\<open>format\<close> is what the formatting of the C library makes of a format and its arguments\<close>
  "sdscatvprintf format s fmt ap z =
     (let buflen = u64 (strlen fmt * 2) in
      rbind (if 1024 < buflen
             then rbind (zmalloc (to_size buflen) z) (\<lambda>(p, z1).
                    Inr (if p = 0 then None else Some (p, payload p z1, buflen), z1))
             else Inr (Some (0, stack_bytes 1024 z, 1024), z)) (\<lambda>(r, z1).
      case r of None \<Rightarrow> Inr (None, z1) | Some (p, b, n) \<Rightarrow>
        rbind (vprintf_loop 64 p b n (format fmt ap) z1) (\<lambda>(r2, z2).
        case r2 of None \<Rightarrow> Inr (None, z2) | Some (p2, b2) \<Rightarrow>
          rbind (sdscat s b2 z2) (\<lambda>(t, z3).
          rbind (if p2 \<noteq> 0 then zfree p2 z3 else Inr z3) (\<lambda>z4.
          Inr (t, z4))))))"

definition sdscatprintf ::
  "(char list \<Rightarrow> 'va \<Rightarrow> char list) \<Rightarrow> sds \<Rightarrow> char list \<Rightarrow> 'va \<Rightarrow> zheap \<Rightarrow> (sds option \<times> zheap) res"
where
  "sdscatprintf format s fmt ap z = sdscatvprintf format s fmt ap z"

definition scratch_buf :: "(ptr \<rightharpoonup> size_t) \<Rightarrow> ptr \<Rightarrow> zheap \<Rightarrow> bool" where
  \<comment> \<open>the heap is \<open>h\<close> and, unless it is the static one, the scratch buffer\<close>
  "scratch_buf h p z \<longleftrightarrow> zheap_ok z \<and>
     (if p = 0 then hdrs z = h else h p = None \<and> (\<exists>m. hdrs z = h(p \<mapsto> m)))"

lemma scratch_free:
  assumes "scratch_buf h p z"
  shows "\<exists>z'. (if p \<noteq> 0 then zfree p z else Inr z) = Inr z' \<and> heap_ext z z' \<and> zheap_ok z' \<and> hdrs z' = h"
proof (cases "p = 0")
  case True
  then show ?thesis using assms by (simp add: scratch_buf_def)
next
  case False
  then obtain m where m: "hdrs z = h(p \<mapsto> m)" "h p = None" "zheap_ok z"
    using assms by (auto simp: scratch_buf_def)
  then obtain z' where "zfree p z = Inr z'" "zheap_ok z'" "heap_ext z z'" "hdrs z' = (hdrs z)(p := None)"
    using zfree_returns [of z p m] by auto
  then show ?thesis using False m by (auto simp: fun_eq_iff)
qed

lemma scratch_new:
  assumes "zheap_ok z" "hdrs z = h" "n < 4294967296"
  shows "yields z (zmalloc (to_size (int n)) z)
    (\<lambda>p z'. p \<noteq> 0 \<and> scratch_buf h p z' \<and> length (payload p z') = n)"
proof -
  have "fits (to_size (int n))" "unat (to_size (int n)) = n"
    using assms(3) by (simp_all add: fits_to_size unat_to_size)
  from zmalloc_yields [OF assms(1) this(1)] this(2) show ?thesis
    by (elim yields_mono) (auto simp: scratch_buf_def assms(2))
qed

definition printed :: "char list \<Rightarrow> nat \<Rightarrow> char list \<Rightarrow> char list" where
  \<comment> \<open>the buffer after one round of the loop\<close>
  "printed b n out = (let o1 = take (n - 1) out @ [NUL] in o1 @ drop (length o1) (b[n - 2 := NUL]))"

lemma vsnprintf_printed:
  assumes "length b = n" "2 \<le> n" "n < 18446744073709551616"
  shows "poke b (u64 (int n - 2)) NUL = Inr (b[n - 2 := NUL])"
    and "vsnprintf (b[n - 2 := NUL]) (int n) out = Inr (printed b n out)"
    and "peek (printed b n out) (u64 (int n - 2)) = Inr (printed b n out ! (n - 2))"
    and "length (printed b n out) = n"
proof -
  have u: "u64 (int n - 2) = int (n - 2)" using assms by (simp add: cint_simps of_nat_diff)
  show "poke b (u64 (int n - 2)) NUL = Inr (b[n - 2 := NUL])"
    unfolding u using assms by (intro poke_in) simp
  have n1: "nat (int n - 1) = n - 1" by simp
  have l: "length (take (n - 1) out @ [NUL]) \<le> n" using assms(2) by (simp add: min_def) linarith
  then show "vsnprintf (b[n - 2 := NUL]) (int n) out = Inr (printed b n out)"
    unfolding vsnprintf_def n1 printed_def Let_def using assms by (simp add: write_bytes_def)
  show "length (printed b n out) = n"
    using l assms(1) by (simp add: printed_def Let_def)
  then show "peek (printed b n out) (u64 (int n - 2)) = Inr (printed b n out ! (n - 2))"
    unfolding u using assms by (intro peek_in) simp
qed

lemma printed_done:
  assumes "length b = n" "2 \<le> n" "printed b n out ! (n - 2) = NUL"
  shows "cstr (printed b n out) = cstr out"
proof (cases "length out \<le> n - 1")
  case True
  then show ?thesis by (simp add: printed_def Let_def cstr_append_NUL_same)
next
  case False
  then have lt: "n - 2 < length (take (n - 1) out)" using assms(2) by simp
  then have "take (n - 1) out ! (n - 2) = NUL"
    using assms(3) by (simp only: printed_def Let_def append_assoc nth_append if_True)
  moreover note lt
  ultimately have "NUL \<in> set (take (n - 1) out)" by (metis nth_mem)
  then show ?thesis by (simp add: printed_def Let_def cstr_take)
qed

lemma printed_more:
  assumes "length b = n" "2 \<le> n" "printed b n out ! (n - 2) \<noteq> NUL"
  shows "n - 1 \<le> length out"
proof (rule ccontr)
  assume "\<not> n - 1 \<le> length out"
  then have "take (n - 1) out = out" "length out \<le> n - 2" by simp_all
  moreover have "Suc (n - 3) = n - 2" if "length out < n - 2" using that by simp
  ultimately have "printed b n out ! (n - 2) = NUL"
    using assms(1,2) by (cases "length out = n - 2") (simp_all add: printed_def Let_def nth_append)
  with assms(3) show False by simp
qed

lemma vprintf_loop_yields:
  assumes "scratch_buf h p z" "length b = n" "2 \<le> n" "n < 4294967296" "length out < 1073741824"
    "length out + 2 \<le> n * 2 ^ k"
  shows "yields z (vprintf_loop (Suc k) p b (int n) out z)
    (\<lambda>r z'. \<exists>p' b'. r = Some (p', b') \<and> scratch_buf h p' z' \<and> cstr b' = cstr out)"
  using assms
proof (induction k arbitrary: p b n z)
  case 0
  let ?b = "printed b n out"
  have n: "n < 18446744073709551616" using 0(4) by simp
  have "?b ! (n - 2) = NUL" using printed_more [OF 0(2,3), of out] 0(6) 0(3) by fastforce
  then show ?case
    using vsnprintf_printed [OF 0(2,3) n] printed_done [OF 0(2,3)] 0(1) by simp
next
  case (Suc k)
  let ?b = "printed b n out"
  have n: "n < 18446744073709551616" using Suc.prems(4) by simp
  note step = vsnprintf_printed [OF Suc.prems(2,3) n]
  show ?case
  proof (cases "?b ! (n - 2) = NUL")
    case True
    then show ?thesis using step printed_done [OF Suc.prems(2,3)] Suc.prems(1)
      by (simp add: vprintf_loop.simps(2) [of "Suc k"] del: vprintf_loop.simps)
  next
    case False
    obtain z1 where z1: "(if p \<noteq> 0 then zfree p z else Inr z) = Inr z1" "heap_ext z z1"
      "zheap_ok z1" "hdrs z1 = h"
      using scratch_free [OF Suc.prems(1)] by blast
    have n2: "n * 2 < 4294967296"
      using printed_more [OF Suc.prems(2,3) False] Suc.prems(5) by simp
    then have u: "u64 (int n * 2) = int (n * 2)" by (simp add: cint_simps)
    have body: "yields z1 (rbind (zmalloc (to_size (int (n * 2))) z1) (\<lambda>(p', z2).
        if p' = 0 then Inr (None, z2)
        else vprintf_loop (Suc k) p' (payload p' z2) (int (n * 2)) out z2))
      (\<lambda>r z'. \<exists>p' b'. r = Some (p', b') \<and> scratch_buf h p' z' \<and> cstr b' = cstr out)"
      using Suc.IH [of _ _ _ "n * 2"] Suc.prems(3,5,6) n2
      by (intro yields_bind [OF scratch_new [OF z1(3,4) n2]]) (simp add: mult_ac del: vprintf_loop.simps)
    show ?thesis
      unfolding vprintf_loop.simps(2) [of "Suc k"] step rbind.simps if_P [OF False] z1(1) u Let_def
      by (rule yields_ext [OF z1(2) body])
  qed
qed

lemma scratch_finish:
  assumes "scratch_buf (hdrs z) p z2" "owns z s" "becomes z2 s c r z3"
  shows "\<exists>z4. (if p \<noteq> 0 then zfree p z3 else Inr z3) = Inr z4 \<and> heap_ext z3 z4 \<and> becomes z s c r z4"
proof -
  obtain s' where s': "r = Some s'" "sdsstr s' = c" "owns z3 s'" "zheap_ok z3"
    "blk s' = blk s \<or> hdrs z2 (blk s') = None"
    "hdrs z3 = (hdrs z2)(blk s := None, blk s' \<mapsto> to_size (sdsAllocSize s'))"
    using assms(3) by (auto simp: becomes_def moved_def)
  show ?thesis
  proof (cases "p = 0")
    case True
    then have "hdrs z2 = hdrs z" using assms(1) by (simp add: scratch_buf_def)
    then show ?thesis using True s' by (auto simp: becomes_def moved_def)
  next
    case False
    then obtain m where m: "hdrs z2 = (hdrs z)(p \<mapsto> m)" "hdrs z p = None"
      using assms(1) by (auto simp: scratch_buf_def)
    have ne: "p \<noteq> blk s" "p \<noteq> blk s'" using m assms(2) s'(5) by (auto simp: owns_def)
    then have "hdrs z3 p = Some m" using s'(6) m by simp
    then obtain z4 where z4: "zfree p z3 = Inr z4" "zheap_ok z4" "heap_ext z3 z4"
      "hdrs z4 = (hdrs z3)(p := None)"
      using zfree_returns [OF s'(4)] by blast
    have h: "hdrs z4 = (hdrs z)(blk s := None, blk s' \<mapsto> to_size (sdsAllocSize s'))"
      using z4(4) s'(6) m ne by (auto simp: fun_eq_iff)
    have "hdrs z (blk s') = None \<or> blk s' = blk s" using s'(5) m ne by auto
    with h s' z4 have "becomes z s c r z4" by (auto simp: becomes_def moved_def owns_def)
    then show ?thesis using False z4 by auto
  qed
qed

lemma scratch_start:
  assumes "zheap_ok z" "strlen fmt < 2147483648"
  shows "yields z (let buflen = u64 (strlen fmt * 2) in
      if 1024 < buflen
      then rbind (zmalloc (to_size buflen) z) (\<lambda>(p, z1).
             Inr (if p = 0 then None else Some (p, payload p z1, buflen), z1))
      else Inr (Some (0, stack_bytes 1024 z, 1024), z))
    (\<lambda>r z1. \<exists>p b n. r = Some (p, b, int n) \<and> scratch_buf (hdrs z) p z1 \<and> length b = n \<and>
       1024 \<le> n \<and> n < 4294967296)"
proof -
  let ?n = "length (cstr fmt) * 2"
  have u: "u64 (strlen fmt * 2) = int ?n" and n: "?n < 4294967296"
    using assms(2) by (simp_all add: strlen_def cint_simps)
  show ?thesis
  proof (cases "1024 < ?n")
    case True
    then have "1024 < int ?n" by linarith
    with True show ?thesis unfolding u Let_def using n
      by simp (rule yields_bind [OF scratch_new [OF assms(1) refl n, simplified]], auto)
  next
    case False
    then have "\<not> 1024 < int ?n" by linarith
    then show ?thesis unfolding u Let_def using assms(1)
      by (simp add: scratch_buf_def stack_bytes_def exI [of _ 1024])
  qed
qed

lemma scratch_owns: "scratch_buf (hdrs z) p z1 \<Longrightarrow> owns z s \<Longrightarrow> owns z1 s"
  by (auto simp: scratch_buf_def owns_def split: if_splits)

lemma sdscatvprintf_yields:
  fixes format :: "char list \<Rightarrow> 'va \<Rightarrow> char list"
  assumes ok: "zheap_ok z" and own: "owns z s" and fmt: "strlen fmt < 2147483648"
    and out: "length (format fmt ap) < 1073741824" "len s + strlen (format fmt ap) < SDS_LIMIT"
  shows "yields z (sdscatvprintf format s fmt ap z) (becomes z s (sdsstr s @ cstr (format fmt ap)))"
proof -
  let ?o = "format fmt ap"
  have finish: "yields z2 (rbind (sdscat s b2 z2) (\<lambda>(t, z3).
        rbind (if p2 \<noteq> 0 then zfree p2 z3 else Inr z3) (\<lambda>z4. Inr (t, z4))))
      (becomes z s (sdsstr s @ cstr ?o))"
    if a: "scratch_buf (hdrs z) p2 z2" "cstr b2 = cstr ?o" for p2 b2 z2
  proof (rule yields_bind)
    show "yields z2 (sdscat s b2 z2) (becomes z2 s (sdsstr s @ cstr ?o))"
      using sdscat_yields [OF _ scratch_owns [OF a(1) own], of b2] a out(2)
      by (simp add: scratch_buf_def strlen_def)
  next
    fix t z3 assume "becomes z2 s (sdsstr s @ cstr ?o) t z3"
    from scratch_finish [OF a(1) own this]
    show "yields z3 ((\<lambda>(t, z3). rbind (if p2 \<noteq> 0 then zfree p2 z3 else Inr z3) (\<lambda>z4. Inr (t, z4))) (t, z3))
        (becomes z s (sdsstr s @ cstr ?o))"
      by auto
  qed
  have loop: "yields z1 (rbind (vprintf_loop 64 p b (int n) ?o z1) (\<lambda>(r2, z2).
        case r2 of None \<Rightarrow> Inr (None, z2) | Some (p2, b2) \<Rightarrow>
          rbind (sdscat s b2 z2) (\<lambda>(t, z3).
          rbind (if p2 \<noteq> 0 then zfree p2 z3 else Inr z3) (\<lambda>z4. Inr (t, z4)))))
      (becomes z s (sdsstr s @ cstr ?o))"
    if "scratch_buf (hdrs z) p z1" "length b = n" "1024 \<le> n" "n < 4294967296" for p b n z1
  proof (rule yields_bind)
    have "length ?o + 2 \<le> n * 2 ^ 63" using out(1) that(3) by simp
    moreover have "2 \<le> n" "(64::nat) = Suc 63" using that(3) by simp_all
    ultimately show "yields z1 (vprintf_loop 64 p b (int n) ?o z1)
        (\<lambda>r z'. \<exists>p' b'. r = Some (p', b') \<and> scratch_buf (hdrs z) p' z' \<and> cstr b' = cstr ?o)"
      using vprintf_loop_yields [OF that(1,2) _ that(4) out(1), of 63] by (simp only:)
  qed (auto simp only: prod.case option.case intro: finish)
  show ?thesis
    unfolding sdscatvprintf_def Let_def
    by (rule yields_bind [OF scratch_start [OF ok fmt, unfolded Let_def]])
      (auto simp only: prod.case option.case intro: loop)
qed

subsection \<open>\<open>sdscatfmt\<close>\<close>

datatype fmt_arg =
    ArgStr "char list"
  | ArgSds sds
  | ArgInt int
  | ArgLongLong int
  | ArgUInt int
  | ArgULongLong int

definition fmt_room :: "sds \<Rightarrow> int \<Rightarrow> zheap \<Rightarrow> (sds \<times> zheap) res" where
  \<comment> \<open>\<open>s = sdsMakeRoomFor(s,l); sh = (void*) (s-(sizeof(struct sdshdr)));\<close>, a \<open>NULL\<close> is used\<close>
  "fmt_room s l z =
     rbind (sdsMakeRoomFor s l z) (\<lambda>(r, z1). case r of None \<Rightarrow> Inl BadAccess | Some s1 \<Rightarrow> Inr (s1, z1))"

definition fmt_put :: "sds \<Rightarrow> int \<Rightarrow> char list \<Rightarrow> int \<Rightarrow> zheap \<Rightarrow> ((sds \<times> int) \<times> zheap) res" where
  \<comment> \<open>room for \<open>l\<close> bytes, \<open>memcpy(s+i,str,l)\<close> and the three updates\<close>
  "fmt_put s i str l z =
     rbind (if u64 (free s) < l then fmt_room s l z else Inr (s, z)) (\<lambda>(s1, z1).
     rbind (read_bytes str 0 l) (\<lambda>d.
     rbind (write_bytes (buf s1) i d) (\<lambda>b.
     Inr ((s1\<lparr>len := s32 (u64 (len s1 + l)), free := s32 (u64 (free s1 - l)), buf := b\<rparr>,
           s32 (u64 (i + l))), z1))))"

definition fmt_chr :: "sds \<Rightarrow> int \<Rightarrow> char \<Rightarrow> (sds \<times> int) res" where
  \<comment> \<open>\<open>s[i++] = c; sh->len += 1; sh->free -= 1;\<close>\<close>
  "fmt_chr s i c =
     rbind (poke (buf s) i c) (\<lambda>b.
     rbind (c32 (i + 1)) (\<lambda>i1.
     rbind (c32 (len s + 1)) (\<lambda>l.
     rbind (c32 (free s - 1)) (\<lambda>f.
     Inr (s\<lparr>len := l, free := f, buf := b\<rparr>, i1)))))"

definition fmt_item ::
  "char \<Rightarrow> fmt_arg list \<Rightarrow> zheap \<Rightarrow> ((char list \<times> int) option \<times> fmt_arg list) res"
where
  \<comment> \<open>the bytes to copy for a conversion and their number, \<open>None\<close> for the default case; an
     argument of another type than \<open>va_arg\<close> asks for, or none at all, is \<open>BadAccess\<close>\<close>
  "fmt_item next args z =
     (if next = CHR ''s'' then
        (case args of ArgStr str # rest \<Rightarrow> Inr (Some (str, strlen str), rest) | _ \<Rightarrow> Inl BadAccess)
      else if next = CHR ''S'' then
        (case args of ArgSds str # rest \<Rightarrow> Inr (Some (buf str, sdslen str), rest) | _ \<Rightarrow> Inl BadAccess)
      else if next = CHR ''i'' then
        (case args of ArgInt num # rest \<Rightarrow>
           rbind (sdsll2str (stack_bytes SDS_LLSTR_SIZE z) num) (\<lambda>(b, l). Inr (Some (b, u64 l), rest))
         | _ \<Rightarrow> Inl BadAccess)
      else if next = CHR ''I'' then
        (case args of ArgLongLong num # rest \<Rightarrow>
           rbind (sdsll2str (stack_bytes SDS_LLSTR_SIZE z) num) (\<lambda>(b, l). Inr (Some (b, u64 l), rest))
         | _ \<Rightarrow> Inl BadAccess)
      else if next = CHR ''u'' then
        (case args of ArgUInt unum # rest \<Rightarrow>
           rbind (sdsull2str (stack_bytes SDS_LLSTR_SIZE z) unum) (\<lambda>(b, l). Inr (Some (b, u64 l), rest))
         | _ \<Rightarrow> Inl BadAccess)
      else if next = CHR ''U'' then
        (case args of ArgULongLong unum # rest \<Rightarrow>
           rbind (sdsull2str (stack_bytes SDS_LLSTR_SIZE z) unum) (\<lambda>(b, l). Inr (Some (b, u64 l), rest))
         | _ \<Rightarrow> Inl BadAccess)
      else Inr (None, args))"

fun sdscatfmt_loop ::
  "sds \<Rightarrow> int \<Rightarrow> char list \<Rightarrow> fmt_arg list \<Rightarrow> zheap \<Rightarrow> ((sds \<times> int) \<times> zheap) res"
where
  \<comment> \<open>the list is what the pointer \<open>f\<close> leads to; beyond its end a load is out of bounds\<close>
  "sdscatfmt_loop s i [] args z = Inl BadAccess"
| "sdscatfmt_loop s i (c # f) args z =
     (if c = NUL then Inr ((s, i), z) else
      rbind (if free s = 0 then fmt_room s 1 z else Inr (s, z)) (\<lambda>(s1, z1).
      if c = CHR ''%'' then
        (case f of
           [] \<Rightarrow> Inl BadAccess
         | next # f1 \<Rightarrow>
             rbind (fmt_item next args z1) (\<lambda>(item, args1).
             case item of
               Some (str, l) \<Rightarrow>
                 rbind (fmt_put s1 i str l z1) (\<lambda>((s2, i2), z2). sdscatfmt_loop s2 i2 f1 args1 z2)
             | None \<Rightarrow>
                 rbind (fmt_chr s1 i next) (\<lambda>(s2, i2). sdscatfmt_loop s2 i2 f1 args1 z1)))
      else rbind (fmt_chr s1 i c) (\<lambda>(s2, i2). sdscatfmt_loop s2 i2 f args z1)))"

definition sdscatfmt :: "sds \<Rightarrow> char list \<Rightarrow> fmt_arg list \<Rightarrow> zheap \<Rightarrow> (sds option \<times> zheap) res" where
  "sdscatfmt s fmt args z =
     (let initlen = sdslen s in
      rbind (sdscatfmt_loop s (s32 initlen) (fmt @ [NUL]) args z) (\<lambda>((s1, i), z1).
      rbind (poke (buf s1) i NUL) (\<lambda>b.
      Inr (Some (s1\<lparr>buf := b\<rparr>), z1))))"

subsection \<open>What a format means\<close>

fun arg_text :: "char \<Rightarrow> fmt_arg \<Rightarrow> char list option" where
  "arg_text n (ArgStr t) = (if n = CHR ''s'' then Some (cstr t) else None)"
| "arg_text n (ArgSds t) = (if n = CHR ''S'' \<and> sds_inv t then Some (sdsstr t) else None)"
| "arg_text n (ArgInt v) =
     (if n = CHR ''i'' \<and> - 2147483648 \<le> v \<and> v < 2147483648 then Some (dec_int v) else None)"
| "arg_text n (ArgLongLong v) =
     (if n = CHR ''I'' \<and> - 9223372036854775808 < v \<and> v < 9223372036854775808
      then Some (dec_int v) else None)"
| "arg_text n (ArgUInt v) =
     (if n = CHR ''u'' \<and> 0 \<le> v \<and> v < 4294967296 then Some (dec (nat v)) else None)"
| "arg_text n (ArgULongLong v) =
     (if n = CHR ''U'' \<and> 0 \<le> v \<and> v < 18446744073709551616 then Some (dec (nat v)) else None)"

fun fmt_expand :: "char list \<Rightarrow> fmt_arg list \<Rightarrow> char list option" where
  "fmt_expand [] args = Some []"
| "fmt_expand (c # f) args =
     (if c \<noteq> CHR ''%'' then map_option (\<lambda>t. c # t) (fmt_expand f args)
      else case f of
        [] \<Rightarrow> None
      | n # f1 \<Rightarrow>
          if n \<in> set ''sSiIuU'' then
            (case args of
               [] \<Rightarrow> None
             | a # rest \<Rightarrow>
                 Option.bind (arg_text n a) (\<lambda>x. map_option (\<lambda>t. x @ t) (fmt_expand f1 rest)))
          else map_option (\<lambda>t. n # t) (fmt_expand f1 args))"

definition catting :: "zheap \<Rightarrow> sds \<Rightarrow> char list \<Rightarrow> sds \<times> int \<Rightarrow> zheap \<Rightarrow> bool" where
  \<comment> \<open>the loop has copied up to the contents \<open>c\<close>; the terminator is not yet there\<close>
  "catting z0 s0 c = (\<lambda>(s, i) z. holds z s \<and> zheap_ok z \<and> moved z0 s0 z s \<and> i = len s \<and>
     take (nat (len s)) (buf s) = c)"

lemma moved_trans:
  assumes "moved z s z1 s1" "moved z1 s1 z2 s2"
  shows "moved z s z2 s2"
proof -
  have 1: "blk s1 = blk s \<or> hdrs z (blk s1) = None"
    "hdrs z1 = (hdrs z)(blk s := None, blk s1 \<mapsto> to_size (sdsAllocSize s1))"
    using assms(1) by (auto simp: moved_def)
  have 2: "blk s2 = blk s1 \<or> hdrs z1 (blk s2) = None"
    "hdrs z2 = (hdrs z1)(blk s1 := None, blk s2 \<mapsto> to_size (sdsAllocSize s2))"
    using assms(2) by (auto simp: moved_def)
  have "blk s2 = blk s \<or> hdrs z (blk s2) = None" using 1 2(1) by (auto split: if_splits)
  moreover have "hdrs z2 = (hdrs z)(blk s := None, blk s2 \<mapsto> to_size (sdsAllocSize s2))"
    unfolding 2(2) 1(2) using 1(1) by (auto simp: fun_eq_iff)
  ultimately show ?thesis by (simp add: moved_def)
qed

lemma catting_len: "catting z0 s0 c (s, i) z \<Longrightarrow> len s = int (length c) \<and> i = int (length c)"
  by (auto simp: catting_def holds_def sds_shape_def)

lemma fmt_room_yields:
  assumes "catting z0 s0 c (s, i) z" "0 \<le> l" "int (length c) + l < SDS_LIMIT"
  shows "yields z (fmt_room s l z) (\<lambda>s1 z1. catting z0 s0 c (s1, i) z1 \<and> l \<le> free s1)"
proof -
  have h: "holds z s" "zheap_ok z" "len s + l < SDS_LIMIT"
    using assms(1,3) catting_len [OF assms(1)] by (auto simp: catting_def)
  have "catting z0 s0 c (s1, i) z1" if "buf s1 = buf s @ x" "len s1 = len s" "holds z1 s1"
    "zheap_ok z1" "moved z s z1 s1" for s1 x z1
    using that assms(1) moved_trans [of z0 s0 z s z1 s1]
    by (auto simp: catting_def holds_def sds_shape_def)
  then show ?thesis
    unfolding fmt_room_def
    by (intro yields_bind [OF sdsMakeRoomFor_widens [OF h(2,1) assms(2) h(3)]])
      (auto simp: widened_def)
qed

lemma catting_write:
  assumes "catting z0 s0 c (s, i) z" "int (length d) \<le> free s"
  shows "\<exists>b. write_bytes (buf s) i d = Inr b \<and>
    catting z0 s0 (c @ d) (s\<lparr>len := len s + int (length d), free := free s - int (length d),
      buf := b\<rparr>, i + int (length d)) z"
proof -
  have h: "sds_shape s" "hdrs z (blk s) = Some (to_size (sdsAllocSize s))" "zheap_ok z"
    "moved z0 s0 z s" "take (nat (len s)) (buf s) = c"
    using assms(1) by (auto simp: catting_def holds_def)
  have l: "len s = int (length c)" "i = int (length c)" using catting_len [OF assms(1)] by auto
  have lb: "length c + length d \<le> length (buf s)" using h(1) l assms(2) by (simp add: sds_shape_def)
  let ?b = "take (length c) (buf s) @ d @ drop (length c + length d) (buf s)"
  let ?s = "s\<lparr>len := len s + int (length d), free := free s - int (length d), buf := ?b\<rparr>"
  have w: "write_bytes (buf s) i d = Inr ?b" using lb l by (simp add: mem_simps)
  have "sds_shape ?s" using h(1) assms(2) lb l by (simp add: sds_shape_def of_nat_diff)
  moreover from this have "sdsAllocSize ?s = sdsAllocSize s"
    using h(1) by (simp add: sdsAllocSize_shape)
  moreover have "take (nat (len ?s)) (buf ?s) = c @ d"
    using l h(5) lb by (simp add: nat_int_add)
  ultimately have "catting z0 s0 (c @ d) (?s, i + int (length d)) z"
    using h l by (simp add: catting_def holds_def moved_def)
  with w show ?thesis by blast
qed

lemma fmt_put_yields:
  assumes cat: "catting z0 s0 c (s, i) z" and d: "n \<le> length str"
    and lim: "int (length c) + int n < SDS_LIMIT"
  shows "yields z (fmt_put s i str (int n) z) (catting z0 s0 (c @ take n str))"
proof -
  have room: "yields z (if u64 (free s) < int n then fmt_room s (int n) z else Inr (s, z))
      (\<lambda>s1 z1. catting z0 s0 c (s1, i) z1 \<and> int n \<le> free s1)"
    using fmt_room_yields [OF cat _ lim] cat
    by (auto simp: catting_def holds_def sds_shape_def cint_simps)
  have put: "yields z1 (rbind (read_bytes str 0 (int n)) (\<lambda>d. rbind (write_bytes (buf s1) i d) (\<lambda>b.
        Inr ((s1\<lparr>len := s32 (u64 (len s1 + int n)), free := s32 (u64 (free s1 - int n)), buf := b\<rparr>,
           s32 (u64 (i + int n))), z1)))) (catting z0 s0 (c @ take n str))"
    if a: "catting z0 s0 c (s1, i) z1" "int n \<le> free s1" for s1 z1
  proof -
    obtain b where b: "write_bytes (buf s1) i (take n str) = Inr b"
      "catting z0 s0 (c @ take n str) (s1\<lparr>len := len s1 + int n, free := free s1 - int n,
        buf := b\<rparr>, i + int n) z1"
      using catting_write [OF a(1), of "take n str"] a(2) d by (auto simp: min_absorb2)
    have "s32 (len s1 + int n) = len s1 + int n" "s32 (free s1 - int n) = free s1 - int n"
      "s32 (i + int n) = i + int n"
      using a by (auto simp: catting_def holds_def sds_shape_def cint_simps)
    then show ?thesis using b d by (simp add: mem_simps)
  qed
  show ?thesis
    unfolding fmt_put_def by (rule yields_bind [OF room]) (auto simp only: prod.case intro: put)
qed

lemma fmt_chr_puts:
  assumes cat: "catting z0 s0 c (s, i) z" and f: "1 \<le> free s"
  shows "\<exists>s1 i1. fmt_chr s i x = Inr (s1, i1) \<and> catting z0 s0 (c @ [x]) (s1, i1) z"
proof -
  obtain b where b: "write_bytes (buf s) i [x] = Inr b"
    "catting z0 s0 (c @ [x]) (s\<lparr>len := len s + 1, free := free s - 1, buf := b\<rparr>, i + 1) z"
    using catting_write [OF cat, of "[x]"] f by auto
  have i: "0 \<le> i" "i < int (length (buf s))" "sds_shape s"
    using cat f by (auto simp: catting_def holds_def sds_shape_def)
  then have p: "poke (buf s) i x = Inr b"
    using b(1) upd_conv_take_nth_drop [of "nat i" "buf s" x]
    by (auto simp: poke_def write_bytes_def split: if_splits)
  have "c32 (i + 1) = Inr (i + 1)" "c32 (len s + 1) = Inr (len s + 1)" "c32 (free s - 1) = Inr (free s - 1)"
    using cat f by (auto simp: catting_def holds_def sds_shape_def cint_simps)
  then show ?thesis using b p by (simp add: fmt_chr_def)
qed

lemma fmt_item_conv:
  assumes "n \<in> set ''sSiIuU''" "arg_text n a = Some x"
  shows "\<exists>str. fmt_item n (a # rest) z = Inr (Some (str, int (length x)), rest) \<and>
    length x \<le> length str \<and> take (length x) str = x"
proof -
  have ll: "\<exists>str. rbind (sdsll2str (stack_bytes SDS_LLSTR_SIZE z) v)
        (\<lambda>(b, l). Inr (Some (b, u64 l), rest)) = Inr (Some (str, int (length (dec_int v))), rest) \<and>
      length (dec_int v) \<le> length str \<and> take (length (dec_int v)) str = dec_int v"
    if "- 9223372036854775808 < v" "v < 9223372036854775808" for v
  proof -
    have l: "length (dec_int v) \<le> 20" using that by (intro dec_int_length) simp_all
    then show ?thesis
      using sdsll2str_writes [of v "stack_bytes SDS_LLSTR_SIZE z"] that
      by (simp add: stack_bytes_def SDS_LLSTR_SIZE_def cint_simps)
  qed
  have ull: "\<exists>str. rbind (sdsull2str (stack_bytes SDS_LLSTR_SIZE z) v)
        (\<lambda>(b, l). Inr (Some (b, u64 l), rest)) = Inr (Some (str, int (length (dec (nat v)))), rest) \<and>
      length (dec (nat v)) \<le> length str \<and> take (length (dec (nat v))) str = dec (nat v)"
    if "0 \<le> v" "v < 18446744073709551616" for v
  proof -
    have l: "length (dec (nat v)) \<le> 20" using that by (intro dec_length) simp_all
    then show ?thesis
      using sdsull2str_writes [of v "stack_bytes SDS_LLSTR_SIZE z"]
      by (simp add: stack_bytes_def SDS_LLSTR_SIZE_def cint_simps)
  qed
  show ?thesis
  proof (cases a)
    case (ArgStr t)
    then show ?thesis using assms length_cstr_le [of t]
      by (auto simp: fmt_item_def strlen_def split: if_splits)
  next
    case (ArgSds t)
    then show ?thesis using assms
      by (auto simp: fmt_item_def sdslen_eq length_sdsstr take_len_buf length_sdsstr_le
          split: if_splits)
  qed (use assms ll ull in \<open>auto simp: fmt_item_def split: if_splits\<close>)
qed

lemma fmt_first_room:
  assumes "catting z0 s0 c (s, i) z" "int (length c) + 1 < SDS_LIMIT"
  shows "yields z (if free s = 0 then fmt_room s 1 z else Inr (s, z))
    (\<lambda>s1 z1. catting z0 s0 c (s1, i) z1 \<and> 1 \<le> free s1)"
  using fmt_room_yields [OF assms(1) _ assms(2)] assms(1)
  by (auto simp: catting_def holds_def sds_shape_def)

lemma sdscatfmt_loop_yields:
  assumes "catting z0 s0 c (s, i) z" "NUL \<notin> set f" "fmt_expand f args = Some out"
    "int (length c) + int (length out) + 1 < SDS_LIMIT"
  shows "yields z (sdscatfmt_loop s i (f @ NUL # rest) args z) (catting z0 s0 (c @ out))"
  using assms
proof (induction f args arbitrary: s i z c out rule: fmt_expand.induct)
  case (1 args)
  then show ?case by simp
next
  case (2 x f args)
  have room: "yields z (if free s = 0 then fmt_room s 1 z else Inr (s, z))
      (\<lambda>s1 z1. catting z0 s0 c (s1, i) z1 \<and> 1 \<le> free s1)"
    by (rule fmt_first_room [OF 2(4)]) (use 2(7) in linarith)
  have nul: "x \<noteq> NUL" using 2(5) by auto
  consider (lit) "x \<noteq> CHR ''%''" | (conv) n f1 where "x = CHR ''%''" "f = n # f1" "n \<in> set ''sSiIuU''"
    | (plain) n f1 where "x = CHR ''%''" "f = n # f1" "n \<notin> set ''sSiIuU''"
    using 2(6) by (cases f) (auto split: if_splits)
  then show ?case
  proof cases
    case lit
    then obtain o1 where o1: "out = x # o1" "fmt_expand f args = Some o1" using 2(6) by auto
    have step: "yields z1 (rbind (fmt_chr s1 i x) (\<lambda>(s2, i2). sdscatfmt_loop s2 i2 (f @ NUL # rest) args z1))
        (catting z0 s0 (c @ out))" if a: "catting z0 s0 c (s1, i) z1" "1 \<le> free s1" for s1 z1
    proof -
      obtain s2 i2 where "fmt_chr s1 i x = Inr (s2, i2)" "catting z0 s0 (c @ [x]) (s2, i2) z1"
        using fmt_chr_puts [OF a] by blast
      then show ?thesis using 2(1) [OF lit _ _ o1(2), of "c @ [x]" s2 i2 z1] 2(5,7) o1(1) by simp
    qed
    show ?thesis
      unfolding append_Cons sdscatfmt_loop.simps(2) if_not_P [OF nul] if_not_P [OF lit]
      by (rule yields_bind [OF room]) (auto simp only: prod.case intro: step)
  next
    case conv
    then obtain a rest' y o1 where o1: "args = a # rest'" "arg_text n a = Some y"
      "fmt_expand f1 rest' = Some o1" "out = y @ o1"
      using 2(6) by (auto split: list.splits simp: bind_eq_Some_conv simp del: set_simps)
    have step: "yields z1 (rbind (fmt_item n args z1) (\<lambda>(item, args1).
          case item of
            Some (str, l) \<Rightarrow>
              rbind (fmt_put s1 i str l z1) (\<lambda>((s2, i2), z2). sdscatfmt_loop s2 i2 (f1 @ NUL # rest) args1 z2)
          | None \<Rightarrow> rbind (fmt_chr s1 i n) (\<lambda>(s2, i2). sdscatfmt_loop s2 i2 (f1 @ NUL # rest) args1 z1)))
        (catting z0 s0 (c @ out))" if a1: "catting z0 s0 c (s1, i) z1" for s1 z1
    proof -
      obtain str where str: "fmt_item n args z1 = Inr (Some (str, int (length y)), rest')"
        "length y \<le> length str" "take (length y) str = y"
        using fmt_item_conv [OF conv(3) o1(2)] o1(1) by blast
      have put: "yields z1 (fmt_put s1 i str (int (length y)) z1) (catting z0 s0 (c @ y))"
        using fmt_put_yields [OF a1 str(2)] str(3) 2(7) o1(4) by simp
      have "yields z2 (sdscatfmt_loop s2 i2 (f1 @ NUL # rest) rest' z2) (catting z0 s0 (c @ out))"
        if "catting z0 s0 (c @ y) (s2, i2) z2" for s2 i2 z2
        using 2(2) [of n f1 a rest' y, OF _ conv(2,3) o1(1,2) that _ o1(3)] conv(1,2) 2(5,7) o1(4) by simp
      then show ?thesis
        unfolding str(1) rbind.simps prod.case option.case
        by (intro yields_bind [OF put]) (auto simp only: prod.case)
    qed
    show ?thesis
      unfolding append_Cons sdscatfmt_loop.simps(2) if_not_P [OF nul] if_P [OF conv(1)] conv(2) list.case
      by (rule yields_bind [OF room]) (auto simp only: prod.case intro: step)
  next
    case plain
    then obtain o1 where o1: "out = n # o1" "fmt_expand f1 args = Some o1" using 2(6) by auto
    have it: "fmt_item n args z1 = Inr (None, args)" for z1 using plain(3) by (simp add: fmt_item_def)
    have step: "yields z1 (rbind (fmt_chr s1 i n) (\<lambda>(s2, i2). sdscatfmt_loop s2 i2 (f1 @ NUL # rest) args z1))
        (catting z0 s0 (c @ out))" if a: "catting z0 s0 c (s1, i) z1" "1 \<le> free s1" for s1 z1
    proof -
      obtain s2 i2 where "fmt_chr s1 i n = Inr (s2, i2)" "catting z0 s0 (c @ [n]) (s2, i2) z1"
        using fmt_chr_puts [OF a] by blast
      then show ?thesis
        using 2(3) [of n f1, OF _ plain(2,3) _ _ o1(2), of "c @ [n]" s2 i2 z1] plain(1,2) 2(5,7) o1(1)
        by simp
    qed
    show ?thesis
      unfolding append_Cons sdscatfmt_loop.simps(2) if_not_P [OF nul] if_P [OF plain(1)] plain(2)
        list.case it rbind.simps prod.case option.case
      by (rule yields_bind [OF room]) (auto simp only: prod.case intro: step)
  qed
qed

lemma catting_start: "owns z s \<Longrightarrow> zheap_ok z \<Longrightarrow> catting z s (sdsstr s) (s, len s) z"
  by (simp add: catting_def owns_holds owns_moved_refl sdsstr_def)

lemma catting_finish:
  assumes "catting z0 s0 c (s, i) z"
  shows "\<exists>b. poke (buf s) i NUL = Inr b \<and> becomes z0 s0 c (Some (s\<lparr>buf := b\<rparr>)) z"
proof -
  have h: "sds_shape s" "holds z s" "zheap_ok z" "moved z0 s0 z s" "take (nat (len s)) (buf s) = c"
    "i = len s"
    using assms by (auto simp: catting_def holds_def)
  have n: "nat (len s) < length (buf s)" "int (nat (len s)) = len s"
    using h(1) by (auto simp: sds_shape_def)
  have "inplace s c (rbind (poke (buf s) (len s) NUL) (\<lambda>b. Inr (s\<lparr>buf := b\<rparr>)))"
    using inplace_poke [OF h(1) n(1)] h(5) n(2) by simp
  then obtain b where b: "poke (buf s) i NUL = Inr b" "inplace s c (Inr (s\<lparr>buf := b\<rparr>))"
    unfolding h(6) by (cases "poke (buf s) (len s) NUL") (auto simp: inplace_def)
  from inplace_owns [OF b(2) h(2)] b(2) h(3,4) have "becomes z0 s0 c (Some (s\<lparr>buf := b\<rparr>)) z"
    by (auto simp: becomes_def inplace_def moved_def)
  with b(1) show ?thesis by blast
qed

lemma sdscatfmt_yields:
  assumes "zheap_ok z" "owns z s" "fmt_expand (cstr fmt) args = Some out"
    "len s + int (length out) + 1 < SDS_LIMIT"
  shows "yields z (sdscatfmt s fmt args z) (becomes z s (sdsstr s @ out))"
proof -
  have inv: "sds_inv s" using assms(2) by (simp add: owns_def)
  have l: "s32 (sdslen s) = len s" using inv by (simp add: sdslen_eq sds_inv_def cint_simps)
  obtain rest where f: "fmt @ [NUL] = cstr fmt @ NUL # rest"
    using cstr_split [of fmt] by blast
  have run: "yields z (sdscatfmt_loop s (len s) (fmt @ [NUL]) args z) (catting z s (sdsstr s @ out))"
    unfolding f using assms(4) length_owned [OF assms(2)]
    by (intro sdscatfmt_loop_yields [OF catting_start [OF assms(2,1)] _ assms(3)]) simp_all
  have fin: "yields z1 (rbind (poke (buf s1) i NUL) (\<lambda>b. Inr (Some (s1\<lparr>buf := b\<rparr>), z1)))
      (becomes z s (sdsstr s @ out))" if "catting z s (sdsstr s @ out) (s1, i) z1" for s1 i z1
    using catting_finish [OF that] by auto
  show ?thesis
    unfolding sdscatfmt_def Let_def l
    by (rule yields_bind [OF run]) (auto simp only: prod.case intro: fin split: prod.splits)
qed

subsection \<open>Correctness of the text operations\<close>



text \<open>
  C31. Whatever text the formatting of the C library produces, \<open>sdscatvprintf\<close> appends it up
  to its first zero byte: the retries with doubled buffers end, no access leaves the scratch
  buffer although its size is probed by the byte before the last, and every scratch buffer
  is released.
\<close>

theorem sdscatvprintf_appends:
  fixes format :: "char list \<Rightarrow> 'va \<Rightarrow> char list"
  assumes "zheap_ok z" "owns z s" "strlen fmt < 2147483648"
    and "length (format fmt ap) < 1073741824" "len s + strlen (format fmt ap) < SDS_LIMIT"
  shows "yields z (sdscatprintf format s fmt ap z) (becomes z s (sdsstr s @ cstr (format fmt ap)))"
  unfolding sdscatprintf_def using assms by (rule sdscatvprintf_yields)

theorem sdscatvprintf_appends_witness:
  "yields sample_heap
     (sdscatprintf (\<lambda>f n. replicate n CHR ''x'') sample_sds ''%*d'' 3000 sample_heap)
     (becomes sample_heap sample_sds (''ab'' @ replicate 3000 CHR ''x''))"
  using sdscatvprintf_appends [OF sample_heap_ok sample_owned, of "''%*d''" "\<lambda>f n. replicate n CHR ''x''" 3000]
  by (simp add: sample_simps SDS_LIMIT_def SDS_MAX_PREALLOC_def strlen_def cstr_def)

text \<open>
  C15. \<open>sdscatfmt\<close> appends exactly the expansion of its format: \<open>%s\<close>, \<open>%S\<close>, \<open>%i\<close>, \<open>%I\<close>,
  \<open>%u\<close>, \<open>%U\<close> consume an argument of their type, any other character after \<open>%\<close> stands for
  itself. All stores stay inside the buffer, although the string is not terminated while it
  grows, and the result is well formed.
\<close>

theorem sdscatfmt_expands:
  assumes "zheap_ok z" "owns z s" "fmt_expand (cstr fmt) args = Some out"
    "len s + int (length out) + 1 < SDS_LIMIT"
  shows "yields z (sdscatfmt s fmt args z) (becomes z s (sdsstr s @ out))"
  using assms by (rule sdscatfmt_yields)

theorem sdscatfmt_expands_witness:
  "yields sample_heap (sdscatfmt sample_sds ''%s=%i%%'' [ArgStr ''x'', ArgInt (- 42)] sample_heap)
     (becomes sample_heap sample_sds ''abx=-42%'')"
proof -
  have c: "cstr ''%s=%i%%'' = ''%s=%i%%''" by (simp add: cstr_def)
  have d: "dec_int (- 42) = ''-42''"
    by code_simp
  show ?thesis
    using sdscatfmt_expands [OF sample_heap_ok sample_owned, of "''%s=%i%%''"
        "[ArgStr ''x'', ArgInt (- 42)]" "''x=-42%''"]
    by (simp add: c d sample_simps SDS_LIMIT_def SDS_MAX_PREALLOC_def cstr_def)
qed

text \<open>
  \<open>sdstrim\<close> removes, in place, the longest prefix and the longest suffix that consist of
  characters of \<open>cset\<close> and nothing else; a zero byte counts as one of them, because
  \<open>strchr\<close> also finds the terminator.
\<close>

theorem sdstrim_trims:
  assumes "sds_inv s"
  shows "inplace s (rev (dropWhile (\<lambda>c. c \<in> set (cstr cset) \<or> c = NUL)
      (rev (dropWhile (\<lambda>c. c \<in> set (cstr cset) \<or> c = NUL) (sdsstr s))))) (sdstrim s cset)"
  using sdstrim_inplace [OF assms, of cset] by (simp add: trimmed_def strchr_hit_def [abs_def])

theorem sdstrim_trims_witness:
  "inplace \<lparr>blk = 1, len = 5, free = 0, buf = ''xaxbx'' @ [NUL]\<rparr> ''axb''
     (sdstrim \<lparr>blk = 1, len = 5, free = 0, buf = ''xaxbx'' @ [NUL]\<rparr> ''xy'')"
  using sdstrim_trims [of "\<lparr>blk = 1, len = 5, free = 0, buf = ''xaxbx'' @ [NUL]\<rparr>" "''xy''"]
  by (simp add: sds_inv_def sdsstr_def cstr_def)

text \<open>
  \<open>sdsrange\<close> keeps, in place, the bytes between two inclusive indices, where a negative
  index counts from the end and an index outside the string is clipped. Only an end of
  \<open>INT_MAX\<close> with a start of 0 is beyond it: the computed length overflows \<open>int\<close>.
\<close>

theorem sdsrange_slices:
  assumes "sds_inv s" "- 2147483648 \<le> i" "i < 2147483648" "- 2147483648 \<le> j" "j < 2147483647"
  shows "inplace s (slice i j (sdsstr s)) (sdsrange s i j) \<and>
    (len s \<noteq> 0 \<longrightarrow> sdsrange s 0 2147483647 = Inl SignedOverflow)"
  using sdsrange_inplace [OF assms] assms(1)
  by (simp add: sdsrange_def Let_def sdslen_eq c32_def)

theorem sdsrange_slices_witness:
  "inplace \<lparr>blk = 1, len = 5, free = 0, buf = ''Hello'' @ [NUL]\<rparr> ''ello''
     (sdsrange \<lparr>blk = 1, len = 5, free = 0, buf = ''Hello'' @ [NUL]\<rparr> 1 (- 1))"
  using sdsrange_slices [of "\<lparr>blk = 1, len = 5, free = 0, buf = ''Hello'' @ [NUL]\<rparr>" 1 "- 1"]
  by (simp add: sds_inv_def sdsstr_def slice_def)

text \<open>
  \<open>sdscmp\<close> orders strings by their bytes as \<open>unsigned char\<close>, a proper prefix before the
  longer string: its sign is the lexicographic comparison of the contents, and it is zero
  exactly for equal contents.
\<close>

theorem sdscmp_lexicographic:
  assumes "sds_inv s" "sds_inv t"
  shows "\<exists>v. sdscmp s t = Inr v \<and>
    (v < 0 \<longleftrightarrow> (sdsstr s, sdsstr t) \<in> lexord {(x, y). code x < code y}) \<and>
    (v > 0 \<longleftrightarrow> (sdsstr t, sdsstr s) \<in> lexord {(x, y). code x < code y}) \<and>
    (v = 0 \<longleftrightarrow> sdsstr s = sdsstr t)"
proof -
  obtain v where v: "sdscmp s t = Inr v"
    "sgn v = (if (sdsstr s, sdsstr t) \<in> lexord byte_less then - 1
              else if (sdsstr t, sdsstr s) \<in> lexord byte_less then 1 else 0)"
    using sdscmp_sign [OF assms] by blast
  have "v < 0 \<longleftrightarrow> sgn v = - 1" "v > 0 \<longleftrightarrow> sgn v = 1" "v = 0 \<longleftrightarrow> sgn v = 0"
    by (auto simp: sgn_if)
  moreover have "sdsstr s = sdsstr t \<or> (sdsstr s, sdsstr t) \<in> lexord byte_less \<or>
      (sdsstr t, sdsstr s) \<in> lexord byte_less"
    using lexord_linear [of byte_less] byte_less_total by blast
  ultimately show ?thesis
    using v byte_lex_asym [of "sdsstr s" "sdsstr t"] byte_lex_asym [of "sdsstr s" "sdsstr s"]
    unfolding byte_less_def [symmetric] by (intro exI [of _ v]) (auto split: if_splits)
qed

theorem sdscmp_lexicographic_witness:
  "\<exists>v. sdscmp sample_sds \<lparr>blk = 2, len = 1, free = 0, buf = ''b'' @ [NUL]\<rparr> = Inr v \<and> v < 0"
proof -
  have "(''ab'', ''b'') \<in> lexord {(x, y). code x < code y}" by (simp add: code_def)
  then show ?thesis
    using sdscmp_lexicographic [of sample_sds "\<lparr>blk = 2, len = 1, free = 0, buf = ''b'' @ [NUL]\<rparr>"]
      sample_simps by (auto simp: sds_inv_def sdsstr_def)
qed

end
