(* ===== verification/Sds_Build.thy ===== *)
theory Sds_Build
  imports Sds_Text
begin

text \<open>
  The operations of \<open>sds.c\<close> that build a string by repeated appends (\<open>sdscatrepr\<close>,
  \<open>sdsjoin\<close>), and \<open>sdsmapchars\<close>. Their loops share the contract of the locale
  \<open>appender\<close>: a step that appends a known text, and the fold of it over a list.
\<close>

definition chain ::
  "(sds option \<times> zheap) res \<Rightarrow> (sds \<Rightarrow> zheap \<Rightarrow> 'b res) \<Rightarrow> 'b res"
where
  \<comment> \<open>the result is used without a check for \<open>NULL\<close>\<close>
  "chain m f = rbind m (\<lambda>(r, z). case r of None \<Rightarrow> Inl BadAccess | Some s \<Rightarrow> f s z)"

lemma chain_cong [fundef_cong]:
  "m = m' \<Longrightarrow> (\<And>s z. m' = Inr (Some s, z) \<Longrightarrow> f s z = f' s z) \<Longrightarrow> chain m f = chain m' f'"
  by (cases m') (auto simp: chain_def split: option.splits)

subsection \<open>\<open>sdscatrepr\<close>\<close>

definition hex_char :: "int \<Rightarrow> char" where
  "hex_char n = (if n < 10 then chr (48 + n) else chr (87 + n))"

fun printf_text :: "char list \<Rightarrow> int list \<Rightarrow> char list" where
  \<comment> \<open>what the C library makes of a format with the conversions \<open>%c\<close> and \<open>%02x\<close>\<close>
  "printf_text [] vs = []"
| "printf_text (c # f) vs =
     (if c = CHR ''%'' \<and> take 1 f = ''c'' \<and> vs \<noteq> [] then chr (hd vs) # printf_text (drop 1 f) (tl vs)
      else if c = CHR ''%'' \<and> take 3 f = ''02x'' \<and> vs \<noteq> [] then
        hex_char (hd vs div 16) # hex_char (hd vs mod 16) # printf_text (drop 3 f) (tl vs)
      else c # printf_text f vs)"

definition repr_char :: "sds \<Rightarrow> char \<Rightarrow> zheap \<Rightarrow> (sds option \<times> zheap) res" where
  \<comment> \<open>the \<open>switch(*p)\<close> of \<open>sdscatrepr\<close>\<close>
  "repr_char s c z =
     (if c = CHR 0x5C \<or> c = CHR 0x22 then sdscatprintf printf_text s [CHR 0x5C, CHR ''%'', CHR ''c''] [code c] z
      else if c = CHR 0x0A then sdscatlen s [CHR 0x5C, CHR ''n''] 2 z
      else if c = CHR 0x0D then sdscatlen s [CHR 0x5C, CHR ''r''] 2 z
      else if c = CHR 0x09 then sdscatlen s [CHR 0x5C, CHR ''t''] 2 z
      else if c = CHR 0x07 then sdscatlen s [CHR 0x5C, CHR ''a''] 2 z
      else if c = CHR 0x08 then sdscatlen s [CHR 0x5C, CHR ''b''] 2 z
      else if isprint c then sdscatprintf printf_text s ''%c'' [code c] z
      else sdscatprintf printf_text s (CHR 0x5C # ''x%02x'') [code c] z)"

fun repr_loop :: "sds \<Rightarrow> char list \<Rightarrow> nat \<Rightarrow> zheap \<Rightarrow> (sds option \<times> zheap) res" where
  "repr_loop s p 0 z = Inr (Some s, z)"
| "repr_loop s [] (Suc n) z = Inl BadAccess"
| "repr_loop s (c # p) (Suc n) z = chain (repr_char s c z) (\<lambda>s1 z1. repr_loop s1 p n z1)"

definition sdscatrepr :: "sds \<Rightarrow> char list \<Rightarrow> nat \<Rightarrow> zheap \<Rightarrow> (sds option \<times> zheap) res" where
  "sdscatrepr s p n z =
     chain (sdscatlen s [CHR 0x22] 1 z) (\<lambda>s1 z1.
     chain (repr_loop s1 p n z1) (\<lambda>s2 z2.
     sdscatlen s2 [CHR 0x22] 1 z2))"

subsection \<open>\<open>sdsjoin\<close> and \<open>sdsmapchars\<close>\<close>

fun join_loop :: "sds \<Rightarrow> char list list \<Rightarrow> char list \<Rightarrow> zheap \<Rightarrow> (sds option \<times> zheap) res" where
  \<comment> \<open>the list is \<open>argv[j..argc-1]\<close>, so \<open>j != argc-1\<close> says that a further element follows\<close>
  "join_loop join [] sep z = Inr (Some join, z)"
| "join_loop join (a # argv) sep z =
     chain (sdscat join a z) (\<lambda>join1 z1.
     chain (if argv \<noteq> [] then sdscat join1 sep z1 else Inr (Some join1, z1)) (\<lambda>join2 z2.
     join_loop join2 argv sep z2))"

definition sdsjoin :: "char list list \<Rightarrow> char list \<Rightarrow> zheap \<Rightarrow> (sds option \<times> zheap) res" where
  "sdsjoin argv sep z = chain (sdsempty z) (\<lambda>join z1. join_loop join argv sep z1)"

function map_find :: "char \<Rightarrow> char list \<Rightarrow> char list \<Rightarrow> int \<Rightarrow> int \<Rightarrow> char option res" where
  \<comment> \<open>\<open>for (i = 0; i < setlen; i++) if (s[j] == from[i]) { s[j] = to[i]; break; }\<close>\<close>
  "map_find c from to i setlen =
     (if i < setlen then
        rbind (peek from i) (\<lambda>x.
        if c = x then rbind (peek to i) (\<lambda>y. Inr (Some y)) else map_find c from to (i + 1) setlen)
      else Inr None)"
  by pat_completeness auto
termination by (relation "measure (\<lambda>(c, from, to, i, setlen). nat (setlen - i))") auto

function map_loop :: "char list \<Rightarrow> char list \<Rightarrow> char list \<Rightarrow> int \<Rightarrow> int \<Rightarrow> int \<Rightarrow> char list res" where
  "map_loop b from to setlen j l =
     (if j < l then
        rbind (peek b j) (\<lambda>c.
        rbind (map_find c from to 0 setlen) (\<lambda>r.
        rbind (case r of None \<Rightarrow> Inr b | Some y \<Rightarrow> poke b j y) (\<lambda>b1.
        map_loop b1 from to setlen (j + 1) l)))
      else Inr b)"
  by pat_completeness auto
termination by (relation "measure (\<lambda>(b, from, to, setlen, j, l). nat (l - j))") auto

declare map_find.simps [simp del] map_loop.simps [simp del]

definition sdsmapchars :: "sds \<Rightarrow> char list \<Rightarrow> char list \<Rightarrow> int \<Rightarrow> sds res" where
  "sdsmapchars s from to setlen =
     rbind (map_loop (buf s) from to setlen 0 (sdslen s)) (\<lambda>b. Inr (s\<lparr>buf := b\<rparr>))"

subsection \<open>Loops of appends\<close>

lemma chain_becomes:
  assumes "yields z m (becomes z s c)"
    and "\<And>s1 z1. sdsstr s1 = c \<Longrightarrow> owns z1 s1 \<Longrightarrow> zheap_ok z1 \<Longrightarrow> yields z1 (f s1 z1) (becomes z1 s1 d)"
  shows "yields z (chain m f) (becomes z s d)"
  unfolding chain_def
proof (rule yields_bind [OF assms(1)])
  fix r z1 assume b: "becomes z s c r z1"
  then obtain s1 where s1: "r = Some s1" "sdsstr s1 = c" "owns z1 s1" "zheap_ok z1" "moved z s z1 s1"
    by (auto simp: becomes_def)
  have "yields z1 (f s1 z1) (becomes z s d)"
    using assms(2) [OF s1(2-4)] by (rule yields_mono)
      (use s1(5) moved_trans in \<open>auto simp: becomes_def\<close>)
  then show "yields z1 ((\<lambda>(r, z). case r of None \<Rightarrow> Inl BadAccess | Some s \<Rightarrow> f s z) (r, z1)) (becomes z s d)"
    by (simp add: s1(1))
qed

lemma chain_created:
  assumes "yields z m (created z c)"
    and "\<And>s1 z1. sdsstr s1 = c \<Longrightarrow> owns z1 s1 \<Longrightarrow> zheap_ok z1 \<Longrightarrow> yields z1 (f s1 z1) (becomes z1 s1 d)"
  shows "yields z (chain m f) (created z d)"
  unfolding chain_def
proof (rule yields_bind [OF assms(1)])
  fix r z1 assume b: "created z c r z1"
  then obtain s1 where s1: "r = Some s1" "sdsstr s1 = c" "owns z1 s1" "zheap_ok z1"
    by (auto simp: created_def)
  have "yields z1 (f s1 z1) (created z d)"
    using assms(2) [OF s1(2-4)] by (rule yields_mono) (use b s1(1) created_becomes in blast)
  then show "yields z1 ((\<lambda>(r, z). case r of None \<Rightarrow> Inl BadAccess | Some s \<Rightarrow> f s z) (r, z1)) (created z d)"
    by (simp add: s1(1))
qed

lemma becomes_refl: "owns z s \<Longrightarrow> zheap_ok z \<Longrightarrow> becomes z s (sdsstr s) (Some s) z"
  by (simp add: becomes_def owns_moved_refl)

locale appender =
  fixes step :: "sds \<Rightarrow> 'x \<Rightarrow> zheap \<Rightarrow> (sds option \<times> zheap) res"
    and txt_of :: "'x \<Rightarrow> char list"
    and fine :: "'x \<Rightarrow> bool"
  assumes step_appends: "zheap_ok z \<Longrightarrow> owns z s \<Longrightarrow> fine x \<Longrightarrow>
      len s + int (length (txt_of x)) < SDS_LIMIT \<Longrightarrow>
      yields z (step s x z) (becomes z s (sdsstr s @ txt_of x))"
begin

fun run :: "sds \<Rightarrow> 'x list \<Rightarrow> zheap \<Rightarrow> (sds option \<times> zheap) res" where
  "run s [] z = Inr (Some s, z)"
| "run s (x # xs) z = chain (step s x z) (\<lambda>s1 z1. run s1 xs z1)"

lemma run_appends:
  "zheap_ok z \<Longrightarrow> owns z s \<Longrightarrow> \<forall>x\<in>set xs. fine x \<Longrightarrow>
   len s + int (length (concat (map txt_of xs))) < SDS_LIMIT \<Longrightarrow>
   yields z (run s xs z) (becomes z s (sdsstr s @ concat (map txt_of xs)))"
proof (induction xs arbitrary: s z)
  case Nil
  then show ?case by (simp add: becomes_refl)
next
  case (Cons x xs)
  have "yields z (step s x z) (becomes z s (sdsstr s @ txt_of x))"
    using Cons.prems by (intro step_appends) auto
  then show ?case
    unfolding run.simps
  proof (rule chain_becomes)
    fix s1 z1 assume a: "sdsstr s1 = sdsstr s @ txt_of x" "owns z1 s1" "zheap_ok z1"
    then have "len s1 = len s + int (length (txt_of x))"
      using length_owned [OF a(2)] length_owned [OF Cons.prems(2)] by simp
    then show "yields z1 (run s1 xs z1) (becomes z1 s1 (sdsstr s @ concat (map txt_of (x # xs))))"
      using Cons.IH [OF a(3,2)] Cons.prems(3,4) a(1) by simp
  qed
qed

end

interpretation cat_app: appender sdscat cstr "\<lambda>_. True"
  by unfold_locales (auto intro: sdscat_yields simp: strlen_def)

text \<open>The text \<open>sdscatrepr\<close> writes for one byte.\<close>

definition repr_text :: "char \<Rightarrow> char list" where
  "repr_text c =
     (if c = CHR 0x5C \<or> c = CHR 0x22 then [CHR 0x5C, c]
      else if c = CHR 0x0A then [CHR 0x5C, CHR ''n'']
      else if c = CHR 0x0D then [CHR 0x5C, CHR ''r'']
      else if c = CHR 0x09 then [CHR 0x5C, CHR ''t'']
      else if c = CHR 0x07 then [CHR 0x5C, CHR ''a'']
      else if c = CHR 0x08 then [CHR 0x5C, CHR ''b'']
      else if isprint c then [c]
      else [CHR 0x5C, CHR ''x'', hex_char (code c div 16), hex_char (code c mod 16)])"

lemma code_NUL [simp]: "code NUL = 0"
  by (simp add: code_def)

lemma chr_not_NUL: "0 < n \<Longrightarrow> n < 256 \<Longrightarrow> chr n \<noteq> NUL"
  using code_chr [of n] by auto

lemma hex_char_NUL [simp]: "0 \<le> n \<Longrightarrow> n < 16 \<Longrightarrow> hex_char n \<noteq> NUL"
  by (auto simp: hex_char_def chr_not_NUL)

lemma code_div16: "0 \<le> code c div 16" "code c div 16 < 16" "0 \<le> code c mod 16" "code c mod 16 < 16"
  using code_range [of c] by auto

lemma repr_text_NUL: "NUL \<notin> set (repr_text c)"
  using hex_char_NUL [OF code_div16(1,2), of c, THEN not_sym]
    hex_char_NUL [OF code_div16(3,4), of c, THEN not_sym]
  by (auto simp: repr_text_def isprint_def split: if_splits)

lemma repr_printf:
  assumes ok: "zheap_ok z" and own: "owns z s" and f: "strlen f < 2147483648"
    and x: "printf_text f vs = repr_text c" and l: "len s + int (length (repr_text c)) < SDS_LIMIT"
  shows "yields z (sdscatprintf printf_text s f vs z) (becomes z s (sdsstr s @ repr_text c))"
proof -
  have c: "cstr (repr_text c) = repr_text c" using repr_text_NUL by (rule cstr_no_NUL)
  have "length (repr_text c) < 1073741824" by (simp add: repr_text_def)
  then show ?thesis
    using sdscatvprintf_yields [OF ok own f, of printf_text vs] l
    by (simp add: sdscatprintf_def x c strlen_def)
qed

lemma repr_catlen:
  assumes "zheap_ok z" "owns z s" "len s + int (length t) < SDS_LIMIT"
  shows "yields z (sdscatlen s t (int (length t)) z) (becomes z s (sdsstr s @ t))"
  using sdscatlen_yields [OF assms(1,2), of "length t" t] assms(3) by simp

lemma repr_char_yields:
  assumes "zheap_ok z" "owns z s" "len s + int (length (repr_text c)) < SDS_LIMIT"
  shows "yields z (repr_char s c z) (becomes z s (sdsstr s @ repr_text c))"
proof -
  note pf = repr_printf [OF assms(1,2) _ _ assms(3)]
  let ?named = "{CHR 0x0A, CHR 0x0D, CHR 0x09, CHR 0x07, CHR 0x08}"
  consider (esc) "c = CHR 0x5C \<or> c = CHR 0x22" | (named) "c \<in> ?named"
    | (plain) "c \<noteq> CHR 0x5C" "c \<noteq> CHR 0x22" "c \<notin> ?named" "isprint c"
    | (hex) "c \<noteq> CHR 0x5C" "c \<noteq> CHR 0x22" "c \<notin> ?named" "\<not> isprint c"
    by blast
  then show ?thesis
  proof cases
    case esc
    then have "repr_char s c z = sdscatprintf printf_text s [CHR 0x5C, CHR ''%'', CHR ''c''] [code c] z"
      "repr_text c = [CHR 0x5C, c]"
      by (auto simp: repr_char_def repr_text_def)
    then show ?thesis using pf [of "[CHR 0x5C, CHR ''%'', CHR ''c'']" "[code c]"]
      by (simp add: strlen_def cstr_def)
  next
    case named
    then have "repr_char s c z = sdscatlen s (repr_text c) (int (length (repr_text c))) z"
      by (auto simp: repr_char_def repr_text_def)
    then show ?thesis using repr_catlen [OF assms] by simp
  next
    case plain
    then have "repr_char s c z = sdscatprintf printf_text s ''%c'' [code c] z" "repr_text c = [c]"
      by (simp_all add: repr_char_def repr_text_def)
    then show ?thesis using pf [of "''%c''" "[code c]"] by (simp add: strlen_def cstr_def)
  next
    case hex
    then have "repr_char s c z = sdscatprintf printf_text s (CHR 0x5C # ''x%02x'') [code c] z"
      "repr_text c = [CHR 0x5C, CHR ''x'', hex_char (code c div 16), hex_char (code c mod 16)]"
      by (simp_all add: repr_char_def repr_text_def)
    then show ?thesis using pf [of "CHR 0x5C # ''x%02x''" "[code c]"]
      by (simp add: strlen_def cstr_def)
  qed
qed

interpretation repr_app: appender repr_char repr_text "\<lambda>_. True"
  by unfold_locales (auto intro: repr_char_yields)

lemma repr_loop_run: "n \<le> length p \<Longrightarrow> repr_loop s p n z = repr_app.run s (take n p) z"
proof (induction s p n z rule: repr_loop.induct)
  case (3 s c p n z)
  then show ?case by (auto intro!: chain_cong)
qed auto

definition quoted :: "char list \<Rightarrow> char list" where
  "quoted c = CHR 0x22 # concat (map repr_text c) @ [CHR 0x22]"

lemma sdscatrepr_yields:
  assumes "zheap_ok z" "owns z s" "n \<le> length p"
    "len s + int (length (quoted (take n p))) < SDS_LIMIT"
  shows "yields z (sdscatrepr s p n z) (becomes z s (sdsstr s @ quoted (take n p)))"
  unfolding sdscatrepr_def
proof (rule chain_becomes)
  show "yields z (sdscatlen s [CHR 0x22] 1 z) (becomes z s (sdsstr s @ [CHR 0x22]))"
    using repr_catlen [OF assms(1,2), of "[CHR 0x22]"] assms(4) by (simp add: quoted_def)
next
  fix s1 z1
  assume s1: "sdsstr s1 = sdsstr s @ [CHR 0x22]" "owns z1 s1" "zheap_ok z1"
  let ?t = "concat (map repr_text (take n p))"
  have l1: "len s1 = len s + 1" using length_owned [OF s1(2)] length_owned [OF assms(2)] s1(1) by simp
  show "yields z1 (chain (repr_loop s1 p n z1) (\<lambda>s2 z2. sdscatlen s2 [CHR 0x22] 1 z2))
      (becomes z1 s1 (sdsstr s @ quoted (take n p)))"
  proof (rule chain_becomes)
    show "yields z1 (repr_loop s1 p n z1) (becomes z1 s1 (sdsstr s1 @ ?t))"
      unfolding repr_loop_run [OF assms(3)] using assms(4) l1
      by (intro repr_app.run_appends [OF s1(3,2)]) (simp_all add: quoted_def)
  next
    fix s2 z2
    assume s2: "sdsstr s2 = sdsstr s1 @ ?t" "owns z2 s2" "zheap_ok z2"
    have "len s2 = len s1 + int (length ?t)"
      using length_owned [OF s2(2)] length_owned [OF s1(2)] s2(1) by simp
    then show "yields z2 (sdscatlen s2 [CHR 0x22] 1 z2) (becomes z2 s2 (sdsstr s @ quoted (take n p)))"
      using repr_catlen [OF s2(3,2), of "[CHR 0x22]"] assms(4) l1 s1(1) s2(1)
      by (simp add: quoted_def)
  qed
qed

fun weave :: "char list \<Rightarrow> char list list \<Rightarrow> char list list" where
  "weave sep [] = []"
| "weave sep [a] = [a]"
| "weave sep (a # b # argv) = a # sep # weave sep (b # argv)"

definition intercalate :: "char list \<Rightarrow> char list list \<Rightarrow> char list" where
  "intercalate sep ws = concat (weave sep ws)"

lemma chain_assoc: "chain (chain m f) g = chain m (\<lambda>s z. chain (f s z) g)"
  by (cases m) (auto simp: chain_def split: option.splits)

lemma chain_return [simp]: "chain (Inr (Some s, z)) f = f s z"
  by (simp add: chain_def)

lemma join_loop_run: "join_loop s argv sep z = cat_app.run s (weave sep argv) z"
proof (induction sep argv arbitrary: s z rule: weave.induct)
  case (3 sep a b argv)
  then show ?case by (auto intro!: chain_cong)
qed (auto intro!: chain_cong)

lemma concat_map_cstr_weave:
  "NUL \<notin> set sep \<Longrightarrow> \<forall>a\<in>set ws. NUL \<notin> set a \<Longrightarrow> concat (map cstr (weave sep ws)) = intercalate sep ws"
  by (induction sep ws rule: weave.induct) (auto simp: intercalate_def)

lemma sdsjoin_yields:
  assumes "zheap_ok z" "NUL \<notin> set sep" "\<forall>a\<in>set argv. NUL \<notin> set a"
    "int (length (intercalate sep argv)) < SDS_LIMIT"
  shows "yields z (sdsjoin argv sep z) (created z (intercalate sep argv))"
  unfolding sdsjoin_def
proof (rule chain_created [OF sdsempty_yields [OF assms(1)]])
  fix s1 z1 assume s1: "sdsstr s1 = []" "owns z1 s1" "zheap_ok z1"
  have "len s1 = 0" using length_owned [OF s1(2)] s1(1) by simp
  then show "yields z1 (join_loop s1 argv sep z1) (becomes z1 s1 (intercalate sep argv))"
    using cat_app.run_appends [OF s1(3,2), of "weave sep argv"] assms(4)
      concat_map_cstr_weave [OF assms(2,3)] s1(1)
    by (simp add: join_loop_run)
qed

subsection \<open>Mapping characters\<close>

lemma map_find_spec:
  assumes "n \<le> length from" "n \<le> length to" "i \<le> n"
  shows "map_find c from to (int i) (int n)
    = Inr (map_of (zip (drop i (take n from)) (drop i (take n to))) c)"
  using assms
proof (induction "n - i" arbitrary: i)
  case 0
  then show ?case by (simp add: map_find.simps)
next
  case (Suc k)
  then have i: "i < n" by simp
  have d: "drop i (take n from) = from ! i # drop (Suc i) (take n from)"
    "drop i (take n to) = to ! i # drop (Suc i) (take n to)"
    using i Suc.prems by (simp_all add: Cons_nth_drop_Suc [symmetric])
  have "map_find c from to (int (Suc i)) (int n)
      = Inr (map_of (zip (drop (Suc i) (take n from)) (drop (Suc i) (take n to))) c)"
    using Suc by (intro Suc.hyps(1)) auto
  then show ?case using i Suc.prems
    by (subst map_find.simps) (simp add: d mem_simps add.commute)
qed

definition substituted :: "char list \<Rightarrow> char list \<Rightarrow> char \<Rightarrow> char" where
  "substituted from to c = (case map_of (zip from to) c of None \<Rightarrow> c | Some y \<Rightarrow> y)"

lemma map_loop_spec:
  assumes "n \<le> length from" "n \<le> length to"
  shows "map_loop (xs @ ys @ zs) from to (int n) (int (length xs)) (int (length xs + length ys))
     = Inr (xs @ map (substituted (take n from) (take n to)) ys @ zs)"
proof (induction ys arbitrary: xs)
  case Nil
  then show ?case by (simp add: map_loop.simps)
next
  case (Cons y ys)
  have f: "map_find y from to 0 (int n) = Inr (map_of (zip (take n from) (take n to)) y)"
    using map_find_spec [OF assms, of 0 y] by simp
  show ?case
    using Cons [of "xs @ [substituted (take n from) (take n to) y]"]
    by (subst map_loop.simps)
      (auto simp: mem_simps f add_ac substituted_def split: option.splits)
qed

lemma sdsmapchars_inplace:
  assumes "sds_inv s" "n \<le> length from" "n \<le> length to"
  shows "inplace s (map (substituted (take n from) (take n to)) (sdsstr s))
    (sdsmapchars s from to (int n))"
proof -
  obtain c r where rep: "sdsstr s = c" "buf s = c @ NUL # r" "len s = int (length c)"
    "free s = int (length r)"
    using assms(1) by (rule sds_inv_rep)
  have "map_loop (buf s) from to (int n) 0 (sdslen s)
      = Inr (map (substituted (take n from) (take n to)) c @ NUL # r)"
    using map_loop_spec [OF assms(2,3), of "[]" c "NUL # r"] rep assms(1) by (simp add: sdslen_eq)
  moreover have "sds_shape s" using assms(1) by (simp add: sds_inv_shape)
  ultimately show ?thesis
    using rep by (simp add: sdsmapchars_def) (rule inplace_intro [where r = r], simp_all)
qed

subsection \<open>Correctness of the builders\<close>

text \<open>
  \<open>sdsjoin\<close> returns a new string that is the arguments with the separator between each
  two of them; freeing it gives back everything the joins and their reallocations took, so
  that \<open>used_memory\<close> and the set of live blocks are the ones before.
\<close>

theorem sdsjoin_joins:
  assumes "zheap_ok z" "NUL \<notin> set sep" "\<forall>a\<in>set argv. NUL \<notin> set a"
    "int (length (intercalate sep argv)) < SDS_LIMIT"
  shows "yields z (sdsjoin argv sep z) (\<lambda>r z1. created z (intercalate sep argv) r z1 \<and>
    (\<exists>z2. sdsfree r z1 = Inr z2 \<and> hdrs z2 = hdrs z \<and> used_memory z2 = used_memory z))"
  using sdsjoin_yields [OF assms]
proof (rule yields_mono)
  fix r z1 assume c: "created z (intercalate sep argv) r z1"
  then obtain s where "r = Some s" by (auto simp: created_def)
  then show "created z (intercalate sep argv) r z1 \<and>
    (\<exists>z2. sdsfree r z1 = Inr z2 \<and> hdrs z2 = hdrs z \<and> used_memory z2 = used_memory z)"
    using sdsfree_created [OF assms(1)] c by blast
qed

theorem sdsjoin_joins_witness:
  "yields sample_heap (sdsjoin [''a'', ''bc'', ''d''] '', '' sample_heap) (\<lambda>r z1.
     created sample_heap ''a, bc, d'' r z1 \<and> (\<exists>z2. sdsfree r z1 = Inr z2 \<and> used_memory z2 = 24))"
proof -
  have i: "intercalate '', '' [''a'', ''bc'', ''d''] = ''a, bc, d''" by (simp add: intercalate_def)
  have u: "used_memory sample_heap = 24" by (simp add: sample_heap_def)
  have "yields sample_heap (sdsjoin [''a'', ''bc'', ''d''] '', '' sample_heap) (\<lambda>r z1.
     created sample_heap (intercalate '', '' [''a'', ''bc'', ''d'']) r z1 \<and> (\<exists>z2. sdsfree r z1 = Inr z2 \<and>
       hdrs z2 = hdrs sample_heap \<and> used_memory z2 = used_memory sample_heap))"
    by (rule sdsjoin_joins [OF sample_heap_ok])
      (simp_all add: i SDS_LIMIT_def SDS_MAX_PREALLOC_def)
  then show ?thesis unfolding i u by (rule yields_mono) blast
qed

text \<open>
  \<open>sdsmapchars\<close> replaces, in place, every byte that occurs among the first \<open>setlen\<close>
  bytes of \<open>from\<close> by the byte of \<open>to\<close> at its first occurrence there, and no other.
\<close>

theorem sdsmapchars_maps:
  assumes "sds_inv s" "n \<le> length from" "n \<le> length to"
  shows "inplace s
    (map (\<lambda>c. case map_of (zip (take n from) (take n to)) c of None \<Rightarrow> c | Some y \<Rightarrow> y) (sdsstr s))
    (sdsmapchars s from to (int n))"
  using sdsmapchars_inplace [OF assms] by (simp add: substituted_def [abs_def])

theorem sdsmapchars_maps_witness:
  "inplace \<lparr>blk = 1, len = 5, free = 0, buf = ''hello'' @ [NUL]\<rparr> ''0ell1''
     (sdsmapchars \<lparr>blk = 1, len = 5, free = 0, buf = ''hello'' @ [NUL]\<rparr> ''ho'' ''01'' 2)"
  using sdsmapchars_maps [of "\<lparr>blk = 1, len = 5, free = 0, buf = ''hello'' @ [NUL]\<rparr>" 2 "''ho''" "''01''"]
  by (simp add: sds_inv_def sdsstr_def)

end
