(* ===== verification/Heap_Region.thy ===== *)
theory Heap_Region
  imports Zmalloc
begin

text \<open>
  Which blocks a computation has added to the heap it started from. \<open>region h items z\<close> says
  that the live blocks of \<open>z\<close> are those of \<open>h\<close> and, apart from them, exactly \<open>items\<close>; each
  allocator operation acts on the head of the list. That a call leaks nothing is then
  \<open>region h []\<close> at its end.
\<close>

definition region :: "(ptr \<rightharpoonup> size_t) \<Rightarrow> (ptr \<times> size_t) list \<Rightarrow> zheap \<Rightarrow> bool" where
  "region h items z \<longleftrightarrow>
     zheap_ok z \<and> hdrs z = h ++ map_of items \<and> distinct (map fst items) \<and>
     fst ` set items \<inter> dom h = {}"

lemma region_ok: "region h items z \<Longrightarrow> zheap_ok z"
  by (simp add: region_def)

lemma region_start: "zheap_ok z \<Longrightarrow> region (hdrs z) [] z"
  by (simp add: region_def)

lemma region_Nil: "region h [] z \<longleftrightarrow> zheap_ok z \<and> hdrs z = h"
  by (auto simp: region_def)

lemma region_perm:
  assumes "region h items z" "set items' = set items" "distinct (map fst items')"
  shows "region h items' z"
  using assms map_of_inject_set [of items items'] by (auto simp: region_def)

lemma region_move:
  "region h (xs @ y # ys) z \<longleftrightarrow> region h (y # xs @ ys) z"
proof
  assume r: "region h (xs @ y # ys) z"
  then have "distinct (map fst (y # xs @ ys))" by (auto simp: region_def)
  then show "region h (y # xs @ ys) z" by (intro region_perm [OF r]) auto
next
  assume r: "region h (y # xs @ ys) z"
  then have "distinct (map fst (xs @ y # ys))" by (auto simp: region_def)
  then show "region h (xs @ y # ys) z" by (intro region_perm [OF r]) auto
qed

lemma region_lookup: "region h items z \<Longrightarrow> (p, n) \<in> set items \<Longrightarrow> hdrs z p = Some n"
  by (auto simp: region_def map_add_def dest: map_of_is_SomeI)

lemma region_add:
  assumes "region h items z" "hdrs z p = None" "hdrs z1 = (hdrs z)(p \<mapsto> n)" "zheap_ok z1"
  shows "region h ((p, n) # items) z1"
proof -
  have "h p = None" "map_of items p = None"
    using assms(1,2) by (auto simp: region_def map_add_None)
  then show ?thesis
    using assms by (auto simp: region_def map_of_eq_None_iff domIff)
qed

lemma region_drop:
  assumes "region h ((p, m) # items) z" "hdrs z1 = (hdrs z)(p := None)" "zheap_ok z1"
  shows "region h items z1"
proof -
  have "h p = None" "map_of items p = None" "hdrs z = (h ++ map_of items)(p \<mapsto> m)"
    using assms(1) by (auto simp: region_def map_of_eq_None_iff)
  then have "hdrs z1 = h ++ map_of items"
    using assms(2) by (auto simp: fun_eq_iff map_add_def)
  then show ?thesis using assms(1,3) by (auto simp: region_def)
qed

lemma region_malloc:
  assumes "region h items z" "fits n"
  shows "yields z (zmalloc n z) (\<lambda>p z'. p \<noteq> 0 \<and> region h ((p, n) # items) z')"
  using zmalloc_yields [OF region_ok [OF assms(1)] assms(2)]
  by (rule yields_mono) (use region_add [OF assms(1)] in blast)

lemma region_realloc:
  assumes "region h ((p, m) # items) z" "fits n"
  shows "yields z (zrealloc p n z) (\<lambda>q z'. q \<noteq> 0 \<and> region h ((q, n) # items) z')"
proof -
  have old: "hdrs z p = Some m" using assms(1) by (rule region_lookup) simp
  have "region h ((q, n) # items) z'"
    if "zheap_ok z'" "hdrs z q = None" "hdrs z' = (hdrs z)(p := None, q \<mapsto> n)" for q z'
  proof -
    have n: "h q = None" "map_of items q = None" "h p = None" "map_of items p = None"
      "hdrs z = (h ++ map_of items)(p \<mapsto> m)" "p \<noteq> q"
      using assms(1) that(2) old by (auto simp: region_def map_add_None map_of_eq_None_iff split: if_splits)
    then have "hdrs z' = h ++ map_of ((q, n) # items)"
      using that(3) by (auto simp: fun_eq_iff map_add_def)
    then show ?thesis using n that(1) assms(1) by (auto simp: region_def map_of_eq_None_iff domIff)
  qed
  then show ?thesis
    using zrealloc_yields [OF region_ok [OF assms(1)] assms(2) old] by (elim yields_mono) blast
qed

lemma region_free:
  assumes "region h ((p, m) # items) z"
  shows "\<exists>z'. zfree p z = Inr z' \<and> heap_ext z z' \<and> region h items z'"
proof -
  have "hdrs z p = Some m" using assms by (rule region_lookup) simp
  then obtain z' where "zfree p z = Inr z'" "zheap_ok z'" "heap_ext z z'" "hdrs z' = (hdrs z)(p := None)"
    using zfree_returns [OF region_ok [OF assms]] by blast
  then show ?thesis using region_drop [OF assms] by blast
qed

lemma region_swap: "region h (x # y # zs) z \<longleftrightarrow> region h (y # x # zs) z"
  using region_move [of h "[x]" y zs z] by simp

lemma region_snoc: "region h (xs @ [y]) z \<longleftrightarrow> region h (y # xs) z"
  using region_move [of h xs y "[]" z] by simp

lemma region_realloc_at:
  assumes "region h (xs @ (p, m) # ys) z" "fits n"
  shows "yields z (zrealloc p n z) (\<lambda>q z'. q \<noteq> 0 \<and> region h (xs @ (q, n) # ys) z')"
  using region_realloc [of h p m "xs @ ys" z n] assms by (simp add: region_move)

lemma region_free_at:
  assumes "region h (xs @ (p, m) # ys) z"
  shows "\<exists>z'. zfree p z = Inr z' \<and> heap_ext z z' \<and> region h (xs @ ys) z'"
  using region_free [of h p m "xs @ ys" z] assms by (simp add: region_move)

end
