(* ===== verification/Sds_Split.thy ===== *)
theory Sds_Split
  imports Sds_Build Heap_Region
begin

text \<open>
  Splitting a string into an array of strings: \<open>sdssplitlen\<close>, \<open>sdssplitargs\<close> and
  \<open>sdsfreesplitres\<close> of \<open>sds.c\<close>.

  An array \<open>sds *\<close> is the pointer of its block and the list of the elements stored so far;
  a store checks that the block is large enough for the element. Which blocks a call has
  added to the heap it started from is the predicate \<open>region\<close> of \<open>Heap_Region\<close>.
\<close>

subsection \<open>Blocks added to a heap\<close>

definition item :: "sds \<Rightarrow> ptr \<times> size_t" where
  "item s = (blk s, to_size (sdsAllocSize s))"

lemma region_owns: "region h items z \<Longrightarrow> item s \<in> set items \<Longrightarrow> sds_inv s \<Longrightarrow> owns z s"
  using region_lookup [of h items z] by (simp add: owns_def item_def)

lemma region_sdsfree:
  "region h (item s # items) z \<Longrightarrow> \<exists>z'. sdsfree (Some s) z = Inr z' \<and> heap_ext z z' \<and> region h items z'"
  using region_free [of h "blk s"] by (simp add: item_def sdsfree_def)

lemma region_created:
  "region h items z \<Longrightarrow> created z c (Some s) z1 \<Longrightarrow> region h (item s # items) z1"
  unfolding item_def by (rule region_add) (auto simp: created_def)

lemma region_becomes:
  assumes "region h (item s # items) z" "becomes z s c (Some s1) z1"
  shows "region h (item s1 # items) z1"
proof -
  have b: "zheap_ok z1" "blk s1 = blk s \<or> hdrs z (blk s1) = None"
    "hdrs z1 = (hdrs z)(blk s := None, blk s1 \<mapsto> to_size (sdsAllocSize s1))"
    using assms(2) by (auto simp: becomes_def moved_def)
  have r: "h (blk s) = None" "map_of items (blk s) = None"
    "hdrs z = (h ++ map_of items)(blk s \<mapsto> to_size (sdsAllocSize s))"
    using assms(1) by (auto simp: region_def item_def map_of_eq_None_iff)
  have n: "h (blk s1) = None" "map_of items (blk s1) = None"
    using b(2) r by (auto simp: map_add_None split: if_splits)
  have "hdrs z1 = h ++ map_of (item s1 # items)"
    using b(3) r n by (auto simp: fun_eq_iff map_add_def item_def)
  then show ?thesis using b(1) n assms(1) by (auto simp: region_def item_def map_of_eq_None_iff domIff)
qed

definition tokens_of :: "(ptr \<rightharpoonup> size_t) \<Rightarrow> char list list \<Rightarrow> (ptr \<times> sds list) option \<Rightarrow> zheap \<Rightarrow> bool" where
  \<comment> \<open>postcondition: a new array with the strings \<open>ws\<close>, all in blocks of their own\<close>
  "tokens_of h ws r z \<longleftrightarrow>
     (\<exists>tp n toks. r = Some (tp, toks) \<and> map sdsstr toks = ws \<and> (\<forall>s\<in>set toks. sds_inv s) \<and>
        region h ((tp, n) # map item toks) z)"

subsection \<open>\<open>sdssplitlen\<close> and \<open>sdsfreesplitres\<close>\<close>

definition store_slot :: "ptr \<Rightarrow> sds list \<Rightarrow> sds \<Rightarrow> zheap \<Rightarrow> sds list res" where
  \<comment> \<open>\<open>tokens[elements] = x\<close> where \<open>elements\<close> is the number of elements stored so far\<close>
  "store_slot tp toks x z =
     (case hdrs z tp of
        None \<Rightarrow> Inl BadAccess
      | Some n \<Rightarrow> if 8 * (length toks + 1) \<le> unat n then Inr (toks @ [x]) else Inl BadAccess)"

fun free_up :: "sds list \<Rightarrow> zheap \<Rightarrow> zheap res" where
  \<comment> \<open>\<open>for (i = 0; i < elements; i++) sdsfree(tokens[i]);\<close>\<close>
  "free_up [] z = Inr z"
| "free_up (s # toks) z = rbind (sdsfree (Some s) z) (free_up toks)"

definition split_cleanup :: "ptr \<Rightarrow> sds list \<Rightarrow> zheap \<Rightarrow> ((ptr \<times> sds list) option \<times> zheap) res" where
  "split_cleanup tp toks z =
     rbind (free_up toks z) (\<lambda>z1. rbind (zfree tp z1) (\<lambda>z2. Inr (None, z2)))"

definition sep_here :: "char list \<Rightarrow> int \<Rightarrow> char list \<Rightarrow> int \<Rightarrow> bool res" where
  \<comment> \<open>\<open>(seplen == 1 && *(s+j) == sep[0]) || (memcmp(s+j,sep,seplen) == 0)\<close>\<close>
  "sep_here s j sep seplen =
     rbind (if seplen = 1 then rbind (peek s j) (\<lambda>a. rbind (peek sep 0) (\<lambda>b. Inr (a = b)))
            else Inr False) (\<lambda>hit.
     if hit then Inr True else
     rbind (read_bytes s j seplen) (\<lambda>a.
     rbind (read_bytes sep 0 seplen) (\<lambda>b.
     Inr (memcmp_bytes a b = 0))))"

definition split_token ::
  "char list \<Rightarrow> int \<Rightarrow> int \<Rightarrow> ptr \<Rightarrow> sds list \<Rightarrow> zheap \<Rightarrow> (sds list option \<times> zheap) res"
where
  \<comment> \<open>\<open>tokens[elements] = sdsnewlen(s+start,n); if (tokens[elements] == NULL) goto cleanup;\<close>\<close>
  "split_token s start n tp toks z =
     rbind (if 0 \<le> start \<and> start \<le> int (length s) then Inr (drop (nat start) s) else Inl BadAccess) (\<lambda>t.
     rbind (sdsnewlen (Some t) (u64 n) z) (\<lambda>(r, z1).
     case r of
       None \<Rightarrow> Inr (None, z1)
     | Some x \<Rightarrow> rbind (store_slot tp toks x z1) (\<lambda>toks1. Inr (Some toks1, z1))))"

function split_loop ::
  "char list \<Rightarrow> int \<Rightarrow> char list \<Rightarrow> nat \<Rightarrow> int \<Rightarrow> int \<Rightarrow> int \<Rightarrow> ptr \<Rightarrow> sds list \<Rightarrow> zheap \<Rightarrow>
   ((ptr \<times> sds list) option \<times> zheap) res"
where
  \<comment> \<open>the \<open>for\<close> loop and what follows it; \<open>seplen\<close>, at least 1, is \<open>k + 1\<close>\<close>
  "split_loop s ln sep k j start slots tp toks z =
     (let seplen = int k + 1 in
      if j < ln - (seplen - 1) then
        rbind (if slots < int (length toks) + 2 then
                 rbind (c32 (slots * 2)) (\<lambda>slots1.
                 rbind (zrealloc tp (to_size (8 * slots1)) z) (\<lambda>(newtokens, z1).
                 Inr ((slots1, newtokens), z1)))
               else Inr ((slots, tp), z)) (\<lambda>((slots1, tp1), z1).
        if tp1 = 0 then split_cleanup tp toks z1 else
        rbind (sep_here s j sep seplen) (\<lambda>hit.
        if hit then
          rbind (split_token s start (j - start) tp1 toks z1) (\<lambda>(r, z2).
          case r of
            None \<Rightarrow> split_cleanup tp1 toks z2
          | Some toks1 \<Rightarrow> split_loop s ln sep k (j + seplen) (j + seplen) slots1 tp1 toks1 z2)
        else split_loop s ln sep k (j + 1) start slots1 tp1 toks z1))
      else
        rbind (split_token s start (ln - start) tp toks z) (\<lambda>(r, z1).
        case r of None \<Rightarrow> split_cleanup tp toks z1 | Some toks1 \<Rightarrow> Inr (Some (tp, toks1), z1)))"
  by pat_completeness auto
termination by (relation "measure (\<lambda>(s, ln, sep, k, j, start, slots, tp, toks, z). nat (ln - j))") auto

declare split_loop.simps [simp del]

definition sdssplitlen ::
  "char list \<Rightarrow> int \<Rightarrow> char list \<Rightarrow> int \<Rightarrow> zheap \<Rightarrow> ((ptr \<times> sds list) option \<times> zheap) res"
where
  \<comment> \<open>\<open>*count\<close> is the length of the returned list, 0 with \<open>NULL\<close> (not set by the first return)\<close>
  "sdssplitlen s ln sep seplen z =
     (let slots = 5 in
      if seplen < 1 \<or> ln < 0 then Inr (None, z) else
      rbind (zmalloc (to_size (8 * slots)) z) (\<lambda>(tp, z1).
      if tp = 0 then Inr (None, z1)
      else if ln = 0 then Inr (Some (tp, []), z1)
      else split_loop s ln sep (nat (seplen - 1)) 0 0 slots tp [] z1))"

fun free_down :: "nat \<Rightarrow> sds list \<Rightarrow> zheap \<Rightarrow> zheap res" where
  \<comment> \<open>\<open>while(count--) sdsfree(tokens[count]);\<close>\<close>
  "free_down 0 toks z = Inr z"
| "free_down (Suc k) toks z =
     (if k < length toks then rbind (sdsfree (Some (toks ! k)) z) (free_down k toks) else Inl BadAccess)"

definition sdsfreesplitres :: "(ptr \<times> sds list) option \<Rightarrow> nat \<Rightarrow> zheap \<Rightarrow> zheap res" where
  "sdsfreesplitres tokens count z =
     (case tokens of
        None \<Rightarrow> Inr z
      | Some (tp, toks) \<Rightarrow> rbind (free_down count toks z) (zfree tp))"

subsection \<open>The reference splitter\<close>

function splits :: "char list \<Rightarrow> char list \<Rightarrow> char list \<Rightarrow> char list list" where
  \<comment> \<open>\<open>cur\<close> is the token read so far\<close>
  "splits sep cur xs =
     (if sep = [] \<or> length xs < length sep then [cur @ xs]
      else if take (length sep) xs = sep then cur # splits sep [] (drop (length sep) xs)
      else splits sep (cur @ [hd xs]) (tl xs))"
  by pat_completeness auto
termination by (relation "measure (\<lambda>(sep, cur, xs). length xs)") (auto simp: length_greater_0_conv [symmetric] simp del: length_greater_0_conv)

declare splits.simps [simp del]

lemma splits_nonempty: "splits sep cur xs \<noteq> []"
  by (induction sep cur xs rule: splits.induct) (subst splits.simps, auto)

lemma intercalate_Cons: "ws \<noteq> [] \<Longrightarrow> intercalate sep (w # ws) = w @ sep @ intercalate sep ws"
  by (cases ws) (auto simp: intercalate_def)

lemma intercalate_splits: "sep \<noteq> [] \<Longrightarrow> intercalate sep (splits sep cur xs) = cur @ xs"
proof (induction sep cur xs rule: splits.induct)
  case (1 sep cur xs)
  consider (short) "length xs < length sep" | (hit) "length sep \<le> length xs" "take (length sep) xs = sep"
    | (miss) "length sep \<le> length xs" "take (length sep) xs \<noteq> sep"
    by linarith
  then show ?case
  proof cases
    case short
    then show ?thesis by (subst splits.simps) (simp add: intercalate_def)
  next
    case hit
    then have "intercalate sep (splits sep [] (drop (length sep) xs)) = drop (length sep) xs"
      using 1 by simp
    then show ?thesis using hit 1(3)
      by (subst splits.simps) (simp add: intercalate_Cons splits_nonempty, metis append_take_drop_id)
  next
    case miss
    then have "xs \<noteq> []" using 1(3) by auto
    moreover have "intercalate sep (splits sep (cur @ [hd xs]) (tl xs)) = cur @ [hd xs] @ tl xs"
      using 1 miss by simp
    ultimately show ?thesis using miss 1(3) by (subst splits.simps) simp
  qed
qed

lemma splits_sep_free:
  assumes "sep \<noteq> []" "\<forall>i < length cur. take (length sep) (drop i (cur @ xs)) \<noteq> sep"
    "w \<in> set (splits sep cur xs)"
  shows "w \<noteq> u @ sep @ v"
  using assms
proof (induction sep cur xs rule: splits.induct)
  case (1 sep cur xs)
  have at: "take (length sep) (drop (length u) (u @ sep @ v)) = sep" by simp
  consider (short) "length xs < length sep" | (hit) "length sep \<le> length xs" "take (length sep) xs = sep"
    | (miss) "length sep \<le> length xs" "take (length sep) xs \<noteq> sep"
    by linarith
  then show ?case
  proof cases
    case short
    then have w: "w = cur @ xs" using 1(5) by (subst (asm) splits.simps) simp
    show ?thesis
    proof
      assume e: "w = u @ sep @ v"
      then have "length u \<ge> length cur" using 1(4) w at by (metis not_le)
      moreover have "length cur + length xs = length u + length sep + length v"
        using e w by (metis length_append add.assoc)
      ultimately show False using short by simp
    qed
  next
    case hit
    then have "w = cur \<or> w \<in> set (splits sep [] (drop (length sep) xs))"
      using 1(3,5) by (subst (asm) splits.simps) simp
    moreover have "cur \<noteq> u @ sep @ v"
    proof
      assume e: "cur = u @ sep @ v"
      then have "length u < length cur" using 1(3) by simp
      moreover have "take (length sep) (drop (length u) (cur @ xs)) = sep" using e by simp
      ultimately show False using 1(4) by blast
    qed
    ultimately show ?thesis using 1(1) hit 1(3) by auto
  next
    case miss
    then have ne: "xs \<noteq> []" using 1(3) by auto
    have "\<forall>i < length (cur @ [hd xs]). take (length sep) (drop i ((cur @ [hd xs]) @ tl xs)) \<noteq> sep"
      using 1(4) ne miss(2) by (auto simp: less_Suc_eq)
    moreover have "w \<in> set (splits sep (cur @ [hd xs]) (tl xs))"
      using 1(3,5) miss by (subst (asm) splits.simps) simp
    ultimately show ?thesis using 1(2,3) miss by auto
  qed
qed

lemma first_hit_ends:
  \<comment> \<open>no separator starts before the end of \<open>cur\<close>: the one behind \<open>cur\<close> is the first\<close>
  assumes "\<forall>i < length cur. take (length sep) (drop i (cur @ sep @ ys)) \<noteq> sep" "cur @ sep = u @ sep @ v"
  shows "v = []"
proof -
  have "take (length sep) (drop (length u) (cur @ sep @ ys)) = sep"
    using assms(2) by (metis append_assoc append_eq_conv_conj)
  then have "length cur \<le> length u" using assms(1) not_le by blast
  moreover have "length cur = length u + length v" using arg_cong [OF assms(2), of length] by simp
  ultimately show ?thesis by simp
qed

lemma splits_leftmost:
  assumes "sep \<noteq> []" "\<forall>i < length cur. take (length sep) (drop i (cur @ xs)) \<noteq> sep"
    "w \<in> set (butlast (splits sep cur xs))" "w @ sep = u @ sep @ v"
  shows "v = []"
  using assms
proof (induction sep cur xs rule: splits.induct)
  case (1 sep cur xs)
  consider (short) "length xs < length sep" | (hit) "length sep \<le> length xs" "take (length sep) xs = sep"
    | (miss) "length sep \<le> length xs" "take (length sep) xs \<noteq> sep"
    by linarith
  then show ?case
  proof cases
    case short
    then show ?thesis using 1(5) by (subst (asm) splits.simps) simp
  next
    case hit
    have xs: "xs = sep @ drop (length sep) xs" using hit(2) by (metis append_take_drop_id)
    have "w = cur \<or> w \<in> set (butlast (splits sep [] (drop (length sep) xs)))"
      using hit 1(3,5) by (subst (asm) splits.simps) (simp add: splits_nonempty)
    moreover have "v = []" if "w = cur"
      by (rule first_hit_ends [of cur sep "drop (length sep) xs" u]) (use 1(4,6) xs that in auto)
    ultimately show ?thesis using 1(1) hit 1(3,6) by auto
  next
    case miss
    then have ne: "xs \<noteq> []" using 1(3) by auto
    have "\<forall>i < length (cur @ [hd xs]). take (length sep) (drop i ((cur @ [hd xs]) @ tl xs)) \<noteq> sep"
      using 1(4) ne miss(2) by (auto simp: less_Suc_eq)
    moreover have "w \<in> set (butlast (splits sep (cur @ [hd xs]) (tl xs)))"
      using 1(3,5) miss by (subst (asm) splits.simps) simp
    ultimately show ?thesis using 1(2,3,6) miss by auto
  qed
qed

subsection \<open>\<open>sdssplitlen\<close> implements it\<close>

lemma memcmp_zero: "length a = length b \<Longrightarrow> memcmp_bytes a b = 0 \<longleftrightarrow> a = b"
proof (induction a b rule: memcmp_bytes.induct)
  case (1 x xs y ys)
  then show ?case by (auto simp: less_le simp flip: code_inj)
qed auto

lemma sep_here_spec:
  assumes "0 < n" "j + n \<le> length s" "n \<le> length sep"
  shows "sep_here s (int j) sep (int n) = Inr (take n (drop j s) = take n sep)"
proof -
  have full: "rbind (read_bytes s (int j) (int n)) (\<lambda>a. rbind (read_bytes sep 0 (int n)) (\<lambda>b.
      Inr (memcmp_bytes a b = 0))) = Inr (take n (drop j s) = take n sep)"
    using assms by (simp add: mem_simps memcmp_zero)
  show ?thesis
  proof (cases "n = 1")
    case True
    have p: "peek s (int j) = Inr (s ! j)" "peek sep 0 = Inr (sep ! 0)"
      using assms peek_in [of 0 sep] True by (simp_all add: peek_in Suc_le_eq)
    have "take 1 (drop j s) = [s ! j]"
      using assms True by (simp add: take_Suc hd_drop_conv_nth)
    moreover have "take 1 sep = [sep ! 0]" using assms True by (cases sep) auto
    ultimately show ?thesis using full True by (simp add: sep_here_def p)
  next
    case False
    then show ?thesis using full by (simp add: sep_here_def)
  qed
qed

lemma split_token_yields:
  assumes r: "region h ((tp, m) # map item toks) z" and room: "8 * (length toks + 1) \<le> unat m"
    and n: "start + n \<le> length s" "n < 2147483648"
  shows "yields z (split_token s (int start) (int n) tp toks z)
    (\<lambda>r z'. \<exists>x. r = Some (toks @ [x]) \<and> sdsstr x = take n (drop start s) \<and> sds_inv x \<and>
      region h ((tp, m) # map item (toks @ [x])) z')"
proof -
  have u: "u64 (int n) = int n" using n(2) by (simp add: cint_simps)
  have st: "(if 0 \<le> int start \<and> int start \<le> int (length s) then Inr (drop (nat (int start)) s)
      else Inl BadAccess) = (Inr (drop start s) :: char list res)"
    using n(1) by simp
  have new: "yields z (sdsnewlen (Some (drop start s)) (int n) z) (created z (take n (drop start s)))"
    using n by (intro sdsnewlen_yields [OF region_ok [OF r]]) simp_all
  have body: "yields z1 (case q of None \<Rightarrow> Inr (None, z1)
        | Some x \<Rightarrow> rbind (store_slot tp toks x z1) (\<lambda>toks1. Inr (Some toks1, z1)))
      (\<lambda>r z'. \<exists>x. r = Some (toks @ [x]) \<and> sdsstr x = take n (drop start s) \<and> sds_inv x \<and>
        region h ((tp, m) # map item (toks @ [x])) z')"
    if c: "created z (take n (drop start s)) q z1" for q z1
  proof -
    obtain x where x: "q = Some x" "sdsstr x = take n (drop start s)" "sds_inv x"
      using c by (auto simp: created_def owns_def)
    have r1: "region h (item x # (tp, m) # map item toks) z1"
      using region_created [OF r] c x(1) by simp
    then have r2: "region h ((tp, m) # map item (toks @ [x])) z1"
      using region_move [of h "(tp, m) # map item toks" "item x" "[]" z1] by simp
    have "hdrs z1 tp = Some m" using r2 by (rule region_lookup) simp
    then have "store_slot tp toks x z1 = Inr (toks @ [x])" using room by (simp add: store_slot_def)
    then show ?thesis using x r2 by simp
  qed
  show ?thesis
    unfolding split_token_def st u rbind.simps
    by (rule yields_bind [OF new]) (simp only: prod.case, rule body)
qed

lemma split_grow:
  assumes "region h ((tp, to_size (8 * slots)) # items) z" "tp \<noteq> 0"
    "int n + 1 \<le> slots" "n < 1073741000"
  shows "yields z
    (if slots < int n + 2 then
       rbind (c32 (slots * 2)) (\<lambda>slots1.
       rbind (zrealloc tp (to_size (8 * slots1)) z) (\<lambda>(newtokens, z1).
       Inr ((slots1, newtokens), z1)))
     else Inr ((slots, tp), z))
    (\<lambda>(slots1, tp1) z1. tp1 \<noteq> 0 \<and> int n + 2 \<le> slots1 \<and> slots1 \<le> max slots (2 * int n + 2) \<and>
       region h ((tp1, to_size (8 * slots1)) # items) z1)"
proof (cases "slots < int n + 2")
  case True
  have s: "slots = int n + 1" using True assms(3) by simp
  have c: "c32 (slots * 2) = Inr (slots * 2)" using s assms(4) by (simp add: cint_simps)
  have "fits (to_size (8 * (slots * 2)))" using s assms(4) by (intro fits_to_size) simp_all
  from region_realloc [OF assms(1) this]
  show ?thesis unfolding c rbind.simps if_P [OF True]
    by (rule yields_bind) (use s in auto)
next
  case False
  then show ?thesis using assms by simp
qed

lemma take_drop_join: "start \<le> j \<Longrightarrow> take (j - start) (drop start xs) @ drop j xs = drop start xs"
  by (metis append_take_drop_id drop_drop le_add_diff_inverse2)

lemma take_drop_snoc:
  "start \<le> j \<Longrightarrow> j < length xs \<Longrightarrow>
   take (Suc j - start) (drop start xs) = take (j - start) (drop start xs) @ [xs ! j]"
  by (simp add: Suc_diff_le take_Suc_conv_app_nth)

lemma split_loop_yields:
  assumes "region h ((tp, to_size (8 * slots)) # map item toks) z" "\<forall>x\<in>set toks. sds_inv x" "tp \<noteq> 0"
    "start \<le> j" "j \<le> length xs" "length toks \<le> j" "int (length toks) + 1 \<le> slots"
    "slots \<le> 2 * int (length xs) + 5" "length xs < 536870912" "s = xs @ rest" "Suc k \<le> length sep"
  shows "yields z (split_loop s (int (length xs)) sep k (int j) (int start) slots tp toks z)
    (tokens_of h (map sdsstr toks @ splits (take (Suc k) sep) (take (j - start) (drop start xs)) (drop j xs)))"
  using assms
proof (induction "length xs - j" arbitrary: j start slots tp toks z rule: less_induct)
  case less
  note a = less.prems
  let ?sep = "take (Suc k) sep" and ?cur = "take (j - start) (drop start xs)"
  have sl: "length ?sep = Suc k" using a(11) by (simp add: min_absorb2)
  have unat8: "unat (to_size (8 * i)) = nat (8 * i)" if "0 \<le> i" "i < 2147483648" for i
    using that by (intro unat_to_size) simp_all
  show ?case
  proof (cases "length xs - j < Suc k")
    case True
    have sp: "splits ?sep ?cur (drop j xs) = [take (length xs - start) (drop start xs)]"
      using True sl a(4,5) by (subst splits.simps) (simp add: take_drop_join)
    have g: "\<not> int j < int (length xs) - (int k + 1 - 1)" using True by simp
    have len: "int (length xs) - int start = int (length xs - start)" using a(4,5) by simp
    have tk: "take (length xs - start) (drop start s) = take (length xs - start) (drop start xs)"
      using a(10) by simp
    have tok: "yields z (split_token s (int start) (int (length xs - start)) tp toks z)
      (\<lambda>r z'. \<exists>x. r = Some (toks @ [x]) \<and> sdsstr x = take (length xs - start) (drop start s) \<and>
        sds_inv x \<and> region h ((tp, to_size (8 * slots)) # map item (toks @ [x])) z')"
      using a(4-10) unat8 [of slots] by (intro split_token_yields [OF a(1)]) auto
    show ?thesis
      unfolding sp
      by (subst split_loop.simps, unfold Let_def if_not_P [OF g] len, rule yields_bind [OF tok])
        (use a(2) tk in \<open>auto simp: tokens_of_def\<close>)
  next
    case False
    have lt: "int j < int (length xs) - (int k + 1 - 1)" using False by simp
    have jk: "j + Suc k \<le> length xs" using False by simp
    have here: "sep_here s (int j) sep (int k + 1) = Inr (take (Suc k) (drop j xs) = ?sep)"
      using sep_here_spec [of "Suc k" j s sep] jk a(10,11) by (simp add: add.commute)
    have c: "int j - int start = int (j - start)" "int j + (int k + 1) = int (j + Suc k)"
      "int j + 1 = int (Suc j)" using a(4) by simp_all
    have tk: "take (j - start) (drop start s) = ?cur" using a(5,10) by simp
    define m where "m = length xs - j"
    have hit: "yields z1 (rbind (split_token s (int start) (int (j - start)) tp1 toks z1) (\<lambda>(r, z2).
          case r of
            None \<Rightarrow> split_cleanup tp1 toks z2
          | Some toks1 \<Rightarrow> split_loop s (int (length xs)) sep k (int (j + Suc k)) (int (j + Suc k)) slots1 tp1 toks1 z2))
        (tokens_of h (map sdsstr toks @ ?cur # splits ?sep [] (drop (j + Suc k) xs)))"
      if g: "tp1 \<noteq> 0" "int (length toks) + 2 \<le> slots1" "slots1 \<le> max slots (2 * int (length toks) + 2)"
        "region h ((tp1, to_size (8 * slots1)) # map item toks) z1" for slots1 tp1 z1
    proof -
      have s1: "slots1 \<le> 2 * int (length xs) + 5" "slots1 < 2147483648"
        using g(3) a(5,6,8,9) by linarith+
      have tok: "yields z1 (split_token s (int start) (int (j - start)) tp1 toks z1)
        (\<lambda>r z'. \<exists>x. r = Some (toks @ [x]) \<and> sdsstr x = take (j - start) (drop start s) \<and>
          sds_inv x \<and> region h ((tp1, to_size (8 * slots1)) # map item (toks @ [x])) z')"
        using a(4,5,9,10) g(2) s1(2) unat8 [of slots1] by (intro split_token_yields [OF g(4)]) auto
      have "yields z2 (split_loop s (int (length xs)) sep k (int (j + Suc k)) (int (j + Suc k)) slots1 tp1 (toks @ [x]) z2)
          (tokens_of h (map sdsstr toks @ ?cur # splits ?sep [] (drop (j + Suc k) xs)))"
        if "region h ((tp1, to_size (8 * slots1)) # map item (toks @ [x])) z2" "sds_inv x"
          "sdsstr x = ?cur" for x z2
        using less.hyps [of "j + Suc k" tp1 slots1 "toks @ [x]" z2 "j + Suc k"] that a(2,6,9-11) g(1,2) jk s1(1)
        by simp
      then show ?thesis
        by (intro yields_bind [OF tok]) (use tk in auto)
    qed
    have miss: "yields z1 (split_loop s (int (length xs)) sep k (int (Suc j)) (int start) slots1 tp1 toks z1)
        (tokens_of h (map sdsstr toks @ splits ?sep (?cur @ [hd (drop j xs)]) (tl (drop j xs))))"
      if g: "tp1 \<noteq> 0" "int (length toks) + 2 \<le> slots1" "slots1 \<le> max slots (2 * int (length toks) + 2)"
        "region h ((tp1, to_size (8 * slots1)) # map item toks) z1" for slots1 tp1 z1
    proof -
      have "slots1 \<le> 2 * int (length xs) + 5" using g(3) a(5,6,8) by linarith
      moreover have "?cur @ [hd (drop j xs)] = take (Suc j - start) (drop start xs)"
        "tl (drop j xs) = drop (Suc j) xs"
        using jk a(4) by (simp_all add: take_drop_snoc hd_drop_conv_nth drop_Suc tl_drop)
      ultimately show ?thesis
        using less.hyps [of "Suc j" tp1 slots1 toks z1 start] a(2,4,6,9-11) g jk by simp
    qed
    have sp: "splits ?sep ?cur (drop j xs) =
        (if take (Suc k) (drop j xs) = ?sep then ?cur # splits ?sep [] (drop (j + Suc k) xs)
         else splits ?sep (?cur @ [hd (drop j xs)]) (tl (drop j xs)))"
      using jk sl by (subst splits.simps) (auto simp: add.commute)
    have grow: "length toks < 1073741000" using a(5,6,9) by simp
    show ?thesis
      unfolding sp
      by (subst split_loop.simps, unfold Let_def if_P [OF lt] here c rbind.simps,
          rule yields_bind [OF split_grow [OF a(1,3,7) grow]])
        (auto simp only: prod.case if_False intro!: hit miss split: if_split)
  qed
qed

lemma sdssplitlen_yields:
  assumes ok: "zheap_ok z" and n: "n \<le> length s" "n < 536870912" and k: "0 < k" "k \<le> length sep"
  shows "yields z (sdssplitlen s (int n) sep (int k) z)
    (tokens_of (hdrs z) (if n = 0 then [] else splits (take k sep) [] (take n s)))"
proof -
  have f: "fits (to_size (8 * 5))" by (intro fits_to_size) simp_all
  have k1: "nat (int k - 1) = k - 1" "Suc (k - 1) = k" using k(1) by simp_all
  have s: "s = take n s @ drop n s" "length (take n s) = n" using n(1) by simp_all
  have loop: "yields z1 (split_loop s (int n) sep (k - 1) 0 0 5 tp [] z1)
      (tokens_of (hdrs z) (splits (take k sep) [] (take n s)))"
    if "tp \<noteq> 0" "region (hdrs z) [(tp, to_size (8 * 5))] z1" for tp z1
    using split_loop_yields [of "hdrs z" tp 5 "[]" z1 0 0 "take n s" s "drop n s" "k - 1" sep] that s n(2) k
    by (simp add: k1(2))
  have none: "tokens_of (hdrs z) [] (Some (tp, [])) z1"
    if "region (hdrs z) [(tp, to_size (8 * 5))] z1" for tp z1
    using that by (auto simp: tokens_of_def)
  have g: "\<not> (int k < 1 \<or> int n < 0)" using k(1) by simp
  show ?thesis
    unfolding sdssplitlen_def Let_def if_not_P [OF g] k1(1)
    by (rule yields_bind [OF region_malloc [OF region_start [OF ok] f]])
      (auto simp only: prod.case if_False if_True of_nat_0 of_nat_eq_0_iff heap_ext_refl yields_Inr
        intro: loop none split: if_split)
qed

lemma free_down_returns:
  "region h (rest @ map item toks) z \<Longrightarrow>
   \<exists>z'. free_down (length toks) (toks @ extra) z = Inr z' \<and> heap_ext z z' \<and> region h rest z'"
proof (induction toks arbitrary: z extra rule: rev_induct)
  case Nil
  then show ?case by simp
next
  case (snoc x toks)
  have r: "region h (item x # rest @ map item toks) z"
    using snoc.prems region_move [of h "rest @ map item toks" "item x" "[]" z] by simp
  then obtain z1 where z1: "sdsfree (Some x) z = Inr z1" "heap_ext z z1" "region h (rest @ map item toks) z1"
    using region_sdsfree by blast
  then show ?case
    using snoc.IH [of z1 "x # extra"] heap_ext_trans [of z z1] by auto
qed

lemma sdsfreesplitres_returns:
  assumes "tokens_of h ws (Some (tp, toks)) z"
  shows "\<exists>z'. sdsfreesplitres (Some (tp, toks)) (length toks) z = Inr z' \<and> zheap_ok z' \<and> hdrs z' = h"
proof -
  obtain n where "region h ([(tp, n)] @ map item toks) z" using assms by (auto simp: tokens_of_def)
  then obtain z1 where z1: "free_down (length toks) toks z = Inr z1" "region h [(tp, n)] z1"
    using free_down_returns [of h "[(tp, n)]" toks z "[]"] by auto
  then obtain z2 where "zfree tp z1 = Inr z2" "region h [] z2"
    using region_free [of h tp n "[]"] by auto
  then show ?thesis using z1(1) by (auto simp: sdsfreesplitres_def region_Nil)
qed

subsection \<open>Correctness of splitting\<close>

text \<open>
  C10. \<open>sdssplitlen\<close> cuts a non-empty string at the leftmost separators: the tokens with the
  separator between them are the string again, no token contains the separator, and in a token
  followed by its separator the separator does not occur any earlier, so that every cut is at the
  first separator of the rest. Every token is a well-formed string in a block of its own, and the
  array is large enough for all of them whenever one is stored. For the empty string there is an
  array without tokens.
\<close>

theorem sdssplitlen_splits:
  assumes "zheap_ok z" "n \<le> length s" "n < 536870912" "0 < k" "k \<le> length sep"
  shows "\<exists>ws. yields z (sdssplitlen s (int n) sep (int k) z) (tokens_of (hdrs z) ws) \<and>
    intercalate (take k sep) ws = take n s \<and> (\<forall>w\<in>set ws. \<forall>u v. w \<noteq> u @ take k sep @ v) \<and>
    (\<forall>w\<in>set (butlast ws). \<forall>u v. w @ take k sep = u @ take k sep @ v \<longrightarrow> v = []) \<and> (ws = [] \<longleftrightarrow> n = 0)"
proof -
  let ?sep = "take k sep"
  have ne: "?sep \<noteq> []" using assms(4,5) by auto
  let ?ws = "if n = 0 then [] else splits ?sep [] (take n s)"
  have "intercalate ?sep ?ws = take n s"
    using intercalate_splits [OF ne, of "[]" "take n s"] by (simp add: intercalate_def)
  moreover have "\<forall>w\<in>set ?ws. \<forall>u v. w \<noteq> u @ ?sep @ v"
    using splits_sep_free [OF ne, of "[]" "take n s"] by auto
  moreover have "\<forall>w\<in>set (butlast ?ws). \<forall>u v. w @ ?sep = u @ ?sep @ v \<longrightarrow> v = []"
    using splits_leftmost [OF ne, of "[]" "take n s"] by auto
  moreover have "?ws = [] \<longleftrightarrow> n = 0" by (simp add: splits_nonempty)
  ultimately show ?thesis using sdssplitlen_yields [OF assms] by blast
qed

theorem sdssplitlen_splits_witness:
  "\<exists>ws. yields sample_heap (sdssplitlen ''aaa'' 3 ''aa'' 2 sample_heap)
     (tokens_of (hdrs sample_heap) ws) \<and> intercalate ''aa'' ws = ''aaa'' \<and> hd ws = []"
proof -
  obtain ws where ws: "yields sample_heap (sdssplitlen ''aaa'' 3 ''aa'' 2 sample_heap) (tokens_of (hdrs sample_heap) ws)"
      "intercalate ''aa'' ws = ''aaa''" "\<forall>w\<in>set ws. \<forall>u v. w \<noteq> u @ ''aa'' @ v"
      "\<forall>w\<in>set (butlast ws). \<forall>u v. w @ ''aa'' = u @ ''aa'' @ v \<longrightarrow> v = []" "ws \<noteq> []"
    using sdssplitlen_splits [OF sample_heap_ok, of 3 "''aaa''" 2 "''aa''"] by auto
  obtain w rest where c: "ws = w # rest" using ws(5) by (cases ws) auto
  have "rest \<noteq> []"
  proof
    assume "rest = []"
    then have "w = [] @ ''aa'' @ ''a''" using ws(2) c by (simp add: intercalate_def)
    then show False using ws(3) c by (metis list.set_intros(1))
  qed
  then have j: "w @ ''aa'' @ intercalate ''aa'' rest = ''aaa''" "w \<in> set (butlast ws)"
    using ws(2) c by (auto simp: intercalate_Cons)
  have "w = [] \<or> w = ''a''" using j(1) by (auto simp: append_eq_Cons_conv)
  moreover have "w \<noteq> ''a''"
  proof
    assume "w = ''a''"
    then have "w @ ''aa'' = [] @ ''aa'' @ ''a''" by simp
    then show False using ws(4) j(2) by blast
  qed
  ultimately show ?thesis using ws(1,2) c by auto
qed

text \<open>
  \<open>sdsfreesplitres\<close> after \<open>sdssplitlen\<close>, with the count it reported, frees the tokens and
  the array without a fault and leaves exactly the blocks that were live before, and the same
  \<open>used_memory\<close>.
\<close>

theorem sdssplitlen_then_free:
  assumes "zheap_ok z" "n \<le> length s" "n < 536870912" "0 < k" "k \<le> length sep"
  shows "yields z (sdssplitlen s (int n) sep (int k) z) (\<lambda>r z1. \<exists>tp toks z2. r = Some (tp, toks) \<and>
    sdsfreesplitres r (length toks) z1 = Inr z2 \<and> hdrs z2 = hdrs z \<and> used_memory z2 = used_memory z)"
  using sdssplitlen_yields [OF assms]
proof (rule yields_mono)
  fix r z1
  assume t: "tokens_of (hdrs z) (if n = 0 then [] else splits (take k sep) [] (take n s)) r z1"
  then obtain tp toks where r: "r = Some (tp, toks)" by (auto simp: tokens_of_def)
  obtain z2 where "sdsfreesplitres r (length toks) z1 = Inr z2" "zheap_ok z2" "hdrs z2 = hdrs z"
    using sdsfreesplitres_returns t unfolding r by blast
  then show "\<exists>tp toks z2. r = Some (tp, toks) \<and> sdsfreesplitres r (length toks) z1 = Inr z2 \<and>
      hdrs z2 = hdrs z \<and> used_memory z2 = used_memory z"
    using r zheap_ok_used [OF _ assms(1)] by blast
qed

theorem sdssplitlen_then_free_witness:
  "yields sample_heap (sdssplitlen ''a,b,c,d,e,f,g'' 13 '','' 1 sample_heap) (\<lambda>r z1. \<exists>tp toks z2.
     r = Some (tp, toks) \<and> sdsfreesplitres r (length toks) z1 = Inr z2 \<and>
     used_memory z2 = used_memory sample_heap)"
  using sdssplitlen_then_free [OF sample_heap_ok, of 13 "''a,b,c,d,e,f,g''" 1 "'',''"]
  by (simp, elim yields_mono) blast

end
