(* ===== verification/Sds_Args.thy ===== *)
theory Sds_Args
  imports Sds_Split
begin

text \<open>
  \<open>sdssplitargs\<close> of \<open>sds.c\<close>: the parser of command lines with quotes and escapes. The
  detailed model allocates the tokens and the vector on the heap and frees them on errors;
  it is proved to implement the pure parser \<open>words\<close>, and \<open>words\<close> to invert the quoting of
  \<open>sdscatrepr\<close>.

  The pointer \<open>p\<close> into the line is the list of the bytes from there on, with the
  terminator; a load beyond the list is out of bounds.
\<close>

definition is_hex_digit :: "char \<Rightarrow> bool" where
  "is_hex_digit c \<longleftrightarrow>
     (code CHR ''0'' \<le> code c \<and> code c \<le> code CHR ''9'') \<or>
     (code CHR ''a'' \<le> code c \<and> code c \<le> code CHR ''f'') \<or>
     (code CHR ''A'' \<le> code c \<and> code c \<le> code CHR ''F'')"

definition hex_digit_to_int :: "char \<Rightarrow> int" where
  "hex_digit_to_int c =
     (if c = CHR ''0'' then 0 else if c = CHR ''1'' then 1 else if c = CHR ''2'' then 2
      else if c = CHR ''3'' then 3 else if c = CHR ''4'' then 4 else if c = CHR ''5'' then 5
      else if c = CHR ''6'' then 6 else if c = CHR ''7'' then 7 else if c = CHR ''8'' then 8
      else if c = CHR ''9'' then 9
      else if c = CHR ''a'' \<or> c = CHR ''A'' then 10 else if c = CHR ''b'' \<or> c = CHR ''B'' then 11
      else if c = CHR ''c'' \<or> c = CHR ''C'' then 12 else if c = CHR ''d'' \<or> c = CHR ''D'' then 13
      else if c = CHR ''e'' \<or> c = CHR ''E'' then 14 else if c = CHR ''f'' \<or> c = CHR ''F'' then 15
      else 0)"

definition hex_escape :: "char \<Rightarrow> char list \<Rightarrow> char option res" where
  \<comment> \<open>the first test in quotes, on \<open>*p = c\<close> and the bytes \<open>q\<close> behind it\<close>
  "hex_escape c q =
     (if c \<noteq> CHR 0x5C then Inr None else
      rbind (peek q 0) (\<lambda>x. if x \<noteq> CHR ''x'' then Inr None else
      rbind (peek q 1) (\<lambda>a. if \<not> is_hex_digit a then Inr None else
      rbind (peek q 2) (\<lambda>b. if \<not> is_hex_digit b then Inr None else
      Inr (Some (chr (hex_digit_to_int a * 16 + hex_digit_to_int b)))))))"

definition unescape :: "char \<Rightarrow> char" where
  "unescape c =
     (if c = CHR ''n'' then CHR 0x0A else if c = CHR ''r'' then CHR 0x0D
      else if c = CHR ''t'' then CHR 0x09 else if c = CHR ''b'' then CHR 0x08
      else if c = CHR ''a'' then CHR 0x07 else c)"

definition close_quote :: "sds \<Rightarrow> char list \<Rightarrow> zheap \<Rightarrow> ((sds \<times> char list option) \<times> zheap) res" where
  \<comment> \<open>\<open>if (*(p+1) && !isspace(*(p+1))) goto err; done=1;\<close> and the final \<open>p++\<close>\<close>
  "close_quote cur q z =
     rbind (peek q 0) (\<lambda>n. Inr ((cur, if n \<noteq> NUL \<and> \<not> isspace n then None else Some q), z))"

fun arg_token :: "bool \<Rightarrow> bool \<Rightarrow> sds \<Rightarrow> char list \<Rightarrow> zheap \<Rightarrow> ((sds \<times> char list option) \<times> zheap) res" where
  \<comment> \<open>\<open>while(!done)\<close>; the result has the rest of the line, \<open>None\<close> for \<open>goto err\<close>. Each branch
     contains the \<open>if (*p) p++\<close> that ends an iteration.\<close>
  "arg_token inq insq cur [] z = Inl BadAccess"
| "arg_token inq insq cur (c # q) z =
     (if inq then
        rbind (hex_escape c q) (\<lambda>h.
        case h of
          Some byte \<Rightarrow>
            chain (sdscatlen cur [byte] 1 z) (\<lambda>cur1 z1. arg_token inq insq cur1 (drop 3 q) z1)
        | None \<Rightarrow>
            rbind (if c = CHR 0x5C then peek q 0 else Inr NUL) (\<lambda>n.
            if c = CHR 0x5C \<and> n \<noteq> NUL then
              chain (sdscatlen cur [unescape n] 1 z) (\<lambda>cur1 z1. arg_token inq insq cur1 (drop 1 q) z1)
            else if c = CHR 0x22 then close_quote cur q z
            else if c = NUL then Inr ((cur, None), z)
            else chain (sdscatlen cur [c] 1 z) (\<lambda>cur1 z1. arg_token inq insq cur1 q z1)))
      else if insq then
        rbind (if c = CHR 0x5C then peek q 0 else Inr NUL) (\<lambda>n.
        if c = CHR 0x5C \<and> n = CHR 0x27 then
          chain (sdscatlen cur [CHR 0x27] 1 z) (\<lambda>cur1 z1. arg_token inq insq cur1 (drop 1 q) z1)
        else if c = CHR 0x27 then close_quote cur q z
        else if c = NUL then Inr ((cur, None), z)
        else chain (sdscatlen cur [c] 1 z) (\<lambda>cur1 z1. arg_token inq insq cur1 q z1))
      else if c = CHR '' '' \<or> c = CHR 0x0A \<or> c = CHR 0x0D \<or> c = CHR 0x09 then Inr ((cur, Some q), z)
      else if c = NUL then Inr ((cur, Some (c # q)), z)
      else if c = CHR 0x22 then arg_token True insq cur q z
      else if c = CHR 0x27 then arg_token inq True cur q z
      else chain (sdscatlen cur [c] 1 z) (\<lambda>cur1 z1. arg_token inq insq cur1 q z1))"

fun skip_blanks :: "char list \<Rightarrow> char list res" where
  "skip_blanks [] = Inl BadAccess"
| "skip_blanks (c # q) = (if c \<noteq> NUL \<and> isspace c then skip_blanks q else Inr (c # q))"

definition args_err :: "ptr \<Rightarrow> sds list \<Rightarrow> sds \<Rightarrow> zheap \<Rightarrow> ((ptr \<times> sds list) option \<times> zheap) res" where
  "args_err vp toks cur z =
     rbind (free_down (length toks) toks z) (\<lambda>z1.
     rbind (zfree vp z1) (\<lambda>z2.
     rbind (sdsfree (Some cur) z2) (\<lambda>z3. Inr (None, z3))))"

lemma chain_eq_Inr: "chain m f = Inr y \<longleftrightarrow> (\<exists>s z. m = Inr (Some s, z) \<and> f s z = Inr y)"
  by (cases m) (auto simp: chain_def split: option.splits)

lemma arg_token_shorter:
  "arg_token inq insq cur p z = Inr ((cur', Some p'), z') \<Longrightarrow>
     length p' \<le> length p \<and> (hd p \<noteq> NUL \<longrightarrow> length p' < length p)"
proof (induction "length p" arbitrary: inq insq cur p z rule: less_induct)
  case less
  show ?case
  proof (cases p)
    case Nil
    then show ?thesis using less.prems by simp
  next
    case (Cons c q)
    have IH: "length p' \<le> length q"
      if "arg_token i j c1 (drop k q) z1 = Inr ((cur', Some p'), z')" for i j c1 k z1
    proof -
      have "length (drop k q) < length p" using Cons by (simp add: less_Suc_eq_le)
      from less.hyps [OF this that] have "length p' \<le> length (drop k q)" by blast
      then show ?thesis by simp
    qed
    have IH0: "length p' \<le> length q"
      if "arg_token i j c1 q z1 = Inr ((cur', Some p'), z')" for i j c1 z1
      using IH [of i j c1 0] that by simp
    have cq: "q1 = q" if "close_quote c1 q z1 = Inr ((c2, Some q1), z2)" for c1 z1 c2 q1 z2
      using that by (auto simp: close_quote_def rbind_eq_Inr split: if_splits)
    have d: "arg_token inq insq cur (c # q) z = Inr ((cur', Some p'), z')" using less.prems Cons by simp
    have "length p' \<le> length q \<or> p' = p \<and> c = NUL"
    proof (cases inq)
      case True
      with d show ?thesis
        by (auto simp: rbind_eq_Inr chain_eq_Inr split: if_splits option.splits dest: IH IH0 cq)
    next
      case False
      then show ?thesis using d Cons
        by (cases insq) (auto simp: rbind_eq_Inr chain_eq_Inr split: if_splits dest: IH IH0 cq)
    qed
    then show ?thesis using Cons by auto
  qed
qed

lemma skip_blanks_shorter: "skip_blanks p = Inr p' \<Longrightarrow> length p' \<le> length p"
  by (induction p) (auto split: if_splits)

function args_loop ::
  "ptr \<Rightarrow> sds list \<Rightarrow> char list \<Rightarrow> zheap \<Rightarrow> ((ptr \<times> sds list) option \<times> zheap) res"
where
  "args_loop vp toks p z =
     rbind (skip_blanks p) (\<lambda>p1.
     if hd p1 \<noteq> NUL then
       chain (sdsempty z) (\<lambda>cur z1.
       rbind (arg_token False False cur p1 z1) (\<lambda>((cur1, r), z2).
       case r of
         None \<Rightarrow> args_err vp toks cur1 z2
       | Some p2 \<Rightarrow>
           rbind (zrealloc vp (to_size (8 * (int (length toks) + 1))) z2) (\<lambda>(vp1, z3).
           rbind (store_slot vp1 toks cur1 z3) (\<lambda>toks1.
           args_loop vp1 toks1 p2 z3))))
     else if vp = 0 then rbind (zmalloc 8 z) (\<lambda>(vp1, z1). Inr (Some (vp1, toks), z1))
     else Inr (Some (vp, toks), z))"
  by pat_completeness auto
termination
proof (relation "measure (\<lambda>(vp, toks, p, z). length p)", goal_cases)
  case 1
  then show ?case by simp
next
  case (2 vp toks p z p1 cur z1 tok cr z2 cur1 r p2)
  then show ?case
    using skip_blanks_shorter [of p p1] arg_token_shorter [of False False cur p1 z1] by fastforce
qed

declare args_loop.simps [simp del]

definition sdssplitargs :: "char list \<Rightarrow> zheap \<Rightarrow> ((ptr \<times> sds list) option \<times> zheap) res" where
  \<comment> \<open>\<open>*argc\<close> is the length of the returned list, 0 with \<open>NULL\<close>\<close>
  "sdssplitargs line z = args_loop 0 [] (line @ [NUL]) z"

subsection \<open>The pure parser\<close>

fun word :: "bool \<Rightarrow> bool \<Rightarrow> char list \<Rightarrow> char list \<Rightarrow> (char list \<times> char list) option" where
  "word inq insq acc [] = (if inq \<or> insq then None else Some (acc, []))"
| "word inq insq acc (c # q) =
     (if inq then
        if c = CHR 0x5C \<and> 3 \<le> length q \<and> q ! 0 = CHR ''x'' \<and> is_hex_digit (q ! 1) \<and> is_hex_digit (q ! 2)
        then word inq insq (acc @ [chr (hex_digit_to_int (q ! 1) * 16 + hex_digit_to_int (q ! 2))]) (drop 3 q)
        else if c = CHR 0x5C \<and> q \<noteq> [] then word inq insq (acc @ [unescape (hd q)]) (drop 1 q)
        else if c = CHR 0x22 then if q \<noteq> [] \<and> \<not> isspace (hd q) then None else Some (acc, q)
        else word inq insq (acc @ [c]) q
      else if insq then
        if c = CHR 0x5C \<and> q \<noteq> [] \<and> hd q = CHR 0x27 then word inq insq (acc @ [CHR 0x27]) (drop 1 q)
        else if c = CHR 0x27 then if q \<noteq> [] \<and> \<not> isspace (hd q) then None else Some (acc, q)
        else word inq insq (acc @ [c]) q
      else if c = CHR '' '' \<or> c = CHR 0x0A \<or> c = CHR 0x0D \<or> c = CHR 0x09 then Some (acc, q)
      else if c = CHR 0x22 then word True insq acc q
      else if c = CHR 0x27 then word inq True acc q
      else word inq insq (acc @ [c]) q)"

lemma word_shorter:
  "word inq insq acc p = Some (w, p') \<Longrightarrow> length p' \<le> length p \<and> (p \<noteq> [] \<longrightarrow> length p' < length p)"
proof (induction "length p" arbitrary: inq insq acc p rule: less_induct)
  case less
  show ?case
  proof (cases p)
    case Nil
    then show ?thesis using less.prems by (simp split: if_splits)
  next
    case (Cons c q)
    have IH: "length p' \<le> length q" if "word i j a (drop k q) = Some (w, p')" for i j a k
    proof -
      have "length (drop k q) < length p" using Cons by (simp add: less_Suc_eq_le)
      from less.hyps [OF this that] have "length p' \<le> length (drop k q)" by blast
      then show ?thesis by simp
    qed
    have IH0: "length p' \<le> length q" if "word i j a q = Some (w, p')" for i j a
      using IH [of i j a 0] that by simp
    have "length p' \<le> length q"
      using less.prems Cons by (cases inq; cases insq) (auto split: if_splits dest: IH IH0)
    then show ?thesis using Cons by simp
  qed
qed

lemma word_suffix: "word inq insq acc p = Some (w, p') \<Longrightarrow> set p' \<subseteq> set p"
proof (induction "length p" arbitrary: inq insq acc p rule: less_induct)
  case less
  show ?case
  proof (cases p)
    case Nil
    then show ?thesis using less.prems by (simp split: if_splits)
  next
    case (Cons c q)
    have IH: "set p' \<subseteq> set q" if "word i j a (drop k q) = Some (w, p')" for i j a k
    proof -
      have "length (drop k q) < length p" using Cons by (simp add: less_Suc_eq_le)
      from less.hyps [OF this that] show ?thesis using set_drop_subset by (rule subset_trans)
    qed
    have IH0: "set p' \<subseteq> set q" if "word i j a q = Some (w, p')" for i j a
      using IH [of i j a 0] that by simp
    have "set p' \<subseteq> set q"
      using less.prems Cons by (cases inq; cases insq) (auto split: if_splits dest: IH IH0)
    then show ?thesis using Cons by auto
  qed
qed

function words :: "char list \<Rightarrow> char list list option" where
  "words p =
     (let p1 = dropWhile isspace p in
      if p1 = [] then Some []
      else case word False False [] p1 of
        None \<Rightarrow> None
      | Some (w, p2) \<Rightarrow> map_option (\<lambda>ws. w # ws) (words p2))"
  by pat_completeness auto
termination
proof (relation "measure length", goal_cases)
  case 1
  then show ?case by simp
next
  case (2 p p1 x w p2)
  then show ?case
    using word_shorter [of False False "[]" p1 w p2] length_dropWhile_le [of isspace p] by auto
qed

declare words.simps [simp del] word.simps [simp del] arg_token.simps [simp del]

subsection \<open>Refinement\<close>

lemma region_cat:
  assumes "region h (item cur # items) z" "sds_inv cur" "len cur + 1 < SDS_LIMIT"
    and "\<And>cur1 z1. region h (item cur1 # items) z1 \<Longrightarrow> sds_inv cur1 \<Longrightarrow>
      sdsstr cur1 = sdsstr cur @ [c] \<Longrightarrow> len cur1 = len cur + 1 \<Longrightarrow> yields z1 (f cur1 z1) Q"
  shows "yields z (chain (sdscatlen cur [c] 1 z) f) Q"
  unfolding chain_def
proof (rule yields_bind)
  have own: "owns z cur" using assms(1,2) by (intro region_owns) auto
  then show "yields z (sdscatlen cur [c] 1 z) (becomes z cur (sdsstr cur @ [c]))"
    using sdscatlen_yields [OF region_ok [OF assms(1)] own, of 1 "[c]"] assms(3) by simp
  fix r z1 assume b: "becomes z cur (sdsstr cur @ [c]) r z1"
  then obtain cur1 where c1: "r = Some cur1" "sdsstr cur1 = sdsstr cur @ [c]" "owns z1 cur1"
    by (auto simp: becomes_def)
  then have "len cur1 = len cur + 1" "sds_inv cur1"
    using length_owned [OF own] length_owned [OF c1(3)] by (auto simp: owns_def)
  then show "yields z1 ((\<lambda>(r, z). case r of None \<Rightarrow> Inl BadAccess | Some s \<Rightarrow> f s z) (r, z1)) Q"
    using assms(4) region_becomes [OF assms(1)] b c1 by simp
qed

definition token_post where
  "token_post h items rest w = (\<lambda>(cur, r) z'.
     region h (item cur # items) z' \<and> sds_inv cur \<and>
     (case w of None \<Rightarrow> r = None
      | Some (t, q) \<Rightarrow> sdsstr cur = t \<and> r = Some (q @ NUL # rest)))"

lemma hex_escape_word:
  "hex_escape c (q @ NUL # rest) = Inr
     (if c = CHR 0x5C \<and> 3 \<le> length q \<and> q ! 0 = CHR ''x'' \<and> is_hex_digit (q ! 1) \<and> is_hex_digit (q ! 2)
      then Some (chr (hex_digit_to_int (q ! 1) * 16 + hex_digit_to_int (q ! 2))) else None)"
proof -
  have nul: "\<not> is_hex_digit NUL" by (simp add: is_hex_digit_def code_def)
  consider "q = []" | a where "q = [a]" | a b where "q = [a, b]" | a b d q' where "q = a # b # d # q'"
    by (cases q; cases "tl q"; cases "tl (tl q)") auto
  then show ?thesis
    by cases (auto simp: hex_escape_def peek_def nul)
qed

lemma close_quote_word:
  "close_quote cur (q @ NUL # rest) z =
     Inr ((cur, if q \<noteq> [] \<and> \<not> isspace (hd q) then None else Some (q @ NUL # rest)), z)"
  if "NUL \<notin> set q"
  using that by (cases q) (auto simp: close_quote_def peek_def)

lemma arg_token_yields:
  assumes "region h (item cur # items) z" "sds_inv cur" "NUL \<notin> set P" "len cur + int (length P) < SDS_LIMIT"
  shows "yields z (arg_token inq insq cur (P @ NUL # rest) z)
    (token_post h items rest (word inq insq (sdsstr cur) P))"
  using assms
proof (induction "length P" arbitrary: inq insq cur P z rule: less_induct)
  case less
  note a = less.prems
  show ?case
  proof (cases P)
    case Nil
    have h: "hex_escape NUL rest = Inr None" by (simp add: hex_escape_def)
    show ?thesis using a(1,2) Nil
      by (cases inq; cases insq) (simp_all add: arg_token.simps word.simps token_post_def h)
  next
    case (Cons c q)
    have nul: "c \<noteq> NUL" "NUL \<notin> set q" "NUL \<notin> set (drop k q)" for k
      using a(3) Cons by (auto dest: in_set_dropD)
    have cat: "yields z (chain (sdscatlen cur [x] 1 z)
          (\<lambda>cur1 z1. arg_token i j cur1 (drop k q @ NUL # rest) z1))
        (token_post h items rest (word i j (sdsstr cur @ [x]) (drop k q)))" for x i j k
    proof (rule region_cat [OF a(1,2)])
      show "len cur + 1 < SDS_LIMIT" using a(4) Cons by simp
      fix cur1 z1
      assume b: "region h (item cur1 # items) z1" "sds_inv cur1" "sdsstr cur1 = sdsstr cur @ [x]"
        "len cur1 = len cur + 1"
      have "length (drop k q) < length P" using Cons by (simp add: less_Suc_eq_le)
      moreover have "len cur1 + int (length (drop k q)) < SDS_LIMIT" using a(4) b(4) Cons by simp
      ultimately show "yields z1 (arg_token i j cur1 (drop k q @ NUL # rest) z1)
          (token_post h items rest (word i j (sdsstr cur @ [x]) (drop k q)))"
        using less.hyps [OF _ b(1,2) nul(3)] b(3) by simp
    qed
    note cat0 = cat [of _ _ _ 0, simplified]
    have go: "yields z (arg_token i j cur (q @ NUL # rest) z)
        (token_post h items rest (word i j (sdsstr cur) q))" for i j
      using less.hyps [OF _ a(1,2) nul(2)] a(4) Cons by simp
    have stop: "token_post h items rest (Some (sdsstr cur, q)) (cur, Some (q @ NUL # rest)) z"
      "token_post h items rest None (cur, None) z"
      using a(1,2) by (auto simp: token_post_def)
    have pk: "peek (q @ NUL # rest) 0 = Inr (if q = [] then NUL else hd q)"
      by (cases q) (auto simp: peek_def)
    have d: "drop 3 (q @ NUL # rest) = drop 3 q @ NUL # rest" if "3 \<le> length q" using that by simp
    have d1: "drop 1 (q @ NUL # rest) = drop 1 q @ NUL # rest" if "q \<noteq> []" using that by (cases q) auto
    have hd_nul: "q \<noteq> [] \<Longrightarrow> hd q \<noteq> NUL" using nul(2) by (cases q) auto
    show ?thesis
    proof (cases inq)
      case True
      let ?hex = "c = CHR 0x5C \<and> 3 \<le> length q \<and> q ! 0 = CHR ''x'' \<and> is_hex_digit (q ! 1) \<and> is_hex_digit (q ! 2)"
      show ?thesis
      proof (cases ?hex)
        case h: True
        then show ?thesis using True Cons cat [of _ inq insq 3] d
          by (simp add: arg_token.simps word.simps hex_escape_word)
      next
        case False
        have he: "hex_escape c (q @ NUL # rest) = Inr None" using False by (simp add: hex_escape_word)
        have w: "word inq insq (sdsstr cur) (c # q) =
            (if c = CHR 0x5C \<and> q \<noteq> [] then word inq insq (sdsstr cur @ [unescape (hd q)]) (drop 1 q)
             else if c = CHR 0x22 then if q \<noteq> [] \<and> \<not> isspace (hd q) then None else Some (sdsstr cur, q)
             else word inq insq (sdsstr cur @ [c]) q)"
          unfolding word.simps if_not_P [OF False] using True by simp
        show ?thesis
        proof (cases "c = CHR 0x5C \<and> q \<noteq> []")
          case esc: True
          then show ?thesis using True cat [of "unescape (hd q)" inq insq 1] d1 hd_nul he
            unfolding Cons w by (simp add: arg_token.simps pk)
        next
          case nesc: False
          then have n: "(if c = CHR 0x5C then peek (q @ NUL # rest) 0 else Inr NUL) = Inr NUL"
            using pk by auto
          have "arg_token inq insq cur (c # q @ NUL # rest) z =
              (if c = CHR 0x22 then close_quote cur (q @ NUL # rest) z
               else chain (sdscatlen cur [c] 1 z) (\<lambda>cur1 z1. arg_token inq insq cur1 (q @ NUL # rest) z1))"
            unfolding arg_token.simps(2) he n rbind.simps option.case using True nul(1) by (simp only: if_True simp_thms if_False)
          then show ?thesis
            unfolding Cons append_Cons w if_not_P [OF nesc] close_quote_word [OF nul(2)]
            using cat0 [of c inq insq] stop by auto
        qed
      qed
    next
      case False
      show ?thesis
      proof (cases insq)
        case True
        show ?thesis
        proof (cases "c = CHR 0x5C \<and> q \<noteq> [] \<and> hd q = CHR 0x27")
          case esc: True
          then show ?thesis using False True cat [of "CHR 0x27" inq insq 1] d1
            unfolding Cons by (simp add: arg_token.simps word.simps pk)
        next
          case nesc: False
          have n: "(if c = CHR 0x5C then peek (q @ NUL # rest) 0 else Inr NUL) = Inr x \<Longrightarrow>
              \<not> (c = CHR 0x5C \<and> x = CHR 0x27)" for x
            using nesc pk by (auto split: if_splits)
          have "\<exists>x. (if c = CHR 0x5C then peek (q @ NUL # rest) 0 else Inr NUL) = Inr x"
            using pk by auto
          then obtain x where x: "(if c = CHR 0x5C then peek (q @ NUL # rest) 0 else Inr NUL) = Inr x" ..
          have "arg_token inq insq cur (c # q @ NUL # rest) z =
              (if c = CHR 0x27 then close_quote cur (q @ NUL # rest) z
               else chain (sdscatlen cur [c] 1 z) (\<lambda>cur1 z1. arg_token inq insq cur1 (q @ NUL # rest) z1))"
            unfolding arg_token.simps(2) x rbind.simps if_not_P [OF n [OF x]]
            using False True nul(1) by (simp only: if_True simp_thms if_False)
          moreover have "word inq insq (sdsstr cur) (c # q) =
              (if c = CHR 0x27 then if q \<noteq> [] \<and> \<not> isspace (hd q) then None else Some (sdsstr cur, q)
               else word inq insq (sdsstr cur @ [c]) q)"
            unfolding word.simps if_not_P [OF nesc] using False True by simp
          ultimately show ?thesis
            unfolding Cons append_Cons close_quote_word [OF nul(2)]
            using cat0 [of c inq insq] stop by auto
        qed
      next
        case nsq: False
        show ?thesis
          unfolding Cons append_Cons arg_token.simps(2) word.simps(2) if_not_P [OF False] if_not_P [OF nsq]
            if_not_P [OF nul(1)]
          using cat0 [of c inq insq] stop go by auto
      qed
    qed
  qed
qed

lemma skip_blanks_word: "NUL \<notin> set P \<Longrightarrow> skip_blanks (P @ NUL # rest) = Inr (dropWhile isspace P @ NUL # rest)"
  by (induction P) auto

definition vec :: "ptr \<Rightarrow> size_t \<Rightarrow> (ptr \<times> size_t) list" where
  \<comment> \<open>the block of the vector, none while it is \<open>NULL\<close>\<close>
  "vec vp m = (if vp = 0 then [] else [(vp, m)])"

lemma vec_grow:
  assumes "region h (x # vec vp m @ items) z" "fits n"
  shows "yields z (zrealloc vp n z) (\<lambda>q z'. q \<noteq> 0 \<and> region h ((q, n) # x # items) z')"
proof (cases "vp = 0")
  case True
  then show ?thesis using region_malloc [OF _ assms(2), of h "x # items" z] assms(1)
    by (simp add: vec_def zrealloc_def)
next
  case False
  then show ?thesis using region_realloc [OF _ assms(2), of h vp m "x # items" z] assms(1)
    by (simp add: vec_def region_swap)
qed

lemma vec_free:
  assumes "region h (x # vec vp m) z"
  shows "\<exists>z'. zfree vp z = Inr z' \<and> heap_ext z z' \<and> region h [x] z'"
proof (cases "vp = 0")
  case True
  then show ?thesis using assms by (simp add: vec_def zfree_def)
next
  case False
  then show ?thesis using region_free [of h vp m "[x]" z] assms by (simp add: vec_def region_swap)
qed

lemma args_err_returns:
  assumes "region h (item cur # vec vp m @ map item toks) z"
  shows "\<exists>z'. args_err vp toks cur z = Inr (None, z') \<and> heap_ext z z' \<and> region h [] z'"
proof -
  obtain z1 where z1: "free_down (length toks) toks z = Inr z1" "heap_ext z z1"
    "region h (item cur # vec vp m) z1"
    using free_down_returns [of h "item cur # vec vp m" toks z "[]"] assms by auto
  obtain z2 where z2: "zfree vp z1 = Inr z2" "heap_ext z1 z2" "region h [item cur] z2"
    using vec_free [OF z1(3)] by blast
  obtain z3 where z3: "sdsfree (Some cur) z2 = Inr z3" "heap_ext z2 z3" "region h [] z3"
    using region_sdsfree [OF z2(3)] by blast
  then show ?thesis
    using z1(1,2) z2(1,2) by (auto simp: args_err_def intro: heap_ext_trans)
qed

definition args_post where
  "args_post h ts w = (\<lambda>r z'. case w of None \<Rightarrow> r = None \<and> region h [] z'
     | Some ws \<Rightarrow> tokens_of h (ts @ ws) r z')"

lemma args_store:
  assumes r: "region h (item cur # vec vp m @ map item toks) z" and l: "length toks < 1073741824"
    and go: "\<And>q z1. q \<noteq> 0 \<Longrightarrow>
      region h ((q, to_size (8 * (int (length toks) + 1))) # map item (toks @ [cur])) z1 \<Longrightarrow>
      yields z1 (f q (toks @ [cur]) z1) Q"
  shows "yields z (rbind (zrealloc vp (to_size (8 * (int (length toks) + 1))) z) (\<lambda>(vp1, z3).
      rbind (store_slot vp1 toks cur z3) (\<lambda>toks1. f vp1 toks1 z3))) Q"
proof (rule yields_bind)
  let ?n = "to_size (8 * (int (length toks) + 1))"
  have n: "fits ?n" "unat ?n = nat (8 * (int (length toks) + 1))"
    using l by (intro fits_to_size unat_to_size; simp)+
  show "yields z (zrealloc vp ?n z) (\<lambda>q z'. q \<noteq> 0 \<and> region h ((q, ?n) # item cur # map item toks) z')"
    by (rule vec_grow [OF r n(1)])
  fix q z1 assume a: "q \<noteq> 0 \<and> region h ((q, ?n) # item cur # map item toks) z1"
  then have r1: "region h ((q, ?n) # map item (toks @ [cur])) z1"
    using region_snoc [of h "(q, ?n) # map item toks" "item cur" z1] by (simp add: region_swap)
  then have "hdrs z1 q = Some ?n" by (rule region_lookup) simp
  then have "store_slot q toks cur z1 = Inr (toks @ [cur])" using n(2) by (simp add: store_slot_def)
  then show "yields z1 ((\<lambda>(vp1, z3). rbind (store_slot vp1 toks cur z3) (\<lambda>toks1. f vp1 toks1 z3)) (q, z1)) Q"
    using go a r1 by simp
qed

lemma args_loop_yields:
  assumes "region h (vec vp m @ map item toks) z" "\<forall>s\<in>set toks. sds_inv s" "vp = 0 \<Longrightarrow> toks = []"
    "NUL \<notin> set P" "length toks + length P < 1073741824"
  shows "yields z (args_loop vp toks (P @ NUL # rest) z) (args_post h (map sdsstr toks) (words P))"
  using assms
proof (induction "length P" arbitrary: vp m toks z P rule: less_induct)
  case less
  note a = less.prems
  let ?p = "dropWhile isspace P"
  have nul: "NUL \<notin> set ?p" using a(4) by (auto dest: set_dropWhileD)
  have lp: "length ?p \<le> length P" by (rule length_dropWhile_le)
  show ?case
  proof (cases "?p = []")
    case True
    have w: "words P = Some []" by (subst words.simps) (simp add: True)
    have fin: "args_post h (map sdsstr toks) (Some []) (Some (q, toks)) z1"
      if "region h ((q, n) # map item toks) z1" for q n z1
      using that a(2) by (auto simp: args_post_def tokens_of_def)
    have "yields z (if vp = 0 then rbind (zmalloc 8 z) (\<lambda>(vp1, z1). Inr (Some (vp1, toks), z1))
        else Inr (Some (vp, toks), z)) (args_post h (map sdsstr toks) (Some []))"
    proof (cases "vp = 0")
      case v: True
      have "fits 8" by (simp add: fits_def)
      from region_malloc [OF _ this, of h "map item toks" z] a(1) v
      show ?thesis by (simp add: vec_def) (erule yields_bind, auto intro: fin)
    next
      case False
      then show ?thesis using a(1) by (auto simp: vec_def intro: fin)
    qed
    then show ?thesis
      unfolding w by (subst args_loop.simps) (simp add: skip_blanks_word [OF a(4)] True)
  next
    case False
    have hd: "hd (?p @ NUL # rest) \<noteq> NUL" using False nul by (cases ?p) auto
    have w: "words P = (case word False False [] ?p of None \<Rightarrow> None
        | Some (w, p2) \<Rightarrow> map_option (\<lambda>ws. w # ws) (words p2))"
      by (subst words.simps) (simp only: Let_def False if_False)
    have tok: "yields z1 (arg_token False False cur (?p @ NUL # rest) z1)
        (token_post h (vec vp m @ map item toks) rest (word False False [] ?p))"
      if "region h (item cur # vec vp m @ map item toks) z1" "sds_inv cur" "sdsstr cur = []" for cur z1
    proof -
      have "len cur = 0" using length_sdsstr [OF that(2)] that(3) by simp
      then show ?thesis
        using arg_token_yields [OF that(1,2) nul, of False False rest] a(5) lp that(3)
        by (simp add: SDS_LIMIT_def SDS_MAX_PREALLOC_def)
    qed
    have after: "yields z2 (case r of
           None \<Rightarrow> args_err vp toks cur1 z2
         | Some p2 \<Rightarrow>
             rbind (zrealloc vp (to_size (8 * (int (length toks) + 1))) z2) (\<lambda>(vp1, z3).
             rbind (store_slot vp1 toks cur1 z3) (\<lambda>toks1. args_loop vp1 toks1 p2 z3)))
        (args_post h (map sdsstr toks) (words P))"
      if t: "token_post h (vec vp m @ map item toks) rest (word False False [] ?p) (cur1, r) z2" for cur1 r z2
    proof (cases "word False False [] ?p")
      case None
      then show ?thesis using t args_err_returns [of h cur1 vp m toks z2] w
        by (auto simp: token_post_def args_post_def)
    next
      case (Some wq)
      obtain v p2 where vp2: "wq = (v, p2)" by (cases wq)
      have p2: "length p2 < length P" "NUL \<notin> set p2" "sdsstr cur1 = v" "r = Some (p2 @ NUL # rest)"
        "sds_inv cur1" "region h (item cur1 # vec vp m @ map item toks) z2"
        using word_shorter [of False False "[]" ?p v p2] word_suffix [of False False "[]" ?p v p2]
          Some vp2 False lp nul t by (auto simp: token_post_def)
      have "yields z3 (args_loop q (toks @ [cur1]) (p2 @ NUL # rest) z3)
          (args_post h (map sdsstr (toks @ [cur1])) (words p2))"
        if "q \<noteq> 0" "region h ((q, n) # map item (toks @ [cur1])) z3" for q n z3
        using less.hyps [OF p2(1), of q n "toks @ [cur1]" z3] that a(2,5) p2 by (simp add: vec_def)
      moreover have "args_post h (map sdsstr (toks @ [cur1])) (words p2)
          = args_post h (map sdsstr toks) (words P)"
        using w Some vp2 p2(3) by (cases "words p2") (auto simp: args_post_def fun_eq_iff)
      ultimately show ?thesis unfolding p2(4) option.case
        using a(5) by (intro args_store [OF p2(6)]) simp_all
    qed
    have "yields z (chain (sdsempty z) (\<lambda>cur z1.
        rbind (arg_token False False cur (?p @ NUL # rest) z1) (\<lambda>((cur1, r), z2).
        case r of
          None \<Rightarrow> args_err vp toks cur1 z2
        | Some p2 \<Rightarrow>
            rbind (zrealloc vp (to_size (8 * (int (length toks) + 1))) z2) (\<lambda>(vp1, z3).
            rbind (store_slot vp1 toks cur1 z3) (\<lambda>toks1. args_loop vp1 toks1 p2 z3)))))
        (args_post h (map sdsstr toks) (words P))"
      unfolding chain_def
    proof (rule yields_bind [OF sdsempty_yields [OF region_ok [OF a(1)]]])
      fix r z1 assume c: "created z [] r z1"
      then obtain cur where cur: "r = Some cur" "sdsstr cur = []" "sds_inv cur"
        by (auto simp: created_def owns_def)
      have r1: "region h (item cur # vec vp m @ map item toks) z1"
        using region_created [OF a(1)] c cur(1) by simp
      show "yields z1 ((\<lambda>(r, z1). case r of None \<Rightarrow> Inl BadAccess | Some cur \<Rightarrow>
          rbind (arg_token False False cur (?p @ NUL # rest) z1) (\<lambda>((cur1, r), z2).
          case r of
            None \<Rightarrow> args_err vp toks cur1 z2
          | Some p2 \<Rightarrow>
              rbind (zrealloc vp (to_size (8 * (int (length toks) + 1))) z2) (\<lambda>(vp1, z3).
              rbind (store_slot vp1 toks cur1 z3) (\<lambda>toks1. args_loop vp1 toks1 p2 z3)))) (r, z1))
          (args_post h (map sdsstr toks) (words P))"
        unfolding cur(1) prod.case option.case
        by (rule yields_bind [OF tok [OF r1 cur(3,2)]])
          (simp only: prod.case split_paired_all, rule after)
    qed
    then show ?thesis
      by (subst args_loop.simps) (simp only: skip_blanks_word [OF a(4)] rbind.simps hd if_True simp_thms not_False_eq_True)
  qed
qed

lemma sdssplitargs_yields:
  assumes "zheap_ok z" "length (cstr line) < 1073741824"
  shows "yields z (sdssplitargs line z) (args_post (hdrs z) [] (words (cstr line)))"
proof -
  obtain rest where l: "line @ [NUL] = cstr line @ NUL # rest" using cstr_split [of line] by blast
  show ?thesis
    unfolding sdssplitargs_def l
    using args_loop_yields [of "hdrs z" 0 0 "[]" z "cstr line" rest] region_start [OF assms(1)] assms(2)
    by (simp add: vec_def)
qed

subsection \<open>Parsing what \<open>sdscatrepr\<close> prints\<close>

lemma hex_char_digit:
  assumes "0 \<le> n" "n < 16"
  shows "is_hex_digit (hex_char n) \<and> hex_digit_to_int (hex_char n) = n"
proof -
  have "n \<in> set [0..15]" using assms by simp
  moreover have "\<forall>n \<in> set [0..15]. is_hex_digit (hex_char n) \<and> hex_digit_to_int (hex_char n) = n"
    by code_simp
  ultimately show ?thesis by blast
qed

lemma isspace_simps: "isspace CHR '' ''" "\<not> isspace CHR 0x22"
  by (simp_all add: isspace_def code_def)

lemma word_repr_char:
  "word True False acc (repr_text c @ q) = word True False (acc @ [c]) q" if q: "q \<noteq> []"
proof -
  let ?named = "{CHR 0x0A, CHR 0x0D, CHR 0x09, CHR 0x07, CHR 0x08}"
  consider (esc) "c = CHR 0x5C \<or> c = CHR 0x22" | (named) "c \<in> ?named"
    | (plain) "c \<noteq> CHR 0x5C" "c \<noteq> CHR 0x22" "c \<notin> ?named" "isprint c"
    | (hex) "c \<noteq> CHR 0x5C" "c \<noteq> CHR 0x22" "c \<notin> ?named" "\<not> isprint c"
    by blast
  then show ?thesis
  proof cases
    case esc
    then have "repr_text c = [CHR 0x5C, c]" "c \<noteq> CHR ''x''" "unescape c = c"
      by (auto simp: repr_text_def unescape_def)
    moreover from this have "word True False acc (CHR 0x5C # c # q) = word True False (acc @ [c]) q"
      by (subst word.simps(2)) simp
    ultimately show ?thesis by simp
  next
    case named
    then obtain x where x: "repr_text c = [CHR 0x5C, x]" "x \<noteq> CHR ''x''" "unescape x = c"
      by (auto simp: repr_text_def unescape_def)
    then have "word True False acc (CHR 0x5C # x # q) = word True False (acc @ [c]) q"
      by (subst word.simps(2)) simp
    then show ?thesis using x(1) by simp
  next
    case plain
    then have "repr_text c = [c]" by (simp add: repr_text_def)
    moreover have "word True False acc (c # q) = word True False (acc @ [c]) q"
      using plain(1,2) by (subst word.simps(2)) simp
    ultimately show ?thesis by simp
  next
    case hex
    let ?a = "code c div 16" and ?b = "code c mod 16"
    have "chr (?a * 16 + ?b) = c" by simp
    then have "word True False acc (CHR 0x5C # CHR ''x'' # hex_char ?a # hex_char ?b # q)
        = word True False (acc @ [c]) q"
      using hex_char_digit [OF code_div16(1,2), of c] hex_char_digit [OF code_div16(3,4), of c]
      by (subst word.simps(2)) (simp add: numeral_2_eq_2 numeral_3_eq_3)
    moreover have "repr_text c = [CHR 0x5C, CHR ''x'', hex_char ?a, hex_char ?b]"
      using hex by (simp add: repr_text_def)
    ultimately show ?thesis by simp
  qed
qed

lemma word_repr:
  "word True False acc (concat (map repr_text c) @ CHR 0x22 # q) = word True False (acc @ c) (CHR 0x22 # q)"
  by (induction c arbitrary: acc) (simp_all add: word_repr_char)

lemma words_blank: "isspace c \<Longrightarrow> words (c # p) = words p"
  by (subst (1 2) words.simps) simp

lemma words_quoted:
  assumes "q = [] \<or> isspace (hd q)"
  shows "words (quoted c @ q) = map_option (\<lambda>ws. c # ws) (words q)"
proof -
  have "word False False [] (quoted c @ q) = Some (c, q)"
    using assms word_repr [of "[]" c q]
    by (auto simp: quoted_def word.simps(2) [of False False] word.simps(2) [of True False])
  moreover have "dropWhile isspace (quoted c @ q) = quoted c @ q" "quoted c @ q \<noteq> []"
    by (simp_all add: quoted_def isspace_simps)
  ultimately show ?thesis
    by (subst words.simps) (simp only: Let_def if_False option.case prod.case)
qed

lemma words_quoted_list: "words (intercalate '' '' (map quoted ws)) = Some ws"
proof (induction ws rule: induct_list012)
  case 1
  then show ?case by (subst words.simps) (simp add: intercalate_def)
next
  case (2 w)
  have "words [] = Some []" by (subst words.simps) simp
  then show ?case using words_quoted [of "[]" w] by (simp add: intercalate_def)
next
  case (3 w v ws)
  then show ?case
    using words_quoted [of "'' '' @ intercalate '' '' (map quoted (v # ws))" w]
    by (simp add: intercalate_Cons isspace_simps words_blank)
qed

lemma quoted_NUL: "NUL \<notin> set (quoted c)"
  using repr_text_NUL by (auto simp: quoted_def)

lemma intercalate_NUL: "NUL \<notin> set sep \<Longrightarrow> \<forall>w\<in>set ws. NUL \<notin> set w \<Longrightarrow> NUL \<notin> set (intercalate sep ws)"
  by (induction sep ws rule: weave.induct) (auto simp: intercalate_def)

subsection \<open>Correctness of the command line parser\<close>

text \<open>
  C2. \<open>sdssplitargs\<close> implements the pure parser \<open>words\<close>: no load passes the terminator of the
  line, every store into the vector is inside its block, on success the tokens are the words
  of the line in blocks of their own, and on unbalanced quotes \<open>NULL\<close> is returned with the
  tokens, the vector and the unfinished token all freed. (The English comment of the function says
  so; the translated one promises the strings read so far also for unbalanced quotes, which the
  code never returns.)
\<close>

theorem sdssplitargs_refines:
  assumes "zheap_ok z" "length (cstr line) < 1073741824"
  shows "yields z (sdssplitargs line z) (\<lambda>r z1.
    case words (cstr line) of
      None \<Rightarrow> r = None \<and> hdrs z1 = hdrs z \<and> used_memory z1 = used_memory z
    | Some ws \<Rightarrow> tokens_of (hdrs z) ws r z1)"
  using sdssplitargs_yields [OF assms]
  by (rule yields_mono)
    (auto simp: args_post_def region_Nil intro: zheap_ok_used [OF _ assms(1)] split: option.splits)

theorem sdssplitargs_refines_witness:
  "yields sample_heap (sdssplitargs [CHR 0x22, CHR ''a''] sample_heap)
     (\<lambda>r z1. r = None \<and> used_memory z1 = used_memory sample_heap)"
proof -
  have w: "words [CHR 0x22, CHR ''a''] = None" "cstr [CHR 0x22, CHR ''a''] = [CHR 0x22, CHR ''a'']"
    by (subst words.simps, simp_all add: isspace_simps word.simps cstr_def)
  show ?thesis
    using sdssplitargs_refines [OF sample_heap_ok, of "[CHR 0x22, CHR ''a'']"]
    unfolding w by (simp, elim yields_mono) auto
qed

text \<open>
  C8. \<open>sdscatrepr\<close> and \<open>sdssplitargs\<close> are inverse: the quoted representation of any bytes,
  zero bytes, quotes, backslashes and unprintable ones included, appended to an empty string
  and parsed as a command line, is one argument with exactly those bytes.
\<close>

theorem repr_parses_back:
  assumes "zheap_ok z" "owns z s" "sdsstr s = []" "n \<le> length p" "length (quoted (take n p)) < 1073741824"
  shows "yields z (chain (sdscatrepr s p n z) (\<lambda>s1 z1. sdssplitargs (buf s1) z1))
    (\<lambda>r z2. \<exists>tp t. r = Some (tp, [t]) \<and> sdsstr t = take n p \<and> sds_inv t)"
  unfolding chain_def
proof (rule yields_bind)
  have "len s = 0" using length_owned [OF assms(2)] assms(3) by simp
  then show "yields z (sdscatrepr s p n z) (becomes z s (quoted (take n p)))"
    using sdscatrepr_yields [OF assms(1,2,4)] assms(3,5)
    by (simp add: SDS_LIMIT_def SDS_MAX_PREALLOC_def)
next
  fix r z1 assume "becomes z s (quoted (take n p)) r z1"
  then obtain s1 where s1: "r = Some s1" "sdsstr s1 = quoted (take n p)" "sds_inv s1" "zheap_ok z1"
    by (auto simp: becomes_def owns_def)
  obtain c x where "sdsstr s1 = c" "buf s1 = c @ NUL # x" using s1(3) by (rule sds_inv_rep)
  then have b: "cstr (buf s1) = quoted (take n p)"
    using s1(2) quoted_NUL [of "take n p"] by (simp add: cstr_append_NUL)
  have w: "words (quoted (take n p)) = Some [take n p]"
    using words_quoted_list [of "[take n p]"] by (simp add: intercalate_def)
  have "yields z1 (sdssplitargs (buf s1) z1) (args_post (hdrs z1) [] (Some [take n p]))"
    using sdssplitargs_yields [OF s1(4), of "buf s1"] assms(5) unfolding b w by simp
  then have "yields z1 (sdssplitargs (buf s1) z1)
      (\<lambda>r z2. \<exists>tp t. r = Some (tp, [t]) \<and> sdsstr t = take n p \<and> sds_inv t)"
    by (rule yields_mono) (auto simp: args_post_def tokens_of_def)
  then show "yields z1 ((\<lambda>(r, z). case r of None \<Rightarrow> Inl BadAccess | Some s1 \<Rightarrow> sdssplitargs (buf s1) z) (r, z1))
      (\<lambda>r z2. \<exists>tp t. r = Some (tp, [t]) \<and> sdsstr t = take n p \<and> sds_inv t)"
    by (simp add: s1(1))
qed

theorem repr_parses_back_witness:
  "\<exists>z s. zheap_ok z \<and> owns z s \<and>
     yields z (chain (sdscatrepr s [CHR 0x22, NUL, CHR ''x'', CHR 0x0A] 4 z) (\<lambda>s1 z1. sdssplitargs (buf s1) z1))
       (\<lambda>r z2. \<exists>tp t. r = Some (tp, [t]) \<and> sdsstr t = [CHR 0x22, NUL, CHR ''x'', CHR 0x0A] \<and> sds_inv t)"
proof -
  obtain s z where e: "sdsempty sample_heap = Inr (Some s, z)" "created sample_heap [] (Some s) z"
    using yields_returns [OF sdsempty_yields [OF sample_heap_ok]]
    by (auto simp: sample_heap_def created_def)
  then have z: "zheap_ok z" "owns z s" "sdsstr s = []" by (auto simp: created_def)
  have l: "length (quoted (take 4 [CHR 0x22, NUL, CHR ''x'', CHR 0x0A])) < 1073741824"
    by (simp add: quoted_def repr_text_def)
  show ?thesis
    using repr_parses_back [OF z _ l] z by auto
qed

end
