(* ===== verification/Ae_Epoll.thy ===== *)
theory Ae_Epoll
  imports Heap_Region "HOL-Library.Signed_Division"
begin

text \<open>
  The data of the event loop (\<open>ae.h\<close>) and its \<open>epoll\<close> back end (\<open>ae_epoll.c\<close>).

  The structures live on the heap of \<open>Zmalloc\<close>: a record carries the pointer of its block, and
  the arrays \<open>events\<close> and \<open>fired\<close> are lists with checked access. Function pointers and
  \<open>clientData\<close> are identifiers (0 is \<open>NULL\<close>).

  The rest of the world is in the record \<open>world\<close>: the interest sets of the epoll instances,
  and, as arbitrary functions of how often they were asked, the kernel's answers to
  \<open>epoll_create\<close>, \<open>epoll_ctl\<close> and \<open>epoll_wait\<close>, the clock, and the bytes of fresh
  memory. \<open>trace\<close> is the list of what happened, newest first; the application's callbacks
  decide by it.
\<close>

named_theorems ae_defs \<open>the definitions of the operations of the event loop\<close>

abbreviation AE_OK :: int where "AE_OK \<equiv> 0"
abbreviation AE_ERR :: int where "AE_ERR \<equiv> - 1"
abbreviation AE_NONE :: int where "AE_NONE \<equiv> 0"
abbreviation AE_READABLE :: int where "AE_READABLE \<equiv> 1"
abbreviation AE_WRITABLE :: int where "AE_WRITABLE \<equiv> 2"
abbreviation AE_FILE_EVENTS :: int where "AE_FILE_EVENTS \<equiv> 1"
abbreviation AE_TIME_EVENTS :: int where "AE_TIME_EVENTS \<equiv> 2"
abbreviation AE_ALL_EVENTS :: int where "AE_ALL_EVENTS \<equiv> 3"
abbreviation AE_DONT_WAIT :: int where "AE_DONT_WAIT \<equiv> 4"
abbreviation AE_NOMORE :: int where "AE_NOMORE \<equiv> - 1"

abbreviation EPOLLIN :: int where "EPOLLIN \<equiv> 1"
abbreviation EPOLLOUT :: int where "EPOLLOUT \<equiv> 4"
abbreviation EPOLLERR :: int where "EPOLLERR \<equiv> 8"
abbreviation EPOLLHUP :: int where "EPOLLHUP \<equiv> 16"

record aeFileEvent =
  fe_mask :: int
  rfileProc :: nat
  wfileProc :: nat
  fe_data :: nat

record aeTimeEvent =
  te_ptr :: ptr
  te_id :: int
  when_sec :: int
  when_ms :: int
  timeProc :: nat
  finalizerProc :: nat
  te_data :: nat

record aeFiredEvent =
  fired_fd :: int
  fired_mask :: int

record aeApiState =
  st_ptr :: ptr
  epfd :: int
  st_events :: ptr

record aeEventLoop =
  lp_ptr :: ptr
  maxfd :: int
  setsize :: int
  timeEventNextId :: int
  lastTime :: int
  ev_ptr :: ptr
  events :: "aeFileEvent list"
  fi_ptr :: ptr
  fired :: "aeFiredEvent list"
  timeEventHead :: "aeTimeEvent list"
  lp_stop :: int
  apidata :: aeApiState
  beforesleep :: nat

datatype happening =
    Slept int
  | FileFired int int nat
  | TimeFired int
  | Finalized nat nat
  | BeforeSleep
  | Returned int

record world =
  heap :: zheap
  eps :: "int \<rightharpoonup> (int \<rightharpoonup> int)"
  ep_new :: "nat \<Rightarrow> int"
  ep_deny :: "nat \<Rightarrow> bool"
  ep_ready :: "nat \<Rightarrow> (int \<times> int) list option"
  nsys :: nat
  clk :: "nat \<Rightarrow> int \<times> int"
  ntime :: nat
  junk_fe :: "ptr \<Rightarrow> nat \<Rightarrow> aeFileEvent"
  junk_fired :: "ptr \<Rightarrow> nat \<Rightarrow> aeFiredEvent"
  trace :: "happening list"

definition on_heap :: "(zheap \<Rightarrow> ('a \<times> zheap) res) \<Rightarrow> world \<Rightarrow> ('a \<times> world) res" where
  "on_heap f w = rbind (f (heap w)) (\<lambda>(x, z). Inr (x, w\<lparr>heap := z\<rparr>))"

definition wfree :: "ptr \<Rightarrow> world \<Rightarrow> world res" where
  "wfree p w = rbind (zfree p (heap w)) (\<lambda>z. Inr (w\<lparr>heap := z\<rparr>))"

definition log :: "happening \<Rightarrow> world \<Rightarrow> world" where
  "log e w = w\<lparr>trace := e # trace w\<rparr>"

subsection \<open>The kernel's epoll\<close>

datatype ctl_op = EPOLL_CTL_ADD | EPOLL_CTL_MOD | EPOLL_CTL_DEL

definition epoll_create :: "world \<Rightarrow> int \<times> world" where
  "epoll_create w =
     (let e = ep_new w (nsys w); w1 = w\<lparr>nsys := Suc (nsys w)\<rparr> in
      if 0 \<le> e \<and> eps w e = None then (e, w1\<lparr>eps := (eps w)(e \<mapsto> Map.empty)\<rparr>) else (- 1, w1))"

definition epoll_ctl :: "int \<Rightarrow> ctl_op \<Rightarrow> int \<Rightarrow> int \<Rightarrow> world \<Rightarrow> int \<times> world" where
  \<comment> \<open>an \<open>ADD\<close> may be denied (\<open>EBADF\<close>, \<open>EPERM\<close>, \<open>ENOSPC\<close>); a descriptor that is watched stays
     open, so that \<open>MOD\<close> and \<open>DEL\<close> find it\<close>
  "epoll_ctl e op fd evs w =
     (let w1 = w\<lparr>nsys := Suc (nsys w)\<rparr> in
      case eps w e of
        None \<Rightarrow> (- 1, w1)
      | Some m \<Rightarrow>
          (case op of
             EPOLL_CTL_ADD \<Rightarrow>
               if m fd \<noteq> None \<or> ep_deny w (nsys w) then (- 1, w1)
               else (0, w1\<lparr>eps := (eps w)(e \<mapsto> m(fd \<mapsto> evs))\<rparr>)
           | EPOLL_CTL_MOD \<Rightarrow>
               if m fd = None then (- 1, w1) else (0, w1\<lparr>eps := (eps w)(e \<mapsto> m(fd \<mapsto> evs))\<rparr>)
           | EPOLL_CTL_DEL \<Rightarrow>
               if m fd = None then (- 1, w1) else (0, w1\<lparr>eps := (eps w)(e \<mapsto> m(fd := None))\<rparr>)))"

definition epoll_wait :: "int \<Rightarrow> int \<Rightarrow> int \<Rightarrow> world \<Rightarrow> (int \<times> int) list option \<times> world" where
  \<comment> \<open>at most \<open>maxevents\<close> watched descriptors with events asked for, errors and hang-ups; \<open>None\<close>
     is the result -1\<close>
  "epoll_wait e maxevents timeout w =
     (let w1 = log (Slept timeout) (w\<lparr>nsys := Suc (nsys w)\<rparr>) in
      (case eps w e of
         None \<Rightarrow> None
       | Some m \<Rightarrow>
           map_option (\<lambda>r. take (nat maxevents)
             [(fd, ev AND (the (m fd) OR EPOLLERR OR EPOLLHUP)). (fd, ev) \<leftarrow> r, m fd \<noteq> None])
             (ep_ready w (nsys w)), w1))"

definition close_fd :: "int \<Rightarrow> world \<Rightarrow> world" where
  "close_fd e w = w\<lparr>eps := (eps w)(e := None)\<rparr>"

subsection \<open>\<open>ae_epoll.c\<close>\<close>

definition SIZEOF_aeApiState :: int where "SIZEOF_aeApiState = 16"
definition SIZEOF_epoll_event :: int where "SIZEOF_epoll_event = 12"

definition aeApiCreate :: "aeEventLoop \<Rightarrow> world \<Rightarrow> ((int \<times> aeEventLoop) \<times> world) res" where
  "aeApiCreate L w =
     rbind (on_heap (zmalloc (to_size SIZEOF_aeApiState)) w) (\<lambda>(st, w1).
     if st = 0 then Inr ((- 1, L), w1) else
     rbind (on_heap (zmalloc (to_size (SIZEOF_epoll_event * setsize L))) w1) (\<lambda>(ev, w2).
     if ev = 0 then rbind (wfree st w2) (\<lambda>w3. Inr ((- 1, L), w3)) else
     let (e, w3) = epoll_create w2 in
     if e = - 1 then
       rbind (wfree ev w3) (\<lambda>w4. rbind (wfree st w4) (\<lambda>w5. Inr ((- 1, L), w5)))
     else Inr ((0, L\<lparr>apidata := \<lparr>st_ptr = st, epfd = e, st_events = ev\<rparr>\<rparr>), w3)))"

definition aeApiResize :: "aeEventLoop \<Rightarrow> int \<Rightarrow> world \<Rightarrow> ((int \<times> aeEventLoop) \<times> world) res" where
  "aeApiResize L n w =
     rbind (on_heap (zrealloc (st_events (apidata L)) (to_size (SIZEOF_epoll_event * n))) w) (\<lambda>(ev, w1).
     Inr ((0, L\<lparr>apidata := (apidata L)\<lparr>st_events := ev\<rparr>\<rparr>), w1))"

definition aeApiFree :: "aeEventLoop \<Rightarrow> world \<Rightarrow> world res" where
  "aeApiFree L w =
     (let st = apidata L; w1 = close_fd (epfd st) w in
      rbind (wfree (st_events st) w1) (\<lambda>w2. wfree (st_ptr st) w2))"

definition fe_at :: "aeEventLoop \<Rightarrow> int \<Rightarrow> aeFileEvent res" where
  \<comment> \<open>\<open>eventLoop->events[fd]\<close>\<close>
  "fe_at L fd = (if 0 \<le> fd \<and> fd < int (length (events L)) then Inr (events L ! nat fd) else Inl BadAccess)"

definition ee_events :: "int \<Rightarrow> int" where
  "ee_events msk =
     (let e0 = 0; e1 = (if msk AND AE_READABLE \<noteq> 0 then e0 OR EPOLLIN else e0) in
      if msk AND AE_WRITABLE \<noteq> 0 then e1 OR EPOLLOUT else e1)"

definition aeApiAddEvent :: "aeEventLoop \<Rightarrow> int \<Rightarrow> int \<Rightarrow> world \<Rightarrow> (int \<times> world) res" where
  "aeApiAddEvent L fd msk w =
     rbind (fe_at L fd) (\<lambda>fe.
     let op = (if fe_mask fe = AE_NONE then EPOLL_CTL_ADD else EPOLL_CTL_MOD);
         msk1 = msk OR fe_mask fe;
         (r, w1) = epoll_ctl (epfd (apidata L)) op fd (ee_events msk1) w in
     Inr (if r = - 1 then - 1 else 0, w1))"

definition aeApiDelEvent :: "aeEventLoop \<Rightarrow> int \<Rightarrow> int \<Rightarrow> world \<Rightarrow> world res" where
  "aeApiDelEvent L fd delmask w =
     rbind (fe_at L fd) (\<lambda>fe.
     let msk = fe_mask fe AND NOT delmask in
     if msk \<noteq> AE_NONE then Inr (snd (epoll_ctl (epfd (apidata L)) EPOLL_CTL_MOD fd (ee_events msk) w))
     else Inr (snd (epoll_ctl (epfd (apidata L)) EPOLL_CTL_DEL fd (ee_events msk) w)))"

definition poll_mask :: "int \<Rightarrow> int" where
  \<comment> \<open>the translation of the events of one ready descriptor\<close>
  "poll_mask ev =
     (let m0 = 0;
          m1 = (if ev AND EPOLLIN \<noteq> 0 then m0 OR AE_READABLE else m0);
          m2 = (if ev AND EPOLLOUT \<noteq> 0 then m1 OR AE_WRITABLE else m1);
          m3 = (if ev AND EPOLLERR \<noteq> 0 then m2 OR AE_WRITABLE else m2) in
      if ev AND EPOLLHUP \<noteq> 0 then m3 OR AE_WRITABLE else m3)"

fun fill_fired :: "aeFiredEvent list \<Rightarrow> nat \<Rightarrow> (int \<times> int) list \<Rightarrow> aeFiredEvent list res" where
  "fill_fired fi j [] = Inr fi"
| "fill_fired fi j ((fd, ev) # evs) =
     (if j < length fi
      then fill_fired (fi[j := \<lparr>fired_fd = fd, fired_mask = poll_mask ev\<rparr>]) (Suc j) evs
      else Inl BadAccess)"

definition poll_timeout :: "(int \<times> int) option \<Rightarrow> int" where
  \<comment> \<open>\<open>tvp ? (tvp->tv_sec*1000 + tvp->tv_usec/1000) : -1\<close>, passed as an \<open>int\<close>\<close>
  "poll_timeout tvp = (case tvp of None \<Rightarrow> - 1 | Some (s, us) \<Rightarrow> s32 (s * 1000 + us sdiv 1000))"

definition aeApiPoll :: "aeEventLoop \<Rightarrow> (int \<times> int) option \<Rightarrow> world \<Rightarrow> ((int \<times> aeEventLoop) \<times> world) res" where
  "aeApiPoll L tvp w =
     (let (r, w1) = epoll_wait (epfd (apidata L)) (setsize L) (poll_timeout tvp) w in
      case r of
        None \<Rightarrow> Inr ((0, L), w1)
      | Some evs \<Rightarrow>
          rbind (fill_fired (fired L) 0 evs) (\<lambda>fi.
          Inr ((int (length evs), L\<lparr>fired := fi\<rparr>), w1)))"

definition aeApiName :: "char list" where
  "aeApiName = ''epoll''"

end
