(* ===== verification/Ae.thy ===== *)
theory Ae
  imports Ae_Epoll
begin

text \<open>
  The operations of the event loop of \<open>ae.c\<close>: creation, resizing and deletion, file events,
  time events, and the processing of both up to the main loop.

  An application is a record of its callbacks. A callback may do anything to its own state
  (it decides by the whole trace of what has happened), but it acts on the loop through the
  API only: it yields the list of the calls it makes, which the model executes. A loop that
  the application can keep running for ever (\<open>processTimeEvents\<close>, \<open>aeMain\<close>) has fuel.
\<close>

subsection \<open>Creation, resizing, deletion\<close>

definition SIZEOF_aeEventLoop :: int where "SIZEOF_aeEventLoop = 72"
definition SIZEOF_aeFileEvent :: int where "SIZEOF_aeFileEvent = 32"
definition SIZEOF_aeFiredEvent :: int where "SIZEOF_aeFiredEvent = 8"
definition SIZEOF_aeTimeEvent :: int where "SIZEOF_aeTimeEvent = 56"

definition gettimeofday :: "world \<Rightarrow> (int \<times> int) \<times> world" where
  "gettimeofday w = (clk w (ntime w), w\<lparr>ntime := Suc (ntime w)\<rparr>)"

definition time_sec :: "world \<Rightarrow> int \<times> world" where
  \<comment> \<open>\<open>time(NULL)\<close>\<close>
  "time_sec w = (let ((s, us), w1) = gettimeofday w in (s, w1))"

function clear_masks :: "aeFileEvent list \<Rightarrow> int \<Rightarrow> int \<Rightarrow> aeFileEvent list res" where
  \<comment> \<open>\<open>for (; i < setsize; i++) eventLoop->events[i].mask = AE_NONE;\<close>\<close>
  "clear_masks evs i n =
     (if i < n then
        if 0 \<le> i \<and> i < int (length evs)
        then clear_masks (evs[nat i := (evs ! nat i)\<lparr>fe_mask := AE_NONE\<rparr>]) (i + 1) n
        else Inl BadAccess
      else Inr evs)"
  by pat_completeness auto
termination by (relation "measure (\<lambda>(evs, i, n). nat (n - i))") auto

declare clear_masks.simps [simp del]

definition create_err :: "ptr \<Rightarrow> ptr \<Rightarrow> ptr \<Rightarrow> world \<Rightarrow> (aeEventLoop option \<times> world) res" where
  \<comment> \<open>\<open>err:\<close> of \<open>aeCreateEventLoop\<close>\<close>
  "create_err lp ev fi w =
     rbind (wfree ev w) (\<lambda>w1. rbind (wfree fi w1) (\<lambda>w2. rbind (wfree lp w2) (\<lambda>w3. Inr (None, w3))))"

definition aeCreateEventLoop :: "int \<Rightarrow> world \<Rightarrow> (aeEventLoop option \<times> world) res" where
  "aeCreateEventLoop n w =
     rbind (on_heap (zmalloc (to_size SIZEOF_aeEventLoop)) w) (\<lambda>(lp, w1).
     if lp = 0 then Inr (None, w1) else
     rbind (on_heap (zmalloc (to_size (SIZEOF_aeFileEvent * n))) w1) (\<lambda>(ev, w2).
     rbind (on_heap (zmalloc (to_size (SIZEOF_aeFiredEvent * n))) w2) (\<lambda>(fi, w3).
     if ev = 0 \<or> fi = 0 then create_err lp ev fi w3 else
     let (now, w4) = time_sec w3;
         L = \<lparr>lp_ptr = lp, maxfd = - 1, setsize = n, timeEventNextId = 0, lastTime = now,
              ev_ptr = ev, events = map (junk_fe w4 ev) [0..<nat n],
              fi_ptr = fi, fired = map (junk_fired w4 fi) [0..<nat n],
              timeEventHead = [], lp_stop = 0,
              apidata = \<lparr>st_ptr = 0, epfd = - 1, st_events = 0\<rparr>, beforesleep = 0\<rparr> in
     rbind (aeApiCreate L w4) (\<lambda>((r, L1), w5).
     if r = - 1 then create_err lp ev fi w5 else
     rbind (clear_masks (events L1) 0 n) (\<lambda>evs.
     Inr (Some (L1\<lparr>events := evs\<rparr>), w5))))))"

definition aeGetSetSize :: "aeEventLoop \<Rightarrow> int" where
  "aeGetSetSize L = setsize L"

definition aeResizeSetSize :: "aeEventLoop \<Rightarrow> int \<Rightarrow> world \<Rightarrow> ((int \<times> aeEventLoop) \<times> world) res" where
  "aeResizeSetSize L n w =
     (if n = setsize L then Inr ((AE_OK, L), w)
      else if maxfd L \<ge> n then Inr ((AE_ERR, L), w)
      else
        rbind (aeApiResize L n w) (\<lambda>((r, L1), w1).
        if r = - 1 then Inr ((AE_ERR, L1), w1) else
        rbind (on_heap (zrealloc (ev_ptr L1) (to_size (SIZEOF_aeFileEvent * n))) w1) (\<lambda>(ev, w2).
        rbind (on_heap (zrealloc (fi_ptr L1) (to_size (SIZEOF_aeFiredEvent * n))) w2) (\<lambda>(fi, w3).
        let L2 = L1\<lparr>ev_ptr := ev,
               events := take (nat n) (events L1) @ map (junk_fe w3 ev) [length (events L1)..<nat n],
               fi_ptr := fi,
               fired := take (nat n) (fired L1) @ map (junk_fired w3 fi) [length (fired L1)..<nat n],
               setsize := n\<rparr> in
        rbind (clear_masks (events L2) (maxfd L2 + 1) n) (\<lambda>evs.
        Inr ((AE_OK, L2\<lparr>events := evs\<rparr>), w3))))))"

definition aeDeleteEventLoop :: "aeEventLoop \<Rightarrow> world \<Rightarrow> world res" where
  "aeDeleteEventLoop L w =
     rbind (aeApiFree L w) (\<lambda>w1.
     rbind (wfree (ev_ptr L) w1) (\<lambda>w2.
     rbind (wfree (fi_ptr L) w2) (\<lambda>w3.
     wfree (lp_ptr L) w3)))"

definition aeStop :: "aeEventLoop \<Rightarrow> aeEventLoop" where
  "aeStop L = L\<lparr>lp_stop := 1\<rparr>"

definition aeSetBeforeSleepProc :: "aeEventLoop \<Rightarrow> nat \<Rightarrow> aeEventLoop" where
  "aeSetBeforeSleepProc L proc = L\<lparr>beforesleep := proc\<rparr>"

definition aeGetApiName :: "char list" where
  "aeGetApiName = aeApiName"

subsection \<open>File events\<close>

definition aeCreateFileEvent ::
  "aeEventLoop \<Rightarrow> int \<Rightarrow> int \<Rightarrow> nat \<Rightarrow> nat \<Rightarrow> world \<Rightarrow> ((int \<times> aeEventLoop) \<times> world) res"
where
  "aeCreateFileEvent L fd msk proc clientData w =
     (if fd \<ge> setsize L then Inr ((AE_ERR, L), w) else
      rbind (aeApiAddEvent L fd msk w) (\<lambda>(r, w1).
      if r = - 1 then Inr ((AE_ERR, L), w1) else
      rbind (fe_at L fd) (\<lambda>fe.
      let fe1 = fe\<lparr>fe_mask := fe_mask fe OR msk\<rparr>;
          fe2 = (if msk AND AE_READABLE \<noteq> 0 then fe1\<lparr>rfileProc := proc\<rparr> else fe1);
          fe3 = (if msk AND AE_WRITABLE \<noteq> 0 then fe2\<lparr>wfileProc := proc\<rparr> else fe2);
          fe4 = fe3\<lparr>fe_data := clientData\<rparr>;
          L1 = L\<lparr>events := (events L)[nat fd := fe4]\<rparr> in
      Inr ((AE_OK, if fd > maxfd L1 then L1\<lparr>maxfd := fd\<rparr> else L1), w1))))"

function max_down :: "aeFileEvent list \<Rightarrow> int \<Rightarrow> int res" where
  \<comment> \<open>\<open>for (; j >= 0; j--) if (eventLoop->events[j].mask != AE_NONE) break;\<close>\<close>
  "max_down evs j =
     (if j \<ge> 0 then
        if j < int (length evs)
        then if fe_mask (evs ! nat j) \<noteq> AE_NONE then Inr j else max_down evs (j - 1)
        else Inl BadAccess
      else Inr j)"
  by pat_completeness auto
termination by (relation "measure (\<lambda>(evs, j). nat (j + 1))") auto

declare max_down.simps [simp del]

definition aeDeleteFileEvent :: "aeEventLoop \<Rightarrow> int \<Rightarrow> int \<Rightarrow> world \<Rightarrow> (aeEventLoop \<times> world) res" where
  "aeDeleteFileEvent L fd msk w =
     (if fd \<ge> setsize L then Inr (L, w) else
      rbind (fe_at L fd) (\<lambda>fe.
      if fe_mask fe = AE_NONE then Inr (L, w) else
      let m1 = fe_mask fe AND NOT msk;
          L1 = L\<lparr>events := (events L)[nat fd := fe\<lparr>fe_mask := m1\<rparr>]\<rparr> in
      rbind (if fd = maxfd L1 \<and> m1 = AE_NONE
             then rbind (max_down (events L1) (maxfd L1 - 1)) (\<lambda>j. Inr (L1\<lparr>maxfd := j\<rparr>))
             else Inr L1) (\<lambda>L2.
      rbind (aeApiDelEvent L2 fd msk w) (\<lambda>w1.
      Inr (L2, w1)))))"

definition aeGetFileEvents :: "aeEventLoop \<Rightarrow> int \<Rightarrow> int res" where
  "aeGetFileEvents L fd =
     (if fd \<ge> setsize L then Inr 0 else rbind (fe_at L fd) (\<lambda>fe. Inr (fe_mask fe)))"

subsection \<open>Time events\<close>

definition aeGetTime :: "world \<Rightarrow> (int \<times> int) \<times> world" where
  "aeGetTime w = (let ((s, us), w1) = gettimeofday w in ((s, us sdiv 1000), w1))"

definition aeAddMillisecondsToNow :: "int \<Rightarrow> world \<Rightarrow> (int \<times> int) \<times> world" where
  "aeAddMillisecondsToNow milliseconds w =
     (let ((cur_sec, cur_ms), w1) = aeGetTime w;
          sec = cur_sec + milliseconds sdiv 1000;
          ms = cur_ms + milliseconds smod 1000 in
      (if ms \<ge> 1000 then (sec + 1, ms - 1000) else (sec, ms), w1))"

definition aeCreateTimeEvent ::
  "aeEventLoop \<Rightarrow> int \<Rightarrow> nat \<Rightarrow> nat \<Rightarrow> nat \<Rightarrow> world \<Rightarrow> ((int \<times> aeEventLoop) \<times> world) res"
where
  "aeCreateTimeEvent L milliseconds proc clientData fproc w =
     (let tid = timeEventNextId L in
      rbind (c64 (tid + 1)) (\<lambda>nxt.
      let L1 = L\<lparr>timeEventNextId := nxt\<rparr> in
      rbind (on_heap (zmalloc (to_size SIZEOF_aeTimeEvent)) w) (\<lambda>(p, w1).
      if p = 0 then Inr ((AE_ERR, L1), w1) else
      let ((sec, ms), w2) = aeAddMillisecondsToNow milliseconds w1;
          te = \<lparr>te_ptr = p, te_id = tid, when_sec = sec, when_ms = ms, timeProc = proc,
                finalizerProc = fproc, te_data = clientData\<rparr> in
      Inr ((tid, L1\<lparr>timeEventHead := te # timeEventHead L1\<rparr>), w2))))"

fun unlink_te :: "int \<Rightarrow> aeTimeEvent list \<Rightarrow> (aeTimeEvent \<times> aeTimeEvent list) option" where
  \<comment> \<open>the search along \<open>next\<close> and the removal of the node found\<close>
  "unlink_te tid [] = None"
| "unlink_te tid (te # tes) =
     (if te_id te = tid then Some (te, tes)
      else map_option (\<lambda>(x, rest). (x, te # rest)) (unlink_te tid tes))"

definition aeDeleteTimeEvent :: "aeEventLoop \<Rightarrow> int \<Rightarrow> world \<Rightarrow> ((int \<times> aeEventLoop) \<times> world) res" where
  \<comment> \<open>a finalizer acts on the application's own data: it is an entry of the trace\<close>
  "aeDeleteTimeEvent L tid w =
     (case unlink_te tid (timeEventHead L) of
        None \<Rightarrow> Inr ((AE_ERR, L), w)
      | Some (te, tes) \<Rightarrow>
          let L1 = L\<lparr>timeEventHead := tes\<rparr>;
              w1 = (if finalizerProc te \<noteq> 0 then log (Finalized (finalizerProc te) (te_data te)) w else w) in
          rbind (wfree (te_ptr te) w1) (\<lambda>w2.
          Inr ((AE_OK, L1), w2)))"

fun nearest_of :: "aeTimeEvent list \<Rightarrow> aeTimeEvent option \<Rightarrow> aeTimeEvent option" where
  "nearest_of [] nearest = nearest"
| "nearest_of (te # tes) nearest =
     nearest_of tes
       (case nearest of
          None \<Rightarrow> Some te
        | Some n \<Rightarrow>
            if when_sec te < when_sec n \<or> (when_sec te = when_sec n \<and> when_ms te < when_ms n)
            then Some te else Some n)"

definition aeSearchNearestTimer :: "aeEventLoop \<Rightarrow> aeTimeEvent option" where
  "aeSearchNearestTimer L = nearest_of (timeEventHead L) None"

subsection \<open>The application\<close>

datatype ae_call =
    CallCreateFile int int nat nat
  | CallDeleteFile int int
  | CallCreateTime int nat nat nat
  | CallDeleteTime int
  | CallResize int
  | CallStop

record app =
  on_file :: "nat \<Rightarrow> int \<Rightarrow> nat \<Rightarrow> int \<Rightarrow> happening list \<Rightarrow> ae_call list"
  on_time :: "nat \<Rightarrow> int \<Rightarrow> nat \<Rightarrow> happening list \<Rightarrow> ae_call list \<times> int"
  on_sleep :: "nat \<Rightarrow> happening list \<Rightarrow> ae_call list"

fun run_call :: "ae_call \<Rightarrow> aeEventLoop \<Rightarrow> world \<Rightarrow> (aeEventLoop \<times> world) res" where
  \<comment> \<open>the caller sees the result of the call in the trace\<close>
  "run_call (CallCreateFile fd msk proc d) L w =
     rbind (aeCreateFileEvent L fd msk proc d w) (\<lambda>((r, L1), w1). Inr (L1, log (Returned r) w1))"
| "run_call (CallDeleteFile fd msk) L w = aeDeleteFileEvent L fd msk w"
| "run_call (CallCreateTime ms proc d f) L w =
     rbind (aeCreateTimeEvent L ms proc d f w) (\<lambda>((r, L1), w1). Inr (L1, log (Returned r) w1))"
| "run_call (CallDeleteTime tid) L w =
     rbind (aeDeleteTimeEvent L tid w) (\<lambda>((r, L1), w1). Inr (L1, log (Returned r) w1))"
| "run_call (CallResize n) L w =
     rbind (aeResizeSetSize L n w) (\<lambda>((r, L1), w1). Inr (L1, log (Returned r) w1))"
| "run_call CallStop L w = Inr (aeStop L, w)"

fun run_calls :: "ae_call list \<Rightarrow> aeEventLoop \<Rightarrow> world \<Rightarrow> (aeEventLoop \<times> world) res" where
  "run_calls [] L w = Inr (L, w)"
| "run_calls (c # cs) L w = rbind (run_call c L w) (\<lambda>(L1, w1). run_calls cs L1 w1)"

subsection \<open>Processing time events\<close>

definition te_due :: "int \<times> int \<Rightarrow> aeTimeEvent \<Rightarrow> bool" where
  "te_due now te \<longleftrightarrow>
     fst now > when_sec te \<or> (fst now = when_sec te \<and> snd now \<ge> when_ms te)"

definition set_when :: "ptr \<Rightarrow> int \<times> int \<Rightarrow> aeTimeEvent list \<Rightarrow> world \<Rightarrow> aeTimeEvent list res" where
  \<comment> \<open>the stores to \<open>te->when_sec\<close> and \<open>te->when_ms\<close>; the node may have been freed\<close>
  "set_when p t tes w =
     (if hdrs (heap w) p = None then Inl BadAccess
      else Inr (map (\<lambda>te. if te_ptr te = p then te\<lparr>when_sec := fst t, when_ms := snd t\<rparr> else te) tes))"

definition fire_te :: "app \<Rightarrow> aeTimeEvent \<Rightarrow> aeEventLoop \<Rightarrow> world \<Rightarrow> (aeEventLoop \<times> world) res" where
  \<comment> \<open>the callback of a due event, and its rescheduling or deletion\<close>
  "fire_te A te L w =
     (if timeProc te = 0 then Inl BadAccess else
      let tid = te_id te;
          w1 = log (TimeFired tid) w;
          (calls, ret) = on_time A (timeProc te) tid (te_data te) (trace w1);
          retval = s32 ret in
      rbind (run_calls calls L w1) (\<lambda>(L1, w2).
      if retval \<noteq> AE_NOMORE then
        let (t, w3) = aeAddMillisecondsToNow retval w2 in
        rbind (set_when (te_ptr te) t (timeEventHead L1) w3) (\<lambda>tes.
        Inr (L1\<lparr>timeEventHead := tes\<rparr>, w3))
      else
        rbind (aeDeleteTimeEvent L1 tid w2) (\<lambda>((r, L2), w3).
        Inr (L2, w3))))"

function (sequential) time_loop ::
  "app \<Rightarrow> nat \<Rightarrow> int \<Rightarrow> aeTimeEvent list \<Rightarrow> aeEventLoop \<Rightarrow> world \<Rightarrow> int \<Rightarrow> ((int \<times> aeEventLoop) \<times> world) res"
where
  \<comment> \<open>the list is the part of \<open>timeEventHead\<close> from \<open>te\<close> on; firing an event restarts at the head\<close>
  "time_loop A fuel maxId [] L w processed = Inr ((processed, L), w)"
| "time_loop A fuel maxId (te # rest) L w processed =
     (if te_id te > maxId then time_loop A fuel maxId rest L w processed else
      let (now, w1) = aeGetTime w in
      if te_due now te then
        (case fuel of
           0 \<Rightarrow> Inl NoFuel
         | Suc k \<Rightarrow>
             rbind (fire_te A te L w1) (\<lambda>(L1, w2).
             time_loop A k maxId (timeEventHead L1) L1 w2 (processed + 1)))
      else time_loop A fuel maxId rest L w1 processed)"
  by pat_completeness auto
termination
  by (relation "measures [\<lambda>(A, fuel, m, tes, L, w, n). fuel, \<lambda>(A, fuel, m, tes, L, w, n). length tes]") auto

definition processTimeEvents :: "app \<Rightarrow> nat \<Rightarrow> aeEventLoop \<Rightarrow> world \<Rightarrow> ((int \<times> aeEventLoop) \<times> world) res" where
  "processTimeEvents A fuel L w =
     (let (now, w1) = time_sec w;
          L1 = (if now < lastTime L
                then L\<lparr>timeEventHead := map (\<lambda>te. te\<lparr>when_sec := 0\<rparr>) (timeEventHead L)\<rparr> else L);
          L2 = L1\<lparr>lastTime := now\<rparr>;
          maxId = timeEventNextId L2 - 1 in
      time_loop A fuel maxId (timeEventHead L2) L2 w1 0)"

subsection \<open>Processing all events\<close>

definition timer_timeout :: "aeTimeEvent \<Rightarrow> int \<times> int \<Rightarrow> int \<times> int" where
  \<comment> \<open>the \<open>struct timeval\<close> until \<open>shortest\<close>\<close>
  "timer_timeout te now =
     (let s0 = when_sec te - fst now;
          (s1, us) = (if when_ms te < snd now
                      then (s0 - 1, ((when_ms te + 1000) - snd now) * 1000)
                      else (s0, (when_ms te - snd now) * 1000)) in
      (if s1 < 0 then 0 else s1, if us < 0 then 0 else us))"

definition choose_timeout :: "aeEventLoop \<Rightarrow> int \<Rightarrow> world \<Rightarrow> (int \<times> int) option \<times> world" where
  "choose_timeout L flags w =
     (let shortest = (if flags AND AE_TIME_EVENTS \<noteq> 0 \<and> flags AND AE_DONT_WAIT = 0
                      then aeSearchNearestTimer L else None) in
      case shortest of
        Some te \<Rightarrow> (let (now, w1) = aeGetTime w in (Some (timer_timeout te now), w1))
      | None \<Rightarrow> (if flags AND AE_DONT_WAIT \<noteq> 0 then Some (0, 0) else None, w))"

definition fe_load :: "aeEventLoop \<Rightarrow> ptr \<Rightarrow> int \<Rightarrow> aeFileEvent res" where
  \<comment> \<open>a load through \<open>fe\<close>, a pointer into the array that was at \<open>p\<close>\<close>
  "fe_load L p fd = (if p = ev_ptr L then fe_at L fd else Inl BadAccess)"

definition fired_at :: "aeEventLoop \<Rightarrow> nat \<Rightarrow> aeFiredEvent res" where
  "fired_at L j = (if j < length (fired L) then Inr (fired L ! j) else Inl BadAccess)"

definition call_file ::
  "app \<Rightarrow> nat \<Rightarrow> int \<Rightarrow> nat \<Rightarrow> int \<Rightarrow> aeEventLoop \<Rightarrow> world \<Rightarrow> (aeEventLoop \<times> world) res"
where
  "call_file A proc fd clientData msk L w =
     (if proc = 0 then Inl BadAccess else
      let w1 = log (FileFired fd msk proc) w in
      run_calls (on_file A proc fd clientData msk (trace w1)) L w1)"

definition fire_file :: "app \<Rightarrow> nat \<Rightarrow> aeEventLoop \<Rightarrow> world \<Rightarrow> (aeEventLoop \<times> world) res" where
  \<comment> \<open>the body of the loop over the fired events\<close>
  "fire_file A j L w =
     rbind (fired_at L j) (\<lambda>fi.
     let msk = fired_mask fi; fd = fired_fd fi; p = ev_ptr L in
     rbind (fe_load L p fd) (\<lambda>fe.
     rbind (if fe_mask fe AND msk AND AE_READABLE \<noteq> 0
            then rbind (call_file A (rfileProc fe) fd (fe_data fe) msk L w) (\<lambda>(L1, w1). Inr ((True, L1), w1))
            else Inr ((False, L), w)) (\<lambda>((rfired, L1), w1).
     rbind (fe_load L1 p fd) (\<lambda>fe1.
     if fe_mask fe1 AND msk AND AE_WRITABLE \<noteq> 0 \<and> (\<not> rfired \<or> wfileProc fe1 \<noteq> rfileProc fe1)
     then call_file A (wfileProc fe1) fd (fe_data fe1) msk L1 w1
     else Inr (L1, w1)))))"

function file_loop ::
  "app \<Rightarrow> nat \<Rightarrow> nat \<Rightarrow> aeEventLoop \<Rightarrow> world \<Rightarrow> int \<Rightarrow> ((int \<times> aeEventLoop) \<times> world) res"
where
  "file_loop A j numevents L w processed =
     (if j < numevents then
        rbind (fire_file A j L w) (\<lambda>(L1, w1). file_loop A (Suc j) numevents L1 w1 (processed + 1))
      else Inr ((processed, L), w))"
  by pat_completeness auto
termination by (relation "measure (\<lambda>(A, j, n, L, w, p). n - j)") auto

declare file_loop.simps [simp del] time_loop.simps [simp del]

definition aeProcessEvents ::
  "app \<Rightarrow> nat \<Rightarrow> aeEventLoop \<Rightarrow> int \<Rightarrow> world \<Rightarrow> ((int \<times> aeEventLoop) \<times> world) res"
where
  "aeProcessEvents A fuel L flags w =
     (if flags AND AE_TIME_EVENTS = 0 \<and> flags AND AE_FILE_EVENTS = 0 then Inr ((0, L), w) else
      rbind (if maxfd L \<noteq> - 1 \<or> (flags AND AE_TIME_EVENTS \<noteq> 0 \<and> flags AND AE_DONT_WAIT = 0) then
               let (tvp, w1) = choose_timeout L flags w in
               rbind (aeApiPoll L tvp w1) (\<lambda>((numevents, L1), w2).
               file_loop A 0 (nat numevents) L1 w2 0)
             else Inr ((0, L), w)) (\<lambda>((processed, L2), w3).
      if flags AND AE_TIME_EVENTS \<noteq> 0 then
        rbind (processTimeEvents A fuel L2 w3) (\<lambda>((n, L3), w4). Inr ((processed + n, L3), w4))
      else Inr ((processed, L2), w3)))"

fun main_loop :: "app \<Rightarrow> nat \<Rightarrow> nat \<Rightarrow> aeEventLoop \<Rightarrow> world \<Rightarrow> (aeEventLoop \<times> world) res" where
  "main_loop A fuel 0 L w = (if lp_stop L \<noteq> 0 then Inr (L, w) else Inl NoFuel)"
| "main_loop A fuel (Suc k) L w =
     (if lp_stop L \<noteq> 0 then Inr (L, w) else
      rbind (if beforesleep L \<noteq> 0
             then let w1 = log BeforeSleep w in run_calls (on_sleep A (beforesleep L) (trace w1)) L w1
             else Inr (L, w)) (\<lambda>(L1, w1).
      rbind (aeProcessEvents A fuel L1 AE_ALL_EVENTS w1) (\<lambda>((n, L2), w2).
      main_loop A fuel k L2 w2)))"

definition aeMain :: "app \<Rightarrow> nat \<Rightarrow> nat \<Rightarrow> aeEventLoop \<Rightarrow> world \<Rightarrow> (aeEventLoop \<times> world) res" where
  "aeMain A fuel rounds L w = main_loop A fuel rounds (L\<lparr>lp_stop := 0\<rparr>) w"

subsection \<open>\<open>aeWait\<close>\<close>

definition aeWait :: "(int \<Rightarrow> int \<Rightarrow> int \<Rightarrow> int \<times> int) \<Rightarrow> int \<Rightarrow> int \<Rightarrow> int \<Rightarrow> int" where
  \<comment> \<open>\<open>poll\<close> is the system call on one descriptor: its result and the \<open>revents\<close>;
     \<open>POLLIN\<close>, \<open>POLLOUT\<close>, \<open>POLLERR\<close>, \<open>POLLHUP\<close> are 1, 4, 8, 16\<close>
  "aeWait poll fd msk milliseconds =
     (let e0 = 0;
          e1 = (if msk AND AE_READABLE \<noteq> 0 then e0 OR 1 else e0);
          e2 = (if msk AND AE_WRITABLE \<noteq> 0 then e1 OR 4 else e1);
          (retval, revents) = poll fd e2 (s32 milliseconds) in
      if retval = 1 then
        (let m1 = (if revents AND 1 \<noteq> 0 then AE_READABLE else 0);
             m2 = (if revents AND 4 \<noteq> 0 then m1 OR AE_WRITABLE else m1);
             m3 = (if revents AND 8 \<noteq> 0 then m2 OR AE_WRITABLE else m2) in
         if revents AND 16 \<noteq> 0 then m3 OR AE_WRITABLE else m3)
      else retval)"

end
