(* ===== verification/Ae_Inv.thy ===== *)
theory Ae_Inv
  imports Ae
begin

text \<open>
  The invariant of the event loop and its preservation by every operation of the API: the
  kernel's interest set is the one recorded in \<open>events\<close>, \<open>maxfd\<close> is the largest watched
  descriptor, time events have distinct identifiers below \<open>timeEventNextId\<close>, and the live
  blocks are exactly those of the structures.
\<close>

subsection \<open>Outcomes of computations\<close>

definition runs :: "stop set \<Rightarrow> 'a res \<Rightarrow> ('a \<Rightarrow> bool) \<Rightarrow> bool" where
  \<comment> \<open>the call returns with \<open>Q\<close> or stops for one of the reasons \<open>E\<close>\<close>
  "runs E r Q \<longleftrightarrow> (case r of Inr x \<Rightarrow> Q x | Inl e \<Rightarrow> e \<in> E)"

definition ooms :: "zheap \<Rightarrow> stop set" where
  \<comment> \<open>the process runs out of memory only if the C library refuses a request\<close>
  "ooms z = {OutOfMemory n | n. \<exists>k. refuse z k}"

lemma runs_Inr [simp]: "runs E (Inr x) Q \<longleftrightarrow> Q x"
  by (simp add: runs_def)

lemma runs_Inl [simp]: "runs E (Inl e) Q \<longleftrightarrow> e \<in> E"
  by (simp add: runs_def)

lemma runs_mono: "runs E r P \<Longrightarrow> E \<subseteq> E' \<Longrightarrow> (\<And>x. P x \<Longrightarrow> Q x) \<Longrightarrow> runs E' r Q"
  by (cases r) auto

lemma runs_bind: "runs E m P \<Longrightarrow> (\<And>x. P x \<Longrightarrow> runs E (f x) Q) \<Longrightarrow> runs E (rbind m f) Q"
  by (cases m) auto

lemma runs_bind_eq:
  "runs E m P \<Longrightarrow> (\<And>x. m = Inr x \<Longrightarrow> P x \<Longrightarrow> runs E (f x) Q) \<Longrightarrow> runs E (rbind m f) Q"
  by (cases m) auto

lemma ooms_ext: "heap_ext z z' \<Longrightarrow> ooms z' = ooms z"
  by (simp add: ooms_def heap_ext_def)

lemma runs_heap:
  assumes "yields (heap w) (f (heap w)) Q" "E = ooms (heap w)"
  shows "runs E (on_heap f w) (\<lambda>(x, w'). \<exists>z'. w' = w\<lparr>heap := z'\<rparr> \<and> E = ooms z' \<and> Q x z')"
proof (cases "f (heap w)")
  case (Inl e)
  then show ?thesis using assms by (auto simp: on_heap_def yields_def ooms_def)
next
  case (Inr x)
  then obtain y z where x: "f (heap w) = Inr (y, z)" by (cases x) auto
  then have "heap_ext (heap w) z" "Q y z" using assms by simp_all
  then show ?thesis using x assms(2) by (auto simp: on_heap_def ooms_ext)
qed

lemma heap_heap: "w\<lparr>heap := a, heap := b\<rparr> = w\<lparr>heap := b\<rparr>"
  by simp

lemma runs_malloc:
  assumes "region h items (heap w)" "fits n" "E = ooms (heap w)"
    and "\<And>p z. p \<noteq> 0 \<Longrightarrow> E = ooms z \<Longrightarrow> region h ((p, n) # items) z \<Longrightarrow> runs E (f p (w\<lparr>heap := z\<rparr>)) Q"
  shows "runs E (rbind (on_heap (zmalloc n) w) (\<lambda>(p, w1). f p w1)) Q"
  using runs_heap [where f = "zmalloc n", OF region_malloc [OF assms(1,2)] assms(3)]
  by (rule runs_bind) (use assms(4) in auto)

lemma runs_realloc:
  assumes "region h (xs @ (p, m) # ys) (heap w)" "fits n" "E = ooms (heap w)"
    and "\<And>q z. q \<noteq> 0 \<Longrightarrow> E = ooms z \<Longrightarrow> region h (xs @ (q, n) # ys) z \<Longrightarrow> runs E (f (q, w\<lparr>heap := z\<rparr>)) Q"
  shows "runs E (rbind (on_heap (zrealloc p n) w) f) Q"
  using runs_heap [where f = "zrealloc p n", OF region_realloc_at [OF assms(1,2)] assms(3)]
  by (rule runs_bind) (use assms(4) in auto)

lemma wfree_region:
  assumes "region h ((p, m) # items) (heap w)"
  shows "\<exists>z'. wfree p w = Inr (w\<lparr>heap := z'\<rparr>) \<and> ooms z' = ooms (heap w) \<and> region h items z'"
  using region_free [OF assms] ooms_ext by (fastforce simp: wfree_def)

lemma wfree_at:
  assumes "region h (xs @ (p, m) # ys) (heap w)"
  shows "\<exists>z'. wfree p w = Inr (w\<lparr>heap := z'\<rparr>) \<and> ooms z' = ooms (heap w) \<and> region h (xs @ ys) z'"
  using region_free_at [OF assms] ooms_ext by (fastforce simp: wfree_def)

fun free_all :: "ptr list \<Rightarrow> world \<Rightarrow> world res" where
  "free_all [] w = Inr w"
| "free_all (p # ps) w = rbind (wfree p w) (free_all ps)"

lemma free_all_region:
  "region h (items @ rest) (heap w) \<Longrightarrow>
   \<exists>z'. free_all (map fst items) w = Inr (w\<lparr>heap := z'\<rparr>) \<and> ooms z' = ooms (heap w) \<and> region h rest z'"
proof (induction items arbitrary: w)
  case Nil
  then show ?case by (intro exI [of _ "heap w"]) simp
next
  case (Cons x items)
  obtain p m where x: "x = (p, m)" by (cases x)
  obtain z1 where z1: "wfree p w = Inr (w\<lparr>heap := z1\<rparr>)" "ooms z1 = ooms (heap w)" "region h (items @ rest) z1"
    using wfree_region [of h p m "items @ rest" w] Cons.prems x by auto
  then show ?case using Cons.IH [of "w\<lparr>heap := z1\<rparr>"] x by auto
qed

subsection \<open>The invariant\<close>

definition interest :: "aeFileEvent list \<Rightarrow> int \<rightharpoonup> int" where
  \<comment> \<open>the interest set that the masks stand for\<close>
  "interest evs fd =
     (if 0 \<le> fd \<and> fd < int (length evs) \<and> fe_mask (evs ! nat fd) \<noteq> AE_NONE
      then Some (ee_events (fe_mask (evs ! nat fd))) else None)"

definition fe_ok :: "aeFileEvent \<Rightarrow> bool" where
  "fe_ok fe \<longleftrightarrow> fe_mask fe \<in> {0, 1, 2, 3} \<and>
     (fe_mask fe \<in> {1, 3} \<longrightarrow> rfileProc fe \<noteq> 0) \<and> (fe_mask fe \<in> {2, 3} \<longrightarrow> wfileProc fe \<noteq> 0)"

definition maxfd_ok :: "aeFileEvent list \<Rightarrow> int \<Rightarrow> bool" where
  "maxfd_ok evs m \<longleftrightarrow> - 1 \<le> m \<and> m < int (length evs) \<and>
     (0 \<le> m \<longrightarrow> fe_mask (evs ! nat m) \<noteq> AE_NONE) \<and>
     (\<forall>i < length evs. m < int i \<longrightarrow> fe_mask (evs ! i) = AE_NONE)"

definition files_ok :: "aeEventLoop \<Rightarrow> world \<Rightarrow> bool" where
  "files_ok L w \<longleftrightarrow>
     0 \<le> setsize L \<and> setsize L < 2147483648 \<and>
     length (events L) = nat (setsize L) \<and> length (fired L) = nat (setsize L) \<and>
     (\<forall>fe\<in>set (events L). fe_ok fe) \<and> maxfd_ok (events L) (maxfd L) \<and>
     eps w (epfd (apidata L)) = Some (interest (events L))"

definition timers_ok :: "aeEventLoop \<Rightarrow> bool" where
  "timers_ok L \<longleftrightarrow>
     0 \<le> timeEventNextId L \<and> distinct (map te_id (timeEventHead L)) \<and>
     (\<forall>te\<in>set (timeEventHead L). 0 \<le> te_id te \<and> te_id te < timeEventNextId L \<and> timeProc te \<noteq> 0)"

definition te_block :: "aeTimeEvent \<Rightarrow> ptr \<times> size_t" where
  "te_block te = (te_ptr te, to_size SIZEOF_aeTimeEvent)"

definition core_blocks :: "aeEventLoop \<Rightarrow> (ptr \<times> size_t) list" where
  "core_blocks L =
     [(st_events (apidata L), to_size (SIZEOF_epoll_event * setsize L)),
      (st_ptr (apidata L), to_size SIZEOF_aeApiState),
      (ev_ptr L, to_size (SIZEOF_aeFileEvent * setsize L)),
      (fi_ptr L, to_size (SIZEOF_aeFiredEvent * setsize L)),
      (lp_ptr L, to_size SIZEOF_aeEventLoop)]"

definition blocks_ok :: "(ptr \<rightharpoonup> size_t) \<Rightarrow> aeEventLoop \<Rightarrow> world \<Rightarrow> bool" where
  "blocks_ok h L w \<longleftrightarrow> region h (core_blocks L @ map te_block (timeEventHead L)) (heap w)"

definition ae_ok :: "stop set \<Rightarrow> (ptr \<rightharpoonup> size_t) \<Rightarrow> aeEventLoop \<Rightarrow> world \<Rightarrow> bool" where
  "ae_ok E h L w \<longleftrightarrow> files_ok L w \<and> timers_ok L \<and> blocks_ok h L w \<and> E = ooms (heap w)"

lemmas sizeof_defs = SIZEOF_aeApiState_def SIZEOF_epoll_event_def SIZEOF_aeEventLoop_def
  SIZEOF_aeFileEvent_def SIZEOF_aeFiredEvent_def SIZEOF_aeTimeEvent_def

lemma ae_ok_log [simp]: "ae_ok E h L (log e w) \<longleftrightarrow> ae_ok E h L w"
  by (simp add: ae_ok_def files_ok_def blocks_ok_def log_def)

lemma ae_ok_ntime [simp]: "ae_ok E h L (w\<lparr>ntime := n\<rparr>) \<longleftrightarrow> ae_ok E h L w"
  by (simp add: ae_ok_def files_ok_def blocks_ok_def)

lemma ae_ok_stop [simp]: "ae_ok E h (L\<lparr>lp_stop := n\<rparr>) w \<longleftrightarrow> ae_ok E h L w"
  by (simp add: ae_ok_def files_ok_def blocks_ok_def timers_ok_def core_blocks_def)

subsection \<open>File events\<close>

lemma interest_update:
  assumes "0 \<le> fd" "fd < int (length evs)"
  shows "interest (evs[nat fd := fe]) =
    (interest evs)(fd := if fe_mask fe \<noteq> AE_NONE then Some (ee_events (fe_mask fe)) else None)"
proof
  fix x
  have "nat x = nat fd \<longleftrightarrow> x = fd" if "0 \<le> x" using assms that by auto
  then show "interest (evs[nat fd := fe]) x = ((interest evs)(fd := if fe_mask fe \<noteq> AE_NONE
      then Some (ee_events (fe_mask fe)) else None)) x"
    using assms by (auto simp: interest_def nth_list_update)
qed

lemma fe_at_in: "0 \<le> fd \<Longrightarrow> fd < int (length (events L)) \<Longrightarrow> fe_at L fd = Inr (events L ! nat fd)"
  by (simp add: fe_at_def)

definition put_fe :: "aeEventLoop \<Rightarrow> int \<Rightarrow> aeFileEvent \<Rightarrow> int \<Rightarrow> aeEventLoop" where
  "put_fe L fd fe m = L\<lparr>events := (events L)[nat fd := fe], maxfd := m\<rparr>"

lemma files_ok_put:
  assumes ok: "ae_ok E h L w" and fd: "0 \<le> fd" "fd < setsize L" and fe: "fe_ok fe"
    and m: "maxfd_ok ((events L)[nat fd := fe]) m"
    and k: "eps w' (epfd (apidata L)) = Some ((interest (events L))(fd :=
      if fe_mask fe \<noteq> AE_NONE then Some (ee_events (fe_mask fe)) else None))" and h: "heap w' = heap w"
  shows "ae_ok E h (put_fe L fd fe m) w'"
proof -
  have l: "fd < int (length (events L))" using ok fd by (simp add: ae_ok_def files_ok_def)
  have "\<forall>x\<in>set ((events L)[nat fd := fe]). fe_ok x"
    using ok fe by (auto simp: ae_ok_def files_ok_def dest!: set_update_subset_insert [THEN subsetD])
  then show ?thesis
    using ok m k h interest_update [OF fd(1) l]
    by (simp add: ae_ok_def files_ok_def timers_ok_def blocks_ok_def core_blocks_def put_fe_def)
qed

definition fe_with :: "aeFileEvent \<Rightarrow> int \<Rightarrow> nat \<Rightarrow> nat \<Rightarrow> aeFileEvent" where
  \<comment> \<open>the entry after a successful registration\<close>
  "fe_with fe msk proc d =
     (let fe1 = fe\<lparr>fe_mask := fe_mask fe OR msk\<rparr>;
          fe2 = (if msk AND AE_READABLE \<noteq> 0 then fe1\<lparr>rfileProc := proc\<rparr> else fe1);
          fe3 = (if msk AND AE_WRITABLE \<noteq> 0 then fe2\<lparr>wfileProc := proc\<rparr> else fe2) in
      fe3\<lparr>fe_data := d\<rparr>)"

lemma fe_with_simps [simp]:
  "fe_mask (fe_with fe msk proc d) = fe_mask fe OR msk"
  "rfileProc (fe_with fe msk proc d) = (if msk AND AE_READABLE \<noteq> 0 then proc else rfileProc fe)"
  "wfileProc (fe_with fe msk proc d) = (if msk AND AE_WRITABLE \<noteq> 0 then proc else wfileProc fe)"
  "fe_data (fe_with fe msk proc d) = d"
  by (simp_all add: fe_with_def Let_def)

lemma fe_with_ok: "fe_ok fe \<Longrightarrow> msk \<in> {1, 2, 3} \<Longrightarrow> proc \<noteq> 0 \<Longrightarrow> fe_ok (fe_with fe msk proc d)"
  by (auto simp: fe_ok_def)

lemma or_nonzero: "m \<in> {0, 1, 2, 3} \<Longrightarrow> msk \<in> {1, 2, 3} \<Longrightarrow> (m OR msk :: int) \<noteq> 0"
  by auto

lemma maxfd_ok_add:
  assumes "maxfd_ok evs m" "0 \<le> fd" "fd < int (length evs)" "fe_mask fe \<noteq> AE_NONE"
  shows "maxfd_ok (evs[nat fd := fe]) (max m fd)"
  using assms by (auto simp: maxfd_ok_def nth_list_update max_def)

lemma aeCreateFileEvent_effect:
  assumes ok: "ae_ok E h L w" and fd: "0 \<le> fd" and msk: "msk \<in> {1, 2, 3}" and proc: "proc \<noteq> 0"
  shows "\<exists>r L1 w1. aeCreateFileEvent L fd msk proc d w = Inr ((r, L1), w1) \<and> ae_ok E h L1 w1 \<and> clk w1 = clk w \<and>
    (r = AE_OK \<longleftrightarrow> fd < setsize L \<and> \<not> (fe_mask (events L ! nat fd) = AE_NONE \<and> ep_deny w (nsys w))) \<and>
    (if r = AE_OK
     then fd < setsize L \<and> L1 = put_fe L fd (fe_with (events L ! nat fd) msk proc d) (max (maxfd L) fd)
     else r = AE_ERR \<and> L1 = L)"
proof (cases "fd \<ge> setsize L")
  case True
  then show ?thesis using ok by (simp add: aeCreateFileEvent_def)
next
  case False
  let ?fe = "events L ! nat fd"
  let ?fe1 = "fe_with ?fe msk proc d"
  have l: "fd < int (length (events L))" and k: "eps w (epfd (apidata L)) = Some (interest (events L))"
    and mx: "maxfd_ok (events L) (maxfd L)"
    using ok False fd by (auto simp: ae_ok_def files_ok_def)
  have fok: "fe_ok ?fe" using ok fd l by (auto simp: ae_ok_def files_ok_def)
  have ne: "fe_mask ?fe1 \<noteq> AE_NONE" using fok msk by (auto simp: fe_ok_def)
  have int: "interest (events L) fd = None \<longleftrightarrow> fe_mask ?fe = AE_NONE"
    using fd l by (simp add: interest_def)
  have ctl: "aeApiAddEvent L fd msk w =
      (if fe_mask ?fe = AE_NONE \<and> ep_deny w (nsys w) then Inr (- 1, w\<lparr>nsys := Suc (nsys w)\<rparr>)
       else Inr (0, w\<lparr>nsys := Suc (nsys w), eps := (eps w)(epfd (apidata L) \<mapsto>
         (interest (events L))(fd \<mapsto> ee_events (fe_mask ?fe1)))\<rparr>))"
    using fd l k int
    by (simp add: aeApiAddEvent_def fe_at_in epoll_ctl_def or.commute Let_def)
  show ?thesis
  proof (cases "fe_mask ?fe = AE_NONE \<and> ep_deny w (nsys w)")
    case True
    then have "aeCreateFileEvent L fd msk proc d w = Inr ((AE_ERR, L), w\<lparr>nsys := Suc (nsys w)\<rparr>)"
      using False ctl by (simp add: aeCreateFileEvent_def)
    then show ?thesis using ok True by (simp add: ae_ok_def files_ok_def blocks_ok_def)
  next
    case go: False
    let ?w = "w\<lparr>nsys := Suc (nsys w), eps := (eps w)(epfd (apidata L) \<mapsto>
         (interest (events L))(fd \<mapsto> ee_events (fe_mask ?fe1)))\<rparr>"
    have run: "aeCreateFileEvent L fd msk proc d w
        = Inr ((AE_OK, put_fe L fd ?fe1 (max (maxfd L) fd)), ?w)"
    proof -
      have "aeCreateFileEvent L fd msk proc d w = Inr ((AE_OK,
          let L1 = L\<lparr>events := (events L)[nat fd := ?fe1]\<rparr> in
          if fd > maxfd L1 then L1\<lparr>maxfd := fd\<rparr> else L1), ?w)"
        using False ctl fd l unfolding if_not_P [OF go]
        by (simp add: aeCreateFileEvent_def fe_at_in Let_def fe_with_def)
      then show ?thesis by (simp add: put_fe_def max_def Let_def)
    qed
    have "ae_ok E h (put_fe L fd ?fe1 (max (maxfd L) fd)) ?w"
      using False ne by (intro files_ok_put [OF ok fd] fe_with_ok [OF fok msk proc]
          maxfd_ok_add [OF mx fd l]) simp_all
    then show ?thesis using run False go by auto
  qed
qed

lemma max_down_finds:
  assumes "- 1 \<le> j" "j < int (length evs)"
  shows "\<exists>m. max_down evs j = Inr m \<and> - 1 \<le> m \<and> m \<le> j \<and> (0 \<le> m \<longrightarrow> fe_mask (evs ! nat m) \<noteq> AE_NONE) \<and>
    (\<forall>i < length evs. m < int i \<and> int i \<le> j \<longrightarrow> fe_mask (evs ! i) = AE_NONE)"
  using assms
proof (induction "nat (j + 1)" arbitrary: j)
  case 0
  then show ?case by (auto simp: max_down.simps)
next
  case (Suc k)
  show ?case
  proof (cases "fe_mask (evs ! nat j) = AE_NONE")
    case True
    obtain m where m: "max_down evs (j - 1) = Inr m" "- 1 \<le> m" "m \<le> j - 1"
      "0 \<le> m \<longrightarrow> fe_mask (evs ! nat m) \<noteq> AE_NONE"
      "\<forall>i < length evs. m < int i \<and> int i \<le> j - 1 \<longrightarrow> fe_mask (evs ! i) = AE_NONE"
      using Suc.hyps(1) [of "j - 1"] Suc.hyps(2) Suc.prems by fastforce
    have "fe_mask (evs ! i) = AE_NONE" if "i < length evs" "m < int i" "int i \<le> j" for i
      using m(5) that True by (cases "int i = j") (auto simp: nat_int)
    then show ?thesis using m True Suc.hyps(2) Suc.prems
      by (intro exI [of _ m]) (auto simp: max_down.simps [of evs j])
  next
    case False
    then show ?thesis using Suc.hyps(2) Suc.prems
      by (intro exI [of _ j]) (auto simp: max_down.simps [of evs j])
  qed
qed

definition fe_less :: "aeFileEvent \<Rightarrow> int \<Rightarrow> aeFileEvent" where
  \<comment> \<open>the entry after a removal\<close>
  "fe_less fe msk = fe\<lparr>fe_mask := fe_mask fe AND NOT msk\<rparr>"

lemma fe_less_ok: "fe_ok fe \<Longrightarrow> msk \<in> {1, 2, 3} \<Longrightarrow> fe_ok (fe_less fe msk)"
  by (auto simp: fe_ok_def fe_less_def)

lemma and_not_twice: "((m :: int) AND NOT k) AND NOT k = m AND NOT k"
  by (simp add: and.assoc)

lemma maxfd_ok_keep:
  assumes "maxfd_ok evs m" "0 \<le> fd" "fd < int (length evs)" "fd \<noteq> m \<or> fe_mask fe \<noteq> AE_NONE"
    "fe_mask (evs ! nat fd) \<noteq> AE_NONE"
  shows "maxfd_ok (evs[nat fd := fe]) m"
proof -
  have "fd \<le> m" using assms by (auto simp: maxfd_ok_def intro: ccontr)
  then show ?thesis using assms by (auto simp: maxfd_ok_def nth_list_update split: if_splits)
qed

lemma aeApiDelEvent_updates:
  assumes fd: "0 \<le> fd" "fd < int (length (events L))"
    and m: "fe_mask (events L ! nat fd) = m0 AND NOT msk"
    and k: "eps w (epfd (apidata L)) = Some im" "im fd \<noteq> None"
  shows "\<exists>w1. aeApiDelEvent L fd msk w = Inr w1 \<and> heap w1 = heap w \<and> clk w1 = clk w \<and>
    eps w1 (epfd (apidata L)) = Some (im(fd := if m0 AND NOT msk \<noteq> AE_NONE
      then Some (ee_events (m0 AND NOT msk)) else None))"
  using assms by (auto simp: aeApiDelEvent_def fe_at_in epoll_ctl_def Let_def and_not_twice)

lemma aeDeleteFileEvent_effect:
  assumes ok: "ae_ok E h L w" and fd: "0 \<le> fd" and msk: "msk \<in> {1, 2, 3}"
  shows "\<exists>L1 w1. aeDeleteFileEvent L fd msk w = Inr (L1, w1) \<and> ae_ok E h L1 w1 \<and> clk w1 = clk w \<and>
    (if fd < setsize L \<and> fe_mask (events L ! nat fd) \<noteq> AE_NONE
     then \<exists>m. L1 = put_fe L fd (fe_less (events L ! nat fd) msk) m else L1 = L)"
proof (cases "fd < setsize L \<and> fe_mask (events L ! nat fd) \<noteq> AE_NONE")
  case False
  then show ?thesis using ok fd
    by (auto simp: aeDeleteFileEvent_def fe_at_in ae_ok_def files_ok_def)
next
  case True
  let ?fe = "events L ! nat fd"
  let ?fe1 = "fe_less ?fe msk" and ?evs = "(events L)[nat fd := fe_less (events L ! nat fd) msk]"
  have l: "fd < int (length (events L))" and k: "eps w (epfd (apidata L)) = Some (interest (events L))"
    and mx: "maxfd_ok (events L) (maxfd L)"
    using ok True fd by (auto simp: ae_ok_def files_ok_def)
  have fok: "fe_ok ?fe" using ok fd l by (auto simp: ae_ok_def files_ok_def)
  have int: "interest (events L) fd \<noteq> None" using fd l True by (simp add: interest_def)
  let ?L1 = "L\<lparr>events := ?evs\<rparr>"
  obtain m where m: "(if fd = maxfd L \<and> fe_mask ?fe1 = AE_NONE
        then rbind (max_down ?evs (maxfd L - 1)) (\<lambda>j. Inr (?L1\<lparr>maxfd := j\<rparr>)) else Inr ?L1)
      = Inr (put_fe L fd ?fe1 m)" "maxfd_ok ?evs m"
  proof (cases "fd = maxfd L \<and> fe_mask ?fe1 = AE_NONE")
    case top: True
    have b: "- 1 \<le> maxfd L - 1" "maxfd L - 1 < int (length ?evs)" using top fd l by auto
    obtain j where j: "max_down ?evs (maxfd L - 1) = Inr j" "- 1 \<le> j" "j \<le> maxfd L - 1"
      "0 \<le> j \<longrightarrow> fe_mask (?evs ! nat j) \<noteq> AE_NONE"
      "\<forall>i < length ?evs. j < int i \<and> int i \<le> maxfd L - 1 \<longrightarrow> fe_mask (?evs ! i) = AE_NONE"
      using max_down_finds [OF b] by blast
    have "fe_mask (?evs ! i) = AE_NONE" if i: "i < length ?evs" "j < int i" for i
    proof (cases "int i \<le> maxfd L - 1")
      case True
      then show ?thesis using j(5) i by blast
    next
      case False
      then show ?thesis using i mx top
        by (cases "i = nat fd") (auto simp: maxfd_ok_def nth_list_update)
    qed
    then have "maxfd_ok ?evs j" using j b by (simp add: maxfd_ok_def)
    then show ?thesis
      by (intro that [of j]) (unfold if_P [OF top] j(1), simp_all add: put_fe_def)
  next
    case False
    have "maxfd_ok ?evs (maxfd L)"
      using False True by (intro maxfd_ok_keep [OF mx fd l]) auto
    moreover have "?L1 = put_fe L fd ?fe1 (maxfd L)" by (simp add: put_fe_def)
    ultimately show ?thesis using that [of "maxfd L"] False by simp
  qed
  let ?L2 = "put_fe L fd ?fe1 m"
  have f2: "fe_mask (events ?L2 ! nat fd) = fe_mask ?fe AND NOT msk" "fd < int (length (events ?L2))"
    using fd l by (simp_all add: put_fe_def fe_less_def)
  have a2: "apidata ?L2 = apidata L" by (simp add: put_fe_def)
  obtain w1 where w1: "aeApiDelEvent ?L2 fd msk w = Inr w1" "heap w1 = heap w" "clk w1 = clk w"
    "eps w1 (epfd (apidata L)) = Some ((interest (events L))(fd :=
      if fe_mask ?fe AND NOT msk \<noteq> AE_NONE then Some (ee_events (fe_mask ?fe AND NOT msk)) else None))"
    using aeApiDelEvent_updates [OF fd f2(2,1), of w] k int unfolding a2 by blast
  have "aeDeleteFileEvent L fd msk w =
      rbind (if fd = maxfd L \<and> fe_mask ?fe1 = AE_NONE
             then rbind (max_down ?evs (maxfd L - 1)) (\<lambda>j. Inr (?L1\<lparr>maxfd := j\<rparr>)) else Inr ?L1)
        (\<lambda>L2. rbind (aeApiDelEvent L2 fd msk w) (\<lambda>w1. Inr (L2, w1)))"
  proof -
    have g: "\<not> setsize L \<le> fd" "fe_mask ?fe \<noteq> AE_NONE" using True by auto
    have s: "maxfd (L\<lparr>events := e\<rparr>) = maxfd L" "events (L\<lparr>events := e\<rparr>) = e"
      "fe_mask (fe\<lparr>fe_mask := m\<rparr>) = m" for e m and fe :: aeFileEvent
      by simp_all
    show ?thesis
      unfolding aeDeleteFileEvent_def fe_at_in [OF fd l] rbind.simps if_not_P [OF g(1)] if_not_P [OF g(2)]
        Let_def fe_less_def s
      by (rule refl)
  qed
  then have "aeDeleteFileEvent L fd msk w = Inr (?L2, w1)" unfolding m(1) by (simp add: w1(1))
  moreover have "ae_ok E h ?L2 w1"
    using True w1(2,4) by (intro files_ok_put [OF ok fd _ fe_less_ok [OF fok msk] m(2)]) (simp_all add: fe_less_def)
  ultimately show ?thesis using True w1(3) by auto
qed

subsection \<open>Time events\<close>

lemma aeCreateTimeEvent_effect:
  assumes ok: "ae_ok E h L w" and proc: "proc \<noteq> 0" and nxt: "timeEventNextId L < 9223372036854775807"
  shows "runs E (aeCreateTimeEvent L ms proc d f w) (\<lambda>((r, L1), w1). ae_ok E h L1 w1 \<and>
    clk w1 = clk w \<and> r = timeEventNextId L \<and>
    (\<exists>te. L1 = L\<lparr>timeEventNextId := r + 1, timeEventHead := te # timeEventHead L\<rparr> \<and>
       te_id te = r \<and> timeProc te = proc \<and> finalizerProc te = f \<and> te_data te = d \<and>
       (when_sec te, when_ms te) = fst (aeAddMillisecondsToNow ms w)))"
proof -
  have n0: "0 \<le> timeEventNextId L" using ok by (simp add: ae_ok_def timers_ok_def)
  then have c: "c64 (timeEventNextId L + 1) = Inr (timeEventNextId L + 1)"
    using nxt by (simp add: cint_simps)
  let ?sz = "to_size SIZEOF_aeTimeEvent"
  have fits: "fits ?sz" by (simp add: SIZEOF_aeTimeEvent_def fits_to_size)
  have r0: "region h (core_blocks L @ map te_block (timeEventHead L)) (heap w)"
    using ok by (simp add: ae_ok_def blocks_ok_def)
  have body: "ae_ok E h (L\<lparr>timeEventNextId := timeEventNextId L + 1, timeEventHead := te # timeEventHead L\<rparr>)
      (w\<lparr>ntime := k, heap := z\<rparr>)"
    if "E = ooms z" "region h ((p, ?sz) # core_blocks L @ map te_block (timeEventHead L)) z"
      "te_ptr te = p" "te_id te = timeEventNextId L" "timeProc te = proc" for p z k te
  proof -
    have "region h (core_blocks L @ te_block te # map te_block (timeEventHead L)) z"
      using that(2,3) region_move [of h "core_blocks L" "te_block te" "map te_block (timeEventHead L)" z]
      by (simp add: te_block_def)
    then show ?thesis using ok proc that n0
      by (auto simp: ae_ok_def files_ok_def timers_ok_def blocks_ok_def core_blocks_def)
  qed
  have clock: "fst (aeAddMillisecondsToNow ms (w\<lparr>heap := z\<rparr>)) = fst (aeAddMillisecondsToNow ms w)"
    "snd (aeAddMillisecondsToNow ms (w\<lparr>heap := z\<rparr>)) = w\<lparr>ntime := Suc (ntime w), heap := z\<rparr>" for z
    by (simp_all add: aeAddMillisecondsToNow_def aeGetTime_def gettimeofday_def Let_def split: prod.splits)
  have E: "E = ooms (heap w)" using ok by (simp add: ae_ok_def)
  show ?thesis
    unfolding aeCreateTimeEvent_def Let_def c rbind.simps
  proof (rule runs_malloc [OF r0 fits E])
  qed (use body clock in \<open>auto simp: split_beta intro!: exI\<close>)
qed

lemma unlink_te_split:
  "unlink_te i tes = Some (te, rest) \<Longrightarrow> \<exists>xs ys. tes = xs @ te # ys \<and> rest = xs @ ys \<and> te_id te = i"
proof (induction tes arbitrary: rest)
  case (Cons t tes)
  show ?case
  proof (cases "te_id t = i")
    case True
    then have "t # tes = [] @ te # rest \<and> rest = [] @ rest \<and> te_id te = i" using Cons.prems by simp
    then show ?thesis by blast
  next
    case False
    then obtain rest1 where "unlink_te i tes = Some (te, rest1)" "rest = t # rest1"
      using Cons.prems by auto
    then show ?thesis using Cons.IH by (metis append_Cons)
  qed
qed simp

lemma unlink_te_None: "unlink_te i tes = None \<longleftrightarrow> i \<notin> te_id ` set tes"
  by (induction tes) auto

lemma aeDeleteTimeEvent_effect:
  assumes ok: "ae_ok E h L w"
  shows "\<exists>r L1 w1. aeDeleteTimeEvent L i w = Inr ((r, L1), w1) \<and> ae_ok E h L1 w1 \<and> clk w1 = clk w \<and>
    L1 = L\<lparr>timeEventHead := filter (\<lambda>te. te_id te \<noteq> i) (timeEventHead L)\<rparr> \<and>
    r = (if i \<in> te_id ` set (timeEventHead L) then AE_OK else AE_ERR)"
proof (cases "unlink_te i (timeEventHead L)")
  case None
  then have "i \<notin> te_id ` set (timeEventHead L)" by (simp add: unlink_te_None)
  moreover from this have "filter (\<lambda>te. te_id te \<noteq> i) (timeEventHead L) = timeEventHead L"
    by (intro filter_True) auto
  ultimately show ?thesis using None ok by (simp add: aeDeleteTimeEvent_def)
next
  case (Some x)
  obtain te rest where x: "x = (te, rest)" by (cases x)
  then obtain xs ys where s: "timeEventHead L = xs @ te # ys" "rest = xs @ ys" "te_id te = i"
    using unlink_te_split Some by blast
  have d: "distinct (map te_id (timeEventHead L))" using ok by (simp add: ae_ok_def timers_ok_def)
  have f: "filter (\<lambda>te. te_id te \<noteq> i) (timeEventHead L) = xs @ ys"
  proof -
    have "filter (\<lambda>te. te_id te \<noteq> i) xs = xs" "filter (\<lambda>te. te_id te \<noteq> i) ys = ys"
      using d s by (simp_all add: filter_id_conv) (metis imageI)+
    then show ?thesis using s by simp
  qed
  define w0 where "w0 = (if finalizerProc te \<noteq> 0 then log (Finalized (finalizerProc te) (te_data te)) w else w)"
  have h0: "heap w0 = heap w" "eps w0 = eps w" "clk w0 = clk w" by (simp_all add: w0_def log_def)
  have "region h ((core_blocks L @ map te_block xs) @ (te_ptr te, to_size SIZEOF_aeTimeEvent) # map te_block ys) (heap w0)"
    using ok s(1) h0 by (simp add: ae_ok_def blocks_ok_def te_block_def)
  from wfree_at [OF this] obtain z where z: "wfree (te_ptr te) w0 = Inr (w0\<lparr>heap := z\<rparr>)" "ooms z = ooms (heap w)"
    "region h (core_blocks L @ map te_block xs @ map te_block ys) z"
    by (auto simp: h0)
  have "aeDeleteTimeEvent L i w = Inr ((AE_OK, L\<lparr>timeEventHead := xs @ ys\<rparr>), w0\<lparr>heap := z\<rparr>)"
    using Some x s(2) z(1) by (simp add: aeDeleteTimeEvent_def w0_def)
  moreover have "ae_ok E h (L\<lparr>timeEventHead := xs @ ys\<rparr>) (w0\<lparr>heap := z\<rparr>)"
    using ok s z(2,3) h0 by (auto simp: ae_ok_def files_ok_def timers_ok_def blocks_ok_def core_blocks_def)
  moreover have "i \<in> te_id ` set (timeEventHead L)" using s by auto
  ultimately show ?thesis using f h0(3) by simp
qed

lemma ae_ok_same_timers:
  assumes "ae_ok E h L w"
    and "map te_ptr tes = map te_ptr (timeEventHead L)" "map te_id tes = map te_id (timeEventHead L)"
    and "map timeProc tes = map timeProc (timeEventHead L)"
  shows "ae_ok E h (L\<lparr>timeEventHead := tes\<rparr>) w"
proof -
  have len: "length tes = length (timeEventHead L)" using assms(2) by (metis length_map)
  have nth: "te_id (tes ! k) = te_id (timeEventHead L ! k)" "timeProc (tes ! k) = timeProc (timeEventHead L ! k)"
    if "k < length tes" for k
    using that len arg_cong [OF assms(3), of "\<lambda>xs. xs ! k"] arg_cong [OF assms(4), of "\<lambda>xs. xs ! k"] by auto
  have each: "0 \<le> te_id te \<and> te_id te < timeEventNextId L \<and> timeProc te \<noteq> 0" if te: "te \<in> set tes" for te
  proof -
    obtain k where k: "k < length tes" "te = tes ! k" using te by (auto simp: in_set_conv_nth)
    then have "timeEventHead L ! k \<in> set (timeEventHead L)" using len by simp
    then show ?thesis using nth [OF k(1)] k(2) assms(1) by (simp add: ae_ok_def timers_ok_def)
  qed
  have blk: "map te_block tes = map te_block (timeEventHead L)"
  proof -
    have "map te_block xs = map (\<lambda>p. (p, to_size SIZEOF_aeTimeEvent)) (map te_ptr xs)" for xs
      unfolding map_map by (rule map_cong) (auto simp: te_block_def)
    from this [of tes] this [of "timeEventHead L"] show ?thesis unfolding assms(2) by (simp only:)
  qed
  have "timers_ok (L\<lparr>timeEventHead := tes\<rparr>)"
    using each assms(1,3) by (simp add: ae_ok_def timers_ok_def)
  moreover have "files_ok (L\<lparr>timeEventHead := tes\<rparr>) w" "E = ooms (heap w)"
    using assms(1) by (simp_all add: ae_ok_def files_ok_def)
  moreover have "blocks_ok h (L\<lparr>timeEventHead := tes\<rparr>) w"
    using blk assms(1) by (simp add: ae_ok_def blocks_ok_def core_blocks_def)
  ultimately show ?thesis by (simp add: ae_ok_def)
qed

end
