(* ===== verification/Ae_Life.thy ===== *)
theory Ae_Life
  imports Ae_Inv
begin

text \<open>
  The life of an event loop: \<open>aeCreateEventLoop\<close> establishes the invariant or gives back
  everything it took, \<open>aeResizeSetSize\<close> keeps every registration, and \<open>aeDeleteEventLoop\<close>
  releases the loop and its epoll instance but not the time events that are still pending.
\<close>

subsection \<open>Clearing and cutting the array of file events\<close>

abbreviation clr :: "aeFileEvent \<Rightarrow> aeFileEvent" where
  "clr \<equiv> (\<lambda>fe. fe\<lparr>fe_mask := AE_NONE\<rparr>)"

lemma clear_masks_eq:
  assumes "0 \<le> i" "i \<le> n" "n = int (length evs)"
  shows "clear_masks evs i n = Inr (take (nat i) evs @ map clr (drop (nat i) evs))"
  using assms
proof (induction "nat (n - i)" arbitrary: i evs)
  case 0
  then show ?case by (simp add: clear_masks.simps)
next
  case (Suc k)
  let ?evs = "evs[nat i := clr (evs ! nat i)]"
  have i: "nat i < length evs" "nat (i + 1) = Suc (nat i)" using Suc.hyps(2) Suc.prems by auto
  have "clear_masks evs i n = clear_masks ?evs (i + 1) n"
  proof -
    have "i < n" "i < int (length evs)" using Suc.hyps(2) Suc.prems by auto
    then show ?thesis using Suc.prems(1) by (simp add: clear_masks.simps [of evs])
  qed
  also have "\<dots> = Inr (take (nat (i + 1)) ?evs @ map clr (drop (nat (i + 1)) ?evs))"
    using Suc.hyps Suc.prems i(1) by (intro Suc.hyps(1)) auto
  also have "take (nat (i + 1)) ?evs @ map clr (drop (nat (i + 1)) ?evs)
      = take (nat i) evs @ map clr (drop (nat i) evs)"
    using i by (simp add: take_Suc_conv_app_nth) (metis Cons_nth_drop_Suc list.simps(9))
  finally show ?case .
qed

lemma cut_events:
  assumes "maxfd_ok evs m" "evs' = take (nat (m + 1)) evs @ map clr ys" "\<forall>fe\<in>set evs. fe_ok fe"
  shows "maxfd_ok evs' m" "interest evs' = interest evs" "\<forall>fe\<in>set evs'. fe_ok fe"
proof -
  have m: "- 1 \<le> m" "m < int (length evs)" using assms(1) by (auto simp: maxfd_ok_def)
  have lo: "evs' ! i = evs ! i" if "int i \<le> m" for i
    using that m by (simp add: assms(2) nth_append)
  have hi: "fe_mask (evs' ! i) = AE_NONE" if "m < int i" "i < length evs'" for i
    using that m by (auto simp: assms(2) nth_append)
  have len: "m < int (length evs')" using m by (simp add: assms(2))
  show "maxfd_ok evs' m"
    using assms(1) lo hi len by (auto simp: maxfd_ok_def)
  show "interest evs' = interest evs"
  proof
    fix fd
    show "interest evs' fd = interest evs fd"
      using lo [of "nat fd"] hi [of "nat fd"] m len assms(1)
      by (cases "fd \<le> m") (auto simp: interest_def maxfd_ok_def)
  qed
  show "\<forall>fe\<in>set evs'. fe_ok fe"
    using assms(3) by (auto simp: assms(2) fe_ok_def dest: in_set_takeD)
qed

subsection \<open>\<open>aeResizeSetSize\<close>\<close>

lemma fits_array: "0 \<le> n \<Longrightarrow> n < 2147483648 \<Longrightarrow> 0 \<le> k \<Longrightarrow> k \<le> 32 \<Longrightarrow> fits (to_size (k * n))"
proof -
  assume a: "0 \<le> n" "n < 2147483648" "0 \<le> k" "k \<le> (32::int)"
  then have "k * n \<le> 32 * n" by (intro mult_right_mono) auto
  then show ?thesis using a by (intro fits_to_size) auto
qed

definition resized :: "aeEventLoop \<Rightarrow> int \<Rightarrow> ptr \<Rightarrow> ptr \<Rightarrow> ptr \<Rightarrow> aeFileEvent list \<Rightarrow> aeFiredEvent list \<Rightarrow> aeEventLoop" where
  "resized L n a ev fi evs fis =
     L\<lparr>apidata := (apidata L)\<lparr>st_events := a\<rparr>, ev_ptr := ev, events := evs, fi_ptr := fi, fired := fis,
       setsize := n\<rparr>"

lemma resized_ok:
  assumes ok: "ae_ok E h L w" and n: "maxfd L < n" "n < 2147483648"
    and evs: "evs = take (nat (maxfd L + 1)) (events L) @ map clr ys" "length evs = nat n" "length fis = nat n"
    and reg: "region h ([(a, to_size (SIZEOF_epoll_event * n)), (st_ptr (apidata L), to_size SIZEOF_aeApiState),
      (ev, to_size (SIZEOF_aeFileEvent * n)), (fi, to_size (SIZEOF_aeFiredEvent * n)),
      (lp_ptr L, to_size SIZEOF_aeEventLoop)] @ map te_block (timeEventHead L)) z" and E: "E = ooms z"
  shows "ae_ok E h (resized L n a ev fi evs fis) (w\<lparr>heap := z\<rparr>)"
proof -
  have f: "maxfd_ok (events L) (maxfd L)" "\<forall>fe\<in>set (events L). fe_ok fe" "- 1 \<le> maxfd L"
    "eps w (epfd (apidata L)) = Some (interest (events L))"
    using ok by (auto simp: ae_ok_def files_ok_def maxfd_ok_def)
  note c = cut_events [OF f(1) evs(1) f(2)]
  have "files_ok (resized L n a ev fi evs fis) (w\<lparr>heap := z\<rparr>)"
    using c f n evs by (simp add: files_ok_def resized_def)
  then show ?thesis
    using ok reg E by (simp add: ae_ok_def timers_ok_def blocks_ok_def core_blocks_def resized_def)
qed

lemma aeResizeSetSize_effect:
  assumes ok: "ae_ok E h L w" and n: "n < 2147483648"
  shows "runs E (aeResizeSetSize L n w) (\<lambda>((r, L1), w1). ae_ok E h L1 w1 \<and>
    (if n = setsize L then r = AE_OK \<and> L1 = L \<and> w1 = w
     else if maxfd L \<ge> n then r = AE_ERR \<and> L1 = L \<and> w1 = w
     else r = AE_OK \<and> (\<exists>z. w1 = w\<lparr>heap := z\<rparr>) \<and>
       (\<exists>a ev fi ys fis. L1 = resized L n a ev fi (take (nat (maxfd L + 1)) (events L) @ map clr ys) fis)))"
proof (cases "n = setsize L \<or> maxfd L \<ge> n")
  case True
  then show ?thesis using ok by (auto simp: aeResizeSetSize_def)
next
  case False
  then have ne: "n \<noteq> setsize L" "\<not> n \<le> maxfd L" by auto
  have f: "maxfd_ok (events L) (maxfd L)" and E: "E = ooms (heap w)"
    and len: "length (events L) = nat (setsize L)" "length (fired L) = nat (setsize L)" "0 \<le> setsize L"
    using ok by (auto simp: ae_ok_def files_ok_def)
  then have m: "- 1 \<le> maxfd L" "maxfd L < int (length (events L))" by (auto simp: maxfd_ok_def)
  then have n0: "0 \<le> n" using ne by simp
  let ?T = "map te_block (timeEventHead L)" and ?st = "(st_ptr (apidata L), to_size SIZEOF_aeApiState)"
    and ?lp = "(lp_ptr L, to_size SIZEOF_aeEventLoop)"
  let ?sa = "to_size (SIZEOF_epoll_event * n)" and ?se = "to_size (SIZEOF_aeFileEvent * n)"
    and ?sf = "to_size (SIZEOF_aeFiredEvent * n)"
  let ?ce = "(ev_ptr L, to_size (SIZEOF_aeFileEvent * setsize L))"
    and ?cf = "(fi_ptr L, to_size (SIZEOF_aeFiredEvent * setsize L))"
  have fits: "fits ?sa" "fits ?se" "fits ?sf"
    using n0 n by (auto intro!: fits_array simp: sizeof_defs)
  have r0: "region h ([] @ (st_events (apidata L), to_size (SIZEOF_epoll_event * setsize L)) # ?st # ?ce # ?cf # ?lp # ?T) (heap w)"
    using ok by (simp add: ae_ok_def blocks_ok_def core_blocks_def)
  have fin: "runs E (rbind (clear_masks evs2 (maxfd L + 1) n)
       (\<lambda>evs. Inr ((AE_OK, (resized L n a ev fi evs2 fis)\<lparr>events := evs\<rparr>), w\<lparr>heap := z\<rparr>)))
     (\<lambda>((r, L1), w1). ae_ok E h L1 w1 \<and> r = AE_OK \<and> (\<exists>z. w1 = w\<lparr>heap := z\<rparr>) \<and>
       (\<exists>a ev fi ys fis. L1 = resized L n a ev fi (take (nat (maxfd L + 1)) (events L) @ map clr ys) fis))"
    if reg: "region h ([(a, ?sa), ?st, (ev, ?se)] @ (fi, ?sf) # ?lp # ?T) z" and Ez: "E = ooms z"
      and e2: "evs2 = take (nat n) (events L) @ map je [length (events L)..<nat n]"
      and f2: "fis = take (nat n) (fired L) @ map jf [length (fired L)..<nat n]"
    for a ev fi z evs2 fis je jf
  proof -
    have l2: "length evs2 = nat n" "length fis = nat n" by (auto simp: e2 f2)
    have tk: "take (nat (maxfd L + 1)) evs2 = take (nat (maxfd L + 1)) (events L)"
    proof -
      have "nat (maxfd L + 1) \<le> length (events L)" "nat (maxfd L + 1) \<le> nat n" using m ne by auto
      then show ?thesis by (simp add: e2 min_absorb1)
    qed
    let ?ys = "drop (nat (maxfd L + 1)) evs2"
    let ?evs = "take (nat (maxfd L + 1)) (events L) @ map clr ?ys"
    have cl: "clear_masks evs2 (maxfd L + 1) n = Inr ?evs"
    proof -
      have "0 \<le> maxfd L + 1" "maxfd L + 1 \<le> n" "n = int (length evs2)" using m ne n0 l2 by auto
      from clear_masks_eq [OF this] show ?thesis unfolding tk .
    qed
    have "length ?evs = nat n"
    proof -
      have "length (take (nat (maxfd L + 1)) evs2 @ map clr ?ys) = length evs2" by simp
      then show ?thesis unfolding tk l2(1) .
    qed
    then have "ae_ok E h (resized L n a ev fi ?evs fis) (w\<lparr>heap := z\<rparr>)"
      using reg l2(2) ne by (intro resized_ok [OF ok _ n refl _ _ _ Ez]) auto
    moreover have "(resized L n a ev fi evs2 fis)\<lparr>events := ?evs\<rparr> = resized L n a ev fi ?evs fis"
      by (simp add: resized_def)
    ultimately show ?thesis unfolding cl by (simp only: rbind.simps runs_Inr prod.case) blast
  qed
  show ?thesis
    unfolding aeResizeSetSize_def aeApiResize_def if_not_P [OF ne(1)] if_not_P [OF ne(2)] rbind_assoc
  proof (rule runs_realloc [OF r0 fits(1) E], goal_cases)
    case (1 a z1)
    have r1: "region h ([(a, ?sa), ?st] @ ?ce # ?cf # ?lp # ?T) (heap (w\<lparr>heap := z1\<rparr>))" "E = ooms (heap (w\<lparr>heap := z1\<rparr>))"
      using 1 by simp_all
    have ne1: "(0 :: int) \<noteq> - 1" by simp
    let ?L1 = "L\<lparr>apidata := (apidata L)\<lparr>st_events := a\<rparr>\<rparr>"
    have s: "ev_ptr ?L1 = ev_ptr L" "fi_ptr ?L1 = fi_ptr L" "events ?L1 = events L" "fired ?L1 = fired L"
      by simp_all
    show ?case
      unfolding prod.case rbind.simps if_not_P [OF ne1] s
    proof (rule runs_realloc [OF r1(1) fits(2) r1(2)], goal_cases)
      case (1 ev z2)
      have r2: "region h ([(a, ?sa), ?st, (ev, ?se)] @ ?cf # ?lp # ?T) (heap (w\<lparr>heap := z2\<rparr>))" "E = ooms (heap (w\<lparr>heap := z2\<rparr>))"
        using 1 by simp_all
      show ?case
        unfolding prod.case heap_heap
      proof (rule runs_realloc [OF r2(1) fits(3) r2(2)], goal_cases)
        case (1 fi z3)
        have r3: "region h ([(a, ?sa), ?st, (ev, ?se)] @ (fi, ?sf) # ?lp # ?T) z3" "E = ooms z3"
          using 1 by simp_all
        show ?case
          using fin [OF r3 refl refl] by (simp add: resized_def ne Let_def)
      qed
    qed
  qed
qed

subsection \<open>\<open>aeDeleteEventLoop\<close>\<close>

lemma aeDeleteEventLoop_effect:
  assumes ok: "ae_ok E h L w"
  shows "\<exists>z. aeDeleteEventLoop L w = Inr (w\<lparr>eps := (eps w)(epfd (apidata L) := None), heap := z\<rparr>) \<and>
    region h (map te_block (timeEventHead L)) z"
proof -
  let ?w = "close_fd (epfd (apidata L)) w"
  have "region h (core_blocks L @ map te_block (timeEventHead L)) (heap ?w)"
    using ok by (simp add: ae_ok_def blocks_ok_def close_fd_def)
  from free_all_region [OF this] obtain z where z: "free_all (map fst (core_blocks L)) ?w = Inr (?w\<lparr>heap := z\<rparr>)"
    "region h (map te_block (timeEventHead L)) z" by blast
  have "aeDeleteEventLoop L w = rbind (free_all (map fst (core_blocks L)) ?w) Inr"
    by (simp add: aeDeleteEventLoop_def aeApiFree_def Let_def rbind_assoc core_blocks_def) (simp add: rbind_Inr)
  then show ?thesis using z by (auto simp: close_fd_def)
qed

subsection \<open>\<open>aeCreateEventLoop\<close>\<close>

lemma create_err_effect:
  assumes "region h [(fi, a), (ev, b), (lp, c)] (heap w)"
  shows "\<exists>z. create_err lp ev fi w = Inr (None, w\<lparr>heap := z\<rparr>) \<and> region h [] z"
proof -
  have "region h ([(ev, b), (fi, a), (lp, c)] @ []) (heap w)" using assms by (simp add: region_swap)
  from free_all_region [OF this] obtain z where "free_all [ev, fi, lp] w = Inr (w\<lparr>heap := z\<rparr>)" "region h [] z"
    by auto
  moreover have "create_err lp ev fi w = rbind (free_all [ev, fi, lp] w) (\<lambda>w3. Inr (None, w3))"
    by (simp add: create_err_def rbind_assoc)
  ultimately show ?thesis by auto
qed

definition api_fresh :: "int \<Rightarrow> world \<Rightarrow> world \<Rightarrow> bool" where
  \<comment> \<open>\<open>e\<close> is a new epoll instance that watches nothing\<close>
  "api_fresh e w w1 \<longleftrightarrow> 0 \<le> e \<and> eps w e = None \<and> eps w1 = (eps w)(e \<mapsto> Map.empty)"

lemma aeApiCreate_effect:
  assumes r: "region h items (heap w)" and n: "0 \<le> setsize L" "setsize L < 2147483648" and E: "E = ooms (heap w)"
  shows "runs E (aeApiCreate L w) (\<lambda>((r, L1), w1). E = ooms (heap w1) \<and>
    (if r = - 1 then eps w1 = eps w \<and> region h items (heap w1) \<and> L1 = L
     else \<exists>st e ev. r = 0 \<and> L1 = L\<lparr>apidata := \<lparr>st_ptr = st, epfd = e, st_events = ev\<rparr>\<rparr> \<and> api_fresh e w w1 \<and>
       region h ((ev, to_size (SIZEOF_epoll_event * setsize L)) # (st, to_size SIZEOF_aeApiState) # items) (heap w1)))"
proof -
  let ?ss = "to_size SIZEOF_aeApiState" and ?se = "to_size (SIZEOF_epoll_event * setsize L)"
  have fits: "fits ?ss" "fits ?se"
    using n by (auto intro!: fits_array simp: sizeof_defs fits_to_size)
  show ?thesis
    unfolding aeApiCreate_def
  proof (rule runs_malloc [OF r fits(1) E], goal_cases)
    case (1 st z1)
    have r1: "region h ((st, ?ss) # items) (heap (w\<lparr>heap := z1\<rparr>))" "E = ooms (heap (w\<lparr>heap := z1\<rparr>))"
      using 1 by simp_all
    show ?case
      unfolding if_not_P [OF 1(1)] heap_heap
    proof (rule runs_malloc [OF r1(1) fits(2) r1(2)], goal_cases)
      case (1 ev z2)
      let ?w2 = "w\<lparr>heap := z2\<rparr>"
      have r2: "region h ((ev, ?se) # (st, ?ss) # items) z2" using 1 by simp
      show ?case
      proof (cases "0 \<le> ep_new w (nsys w) \<and> eps w (ep_new w (nsys w)) = None")
        case True
        let ?e = "ep_new w (nsys w)"
        have "epoll_create ?w2 = (?e, w\<lparr>heap := z2, nsys := Suc (nsys w), eps := (eps w)(?e \<mapsto> Map.empty)\<rparr>)"
          using True by (simp add: epoll_create_def Let_def)
        then show ?thesis using r2 1 True by (auto simp: api_fresh_def)
      next
        case False
        let ?w3 = "w\<lparr>heap := z2, nsys := Suc (nsys w)\<rparr>"
        have "region h ([(ev, ?se), (st, ?ss)] @ items) (heap ?w3)" using r2 by simp
        from free_all_region [OF this]
        obtain z3 where z3: "free_all [ev, st] ?w3 = Inr (?w3\<lparr>heap := z3\<rparr>)" "ooms z3 = ooms z2" "region h items z3"
          by auto
        have "epoll_create ?w2 = (- 1, ?w3)" using False by (auto simp: epoll_create_def)
        moreover have "rbind (wfree ev ?w3) (\<lambda>w4. rbind (wfree st w4) (\<lambda>w5. Inr ((- 1 :: int, L), w5)))
            = Inr ((- 1, L), ?w3\<lparr>heap := z3\<rparr>)"
          using arg_cong [OF z3(1), of "\<lambda>m. rbind m (\<lambda>w5. Inr ((- 1 :: int, L), w5))"] by (simp add: rbind_assoc)
        ultimately show ?thesis using 1 z3 by simp
      qed
    qed
  qed
qed

lemma create_loop_ok:
  assumes r: "region h (core_blocks L) (heap w)" and E: "E = ooms (heap w)"
    and n: "setsize L = n" "0 \<le> n" "n < 2147483648" "length (fired L) = nat n"
    and l: "events L = map clr ys" "length ys = nat n" "maxfd L = - 1" "timeEventHead L = []" "timeEventNextId L = 0"
    and e: "eps w (epfd (apidata L)) = Some Map.empty"
  shows "ae_ok E h L w"
proof -
  have "interest (events L) = Map.empty" using l(1) by (auto simp: interest_def fun_eq_iff)
  moreover have "maxfd_ok (events L) (maxfd L)" using l by (auto simp: maxfd_ok_def)
  moreover have "\<forall>fe\<in>set (events L). fe_ok fe" using l(1) by (auto simp: fe_ok_def)
  ultimately show ?thesis
    using assms by (simp add: ae_ok_def files_ok_def timers_ok_def blocks_ok_def)
qed

lemma aeCreateEventLoop_effect:
  assumes z: "zheap_ok (heap w)" and n: "0 \<le> n" "n < 2147483648" and E: "E = ooms (heap w)"
  shows "runs E (aeCreateEventLoop n w) (\<lambda>(r, w1).
    case r of
      None \<Rightarrow> zheap_ok (heap w1) \<and> hdrs (heap w1) = hdrs (heap w) \<and> eps w1 = eps w
    | Some L \<Rightarrow> ae_ok E (hdrs (heap w)) L w1 \<and> setsize L = n \<and> maxfd L = - 1 \<and> timeEventHead L = [] \<and>
        lp_stop L = 0 \<and> api_fresh (epfd (apidata L)) w w1)"
proof -
  let ?h = "hdrs (heap w)"
  let ?sl = "to_size SIZEOF_aeEventLoop" and ?se = "to_size (SIZEOF_aeFileEvent * n)"
    and ?sf = "to_size (SIZEOF_aeFiredEvent * n)"
  have fits: "fits ?sl" "fits ?se" "fits ?sf"
    using n by (auto intro!: fits_array simp: sizeof_defs fits_to_size)
  show ?thesis
    unfolding aeCreateEventLoop_def
  proof (rule runs_malloc [OF region_start [OF z] fits(1) E], goal_cases)
    case (1 lp z1)
    have r1: "region ?h [(lp, ?sl)] (heap (w\<lparr>heap := z1\<rparr>))" "E = ooms (heap (w\<lparr>heap := z1\<rparr>))"
      using 1 by simp_all
    show ?case
      unfolding if_not_P [OF 1(1)] heap_heap
    proof (rule runs_malloc [OF r1(1) fits(2) r1(2)], goal_cases)
      case (1 ev z2)
      note ev = 1(1)
      have r2: "region ?h [(ev, ?se), (lp, ?sl)] (heap (w\<lparr>heap := z2\<rparr>))" "E = ooms (heap (w\<lparr>heap := z2\<rparr>))"
        using 1 by simp_all
      show ?case
        unfolding heap_heap
      proof (rule runs_malloc [OF r2(1) fits(3) r2(2)], goal_cases)
        case (1 fi z3)
        let ?w4 = "w\<lparr>heap := z3, ntime := Suc (ntime w)\<rparr>"
        obtain s us where clk: "clk w (ntime w) = (s, us)" by (cases "clk w (ntime w)")
        then have tm: "time_sec (w\<lparr>heap := z3\<rparr>) = (s, ?w4)"
          by (simp add: time_sec_def gettimeofday_def)
        have r3: "region ?h [(fi, ?sf), (ev, ?se), (lp, ?sl)] (heap ?w4)" "E = ooms (heap ?w4)"
          using 1 by simp_all
        have nn: "\<not> (ev = 0 \<or> fi = 0)" using 1(1) ev by simp
        show ?case
          unfolding if_not_P [OF nn] heap_heap tm Let_def prod.case
        proof (rule runs_bind [OF aeApiCreate_effect [OF r3(1) _ _ r3(2)]], goal_cases)
          case (3 x)
          obtain r L1 w5 where x: "x = ((r, L1), w5)" by (cases x) auto
          show ?case
          proof (cases "r = - 1")
            case True
            have "region ?h [(fi, ?sf), (ev, ?se), (lp, ?sl)] (heap w5)" "eps w5 = eps w"
              using 3 True x by simp_all
            then show ?thesis using create_err_effect [of ?h fi ?sf ev ?se lp ?sl w5] x True
              by (auto simp: region_Nil)
          next
            case False
            obtain st e a where L1: "L1 = \<lparr>lp_ptr = lp, maxfd = - 1, setsize = n, timeEventNextId = 0, lastTime = s,
              ev_ptr = ev, events = map (junk_fe ?w4 ev) [0..<nat n],
              fi_ptr = fi, fired = map (junk_fired ?w4 fi) [0..<nat n],
              timeEventHead = [], lp_stop = 0,
              apidata = \<lparr>st_ptr = st, epfd = e, st_events = a\<rparr>, beforesleep = 0\<rparr>" and fresh: "api_fresh e ?w4 w5"
              and reg: "region ?h ((a, to_size (SIZEOF_epoll_event * n)) # (st, to_size SIZEOF_aeApiState) #
                 [(fi, ?sf), (ev, ?se), (lp, ?sl)]) (heap w5)" and E5: "E = ooms (heap w5)"
              using 3 x False by auto
            let ?L = "L1\<lparr>events := map clr (events L1)\<rparr>"
            have "clear_masks (events L1) 0 n = Inr (map clr (events L1))"
            proof -
              have "n = int (length (events L1))" using n by (simp add: L1)
              from clear_masks_eq [OF order.refl n(1) this] show ?thesis by simp
            qed
            moreover have "region ?h (core_blocks ?L) (heap w5)"
              using reg region_move [of ?h "[(a, to_size (SIZEOF_epoll_event * n)), (st, to_size SIZEOF_aeApiState), (fi, ?sf)]"
                  "(ev, ?se)" "[(lp, ?sl)]" "heap w5"]
                region_move [of ?h "[(a, to_size (SIZEOF_epoll_event * n)), (st, to_size SIZEOF_aeApiState)]"
                  "(ev, ?se)" "[(fi, ?sf), (lp, ?sl)]" "heap w5"]
              by (simp add: core_blocks_def L1)
            then have "ae_ok E ?h ?L w5"
              using fresh E5 n by (intro create_loop_ok [where n = n and ys = "events L1"]) (auto simp: L1 api_fresh_def)
            ultimately show ?thesis using x False fresh by (simp add: L1 api_fresh_def)
          qed
        qed (use n in simp_all)
      qed
    qed
  qed
qed

end
