(* ===== verification/Ae_Run.thy ===== *)
theory Ae_Run
  imports Ae_Life
begin

text \<open>
  The event loop at work. Calls of the API keep the invariant, so callbacks do; then the
  processing of file and time events never leaves an array, never calls a null callback and
  never touches a freed block, for every application that keeps two rules the code relies on
  (\<open>app_ok\<close>): a file callback does not resize the set, and a time callback that asks to be
  run again has not deleted its own event.
\<close>

subsection \<open>Sequences of calls\<close>

text \<open>
  What a callback may rely on: a set of calls and an invariant that each of them keeps.
\<close>

locale kept_by_calls =
  fixes allowed :: "ae_call \<Rightarrow> bool"
    and inv :: "aeEventLoop \<Rightarrow> world \<Rightarrow> bool"
    and stops :: "stop set"
  assumes call_keeps: "inv L w \<Longrightarrow> allowed c \<Longrightarrow> runs stops (run_call c L w) (\<lambda>(L1, w1). inv L1 w1)"
begin

lemma calls_keep:
  "inv L w \<Longrightarrow> \<forall>c\<in>set cs. allowed c \<Longrightarrow> runs stops (run_calls cs L w) (\<lambda>(L1, w1). inv L1 w1)"
proof (induction cs arbitrary: L w)
  case (Cons c cs)
  have "runs stops (run_call c L w) (\<lambda>(L1, w1). inv L1 w1)"
    using Cons.prems by (intro call_keeps) auto
  then show ?case using Cons.IH Cons.prems by (auto intro: runs_bind)
qed simp

end

fun call_ok :: "ae_call \<Rightarrow> bool" where
  "call_ok (CallCreateFile fd msk proc d) \<longleftrightarrow> 0 \<le> fd \<and> msk \<in> {1, 2, 3} \<and> proc \<noteq> 0"
| "call_ok (CallDeleteFile fd msk) \<longleftrightarrow> 0 \<le> fd \<and> msk \<in> {1, 2, 3}"
| "call_ok (CallCreateTime ms proc d f) \<longleftrightarrow> proc \<noteq> 0"
| "call_ok (CallDeleteTime i) \<longleftrightarrow> True"
| "call_ok (CallResize n) \<longleftrightarrow> n < 2147483648"
| "call_ok CallStop \<longleftrightarrow> True"

fun creates :: "ae_call \<Rightarrow> bool" where
  "creates (CallCreateTime ms proc d f) \<longleftrightarrow> True"
| "creates c \<longleftrightarrow> False"

definition call_in :: "stop set \<Rightarrow> ae_call \<Rightarrow> bool" where
  \<comment> \<open>a well-formed call; creating time events can exhaust the 64-bit identifiers\<close>
  "call_in S c \<longleftrightarrow> call_ok c \<and> (creates c \<longrightarrow> SignedOverflow \<in> S)"

fun resizes :: "ae_call \<Rightarrow> bool" where
  "resizes (CallResize n) \<longleftrightarrow> True"
| "resizes c \<longleftrightarrow> False"

definition frame :: "aeEventLoop \<Rightarrow> aeEventLoop \<Rightarrow> bool" where
  \<comment> \<open>the arrays are in place\<close>
  "frame L L1 \<longleftrightarrow> ev_ptr L1 = ev_ptr L \<and> setsize L1 = setsize L \<and> fired L1 = fired L"

lemma clk_log [simp]: "clk (log e w) = clk w"
  by (simp add: log_def)

lemma frame_refl [simp]: "frame L L"
  by (simp add: frame_def)

lemma frame_put [simp]: "frame L (put_fe L fd fe m)"
  by (simp add: frame_def put_fe_def)

lemma put_fe_timers [simp]: "timeEventHead (put_fe L fd fe m) = timeEventHead L"
  "timeEventNextId (put_fe L fd fe m) = timeEventNextId L"
  by (simp_all add: put_fe_def)

definition call_spec :: "ae_call \<Rightarrow> aeEventLoop \<Rightarrow> aeEventLoop \<Rightarrow> bool" where
  \<comment> \<open>what a call may do to the arrays and to the time events\<close>
  "call_spec c L L1 \<longleftrightarrow>
     (\<not> resizes c \<longrightarrow> frame L L1) \<and> timeEventNextId L \<le> timeEventNextId L1 \<and>
     (\<forall>te\<in>set (timeEventHead L1). te \<in> set (timeEventHead L) \<or> timeEventNextId L \<le> te_id te) \<and>
     (\<forall>te\<in>set (timeEventHead L). c \<noteq> CallDeleteTime (te_id te) \<longrightarrow> te \<in> set (timeEventHead L1))"

lemma call_spec_same:
  "(\<not> resizes c \<Longrightarrow> frame L L1) \<Longrightarrow> timeEventHead L1 = timeEventHead L \<Longrightarrow> timeEventNextId L1 = timeEventNextId L \<Longrightarrow>
   call_spec c L L1"
  by (simp add: call_spec_def)

lemma run_call_effect:
  assumes ok: "ae_ok E h L w" and cS: "call_in S c"
  shows "runs (E \<union> S) (run_call c L w) (\<lambda>(L1, w1). ae_ok E h L1 w1 \<and> clk w1 = clk w \<and> call_spec c L L1)"
proof -
  have c: "call_ok c" using cS by (simp add: call_in_def)
  show ?thesis
  proof (cases c)
    case (CallCreateFile fd msk proc d)
    then have a: "0 \<le> fd" "msk \<in> {1, 2, 3}" "proc \<noteq> 0" using c by auto
    obtain r L1 w1 where e: "aeCreateFileEvent L fd msk proc d w = Inr ((r, L1), w1)" "ae_ok E h L1 w1" "clk w1 = clk w"
      "if r = AE_OK then fd < setsize L \<and> L1 = put_fe L fd (fe_with (events L ! nat fd) msk proc d) (max (maxfd L) fd)
       else r = AE_ERR \<and> L1 = L"
      using aeCreateFileEvent_effect [OF ok a] by blast
    then have "call_spec c L L1" by (intro call_spec_same) (auto split: if_splits)
    then show ?thesis using e by (simp add: CallCreateFile)
  next
    case (CallDeleteFile fd msk)
    then have a: "0 \<le> fd" "msk \<in> {1, 2, 3}" using c by auto
    obtain L1 w1 where e: "aeDeleteFileEvent L fd msk w = Inr (L1, w1)" "ae_ok E h L1 w1" "clk w1 = clk w"
      "if fd < setsize L \<and> fe_mask (events L ! nat fd) \<noteq> AE_NONE
       then \<exists>m. L1 = put_fe L fd (fe_less (events L ! nat fd) msk) m else L1 = L"
      using aeDeleteFileEvent_effect [OF ok a] by blast
    then have "call_spec c L L1" by (intro call_spec_same) (auto split: if_splits)
    then show ?thesis using e by (simp add: CallDeleteFile)
  next
    case (CallCreateTime ms proc d f)
    show ?thesis
    proof (cases "timeEventNextId L < 9223372036854775807")
      case True
      have p: "proc \<noteq> 0" using c CallCreateTime by simp
      show ?thesis
        unfolding CallCreateTime run_call.simps
        by (rule runs_bind [OF runs_mono [OF aeCreateTimeEvent_effect [OF ok p True, of ms d f] Un_upper1]])
          (auto simp: call_spec_def frame_def)
    next
      case False
      then show ?thesis using cS by (simp add: CallCreateTime aeCreateTimeEvent_def c64_def call_in_def)
    qed
  next
    case (CallDeleteTime i)
    obtain r L1 w1 where e: "aeDeleteTimeEvent L i w = Inr ((r, L1), w1)" "ae_ok E h L1 w1" "clk w1 = clk w"
      "L1 = L\<lparr>timeEventHead := filter (\<lambda>te. te_id te \<noteq> i) (timeEventHead L)\<rparr>"
      using aeDeleteTimeEvent_effect [OF ok] by blast
    then have "call_spec c L L1" by (auto simp: call_spec_def frame_def CallDeleteTime)
    then show ?thesis using e by (simp add: CallDeleteTime)
  next
    case (CallResize n)
    then have n: "n < 2147483648" using c by simp
    show ?thesis
      unfolding CallResize run_call.simps
      by (rule runs_bind [OF runs_mono [OF aeResizeSetSize_effect [OF ok n] Un_upper1]])
        (auto simp: resized_def intro!: call_spec_same split: if_splits)
  next
    case CallStop
    then show ?thesis using ok by (auto simp: aeStop_def frame_def intro!: call_spec_same)
  qed
qed

subsection \<open>Applications\<close>

definition file_call :: "stop set \<Rightarrow> ae_call \<Rightarrow> bool" where
  "file_call S c \<longleftrightarrow> call_in S c \<and> \<not> resizes c"

definition time_call :: "stop set \<Rightarrow> int \<Rightarrow> ae_call \<Rightarrow> bool" where
  \<comment> \<open>calls of the callback of event \<open>i\<close>, when it asks to be run again\<close>
  "time_call S i c \<longleftrightarrow> call_in S c \<and> c \<noteq> CallDeleteTime i"

definition app_ok :: "stop set \<Rightarrow> app \<Rightarrow> bool" where
  "app_ok S A \<longleftrightarrow>
     (\<forall>proc fd d m tr. \<forall>c\<in>set (on_file A proc fd d m tr). file_call S c) \<and>
     (\<forall>proc i d tr. \<forall>c\<in>set (fst (on_time A proc i d tr)).
        call_in S c \<and> (s32 (snd (on_time A proc i d tr)) \<noteq> AE_NOMORE \<longrightarrow> time_call S i c)) \<and>
     (\<forall>proc tr. \<forall>c\<in>set (on_sleep A proc tr). call_in S c)"

interpretation api: kept_by_calls "call_in S" "ae_ok E h" "E \<union> S" for E h S
  by unfold_locales (rule runs_mono [OF run_call_effect], auto)

interpretation file_api: kept_by_calls "file_call S" "\<lambda>L w. ae_ok E h L w \<and> frame L0 L" "E \<union> S" for E h S L0
  by unfold_locales
    (rule runs_mono [OF run_call_effect], auto simp: file_call_def call_spec_def frame_def)

interpretation time_api: kept_by_calls "time_call S (te_id te)" "\<lambda>L w. ae_ok E h L w \<and> te \<in> set (timeEventHead L)"
  "E \<union> S" for E h S te
  by unfold_locales (rule runs_mono [OF run_call_effect], auto simp: time_call_def call_spec_def)

subsection \<open>File events\<close>

lemma call_file_safe:
  assumes "ae_ok E h L w" "app_ok S A" "proc \<noteq> 0"
  shows "runs (E \<union> S) (call_file A proc fd d m L w) (\<lambda>(L1, w1). ae_ok E h L1 w1 \<and> frame L L1)"
  using assms by (auto simp: call_file_def Let_def app_ok_def intro!: file_api.calls_keep)

definition fired_ok :: "nat \<Rightarrow> aeEventLoop \<Rightarrow> bool" where
  \<comment> \<open>the first \<open>n\<close> fired entries name slots of the array\<close>
  "fired_ok n L \<longleftrightarrow> n \<le> length (fired L) \<and>
     (\<forall>j < n. 0 \<le> fired_fd (fired L ! j) \<and> fired_fd (fired L ! j) < setsize L)"

lemma fired_ok_frame: "fired_ok n L \<Longrightarrow> frame L L1 \<Longrightarrow> fired_ok n L1"
  by (simp add: fired_ok_def frame_def)

lemma ae_ok_slot:
  assumes "ae_ok E h L w" "0 \<le> fd" "fd < setsize L"
  shows "fe_at L fd = Inr (events L ! nat fd)" "fe_ok (events L ! nat fd)"
proof -
  have "fd < int (length (events L))" using assms by (simp add: ae_ok_def files_ok_def)
  then show "fe_at L fd = Inr (events L ! nat fd)" "fe_ok (events L ! nat fd)"
    using assms by (auto simp: fe_at_in ae_ok_def files_ok_def)
qed

lemma fe_ok_procs:
  assumes "fe_ok fe"
  shows "fe_mask fe AND m AND AE_READABLE \<noteq> 0 \<Longrightarrow> rfileProc fe \<noteq> 0"
    and "fe_mask fe AND m AND AE_WRITABLE \<noteq> 0 \<Longrightarrow> wfileProc fe \<noteq> 0"
  using assms by (auto simp: fe_ok_def and.assoc and.left_commute)

lemma fire_file_safe:
  assumes ok: "ae_ok E h L w" and A: "app_ok S A" and j: "fired_ok n L" "j < n"
  shows "runs (E \<union> S) (fire_file A j L w) (\<lambda>(L1, w1). ae_ok E h L1 w1 \<and> frame L L1)"
proof -
  define fi where "fi = fired L ! j"
  let ?fd = "fired_fd fi" and ?m = "fired_mask fi"
  have fd: "0 \<le> ?fd" "?fd < setsize L" and at: "fired_at L j = Inr fi"
    using j by (auto simp: fired_ok_def fi_def fired_at_def)
  let ?fe = "events L ! nat ?fd"
  have ld: "fe_load L (ev_ptr L) ?fd = Inr ?fe" "fe_ok ?fe"
    using ae_ok_slot [OF ok fd] by (auto simp: fe_load_def)
  have second: "runs (E \<union> S) (rbind (fe_load L1 (ev_ptr L) ?fd) (\<lambda>fe1.
      if fe_mask fe1 AND ?m AND AE_WRITABLE \<noteq> 0 \<and> (\<not> rf \<or> wfileProc fe1 \<noteq> rfileProc fe1)
      then call_file A (wfileProc fe1) ?fd (fe_data fe1) ?m L1 w1 else Inr (L1, w1)))
    (\<lambda>(L2, w2). ae_ok E h L2 w2 \<and> frame L L2)" if ok1: "ae_ok E h L1 w1" and fr: "frame L L1" for rf L1 w1
  proof -
    have fd1: "?fd < setsize L1" "ev_ptr L1 = ev_ptr L" using fd fr by (auto simp: frame_def)
    note s = ae_ok_slot [OF ok1 fd(1) fd1(1)]
    have tr: "frame L L2" if "frame L1 L2" for L2 using fr that by (simp add: frame_def)
    have "runs (E \<union> S) (call_file A (wfileProc fe) ?fd (fe_data fe) ?m L1 w1)
        (\<lambda>(L2, w2). ae_ok E h L2 w2 \<and> frame L L2)" if "wfileProc fe \<noteq> 0" for fe :: aeFileEvent
      by (rule runs_mono [OF call_file_safe [OF ok1 A that]]) (auto intro: tr)
    then show ?thesis using s fd1 ok1 fr fe_ok_procs(2) [OF s(2), of ?m] by (simp add: fe_load_def)
  qed
  have first: "runs (E \<union> S) (if fe_mask ?fe AND ?m AND AE_READABLE \<noteq> 0
      then rbind (call_file A (rfileProc ?fe) ?fd (fe_data ?fe) ?m L w) (\<lambda>(L1, w1). Inr ((True, L1), w1))
      else Inr ((False, L), w)) (\<lambda>((rf, L1), w1). ae_ok E h L1 w1 \<and> frame L L1)"
  proof (cases "fe_mask ?fe AND ?m AND AE_READABLE \<noteq> 0")
    case True
    then show ?thesis unfolding if_P [OF True]
      by (intro runs_bind [OF call_file_safe [OF ok A fe_ok_procs(1) [OF ld(2)]]]) auto
  qed (use ok in simp)
  show ?thesis
    unfolding fire_file_def at rbind.simps Let_def ld
    by (rule runs_bind [OF first]) (auto simp only: prod.case intro: second)
qed

lemma file_loop_safe:
  assumes "ae_ok E h L w" "app_ok S A" "fired_ok n L"
  shows "runs (E \<union> S) (file_loop A j n L w k) (\<lambda>((r, L1), w1). ae_ok E h L1 w1)"
  using assms
proof (induction "n - j" arbitrary: j L w k)
  case 0
  then show ?case by (simp add: file_loop.simps)
next
  case (Suc x)
  then have j: "j < n" by simp
  have "runs (E \<union> S) (fire_file A j L w) (\<lambda>(L1, w1). ae_ok E h L1 w1 \<and> frame L L1)"
    using Suc.prems j by (intro fire_file_safe) auto
  then show ?case
    unfolding file_loop.simps [of A j] if_P [OF j]
    by (rule runs_bind)
      (use Suc j in \<open>auto simp only: prod.case intro!: Suc.hyps(1) intro: fired_ok_frame\<close>)
qed

subsection \<open>Polling\<close>

abbreviation fired_of :: "int \<times> int \<Rightarrow> aeFiredEvent" where
  "fired_of x \<equiv> \<lparr>fired_fd = fst x, fired_mask = poll_mask (snd x)\<rparr>"

lemma fill_fired_eq:
  "j + length evs \<le> length fi \<Longrightarrow>
   fill_fired fi j evs = Inr (take j fi @ map fired_of evs @ drop (j + length evs) fi)"
proof (induction evs arbitrary: j fi)
  case (Cons x evs)
  obtain fd ev where x: "x = (fd, ev)" by (cases x)
  let ?fi = "fi[j := fired_of x]"
  have "fill_fired fi j (x # evs) = fill_fired ?fi (Suc j) evs" using Cons.prems by (simp add: x)
  also have "\<dots> = Inr (take (Suc j) ?fi @ map fired_of evs @ drop (Suc j + length evs) ?fi)"
    using Cons.prems by (intro Cons.IH) simp
  also have "take (Suc j) ?fi = take j fi @ [fired_of x]"
    using Cons.prems by (simp add: take_Suc_conv_app_nth)
  finally show ?case by simp
qed simp

definition ready_list :: "(int \<rightharpoonup> int) \<Rightarrow> nat \<Rightarrow> (int \<times> int) list option \<Rightarrow> (int \<times> int) list" where
  \<comment> \<open>what \<open>epoll_wait\<close> reports\<close>
  "ready_list m n r =
     (case r of None \<Rightarrow> []
      | Some xs \<Rightarrow> take n [(fd, ev AND (the (m fd) OR EPOLLERR OR EPOLLHUP)). (fd, ev) \<leftarrow> xs, m fd \<noteq> None])"

lemma ready_list_watched: "x \<in> set (ready_list m n r) \<Longrightarrow> m (fst x) \<noteq> None"
  by (auto simp: ready_list_def split: option.splits dest!: in_set_takeD)

lemma length_ready_list: "length (ready_list m n r) \<le> n"
  by (auto simp: ready_list_def split: option.splits)

lemma aeApiPoll_effect:
  assumes ok: "ae_ok E h L w"
  defines "evs \<equiv> ready_list (interest (events L)) (nat (setsize L)) (ep_ready w (nsys w))"
  defines "fi \<equiv> map fired_of evs @ drop (length evs) (fired L)"
  shows "aeApiPoll L tvp w = Inr ((int (length evs), L\<lparr>fired := fi\<rparr>),
      log (Slept (poll_timeout tvp)) (w\<lparr>nsys := Suc (nsys w)\<rparr>))"
    and "fired_ok (length evs) (L\<lparr>fired := fi\<rparr>)" and "length fi = length (fired L)"
proof -
  have k: "eps w (epfd (apidata L)) = Some (interest (events L))" and len: "length (fired L) = nat (setsize L)"
    "length (events L) = nat (setsize L)"
    using ok by (auto simp: ae_ok_def files_ok_def)
  have le: "length evs \<le> length (fired L)" unfolding len evs_def by (rule length_ready_list)
  then have fill: "fill_fired (fired L) 0 evs = Inr fi" by (simp add: fill_fired_eq fi_def)
  have same: "L\<lparr>fired := drop 0 (fired L)\<rparr> = L" by simp
  show "aeApiPoll L tvp w = Inr ((int (length evs), L\<lparr>fired := fi\<rparr>),
      log (Slept (poll_timeout tvp)) (w\<lparr>nsys := Suc (nsys w)\<rparr>))"
    using fill same k
    by (cases "ep_ready w (nsys w)")
      (simp_all add: aeApiPoll_def epoll_wait_def Let_def evs_def fi_def ready_list_def)
  show "length fi = length (fired L)" using le by (simp add: fi_def)
  have "0 \<le> fst x \<and> fst x < setsize L" if "x \<in> set evs" for x
  proof -
    have "interest (events L) (fst x) \<noteq> None" using that unfolding evs_def by (rule ready_list_watched)
    then show ?thesis using len by (auto simp: interest_def split: if_splits)
  qed
  then show "fired_ok (length evs) (L\<lparr>fired := fi\<rparr>)"
    using le by (auto simp: fired_ok_def fi_def nth_append)
qed

lemma ae_ok_fired: "ae_ok E h L w \<Longrightarrow> length fi = length (fired L) \<Longrightarrow> ae_ok E h (L\<lparr>fired := fi\<rparr>) w"
  by (simp add: ae_ok_def files_ok_def timers_ok_def blocks_ok_def core_blocks_def)

lemma ae_ok_nsys [simp]: "ae_ok E h L (w\<lparr>nsys := n\<rparr>) \<longleftrightarrow> ae_ok E h L w"
  by (simp add: ae_ok_def files_ok_def blocks_ok_def)

lemma ae_ok_lastTime [simp]: "ae_ok E h (L\<lparr>lastTime := n\<rparr>) w \<longleftrightarrow> ae_ok E h L w"
  by (simp add: ae_ok_def files_ok_def timers_ok_def blocks_ok_def core_blocks_def)

lemma aeGetTime_eq: "aeGetTime w = ((fst (clk w (ntime w)), snd (clk w (ntime w)) sdiv 1000), w\<lparr>ntime := Suc (ntime w)\<rparr>)"
  by (simp add: aeGetTime_def gettimeofday_def split_beta)

lemma time_sec_eq: "time_sec w = (fst (clk w (ntime w)), w\<lparr>ntime := Suc (ntime w)\<rparr>)"
  by (simp add: time_sec_def gettimeofday_def split_beta)

lemma choose_timeout_world: "\<exists>k. snd (choose_timeout L flags w) = w\<lparr>ntime := k\<rparr>"
proof -
  have "\<exists>k. w = w\<lparr>ntime := k\<rparr>" by (intro exI [of _ "ntime w"]) simp
  then show ?thesis
    by (auto simp: choose_timeout_def aeGetTime_eq Let_def split: option.splits)
qed

subsection \<open>Time events\<close>

lemma te_block_live:
  assumes "ae_ok E h L w" "te \<in> set (timeEventHead L)"
  shows "hdrs (heap w) (te_ptr te) \<noteq> None"
proof -
  let ?items = "core_blocks L @ map te_block (timeEventHead L)"
  have "hdrs (heap w) = h ++ map_of ?items" using assms(1) by (simp add: ae_ok_def blocks_ok_def region_def)
  moreover have "te_ptr te \<in> fst ` set ?items" using assms(2) by (force simp: te_block_def)
  then have "map_of ?items (te_ptr te) \<noteq> None" by (metis map_of_eq_None_iff)
  ultimately show ?thesis by (simp only: map_add_None) blast
qed

lemma set_when_ok:
  assumes "ae_ok E h L w" "te \<in> set (timeEventHead L)"
  shows "\<exists>tes. set_when (te_ptr te) t (timeEventHead L) (w\<lparr>ntime := k\<rparr>) = Inr tes \<and> ae_ok E h (L\<lparr>timeEventHead := tes\<rparr>) w"
proof -
  let ?f = "\<lambda>x. if te_ptr x = te_ptr te then x\<lparr>when_sec := fst t, when_ms := snd t\<rparr> else x"
  have "set_when (te_ptr te) t (timeEventHead L) (w\<lparr>ntime := k\<rparr>) = Inr (map ?f (timeEventHead L))"
    using te_block_live [OF assms] by (simp add: set_when_def)
  moreover have "ae_ok E h (L\<lparr>timeEventHead := map ?f (timeEventHead L)\<rparr>) w"
    by (rule ae_ok_same_timers [OF assms(1)]) auto
  ultimately show ?thesis by blast
qed

lemma aeAdd_world: "\<exists>k. snd (aeAddMillisecondsToNow ms w) = w\<lparr>ntime := k\<rparr>"
  by (auto simp: aeAddMillisecondsToNow_def aeGetTime_eq Let_def)

lemma fire_te_eq:
  assumes "timeProc te \<noteq> 0"
  defines "w1 w \<equiv> log (TimeFired (te_id te)) w"
  defines "ans A w \<equiv> on_time A (timeProc te) (te_id te) (te_data te) (trace (w1 w))"
  shows "fire_te A te L w = rbind (run_calls (fst (ans A w)) L (w1 w)) (\<lambda>(L1, w2).
      if s32 (snd (ans A w)) \<noteq> AE_NOMORE then
        (case aeAddMillisecondsToNow (s32 (snd (ans A w))) w2 of (t, w3) \<Rightarrow>
        rbind (set_when (te_ptr te) t (timeEventHead L1) w3) (\<lambda>tes. Inr (L1\<lparr>timeEventHead := tes\<rparr>, w3)))
      else rbind (aeDeleteTimeEvent L1 (te_id te) w2) (\<lambda>((r, L2), w3). Inr (L2, w3)))"
  unfolding fire_te_def if_not_P [OF assms(1)] Let_def w1_def ans_def split_beta by (rule refl)

lemma fire_te_safe:
  assumes ok: "ae_ok E h L w" and A: "app_ok S A" and te: "te \<in> set (timeEventHead L)"
  shows "runs (E \<union> S) (fire_te A te L w) (\<lambda>(L1, w1). ae_ok E h L1 w1)"
proof -
  define w1 where "w1 = log (TimeFired (te_id te)) w"
  define cs where "cs = fst (on_time A (timeProc te) (te_id te) (te_data te) (trace w1))"
  define ret where "ret = s32 (snd (on_time A (timeProc te) (te_id te) (te_data te) (trace w1)))"
  have ok1: "ae_ok E h L w1" using ok by (simp add: w1_def)
  have p: "timeProc te \<noteq> 0" using ok te by (auto simp: ae_ok_def timers_ok_def)
  have cs: "\<forall>c\<in>set cs. call_in S c \<and> (ret \<noteq> AE_NOMORE \<longrightarrow> time_call S (te_id te) c)"
    using A unfolding app_ok_def cs_def ret_def by blast
  note eq = fire_te_eq [OF p, where A = A and L = L and w = w, folded w1_def, folded cs_def ret_def]
  show ?thesis
  proof (cases "ret = AE_NOMORE")
    case True
    have "runs (E \<union> S) (run_calls cs L w1) (\<lambda>(L1, w2). ae_ok E h L1 w2)"
      using cs by (intro api.calls_keep ok1) blast
    then show ?thesis unfolding eq
    proof (rule runs_bind, clarify, goal_cases)
      case (1 L1 w2)
      then show ?case using aeDeleteTimeEvent_effect [of E h L1 w2 "te_id te"] True by auto
    qed
  next
    case False
    have "runs (E \<union> S) (run_calls cs L w1) (\<lambda>(L1, w2). ae_ok E h L1 w2 \<and> te \<in> set (timeEventHead L1))"
      using cs False te ok1 by (intro time_api.calls_keep) auto
    then show ?thesis unfolding eq
    proof (rule runs_bind, clarify, goal_cases)
      case (1 L1 w2)
      obtain k where k: "snd (aeAddMillisecondsToNow ret w2) = w2\<lparr>ntime := k\<rparr>" using aeAdd_world by blast
      obtain tes where "set_when (te_ptr te) (fst (aeAddMillisecondsToNow ret w2)) (timeEventHead L1) (w2\<lparr>ntime := k\<rparr>) = Inr tes"
        "ae_ok E h (L1\<lparr>timeEventHead := tes\<rparr>) w2"
        using set_when_ok [OF 1(2,3)] by blast
      then show ?case using False k by (simp add: split_beta)
    qed
  qed
qed

lemma time_loop_safe:
  assumes "ae_ok E h L w" "app_ok S A" "set tes \<subseteq> set (timeEventHead L)"
  shows "runs (insert NoFuel (E \<union> S)) (time_loop A fuel maxId tes L w k) (\<lambda>((r, L1), w1). ae_ok E h L1 w1)"
  using assms
proof (induction A fuel maxId tes L w k rule: time_loop.induct)
  case (1 A fuel maxId L w processed)
  then show ?case by (simp add: time_loop.simps)
next
  case (2 A fuel maxId te rest L w processed)
  show ?case
  proof (cases "te_id te > maxId")
    case True
    then show ?thesis using 2(1) [OF True] 2(4-) by (simp add: time_loop.simps)
  next
    case False
    obtain now w1 where gt: "aeGetTime w = (now, w1)" by (cases "aeGetTime w")
    then have w1: "w1 = w\<lparr>ntime := Suc (ntime w)\<rparr>" by (simp add: aeGetTime_eq)
    have ok1: "ae_ok E h L w1" using 2(4) by (simp add: w1)
    show ?thesis
    proof (cases "te_due now te")
      case due: True
      show ?thesis
      proof (cases fuel)
        case 0
        then show ?thesis using False gt due by (simp add: time_loop.simps)
      next
        case (Suc n)
        have f: "runs (E \<union> S) (fire_te A te L w1) (\<lambda>(L1, w2). ae_ok E h L1 w2)"
          using 2(5,6) by (intro fire_te_safe [OF ok1]) auto
        have "runs (insert NoFuel (E \<union> S)) (rbind (fire_te A te L w1) (\<lambda>(L1, w2).
             time_loop A n maxId (timeEventHead L1) L1 w2 (processed + 1))) (\<lambda>((r, L1), w1). ae_ok E h L1 w1)"
          by (rule runs_bind_eq [OF runs_mono [OF f subset_insertI]], assumption)
            (use 2(2) [OF False gt [symmetric] refl due Suc] 2(5) in auto)
        then show ?thesis using False gt due Suc by (simp add: time_loop.simps)
      qed
    next
      case nd: False
      have "runs (insert NoFuel (E \<union> S)) (time_loop A fuel maxId rest L w1 processed) (\<lambda>((r, L1), w1). ae_ok E h L1 w1)"
        using 2(3) [OF False gt [symmetric] refl nd ok1] 2(5,6) by auto
      then show ?thesis using False gt nd by (simp add: time_loop.simps)
    qed
  qed
qed

lemma ae_ok_asap:
  assumes "ae_ok E h L w"
  shows "ae_ok E h (L\<lparr>timeEventHead := map (\<lambda>te. te\<lparr>when_sec := 0\<rparr>) (timeEventHead L)\<rparr>) w"
  by (rule ae_ok_same_timers [OF assms]) auto

lemma processTimeEvents_safe:
  assumes "ae_ok E h L w" "app_ok S A"
  shows "runs (insert NoFuel (E \<union> S)) (processTimeEvents A fuel L w) (\<lambda>((r, L1), w1). ae_ok E h L1 w1)"
  using assms ae_ok_asap [OF assms(1)]
  by (auto simp: processTimeEvents_def time_sec_eq Let_def intro!: time_loop_safe)

lemma poll_and_dispatch_safe:
  assumes ok: "ae_ok E h L w" and A: "app_ok S A"
  shows "runs (E \<union> S) (let (tvp, w1) = choose_timeout L flags w in
     rbind (aeApiPoll L tvp w1) (\<lambda>((numevents, L1), w2). file_loop A 0 (nat numevents) L1 w2 0))
   (\<lambda>((r, L1), w1). ae_ok E h L1 w1)"
proof -
  obtain tvp w1 where c: "choose_timeout L flags w = (tvp, w1)" by (cases "choose_timeout L flags w")
  then have ok1: "ae_ok E h L w1" using choose_timeout_world [of L flags w] ok by auto
  note p = aeApiPoll_effect(1) [OF ok1, of tvp] aeApiPoll_effect(2,3) [OF ok1]
  show ?thesis
    unfolding c Let_def prod.case p(1) rbind.simps nat_int
    by (rule file_loop_safe [OF _ A p(2)]) (use ae_ok_fired [OF ok1 p(3)] in simp)
qed

lemma aeProcessEvents_safe:
  assumes ok: "ae_ok E h L w" and A: "app_ok S A"
  shows "runs (insert NoFuel (E \<union> S)) (aeProcessEvents A fuel L flags w) (\<lambda>((r, L1), w1). ae_ok E h L1 w1)"
proof (cases "flags AND AE_TIME_EVENTS = 0 \<and> flags AND AE_FILE_EVENTS = 0")
  case True
  then show ?thesis using ok by (simp add: aeProcessEvents_def)
next
  case False
  have files: "runs (insert NoFuel (E \<union> S))
     (if maxfd L \<noteq> - 1 \<or> (flags AND AE_TIME_EVENTS \<noteq> 0 \<and> flags AND AE_DONT_WAIT = 0) then
        let (tvp, w1) = choose_timeout L flags w in
        rbind (aeApiPoll L tvp w1) (\<lambda>((numevents, L1), w2). file_loop A 0 (nat numevents) L1 w2 0)
      else Inr ((0, L), w)) (\<lambda>((r, L1), w1). ae_ok E h L1 w1)"
    using runs_mono [OF poll_and_dispatch_safe [OF ok A, of flags] subset_insertI] ok
    by (cases "maxfd L \<noteq> - 1 \<or> (flags AND AE_TIME_EVENTS \<noteq> 0 \<and> flags AND AE_DONT_WAIT = 0)") auto
  show ?thesis
    unfolding aeProcessEvents_def if_not_P [OF False]
  proof (rule runs_bind [OF files], clarify, goal_cases)
    case (1 r L2 w3)
    show ?case
      using runs_bind [OF processTimeEvents_safe [OF 1 A, of fuel], where Q = "\<lambda>((r, L1), w1). ae_ok E h L1 w1"
          and f = "\<lambda>((n, L3), w4). Inr ((r + n, L3), w4)"] 1
      by auto
  qed
qed

lemma main_loop_safe:
  assumes "ae_ok E h L w" "app_ok S A"
  shows "runs (insert NoFuel (E \<union> S)) (main_loop A fuel k L w) (\<lambda>(L1, w1). ae_ok E h L1 w1 \<and> lp_stop L1 \<noteq> 0)"
  using assms(1)
proof (induction k arbitrary: L w)
  case (Suc k)
  let ?E = "insert NoFuel (E \<union> S)"
  have sleep: "runs ?E (if beforesleep L \<noteq> 0
      then let w1 = log BeforeSleep w in run_calls (on_sleep A (beforesleep L) (trace w1)) L w1
      else Inr (L, w)) (\<lambda>(L1, w1). ae_ok E h L1 w1)"
    using Suc.prems assms(2) runs_mono [OF api.calls_keep [of E h _ _ _ S] subset_insertI]
    by (auto simp: app_ok_def Let_def)
  have rest: "runs ?E (rbind (aeProcessEvents A fuel L1 AE_ALL_EVENTS w1) (\<lambda>((n, L2), w2). main_loop A fuel k L2 w2))
      (\<lambda>(L1, w1). ae_ok E h L1 w1 \<and> lp_stop L1 \<noteq> 0)" if "ae_ok E h L1 w1" for L1 w1
    by (rule runs_bind [OF aeProcessEvents_safe [OF that assms(2)]]) (auto simp only: prod.case intro: Suc.IH)
  show ?case
  proof (cases "lp_stop L = 0")
    case True
    have ns: "\<not> lp_stop L \<noteq> 0" using True by simp
    show ?thesis unfolding main_loop.simps if_not_P [OF ns]
      by (rule runs_bind [OF sleep]) (auto simp only: prod.case intro: rest)
  qed (use Suc.prems in simp)
qed simp

end
