(* ===== verification/Ae_Time.thy ===== *)
theory Ae_Time
  imports Ae_Run "HOL-Library.Product_Lexorder"
begin

text \<open>
  Time: the search for the nearest timer, the arithmetic of deadlines, how long the loop
  sleeps, that \<open>processTimeEvents\<close> returns only after it has found every old event not due,
  whatever the clock says, and that it returns when the clock advances by less than the shortest
  delay that a callback asks for.
\<close>

subsection \<open>The nearest timer\<close>

definition te_key :: "aeTimeEvent \<Rightarrow> int \<times> int" where
  "te_key te = (when_sec te, when_ms te)"

lemma key_less: "te_key te < te_key n \<longleftrightarrow>
    when_sec te < when_sec n \<or> (when_sec te = when_sec n \<and> when_ms te < when_ms n)"
  by (auto simp: te_key_def less_prod_def)

lemma nearest_of_Some:
  "nearest_of tes (Some n) = find (\<lambda>x. \<forall>y\<in>set (n # tes). te_key x \<le> te_key y) (n # tes)"
proof (induction tes arbitrary: n)
  case (Cons te tes)
  show ?case
  proof (cases "te_key te < te_key n")
    case True
    have "find (\<lambda>x. \<forall>y\<in>set (te # tes). te_key x \<le> te_key y) (te # tes)
        = find (\<lambda>x. \<forall>y\<in>set (n # te # tes). te_key x \<le> te_key y) (te # tes)"
      using True by (intro find_cong) auto
    then show ?thesis using True Cons.IH [of te] by (auto simp: key_less [symmetric])
  next
    case False
    then have le: "te_key n \<le> te_key te" by simp
    have step: "nearest_of (te # tes) (Some n) = nearest_of tes (Some n)"
    proof -
      have "\<not> (when_sec te < when_sec n \<or> (when_sec te = when_sec n \<and> when_ms te < when_ms n))"
        using False by (simp add: key_less)
      then show ?thesis by (simp only: nearest_of.simps option.case if_False)
    qed
    show ?thesis
    proof (cases "\<forall>y\<in>set tes. te_key n \<le> te_key y")
      case True
      then show ?thesis using Cons.IH [of n] le step by simp
    next
      case no: False
      then have "\<not> (\<forall>y\<in>set (te # tes). te_key te \<le> te_key y)"
        using le by (auto dest: order_trans)
      moreover have "find (\<lambda>x. \<forall>y\<in>set (n # tes). te_key x \<le> te_key y) tes
          = find (\<lambda>x. \<forall>y\<in>set (n # te # tes). te_key x \<le> te_key y) tes"
        using le by (intro find_cong) auto
      ultimately show ?thesis using no Cons.IH [of n] step by (simp; blast)
    qed
  qed
qed simp

subsection \<open>Deadlines and sleeping times\<close>

definition msec :: "int \<times> int \<Rightarrow> int" where
  \<comment> \<open>seconds and milliseconds as one number\<close>
  "msec t = fst t * 1000 + snd t"

lemma sdiv_nonneg: "0 \<le> (a :: int) \<Longrightarrow> a sdiv 1000 = a div 1000"
  by (cases "a = 0") (simp_all add: signed_divide_int_def sgn_if)

lemma aeAdd_exact:
  assumes "clk w (ntime w) = (s, us)" "0 \<le> us" "us < 1000000"
  shows "msec (fst (aeAddMillisecondsToNow ms w)) = s * 1000 + us div 1000 + ms"
    and "snd (fst (aeAddMillisecondsToNow ms w)) < 1000"
    and "0 \<le> ms \<Longrightarrow> 0 \<le> snd (fst (aeAddMillisecondsToNow ms w))"
proof -
  have d: "ms sdiv 1000 * 1000 + ms smod 1000 = ms" by (rule sdiv_mult_smod_eq)
  have m: "ms smod 1000 < 1000" "0 \<le> ms \<Longrightarrow> 0 \<le> ms smod 1000"
    using smod_int_range [of 1000 ms] smod_int_compares(2) [of ms 1000] by auto
  show "msec (fst (aeAddMillisecondsToNow ms w)) = s * 1000 + us div 1000 + ms"
    using assms d by (simp add: aeAddMillisecondsToNow_def aeGetTime_eq msec_def sdiv_nonneg Let_def)
  show "snd (fst (aeAddMillisecondsToNow ms w)) < 1000"
    using assms m by (auto simp: aeAddMillisecondsToNow_def aeGetTime_eq sdiv_nonneg Let_def)
  show "0 \<le> snd (fst (aeAddMillisecondsToNow ms w))" if "0 \<le> ms"
    using assms m(2) [OF that] by (simp add: aeAddMillisecondsToNow_def aeGetTime_eq sdiv_nonneg Let_def)
qed

lemma te_due_msec:
  assumes "when_ms te < 1000" "0 \<le> when_ms te" "0 \<le> snd now" "snd now < 1000"
  shows "te_due now te \<longleftrightarrow> msec (te_key te) \<le> msec now"
  using assms by (auto simp: te_due_def msec_def te_key_def)

lemma poll_timeout_eq:
  assumes "0 \<le> when_ms te" "when_ms te < 1000" "0 \<le> snd now" "snd now < 1000"
  shows "poll_timeout (Some (timer_timeout te now)) =
    (if msec now \<le> msec (te_key te) then s32 (msec (te_key te) - msec now)
     else (when_ms te - snd now) mod 1000)"
proof (cases "when_ms te < snd now")
  case True
  have m: "(when_ms te - snd now) mod 1000 = when_ms te - snd now + 1000"
    using assms True mod_add_self2 [of "when_ms te - snd now" 1000]
      mod_pos_pos_trivial [of "when_ms te - snd now + 1000" 1000] by simp
  have dv: "(when_ms te + 1000 - snd now) * 1000 sdiv 1000 = when_ms te + 1000 - snd now"
    using assms True by (simp add: sdiv_nonneg)
  have r: "timer_timeout te now =
      (if when_sec te - fst now - 1 < 0 then 0 else when_sec te - fst now - 1, (when_ms te + 1000 - snd now) * 1000)"
    using True assms by (simp add: timer_timeout_def Let_def)
  show ?thesis
    using assms True m unfolding poll_timeout_def r option.case prod.case dv
    by (auto simp: msec_def te_key_def s32_id algebra_simps)
next
  case False
  have m: "(when_ms te - snd now) mod 1000 = when_ms te - snd now"
    using assms False by (intro mod_pos_pos_trivial) auto
  have dv: "(when_ms te - snd now) * 1000 sdiv 1000 = when_ms te - snd now"
    using assms False by (simp add: sdiv_nonneg)
  have r: "timer_timeout te now =
      (if when_sec te - fst now < 0 then 0 else when_sec te - fst now, (when_ms te - snd now) * 1000)"
    using False assms by (simp add: timer_timeout_def Let_def)
  show ?thesis
    using assms False m unfolding poll_timeout_def r option.case prod.case dv
    by (auto simp: msec_def te_key_def s32_id algebra_simps)
qed

subsection \<open>Firing everything that is due\<close>

definition grows :: "aeEventLoop \<Rightarrow> aeEventLoop \<Rightarrow> bool" where
  \<comment> \<open>time events are unchanged, gone, or new with a new identifier\<close>
  "grows L L1 \<longleftrightarrow> timeEventNextId L \<le> timeEventNextId L1 \<and>
     (\<forall>te\<in>set (timeEventHead L1). te \<in> set (timeEventHead L) \<or> timeEventNextId L \<le> te_id te)"

interpretation growth: kept_by_calls "call_in S" "\<lambda>L w. ae_ok E h L w \<and> clk w = c \<and> grows L0 L" "E \<union> S" for E h S c L0
proof (unfold_locales, goal_cases)
  case (1 L w call)
  have "grows L0 L1" if "call_spec call L L1" for L1
    using that 1(1) unfolding grows_def call_spec_def by (meson order_trans)
  then show ?case using 1 by (intro runs_mono [OF run_call_effect]) auto
qed

lemma runs_conj: "runs E r P \<Longrightarrow> runs E r Q \<Longrightarrow> runs E r (\<lambda>x. P x \<and> Q x)"
  by (cases r) auto

definition due_set :: "int \<Rightarrow> int \<times> int \<Rightarrow> aeEventLoop \<Rightarrow> aeTimeEvent set" where
  "due_set m now L = {te \<in> set (timeEventHead L). te_id te \<le> m \<and> te_due now te}"

definition ticks :: "nat \<Rightarrow> aeEventLoop \<Rightarrow> world \<Rightarrow> aeEventLoop \<Rightarrow> world \<Rightarrow> bool" where
  \<comment> \<open>at most \<open>n\<close> readings of the clock and \<open>n\<close> new time events\<close>
  "ticks n L w L1 w1 \<longleftrightarrow> clk w1 = clk w \<and> ntime w \<le> ntime w1 \<and> ntime w1 \<le> ntime w + n \<and>
     length (timeEventHead L1) \<le> length (timeEventHead L) + n"

lemma ticks_refl [simp]: "ticks n L w L w"
  by (simp add: ticks_def)

lemma ticks_trans: "ticks n L w L1 w1 \<Longrightarrow> ticks k L1 w1 L2 w2 \<Longrightarrow> ticks (n + k) L w L2 w2"
  by (auto simp: ticks_def)

lemma epoll_ctl_time [simp]: "clk (snd (epoll_ctl e op fd evs w)) = clk w" "ntime (snd (epoll_ctl e op fd evs w)) = ntime w"
  by (auto simp: epoll_ctl_def Let_def split: option.splits ctl_op.splits)

lemma unlink_te_shorter: "unlink_te i tes = Some (te, rest) \<Longrightarrow> length rest \<le> length tes"
  using unlink_te_split by fastforce

lemma create_file_ticks: "aeCreateFileEvent L fd msk proc d w = Inr ((r, L1), w1) \<Longrightarrow> ticks 1 L w L1 w1"
proof (cases "fd \<ge> setsize L")
  case False
  assume "aeCreateFileEvent L fd msk proc d w = Inr ((r, L1), w1)"
  then obtain a w2 where a: "aeApiAddEvent L fd msk w = Inr (a, w2)"
    "a = - 1 \<and> L1 = L \<and> w1 = w2 \<or> a \<noteq> - 1 \<and> timeEventHead L1 = timeEventHead L \<and> w1 = w2"
    using False by (cases "aeApiAddEvent L fd msk w"; cases "fe_at L fd"; cases "fst (projr (aeApiAddEvent L fd msk w)) = - 1")
      (auto simp: aeCreateFileEvent_def Let_def)
  then have w: "w1 = w2" "timeEventHead L1 = timeEventHead L" by auto
  from a(1) w(1) have "clk w1 = clk w \<and> ntime w1 = ntime w"
    by (auto simp: aeApiAddEvent_def Let_def split_beta rbind_eq_Inr)
  then show ?thesis using w(2) by (simp add: ticks_def)
qed (auto simp: aeCreateFileEvent_def)

lemma delete_file_ticks:
  assumes "aeDeleteFileEvent L fd msk w = Inr (L1, w1)"
  shows "ticks 1 L w L1 w1"
proof -
  have api: "clk v1 = clk v \<and> ntime v1 = ntime v" if "aeApiDelEvent K fd msk v = Inr v1" for K v v1
    using that by (cases "fe_at K fd") (auto simp: aeApiDelEvent_def Let_def split: if_split_asm)
  have low: "timeEventHead K1 = timeEventHead K"
    if "(if b then rbind (max_down (events K) j) (\<lambda>j. Inr (K\<lparr>maxfd := j\<rparr>)) else Inr K) = Inr K1" for K K1 b j
    using that by (cases b) (auto simp: rbind_eq_Inr)
  show ?thesis
  proof (cases "fd \<ge> setsize L")
    case False
    then obtain fe where fe: "fe_at L fd = Inr fe" using assms by (cases "fe_at L fd") (simp_all add: aeDeleteFileEvent_def)
    show ?thesis
    proof (cases "fe_mask fe = AE_NONE")
      case set: False
      then show ?thesis using assms False fe
        by (auto simp: aeDeleteFileEvent_def Let_def rbind_eq_Inr ticks_def simp del: epoll_ctl_time dest!: api low)
    qed (use assms False fe in \<open>simp add: aeDeleteFileEvent_def\<close>)
  qed (use assms in \<open>simp add: aeDeleteFileEvent_def\<close>)
qed

lemma create_time_ticks: "aeCreateTimeEvent L ms proc d f w = Inr ((r, L1), w1) \<Longrightarrow> ticks 1 L w L1 w1"
  by (auto simp: aeCreateTimeEvent_def on_heap_def aeAddMillisecondsToNow_def aeGetTime_eq ticks_def Let_def split_beta rbind_eq_Inr split: if_splits)

lemma delete_time_ticks: "aeDeleteTimeEvent L i w = Inr ((r, L1), w1) \<Longrightarrow> ticks 0 L w L1 w1"
  by (auto simp: aeDeleteTimeEvent_def wfree_def log_def ticks_def Let_def rbind_eq_Inr split: option.splits if_splits)
     (metis unlink_te_shorter)+

lemma resize_ticks: "aeResizeSetSize L n w = Inr ((r, L1), w1) \<Longrightarrow> ticks 1 L w L1 w1"
  by (auto simp: aeResizeSetSize_def aeApiResize_def on_heap_def ticks_def Let_def split_beta rbind_eq_Inr split: if_splits)

lemma run_call_ticks: "run_call c L w = Inr (L1, w1) \<Longrightarrow> ticks 1 L w L1 w1"
proof (cases c)
  case (CallDeleteTime i)
  then show "run_call c L w = Inr (L1, w1) \<Longrightarrow> ?thesis"
    by (auto simp: rbind_eq_Inr split_beta ticks_def log_def dest!: delete_time_ticks)
qed (auto simp: rbind_eq_Inr split_beta log_def ticks_def aeStop_def
      dest!: create_file_ticks delete_file_ticks create_time_ticks resize_ticks)

lemma run_calls_ticks: "run_calls cs L w = Inr (L1, w1) \<Longrightarrow> ticks (length cs) L w L1 w1"
proof (induction cs arbitrary: L w)
  case (Cons c cs)
  then obtain L2 w2 where "run_call c L w = Inr (L2, w2)" "run_calls cs L2 w2 = Inr (L1, w1)"
    by (auto simp: rbind_eq_Inr)
  then show ?case using Cons(1) run_call_ticks ticks_trans [of 1] by fastforce
qed simp

definition reading :: "(nat \<Rightarrow> int \<times> int) \<Rightarrow> nat \<Rightarrow> int \<times> int" where
  \<comment> \<open>what \<open>aeGetTime\<close> makes of the answer number \<open>n\<close> of the clock\<close>
  "reading c n = (fst (c n), snd (c n) sdiv 1000)"

lemma aeGetTime_reading: "aeGetTime w = (reading (clk w) (ntime w), w\<lparr>ntime := Suc (ntime w)\<rparr>)"
  by (simp add: aeGetTime_eq reading_def)

lemma fire_te_ticks:
  assumes "fire_te A te L w = Inr (L1, w1)"
  shows "ticks (Suc (length (fst (on_time A (timeProc te) (te_id te) (te_data te) (TimeFired (te_id te) # trace w))))) L w L1 w1"
proof -
  let ?cs = "fst (on_time A (timeProc te) (te_id te) (te_data te) (trace (log (TimeFired (te_id te)) w)))"
  have p: "timeProc te \<noteq> 0" using assms by (auto simp: fire_te_def split: if_splits)
  have tr: "trace (log (TimeFired (te_id te)) w) = TimeFired (te_id te) # trace w" by (simp add: log_def)
  obtain L2 w2 where r: "run_calls ?cs L (log (TimeFired (te_id te)) w) = Inr (L2, w2)"
    using assms unfolding fire_te_eq [OF p] by (auto simp: rbind_eq_Inr)
  have t: "ticks (length ?cs) L w L2 w2" using run_calls_ticks [OF r] by (simp add: ticks_def log_def)
  have "ticks 1 L2 w2 L1 w1"
    using assms r unfolding fire_te_eq [OF p]
    by (auto simp: rbind_eq_Inr split_beta aeAddMillisecondsToNow_def aeGetTime_eq set_when_def ticks_def Let_def
        split: if_split_asm dest!: delete_time_ticks)
  from ticks_trans [OF t this] show ?thesis by (simp add: tr)
qed

text \<open>Whatever the clock does, a pass that ends has found every event not due at some reading.\<close>

definition tested :: "int \<Rightarrow> nat \<Rightarrow> world \<Rightarrow> aeTimeEvent list \<Rightarrow> bool" where
  "tested m n0 w tes \<longleftrightarrow> (\<forall>te\<in>set tes. te_id te \<le> m \<longrightarrow> (\<exists>n. n0 \<le> n \<and> n < ntime w \<and> \<not> te_due (reading (clk w) n) te))"

lemma time_loop_tested:
  assumes "ae_ok E h L w" "app_ok S A" "timeEventHead L = pre @ tes" "n0 \<le> ntime w" "tested m n0 w pre"
  shows "runs (insert NoFuel (E \<union> S)) (time_loop A fuel m tes L w k)
    (\<lambda>((r, L1), w1). ae_ok E h L1 w1 \<and> clk w1 = clk w \<and> tested m n0 w1 (timeEventHead L1))"
  using assms
proof (induction A fuel m tes L w k arbitrary: pre rule: time_loop.induct)
  case (1 A fuel m L w k)
  then show ?case by (simp add: time_loop.simps)
next
  case (2 A fuel m te rest L w k)
  note ok = 2(4) and A = 2(5) and hd = 2(6) and n0 = 2(7) and pre = 2(8)
  have hd1: "timeEventHead L = (pre @ [te]) @ rest" using hd by simp
  show ?case
  proof (cases "te_id te > m")
    case True
    have "tested m n0 w (pre @ [te])" using pre True by (auto simp: tested_def)
    from 2(1) [OF True ok A hd1 n0 this] show ?thesis using True by (simp add: time_loop.simps)
  next
    case False
    let ?w = "w\<lparr>ntime := Suc (ntime w)\<rparr>" and ?now = "reading (clk w) (ntime w)"
    note gt = aeGetTime_reading [of w]
    have ok1: "ae_ok E h L ?w" "n0 \<le> ntime ?w" using ok n0 by simp_all
    show ?thesis
    proof (cases "te_due ?now te")
      case nd: False
      have "tested m n0 ?w (pre @ [te])" using pre nd n0 by (fastforce simp: tested_def less_Suc_eq)
      from 2(3) [OF False gt [symmetric] refl nd ok1(1) A hd1 ok1(2) this] show ?thesis
        using False gt nd by (simp add: time_loop.simps)
    next
      case due: True
      show ?thesis
      proof (cases fuel)
        case 0
        then show ?thesis using False gt due by (simp add: time_loop.simps)
      next
        case n: (Suc n)
        have "te \<in> set (timeEventHead L)" using hd by simp
        from fire_te_safe [OF ok1(1) A this]
        have f: "runs (insert NoFuel (E \<union> S)) (fire_te A te L ?w) (\<lambda>(L1, w1). ae_ok E h L1 w1)" by (rule runs_mono) auto
        have "runs (insert NoFuel (E \<union> S)) (rbind (fire_te A te L ?w) (\<lambda>(L1, w2). time_loop A n m (timeEventHead L1) L1 w2 (k + 1)))
            (\<lambda>((r, L1), w1). ae_ok E h L1 w1 \<and> clk w1 = clk w \<and> tested m n0 w1 (timeEventHead L1))"
        proof (rule runs_bind_eq [OF f], clarify, goal_cases)
          case (1 L1 w2)
          have c: "clk w2 = clk w" "n0 \<le> ntime w2" using fire_te_ticks [OF 1(1)] n0 by (simp_all add: ticks_def)
          show ?case
            using 2(2) [OF False gt [symmetric] refl due n 1(1) refl 1(2) A _ c(2), of "[]"] c(1) by (simp add: tested_def)
        qed
        then show ?thesis using False gt due n by (simp add: time_loop.simps)
      qed
    qed
  qed
qed

text \<open>
  When the readings stay within the shortest delay, an event that has fired is not due again, so
  that the fires are no more than the events and the readings no more than \<open>clock_budget\<close>.
\<close>

definition progress :: "int \<Rightarrow> app \<Rightarrow> bool" where
  \<comment> \<open>a time callback asks for its end or for a delay of at least \<open>d\<close> ms\<close>
  "progress d A \<longleftrightarrow> (\<forall>proc i x tr. s32 (snd (on_time A proc i x tr)) = AE_NOMORE \<or> d \<le> s32 (snd (on_time A proc i x tr)))"

definition few_calls :: "nat \<Rightarrow> app \<Rightarrow> bool" where
  \<comment> \<open>a time callback makes at most \<open>q\<close> calls of the API\<close>
  "few_calls q A \<longleftrightarrow> (\<forall>proc i x tr. length (fst (on_time A proc i x tr)) \<le> q)"

definition reads_left :: "nat \<Rightarrow> nat \<Rightarrow> nat \<Rightarrow> nat \<Rightarrow> nat" where
  \<comment> \<open>for \<open>f\<close> fires to come, \<open>n\<close> events and \<open>k\<close> of them still to be tested\<close>
  "reads_left q f n k = k + f * (Suc q + n + f * Suc q)"

definition clock_budget :: "nat \<Rightarrow> nat \<Rightarrow> nat" where
  "clock_budget q n = reads_left q n n n"

definition steady :: "(nat \<Rightarrow> int \<times> int) \<Rightarrow> nat \<Rightarrow> nat \<Rightarrow> int \<Rightarrow> bool" where
  \<comment> \<open>\<open>k\<close> readings, none before the first and all less than \<open>d\<close> ms after it\<close>
  "steady c n0 k d \<longleftrightarrow> (\<forall>n. n0 \<le> n \<and> n < n0 + k \<longrightarrow> 0 \<le> snd (c n) \<and> snd (c n) < 1000000 \<and>
     msec (reading c n0) \<le> msec (reading c n) \<and> msec (reading c n) < msec (reading c n0) + d)"

lemma not_due: "\<not> te_due now te \<longleftrightarrow> now < te_key te"
  by (cases now) (auto simp: te_due_def te_key_def less_prod_def)

lemma te_due_mono:
  assumes "te_due a te" "msec a \<le> msec b" "0 \<le> snd a" "snd a < 1000" "0 \<le> snd b" "snd b < 1000"
  shows "te_due b te"
proof -
  have "fst a < fst b \<or> fst a = fst b \<and> snd a \<le> snd b" using assms(2-6) unfolding msec_def by linarith
  then show ?thesis using assms(1) by (auto simp: te_due_def)
qed

lemma reading_range: "0 \<le> snd (c n) \<Longrightarrow> snd (c n) < 1000000 \<Longrightarrow> 0 \<le> snd (reading c n) \<and> snd (reading c n) < 1000"
  by (auto simp: reading_def sdiv_nonneg)

lemma aeAdd_reading:
  assumes "0 \<le> snd (clk w (ntime w))" "snd (clk w (ntime w)) < 1000000"
  shows "msec (fst (aeAddMillisecondsToNow ms w)) = msec (reading (clk w) (ntime w)) + ms"
  using aeAdd_exact(1) [of w "fst (clk w (ntime w))" "snd (clk w (ntime w))" ms] assms
  by (simp add: reading_def msec_def sdiv_nonneg)

lemma fires_reads:
  assumes "g < f" "n' \<le> n + Suc q" "0 < k"
  shows "Suc (Suc q) + reads_left q g n' n' \<le> reads_left q f n k"
proof -
  obtain e where e: "f = Suc e" "g \<le> e" using assms(1) by (cases f) auto
  have "g * (Suc q + n' + g * Suc q) \<le> e * (Suc q + (n + Suc q) + e * Suc q)"
    using e(2) assms(2) by (intro mult_le_mono add_le_mono) auto
  then show ?thesis using assms(2,3) unfolding reads_left_def e(1) by (simp add: algebra_simps)
qed

lemma grows_due: "grows L L1 \<Longrightarrow> m < timeEventNextId L \<Longrightarrow> due_set m now L1 \<subseteq> due_set m now L"
  by (fastforce simp: grows_def due_set_def)

lemma reschedule_due:
  assumes "set_when p t (timeEventHead L) w = Inr tes" "msec now < msec t" "0 \<le> snd t" "snd t < 1000"
    "0 \<le> snd now" "snd now < 1000" "te_ptr te = p"
  shows "due_set m now (L\<lparr>timeEventHead := tes\<rparr>) \<subseteq> due_set m now L - {te}"
proof -
  let ?u = "\<lambda>x. x\<lparr>when_sec := fst t, when_ms := snd t\<rparr>"
  have late: "\<not> te_due now (?u x)" for x
    using te_due_msec [of "?u x" now] assms(2-6) by (simp add: te_key_def)
  have "tes = map (\<lambda>x. if te_ptr x = p then ?u x else x) (timeEventHead L)"
    using assms(1) by (auto simp: set_when_def split: if_splits)
  then show ?thesis using late assms(7) by (auto simp: due_set_def)
qed

lemma fire_te_progress:
  assumes ok: "ae_ok E h L w" and A: "app_ok S A" "progress d A" "few_calls q A" and d: "1 \<le> d"
    and te: "te \<in> due_set m lim L" and m: "m < timeEventNextId L" and lim: "0 \<le> snd lim" "snd lim < 1000"
    and win: "\<And>n. ntime w \<le> n \<Longrightarrow> n \<le> ntime w + q \<Longrightarrow>
      0 \<le> snd (clk w n) \<and> snd (clk w n) < 1000000 \<and> msec lim < msec (reading (clk w) n) + d"
  shows "runs (E \<union> S) (fire_te A te L w) (\<lambda>(L1, w1). ae_ok E h L1 w1 \<and>
    m < timeEventNextId L1 \<and> due_set m lim L1 \<subseteq> due_set m lim L - {te})"
proof -
  define w1 where "w1 = log (TimeFired (te_id te)) w"
  define cs where "cs = fst (on_time A (timeProc te) (te_id te) (te_data te) (trace w1))"
  define ret where "ret = s32 (snd (on_time A (timeProc te) (te_id te) (te_data te) (trace w1)))"
  have tin: "te \<in> set (timeEventHead L)" using te by (simp add: due_set_def)
  have ok1: "ae_ok E h L w1" "clk w1 = clk w" "ntime w1 = ntime w" using ok by (simp_all add: w1_def) (simp add: log_def)
  have p: "timeProc te \<noteq> 0" using ok tin by (auto simp: ae_ok_def timers_ok_def)
  have cs: "\<forall>c\<in>set cs. call_in S c \<and> (ret \<noteq> AE_NOMORE \<longrightarrow> time_call S (te_id te) c)" "length cs \<le> q"
    using A(1,3) unfolding app_ok_def few_calls_def cs_def ret_def by blast+
  have grow: "runs (E \<union> S) (run_calls cs L w1) (\<lambda>(L1, w2). ae_ok E h L1 w2 \<and> clk w2 = clk w \<and> grows L L1)"
    using cs(1) ok1 by (intro growth.calls_keep) (auto simp: grows_def)
  note eq = fire_te_eq [OF p, where A = A and L = L and w = w, folded w1_def, folded cs_def ret_def]
  show ?thesis
  proof (cases "ret = AE_NOMORE")
    case True
    show ?thesis unfolding eq
    proof (rule runs_bind [OF grow], clarify, goal_cases)
      case (1 L1 w2)
      have "due_set m lim L1 \<subseteq> due_set m lim L" by (rule grows_due [OF 1(3) m])
      moreover have "m < timeEventNextId L1" using 1(3) m by (simp add: grows_def)
      ultimately show ?case using aeDeleteTimeEvent_effect [OF 1(1), of "te_id te"] True 1(2)
        by (auto simp: due_set_def)
    qed
  next
    case False
    then have ret: "d \<le> ret" using A(2) unfolding progress_def ret_def by blast
    have "runs (E \<union> S) (run_calls cs L w1) (\<lambda>(L1, w2). ae_ok E h L1 w2 \<and> te \<in> set (timeEventHead L1))"
      using cs(1) False tin ok1 by (intro time_api.calls_keep) auto
    note both = runs_conj [OF grow this]
    show ?thesis unfolding eq
    proof (rule runs_bind_eq [OF both], clarify, goal_cases)
      case (1 L1 w2)
      have g: "clk w2 = clk w" "grows L L1" "ae_ok E h L1 w2" "te \<in> set (timeEventHead L1)" using 1 by auto
      let ?t = "fst (aeAddMillisecondsToNow ret w2)"
      obtain k where k: "snd (aeAddMillisecondsToNow ret w2) = w2\<lparr>ntime := k\<rparr>" using aeAdd_world by blast
      have "ntime w \<le> ntime w2" "ntime w2 \<le> ntime w + q"
        using run_calls_ticks [OF 1(1)] cs(2) ok1(3) by (simp_all add: ticks_def)
      from win [OF this] have c: "0 \<le> snd (clk w2 (ntime w2))" "snd (clk w2 (ntime w2)) < 1000000"
        "msec lim < msec (reading (clk w2) (ntime w2)) + d" by (simp_all add: g(1))
      have t: "msec lim < msec ?t" "0 \<le> snd ?t" "snd ?t < 1000"
        using aeAdd_reading [OF c(1,2), of ret] aeAdd_exact(2,3) [of w2 _ _ ret, OF _ c(1,2)] c(3) ret d
        by (auto simp: prod_eq_iff)
      obtain tes where tes: "set_when (te_ptr te) ?t (timeEventHead L1) (w2\<lparr>ntime := k\<rparr>) = Inr tes"
        "ae_ok E h (L1\<lparr>timeEventHead := tes\<rparr>) w2"
        using set_when_ok [OF g(3,4)] by blast
      have "due_set m lim (L1\<lparr>timeEventHead := tes\<rparr>) \<subseteq> due_set m lim L1 - {te}"
        using reschedule_due [OF tes(1) t lim, where te = te] by simp
      moreover have "due_set m lim L1 \<subseteq> due_set m lim L" by (rule grows_due [OF g(2) m])
      ultimately show ?case using False k tes g(1,2) m by (auto simp: split_beta grows_def)
    qed
  qed
qed

lemma time_loop_completes:
  assumes "ae_ok E h L w" "app_ok S A" "progress d A" "few_calls q A" "1 \<le> d" "m < timeEventNextId L"
    and "0 \<le> snd lim" "snd lim < 1000"
    and "\<forall>n. n0 \<le> n \<and> n < N \<longrightarrow> 0 \<le> snd (c n) \<and> snd (c n) < 1000000 \<and>
      msec (reading c n) \<le> msec lim \<and> msec lim < msec (reading c n) + d"
    and "clk w = c" "n0 \<le> ntime w" "timeEventHead L = pre @ tes"
    and "ntime w + reads_left q (card (due_set m lim L)) (length (timeEventHead L)) (length tes) \<le> N"
    and "card (due_set m lim L) \<le> fuel"
  shows "runs (E \<union> S) (time_loop A fuel m tes L w k) (\<lambda>x. ntime (snd x) \<le> N)"
  using assms
proof (induction A fuel m tes L w k arbitrary: pre rule: time_loop.induct)
  case (1 A fuel m L w k)
  then show ?case by (simp add: time_loop.simps)
next
  case (2 A fuel m te rest L w k)
  note ok = 2(4) and A = 2(5-8) and m = 2(9) and lim = 2(10,11) and win = 2(12) and c = 2(13) and n0 = 2(14)
    and hd = 2(15) and bud = 2(16) and fu = 2(17)
  have hd1: "timeEventHead L = (pre @ [te]) @ rest" using hd by simp
  have bud1: "Suc (ntime w) + reads_left q (card (due_set m lim L)) (length (timeEventHead L)) (length rest) \<le> N"
    using bud by (simp add: reads_left_def)
  show ?case
  proof (cases "te_id te > m")
    case True
    then show ?thesis using 2(1) [OF True ok A m lim win c n0 hd1 _ fu] bud1 by (simp add: time_loop.simps)
  next
    case False
    let ?w = "w\<lparr>ntime := Suc (ntime w)\<rparr>" and ?now = "reading c (ntime w)"
    have gt: "aeGetTime w = (?now, ?w)" using aeGetTime_reading [of w] c by simp
    have ok1: "ae_ok E h L ?w" "clk ?w = c" "n0 \<le> ntime ?w" using ok n0 c by simp_all
    show ?thesis
    proof (cases "te_due ?now te")
      case nd: False
      from 2(3) [OF False gt [symmetric] refl nd ok1(1) A m lim win ok1(2,3) hd1 _ fu]
      show ?thesis using False gt nd bud1 by (simp add: time_loop.simps)
    next
      case due: True
      let ?D = "due_set m lim L"
      have "ntime w < N" using bud1 by simp
      note now = win [rule_format, OF conjI, OF n0 this]
      have "te_due lim te" using te_due_mono [OF due, of lim] now reading_range [of c "ntime w"] lim by blast
      then have tin: "te \<in> ?D" using False hd by (auto simp: due_set_def)
      have fin: "finite ?D" by (simp add: due_set_def)
      then have "0 < card ?D" using tin by (auto simp: card_gt_0_iff)
      then obtain n where n: "fuel = Suc n" using fu by (cases fuel) auto
      have left: "Suc (Suc q) + reads_left q g n' n' + ntime w \<le> N"
        if "g < card ?D" "n' \<le> length (timeEventHead L) + Suc q" for g n'
        using fires_reads [OF that, of "length (te # rest)"] bud by simp
      have win1: "0 \<le> snd (clk ?w i) \<and> snd (clk ?w i) < 1000000 \<and> msec lim < msec (reading (clk ?w) i) + d"
        if "ntime ?w \<le> i" "i \<le> ntime ?w + q" for i
        using win [rule_format, of i] that n0 c left [OF \<open>0 < card ?D\<close>, of 0] by simp
      have f: "runs (E \<union> S) (fire_te A te L ?w) (\<lambda>(L1, w1). ae_ok E h L1 w1 \<and>
          m < timeEventNextId L1 \<and> due_set m lim L1 \<subseteq> ?D - {te})"
        by (rule fire_te_progress [OF ok1(1) A tin m lim win1])
      have "runs (E \<union> S) (rbind (fire_te A te L ?w) (\<lambda>(L1, w2). time_loop A n m (timeEventHead L1) L1 w2 (k + 1)))
          (\<lambda>x. ntime (snd x) \<le> N)"
      proof (rule runs_bind_eq [OF f], clarify, goal_cases)
        case (1 L1 w2)
        have less: "card (due_set m lim L1) < card ?D" using 1(4) tin fin by (intro psubset_card_mono) auto
        have "ticks (Suc q) L ?w L1 w2"
          using fire_te_ticks [OF 1(1)] A(3) by (fastforce simp: ticks_def few_calls_def intro: order_trans)
        then have t: "clk w2 = c" "n0 \<le> ntime w2" "ntime w2 \<le> ntime w + Suc (Suc q)"
          "length (timeEventHead L1) \<le> length (timeEventHead L) + Suc q" using c n0 by (simp_all add: ticks_def)
        have "ntime w2 + reads_left q (card (due_set m lim L1)) (length (timeEventHead L1)) (length (timeEventHead L1)) \<le> N"
          using left [OF less t(4)] t(3) by simp
        moreover have "card (due_set m lim L1) \<le> n" using less fu n by simp
        ultimately show ?case
          using 2(2) [OF False gt [symmetric] refl due n 1(1) refl 1(2) A 1(3) lim win t(1,2), of "[]"] by simp
      qed
      then show ?thesis using False gt due n by (simp add: time_loop.simps)
    qed
  qed
qed

lemma steady_limit:
  assumes "steady c n0 (Suc k) d" "1 \<le> d"
  obtains lim where "0 \<le> snd lim" "snd lim < 1000"
    and "\<forall>n. n0 \<le> n \<and> n < Suc n0 + k \<longrightarrow> 0 \<le> snd (c n) \<and> snd (c n) < 1000000 \<and>
      msec (reading c n) \<le> msec lim \<and> msec lim < msec (reading c n) + d"
proof
  let ?x = "msec (reading c n0) + d - 1" and ?lim = "((msec (reading c n0) + d - 1) div 1000, (msec (reading c n0) + d - 1) mod 1000)"
  show "0 \<le> snd ?lim" "snd ?lim < 1000" by simp_all
  have "msec ?lim = ?x" by (simp add: msec_def)
  then show "\<forall>n. n0 \<le> n \<and> n < Suc n0 + k \<longrightarrow> 0 \<le> snd (c n) \<and> snd (c n) < 1000000 \<and>
      msec (reading c n) \<le> msec ?lim \<and> msec ?lim < msec (reading c n) + d"
    using assms by (fastforce simp: steady_def)
qed

lemma steady_later:
  assumes "steady c n0 (Suc k) d" "n0 \<le> n" "n < Suc n0 + k" "te_due (reading c n0) te"
  shows "te_due (reading c n) te"
proof -
  have "0 \<le> snd (c i) \<and> snd (c i) < 1000000 \<and> msec (reading c n0) \<le> msec (reading c i)" if "n0 \<le> i" "i < Suc n0 + k" for i
    using assms(1) that by (simp add: steady_def)
  then show ?thesis
    using te_due_mono [OF assms(4), of "reading c n"] reading_range [of c n] reading_range [of c n0] assms(2,3) by auto
qed

lemma steady_completes:
  assumes "ae_ok E h L (w\<lparr>ntime := Suc (ntime w)\<rparr>)" "app_ok S A" "progress d A" "few_calls q A" "1 \<le> d" "m < timeEventNextId L"
    and "length (timeEventHead L) \<le> fuel" "steady (clk w) (ntime w) (Suc (clock_budget q (length (timeEventHead L)))) d"
  shows "runs (E \<union> S) (time_loop A fuel m (timeEventHead L) L (w\<lparr>ntime := Suc (ntime w)\<rparr>) k)
    (\<lambda>x. ntime (snd x) \<le> Suc (ntime w) + clock_budget q (length (timeEventHead L)))"
proof -
  let ?w = "w\<lparr>ntime := Suc (ntime w)\<rparr>" and ?n = "length (timeEventHead L)"
  obtain lim where lim: "0 \<le> snd lim" "snd lim < 1000"
    "\<forall>n. ntime w \<le> n \<and> n < Suc (ntime w) + clock_budget q ?n \<longrightarrow> 0 \<le> snd (clk w n) \<and> snd (clk w n) < 1000000 \<and>
      msec (reading (clk w) n) \<le> msec lim \<and> msec lim < msec (reading (clk w) n) + d"
    using steady_limit [OF assms(8,5)] by blast
  have "due_set m lim L \<subseteq> set (timeEventHead L)" by (auto simp: due_set_def)
  then have c: "card (due_set m lim L) \<le> ?n" by (meson List.finite_set card_length card_mono order_trans)
  have "reads_left q (card (due_set m lim L)) ?n ?n \<le> clock_budget q ?n"
    unfolding clock_budget_def reads_left_def using c by (intro add_le_mono mult_le_mono) auto
  then show ?thesis
    using time_loop_completes [OF assms(1-6) lim, where pre = "[]" and tes = "timeEventHead L" and fuel = fuel and k = k] c assms(1,7) by simp
qed

end
