(* ===== verification/Ae_Spec.thy ===== *)
theory Ae_Spec
  imports Ae_Time
begin

text \<open>
  The properties of the event loop. \<open>ae_reach\<close> is the set of the states that a program can
  bring a loop to: by creating it, by calls of the API, and by processing events with
  callbacks that use the API.
\<close>

subsection \<open>Reachable states\<close>

inductive ae_reach :: "world \<Rightarrow> aeEventLoop \<Rightarrow> world \<Rightarrow> bool" for w0 where
  created: "aeCreateEventLoop n w0 = Inr (Some L, w) \<Longrightarrow> 0 \<le> n \<Longrightarrow> n < 2147483648 \<Longrightarrow> ae_reach w0 L w"
| called: "ae_reach w0 L w \<Longrightarrow> call_ok c \<Longrightarrow> run_call c L w = Inr (L1, w1) \<Longrightarrow> ae_reach w0 L1 w1"
| processed: "ae_reach w0 L w \<Longrightarrow> app_ok {SignedOverflow} A \<Longrightarrow>
    aeProcessEvents A fuel L flags w = Inr ((r, L1), w1) \<Longrightarrow> ae_reach w0 L1 w1"

definition watched :: "aeEventLoop \<Rightarrow> int set" where
  "watched L = dom (interest (events L))"

lemma maxfd_is_max:
  assumes "maxfd_ok (events L) (maxfd L)"
  shows "maxfd L = (if watched L = {} then - 1 else Max (watched L))"
proof -
  have w: "fd \<in> watched L \<longleftrightarrow> 0 \<le> fd \<and> fd < int (length (events L)) \<and> fe_mask (events L ! nat fd) \<noteq> AE_NONE" for fd
    by (auto simp: watched_def interest_def domIff)
  have fin: "finite (watched L)"
    by (rule finite_subset [of _ "{0..<int (length (events L))}"]) (auto simp: w)
  have up: "fd \<le> maxfd L" if "fd \<in> watched L" for fd
    using assms that by (auto simp: w maxfd_ok_def intro: ccontr)
  show ?thesis
  proof (cases "maxfd L = - 1")
    case True
    then have "watched L = {}" using up w by fastforce
    then show ?thesis using True by simp
  next
    case False
    then have "maxfd L \<in> watched L" using assms by (auto simp: w maxfd_ok_def)
    then show ?thesis using fin up by (auto intro!: Max_eqI [symmetric])
  qed
qed

lemma ae_reach_ok:
  assumes "ae_reach w0 L w" "zheap_ok (heap w0)"
  shows "ae_ok (ooms (heap w0)) (hdrs (heap w0)) L w"
  using assms(1)
proof induction
  case (created n L w)
  then show ?case using aeCreateEventLoop_effect [OF assms(2) created(2,3) refl] by simp
next
  case (called L w c L1 w1)
  have "call_in {SignedOverflow} c" using called(2) by (simp add: call_in_def)
  from run_call_effect [OF called(4) this] show ?case using called(3) by simp
next
  case (processed L w A fuel flags r L1 w1)
  from aeProcessEvents_safe [OF processed(4,2), of fuel flags] show ?case using processed(3) by simp
qed

text \<open>
  C5. In every state a program can reach, the kernel watches exactly the descriptors and
  events recorded in the array, \<open>maxfd\<close> is the largest of them (-1 if there is none), the
  identifiers of time events are distinct and below the next one, and the live blocks are
  those of the loop, its arrays and its time events, besides the ones live before.
\<close>

theorem reachable_loop_consistent:
  assumes "zheap_ok (heap w0)" "ae_reach w0 L w"
  shows "eps w (epfd (apidata L)) = Some (interest (events L)) \<and>
    maxfd L = (if watched L = {} then - 1 else Max (watched L)) \<and>
    length (events L) = nat (setsize L) \<and> length (fired L) = nat (setsize L) \<and>
    distinct (map te_id (timeEventHead L)) \<and> (\<forall>te\<in>set (timeEventHead L). te_id te < timeEventNextId L) \<and>
    hdrs (heap w) = hdrs (heap w0) ++ map_of (core_blocks L @ map te_block (timeEventHead L))"
proof -
  have ok: "ae_ok (ooms (heap w0)) (hdrs (heap w0)) L w" by (rule ae_reach_ok [OF assms(2,1)])
  then have "maxfd_ok (events L) (maxfd L)" by (simp add: ae_ok_def files_ok_def)
  from maxfd_is_max [OF this] ok show ?thesis
    by (simp add: ae_ok_def files_ok_def timers_ok_def blocks_ok_def region_def)
qed

subsection \<open>A sample loop\<close>

definition sample_world :: world where
  "sample_world =
     \<lparr>heap = zheap_init (\<lambda>_. False) (\<lambda>_ _. NUL), eps = Map.empty, ep_new = (\<lambda>n. int n + 3),
      ep_deny = (\<lambda>_. False), ep_ready = (\<lambda>_. Some [(5, 1)]), nsys = 0, clk = (\<lambda>_. (100, 500000)), ntime = 0,
      junk_fe = (\<lambda>_ _. \<lparr>fe_mask = 7, rfileProc = 0, wfileProc = 0, fe_data = 0\<rparr>),
      junk_fired = (\<lambda>_ _. \<lparr>fired_fd = - 7, fired_mask = 7\<rparr>), trace = []\<rparr>"

definition run_sample :: "ae_call list \<Rightarrow> (aeEventLoop \<times> world) res" where
  \<comment> \<open>a loop of eight slots and some calls\<close>
  "run_sample cs =
     rbind (aeCreateEventLoop 8 sample_world) (\<lambda>(r, w).
     case r of None \<Rightarrow> Inl BadAccess | Some L \<Rightarrow> run_calls cs L w)"

definition sample :: "ae_call list \<Rightarrow> aeEventLoop \<times> world" where
  "sample cs = (case run_sample cs of Inr x \<Rightarrow> x | Inl e \<Rightarrow> undefined)"

lemma run_calls_reach:
  "run_calls cs L w = Inr (L1, w1) \<Longrightarrow> \<forall>c\<in>set cs. call_ok c \<Longrightarrow> ae_reach w0 L w \<Longrightarrow> ae_reach w0 L1 w1"
  by (induction cs arbitrary: L w) (auto simp: rbind_eq_Inr intro: ae_reach.called)

lemma sample_reach:
  assumes "case run_sample cs of Inr x \<Rightarrow> True | Inl e \<Rightarrow> False" "\<forall>c\<in>set cs. call_ok c"
  shows "ae_reach sample_world (fst (sample cs)) (snd (sample cs))"
proof -
  obtain x where x: "run_sample cs = Inr x" using assms(1) by (cases "run_sample cs") simp_all
  then obtain r w where r: "aeCreateEventLoop 8 sample_world = Inr (r, w)"
    "(case r of None \<Rightarrow> Inl BadAccess | Some L \<Rightarrow> run_calls cs L w) = Inr x"
    unfolding run_sample_def rbind_eq_Inr by (metis (no_types, lifting) prod.case surj_pair)
  then obtain L where L: "r = Some L" "run_calls cs L w = Inr (fst x, snd x)" by (cases r) simp_all
  have "ae_reach sample_world L w" using r(1) unfolding L(1) by (rule ae_reach.created) simp_all
  from run_calls_reach [OF L(2) assms(2) this] show ?thesis by (simp add: sample_def x)
qed

lemma sample_world_heap_ok: "zheap_ok (heap sample_world)"
  by (simp add: sample_world_def zheap_ok_init)

abbreviation quiet :: "stop set" where
  "quiet \<equiv> ooms (heap sample_world)"

lemma sample_ok:
  assumes "case run_sample cs of Inr x \<Rightarrow> True | Inl e \<Rightarrow> False" "\<forall>c\<in>set cs. call_ok c"
  shows "ae_ok quiet (hdrs (heap sample_world)) (fst (sample cs)) (snd (sample cs))"
  by (rule ae_reach_ok [OF sample_reach [OF assms] sample_world_heap_ok])

definition calls1 :: "ae_call list" where
  "calls1 = [CallCreateFile 5 3 1 1, CallCreateTime 20 7 1 0]"

definition loop1 :: aeEventLoop where
  "loop1 = fst (sample calls1)"

definition world1 :: world where
  "world1 = snd (sample calls1)"

lemma calls1_run: "case run_sample calls1 of Inr x \<Rightarrow> True | Inl e \<Rightarrow> False" "\<forall>c\<in>set calls1. call_ok c"
  by code_simp (simp add: calls1_def)

lemma loop1_ok: "ae_ok quiet (hdrs (heap sample_world)) loop1 world1"
  unfolding loop1_def world1_def by (rule sample_ok [OF calls1_run])

lemma loop1_fields:
  "setsize loop1 = 8" "maxfd loop1 = 5" "ep_deny world1 n = False" "timeEventNextId loop1 = 1" "lp_stop loop1 = 0"
  "fe_mask (events loop1 ! 5) = 3" "fe_mask (events loop1 ! 6) = 0"
  by code_simp+

theorem reachable_loop_consistent_witness:
  "zheap_ok (heap sample_world) \<and> ae_reach sample_world loop1 world1 \<and> Max (watched loop1) = 5"
proof -
  have r: "ae_reach sample_world loop1 world1"
    unfolding loop1_def world1_def by (rule sample_reach [OF calls1_run])
  then show ?thesis
    using reachable_loop_consistent [OF sample_world_heap_ok r] sample_world_heap_ok loop1_fields(2) by (simp split: if_splits)
qed

subsection \<open>File events\<close>

text \<open>
  \<open>aeCreateFileEvent\<close> succeeds exactly when the descriptor has a slot and the kernel takes
  it; the kernel then watches the union of the old and the new events, the callbacks asked
  for are set and the other one is kept. When it fails nothing changes.
\<close>

theorem aeCreateFileEvent_registers:
  assumes "ae_ok E h L w" "0 \<le> fd" "msk \<in> {1, 2, 3}" "proc \<noteq> 0"
  shows "\<exists>r L1 w1. aeCreateFileEvent L fd msk proc d w = Inr ((r, L1), w1) \<and> ae_ok E h L1 w1 \<and>
    (r = AE_OK \<longleftrightarrow> fd < setsize L \<and> \<not> (interest (events L) fd = None \<and> ep_deny w (nsys w))) \<and>
    (if r = AE_OK
     then eps w1 (epfd (apidata L)) =
            Some ((interest (events L))(fd \<mapsto> ee_events (fe_mask (events L ! nat fd) OR msk))) \<and>
          maxfd L1 = max (maxfd L) fd \<and> fe_data (events L1 ! nat fd) = d \<and>
          rfileProc (events L1 ! nat fd) = (if msk \<in> {1, 3} then proc else rfileProc (events L ! nat fd)) \<and>
          wfileProc (events L1 ! nat fd) = (if msk \<in> {2, 3} then proc else wfileProc (events L ! nat fd))
     else r = AE_ERR \<and> L1 = L \<and> eps w1 (epfd (apidata L)) = eps w (epfd (apidata L)))"
proof -
  let ?fe = "events L ! nat fd"
  let ?fe1 = "fe_with ?fe msk proc d"
  obtain r L1 w1 where e: "aeCreateFileEvent L fd msk proc d w = Inr ((r, L1), w1)" "ae_ok E h L1 w1"
    "r = AE_OK \<longleftrightarrow> fd < setsize L \<and> \<not> (fe_mask ?fe = AE_NONE \<and> ep_deny w (nsys w))"
    "if r = AE_OK then fd < setsize L \<and> L1 = put_fe L fd ?fe1 (max (maxfd L) fd) else r = AE_ERR \<and> L1 = L"
    using aeCreateFileEvent_effect [OF assms] by blast
  have len: "fd < setsize L \<longleftrightarrow> fd < int (length (events L))"
    and k: "eps w (epfd (apidata L)) = Some (interest (events L))" "eps w1 (epfd (apidata L1)) = Some (interest (events L1))"
    using assms(1) e(2) by (auto simp: ae_ok_def files_ok_def)
  have int: "interest (events L) fd = None \<longleftrightarrow> fe_mask ?fe = AE_NONE" if "fd < setsize L"
    using that assms(2) len by (simp add: interest_def)
  show ?thesis
  proof (cases "r = AE_OK")
    case True
    then have L1: "fd < setsize L" "L1 = put_fe L fd ?fe1 (max (maxfd L) fd)" using e(4) by auto
    have fok: "fe_ok ?fe" using ae_ok_slot(2) [OF assms(1,2) L1(1)] .
    then have "fe_mask ?fe1 \<noteq> AE_NONE" using assms(3) by (auto simp: fe_ok_def)
    moreover have "fd < int (length (events L))" using L1(1) len by simp
    moreover have "(msk AND AE_READABLE \<noteq> 0) = (msk \<in> {1, 3})" "(msk AND AE_WRITABLE \<noteq> 0) = (msk \<in> {2, 3})"
      using assms(3) by auto
    moreover have "eps w1 (epfd (apidata L)) = Some (interest ((events L)[nat fd := ?fe1]))"
      using k(2) by (simp add: L1(2) put_fe_def)
    ultimately show ?thesis
      using True e(1-3) int [OF L1(1)] L1 assms(2) interest_update [of fd "events L" ?fe1]
      by (intro exI [of _ r] exI [of _ L1] exI [of _ w1]) (simp add: put_fe_def)
  next
    case False
    then have "r = AE_ERR" "L1 = L" using e(4) by auto
    then show ?thesis using False e(1-3) k int by (intro exI [of _ r] exI [of _ L1] exI [of _ w1]) auto
  qed
qed

theorem aeCreateFileEvent_registers_witness:
  "\<exists>r L1 w1. aeCreateFileEvent loop1 6 1 9 4 world1 = Inr ((r, L1), w1) \<and>
     r = AE_OK \<and> rfileProc (events L1 ! 6) = 9 \<and> maxfd L1 = 6"
proof -
  have p: "(0::int) \<le> 6" "(1::int) \<in> {1, 2, 3}" "(9::nat) \<noteq> 0" by simp_all
  show ?thesis
    using aeCreateFileEvent_registers [OF loop1_ok p, of 4] loop1_fields(1,2,3)
  proof (elim exE conjE, goal_cases)
    case (1 r L1 w1)
    then show ?case by (intro exI [of _ r] exI [of _ L1] exI [of _ w1]) simp
  qed
qed

text \<open>
  Registering a descriptor that was not watched and removing it again restores the
  kernel's interest set and \<open>maxfd\<close>.
\<close>

theorem register_unregister_restores:
  assumes "ae_ok E h L w" "0 \<le> fd" "msk \<in> {1, 2, 3}" "proc \<noteq> 0" "interest (events L) fd = None"
    and "aeCreateFileEvent L fd msk proc d w = Inr ((AE_OK, L1), w1)"
  shows "\<exists>L2 w2. aeDeleteFileEvent L1 fd msk w1 = Inr (L2, w2) \<and> ae_ok E h L2 w2 \<and>
    eps w2 (epfd (apidata L)) = eps w (epfd (apidata L)) \<and> maxfd L2 = maxfd L"
proof -
  let ?fe1 = "fe_with (events L ! nat fd) msk proc d"
  have L1: "ae_ok E h L1 w1" "fd < setsize L" "L1 = put_fe L fd ?fe1 (max (maxfd L) fd)"
    using aeCreateFileEvent_effect [OF assms(1-4), of d] assms(6) by (auto split: if_splits)
  have len: "fd < int (length (events L))" using L1(2) assms(1) by (simp add: ae_ok_def files_ok_def)
  have m0: "fe_mask (events L ! nat fd) = AE_NONE" using assms(2,5) len by (auto simp: interest_def split: if_splits)
  have ev1: "events L1 = (events L)[nat fd := ?fe1]" "events L1 ! nat fd = ?fe1"
    using L1(3) len assms(2) by (simp_all add: put_fe_def)
  have fm: "fe_mask ?fe1 = msk" using m0 by simp
  have nz: "msk \<noteq> AE_NONE" "msk AND NOT msk = 0" using assms(3) by auto
  obtain L2 w2 m where L2: "aeDeleteFileEvent L1 fd msk w1 = Inr (L2, w2)" "ae_ok E h L2 w2"
    "L2 = put_fe L1 fd (fe_less ?fe1 msk) m"
  proof -
    have "setsize L1 = setsize L" using L1(3) by (simp add: put_fe_def)
    then have c: "fd < setsize L1 \<and> fe_mask ?fe1 \<noteq> AE_NONE" using L1(2) fm nz(1) by simp
    show ?thesis using aeDeleteFileEvent_effect [OF L1(1) assms(2,3), unfolded ev1(2) if_P [OF c]] that by blast
  qed
  have ev2: "events L2 = (events L)[nat fd := fe_less ?fe1 msk]" using L2(3) ev1 by (simp add: put_fe_def)
  have "fe_mask (fe_less ?fe1 msk) = AE_NONE" by (simp add: fe_less_def m0 nz)
  then have same: "interest (events L2) = interest (events L)"
    using interest_update [OF assms(2) len, of "fe_less ?fe1 msk"] assms(5) by (simp add: ev2 fun_upd_idem)
  have "maxfd L2 = maxfd L"
    using maxfd_is_max [of L] maxfd_is_max [of L2] assms(1) L2(2) same
    by (simp add: ae_ok_def files_ok_def watched_def)
  moreover have "apidata L2 = apidata L" using L2(3) L1(3) by (simp add: put_fe_def)
  ultimately show ?thesis using L2 assms(1) same by (auto simp: ae_ok_def files_ok_def)
qed

theorem register_unregister_restores_witness:
  "\<exists>L1 w1 L2 w2. aeCreateFileEvent loop1 6 1 9 4 world1 = Inr ((AE_OK, L1), w1) \<and>
     aeDeleteFileEvent L1 6 1 w1 = Inr (L2, w2) \<and> maxfd L2 = 5"
proof -
  have p: "(0::int) \<le> 6" "(1::int) \<in> {1, 2, 3}" "(9::nat) \<noteq> 0" by simp_all
  have n: "interest (events loop1) 6 = None" by code_simp
  obtain L1 w1 where c: "aeCreateFileEvent loop1 6 1 9 4 world1 = Inr ((AE_OK, L1), w1)"
    using aeCreateFileEvent_effect [OF loop1_ok p, of 4] loop1_fields by auto
  then show ?thesis using register_unregister_restores [OF loop1_ok p n c] loop1_fields(2) by auto
qed

subsection \<open>The life of a loop\<close>

text \<open>
  \<open>aeResizeSetSize\<close> fails without any effect exactly when a watched descriptor would
  lose its slot; otherwise the loop has the new size, with arrays of that size, and keeps
  every registration: masks, callbacks and the kernel's interest set. It stops only when the
  allocator refuses memory.
\<close>

theorem aeResizeSetSize_keeps_registrations:
  assumes "ae_ok E h L w" "n < 2147483648"
  shows "runs E (aeResizeSetSize L n w) (\<lambda>((r, L1), w1). ae_ok E h L1 w1 \<and> eps w1 = eps w \<and>
    interest (events L1) = interest (events L) \<and> timeEventHead L1 = timeEventHead L \<and>
    (if n \<noteq> setsize L \<and> n \<le> maxfd L then r = AE_ERR \<and> L1 = L \<and> w1 = w
     else r = AE_OK \<and> setsize L1 = n \<and> length (events L1) = nat n \<and> length (fired L1) = nat n \<and>
       maxfd L1 = maxfd L \<and> (\<forall>i. int i \<le> maxfd L \<longrightarrow> events L1 ! i = events L ! i)))"
proof (rule runs_mono [OF aeResizeSetSize_effect [OF assms] order.refl], clarify, goal_cases)
  case (1 r L1 w1)
  have f: "maxfd_ok (events L) (maxfd L)" "\<forall>fe\<in>set (events L). fe_ok fe" "length (events L1) = nat (setsize L1)"
    "length (fired L1) = nat (setsize L1)"
    using assms(1) 1(1) by (auto simp: ae_ok_def files_ok_def)
  show ?case
  proof (cases "n = setsize L \<or> n \<le> maxfd L")
    case True
    then show ?thesis using 1 f by (auto split: if_splits)
  next
    case False
    then obtain a ev fi ys fis z where L1: "r = AE_OK" "w1 = w\<lparr>heap := z\<rparr>"
      "L1 = resized L n a ev fi (take (nat (maxfd L + 1)) (events L) @ map clr ys) fis"
      using 1(2) by auto
    have "- 1 \<le> maxfd L" "maxfd L < int (length (events L))" using f(1) by (auto simp: maxfd_ok_def)
    then show ?thesis
      using False L1 1(1) f cut_events(2) [OF f(1) refl f(2), of ys]
      by (auto simp: resized_def nth_append)
  qed
qed

theorem aeResizeSetSize_keeps_registrations_witness:
  "\<exists>L1 w1. aeResizeSetSize loop1 6 world1 = Inr ((AE_OK, L1), w1) \<and> setsize L1 = 6 \<and> maxfd L1 = 5"
proof -
  have "quiet = {}" by (simp add: ooms_def sample_world_def zheap_init_def)
  then show ?thesis
    using aeResizeSetSize_keeps_registrations [OF loop1_ok, of 6] loop1_fields(1,2)
    by (cases "aeResizeSetSize loop1 6 world1") auto
qed

text \<open>
  \<open>aeCreateEventLoop\<close> yields an empty loop of the size asked for with a new epoll instance,
  or, when the kernel grants none, \<open>NULL\<close> with every block freed again.
\<close>

theorem aeCreateEventLoop_outcomes:
  assumes "zheap_ok (heap w)" "0 \<le> n" "n < 2147483648"
  shows "runs (ooms (heap w)) (aeCreateEventLoop n w) (\<lambda>(r, w1).
    case r of
      None \<Rightarrow> hdrs (heap w1) = hdrs (heap w) \<and> used_memory (heap w1) = used_memory (heap w) \<and> eps w1 = eps w
    | Some L \<Rightarrow> ae_ok (ooms (heap w)) (hdrs (heap w)) L w1 \<and> setsize L = n \<and> maxfd L = - 1 \<and>
        timeEventHead L = [] \<and> lp_stop L = 0 \<and> eps w (epfd (apidata L)) = None \<and>
        eps w1 = (eps w)(epfd (apidata L) \<mapsto> Map.empty))"
  by (rule runs_mono [OF aeCreateEventLoop_effect [OF assms refl] order.refl])
    (auto simp: api_fresh_def dest: zheap_ok_used [OF assms(1)] split: option.splits)

theorem aeCreateEventLoop_outcomes_witness:
  "runs quiet (aeCreateEventLoop 8 sample_world) (\<lambda>(r, w1).
     case r of None \<Rightarrow> eps w1 = eps sample_world | Some L \<Rightarrow> setsize L = 8 \<and> maxfd L = - 1)"
  by (rule runs_mono [OF aeCreateEventLoop_outcomes [OF sample_world_heap_ok, of 8] order.refl])
    (auto split: option.splits)

text \<open>
  \<open>aeDeleteEventLoop\<close> closes the epoll instance and frees the loop and its arrays, but not
  the time events that are pending: exactly their blocks are left over, so that the heap is
  the one before the creation if and only if there are none.
\<close>

theorem aeDeleteEventLoop_leaks_timers:
  assumes "ae_ok E h L w"
  shows "\<exists>w1. aeDeleteEventLoop L w = Inr w1 \<and> eps w1 = (eps w)(epfd (apidata L) := None) \<and>
    hdrs (heap w1) = h ++ map_of (map te_block (timeEventHead L)) \<and>
    (hdrs (heap w1) = h \<longleftrightarrow> timeEventHead L = [])"
proof -
  obtain z where z: "aeDeleteEventLoop L w = Inr (w\<lparr>eps := (eps w)(epfd (apidata L) := None), heap := z\<rparr>)"
    "region h (map te_block (timeEventHead L)) z" using aeDeleteEventLoop_effect [OF assms] by blast
  have "hdrs z \<noteq> h" if "te \<in> set (timeEventHead L)" for te
  proof -
    have "te_block te \<in> set (map te_block (timeEventHead L))" using that by simp
    then have "fst (te_block te) \<notin> dom h" using z(2) unfolding region_def by blast
    then have "te_ptr te \<notin> dom h" by (simp add: te_block_def)
    moreover have "hdrs z (te_ptr te) = Some (to_size SIZEOF_aeTimeEvent)"
      using that by (intro region_lookup [OF z(2)]) (auto simp: te_block_def)
    ultimately show ?thesis by auto
  qed
  then have "hdrs z = h \<longleftrightarrow> timeEventHead L = []" using z(2) by (cases "timeEventHead L") (auto simp: region_def)
  then show ?thesis using z by (auto simp: region_def)
qed

theorem aeDeleteEventLoop_leaks_timers_witness:
  "\<exists>w1. aeDeleteEventLoop loop1 world1 = Inr w1 \<and> hdrs (heap w1) \<noteq> hdrs (heap sample_world)"
proof -
  have "timeEventHead loop1 \<noteq> []" by code_simp
  then show ?thesis using aeDeleteEventLoop_leaks_timers [OF loop1_ok] by auto
qed

end
