(* ===== verification/Ae_Loop_Spec.thy ===== *)
theory Ae_Loop_Spec
  imports Ae_Spec
begin

text \<open>
  The properties of the event loop at work: which timer is the nearest, how long the loop
  sleeps, that all due timers fire, in which order file callbacks run, and that the main loop
  is memory safe for applications that keep the rules \<open>app_ok\<close>, with what happens when a
  time callback breaks them.
\<close>

subsection \<open>Timers\<close>

text \<open>
  \<open>aeSearchNearestTimer\<close> is the first time event of the list, in list order, whose
  deadline is minimal; \<open>NULL\<close> exactly for the empty list.
\<close>

theorem aeSearchNearestTimer_is_first_minimum:
  "aeSearchNearestTimer L =
     find (\<lambda>te. \<forall>other\<in>set (timeEventHead L). te_key te \<le> te_key other) (timeEventHead L) \<and>
   (aeSearchNearestTimer L = None \<longleftrightarrow> timeEventHead L = [])"
proof (cases "timeEventHead L")
  case Nil
  then show ?thesis by (simp add: aeSearchNearestTimer_def)
next
  case (Cons te tes)
  have eq: "aeSearchNearestTimer L = nearest_of tes (Some te)" by (simp add: aeSearchNearestTimer_def Cons)
  obtain x where x: "x \<in> set (te # tes)" "\<forall>y\<in>set (te # tes). te_key x \<le> te_key y"
    using arg_min_if_finite [of "set (te # tes)" te_key] by (metis List.finite_set empty_iff insert_iff linorder_not_le list.simps(15))
  then have "find (\<lambda>x. \<forall>y\<in>set (te # tes). te_key x \<le> te_key y) (te # tes) \<noteq> None"
    unfolding find_None_iff by blast
  then show ?thesis unfolding eq nearest_of_Some Cons by blast
qed

text \<open>
  The bounded quantifier of the statement ranges over the timers of a loop with two of them.
\<close>

theorem aeSearchNearestTimer_is_first_minimum_witness:
  "map_option te_id (aeSearchNearestTimer (fst (sample [CallCreateTime 50 7 1 0, CallCreateTime 20 7 1 0]))) = Some 1 \<and>
   find (\<lambda>te. \<forall>other\<in>set (timeEventHead (fst (sample [CallCreateTime 50 7 1 0, CallCreateTime 20 7 1 0]))).
      te_key te \<le> te_key other) (timeEventHead (fst (sample [CallCreateTime 50 7 1 0, CallCreateTime 20 7 1 0]))) \<noteq> None"
proof -
  have "map_option te_id (aeSearchNearestTimer (fst (sample [CallCreateTime 50 7 1 0, CallCreateTime 20 7 1 0]))) = Some 1"
    by code_simp
  moreover have "aeSearchNearestTimer (fst (sample [CallCreateTime 50 7 1 0, CallCreateTime 20 7 1 0])) \<noteq> None"
    by code_simp
  ultimately show ?thesis
    using aeSearchNearestTimer_is_first_minimum [of "fst (sample [CallCreateTime 50 7 1 0, CallCreateTime 20 7 1 0])"]
    by metis
qed

text \<open>
  C32. How long \<open>aeProcessEvents\<close> lets the kernel sleep when a time event \<open>te\<close> is the nearest:
  exactly until its deadline if that is not past; but for a deadline that is past it is the
  difference of the milliseconds modulo one second, up to 999 ms, where 0 is meant.
\<close>

theorem sleep_until_nearest_timer:
  assumes "aeSearchNearestTimer L = Some te" "0 \<le> when_ms te" "when_ms te < 1000"
    and "clk w (ntime w) = (s, us)" "0 \<le> us" "us < 1000000"
    and "msec (te_key te) - (s * 1000 + us div 1000) < 2147483648"
  shows "poll_timeout (fst (choose_timeout L AE_ALL_EVENTS w)) =
    (if s * 1000 + us div 1000 \<le> msec (te_key te) then msec (te_key te) - (s * 1000 + us div 1000)
     else (when_ms te - us div 1000) mod 1000)"
proof -
  let ?now = "(s, us div 1000)"
  have "fst (choose_timeout L AE_ALL_EVENTS w) = Some (timer_timeout te ?now)"
    using assms by (simp add: choose_timeout_def aeGetTime_eq sdiv_nonneg)
  moreover have "0 \<le> snd ?now" "snd ?now < 1000" using assms by auto
  ultimately show ?thesis
    using poll_timeout_eq [OF assms(2,3), of ?now] assms(7) by (simp add: msec_def s32_id)
qed

definition late_world :: world where
  \<comment> \<open>\<open>world1\<close> at 101.400 s, 880 ms after the deadline of its timer\<close>
  "late_world = world1\<lparr>clk := (\<lambda>_. (101, 400000))\<rparr>"

definition timer1 :: aeTimeEvent where
  "timer1 = timeEventHead loop1 ! 0"

lemma loop1_timers: "timeEventHead loop1 = [timer1]"
proof -
  have "length (timeEventHead loop1) = 1" by code_simp
  then show ?thesis by (cases "timeEventHead loop1") (auto simp: timer1_def)
qed

theorem sleep_until_nearest_timer_witness:
  "poll_timeout (fst (choose_timeout loop1 AE_ALL_EVENTS world1)) = 20 \<and>
   poll_timeout (fst (choose_timeout loop1 AE_ALL_EVENTS late_world)) = 120"
proof -
  have t: "aeSearchNearestTimer loop1 = Some timer1"
    by (simp add: aeSearchNearestTimer_def loop1_timers)
  have f: "when_ms timer1 = 520" "when_sec timer1 = 100" by code_simp+
  have c: "clk world1 (ntime world1) = (100, 500000)" "clk late_world (ntime late_world) = (101, 400000)" by code_simp+
  show ?thesis
    using sleep_until_nearest_timer [OF t _ _ c(1)] sleep_until_nearest_timer [OF t _ _ c(2)] f
    by (simp add: msec_def te_key_def)
qed

text \<open>
  C12. \<open>processTimeEvents\<close> leaves no old event behind. For any clock, any application that keeps
  the rules and any fuel: when it returns, every time event that existed at its start and is
  still there has its deadline after a reading of the clock that this call made. And it does
  return, with the deadlines of these events after the time at which the call began, when three
  things hold: every callback ends its event or asks for a delay of at least \<open>d\<close> ms, with \<open>d\<close> at
  least 1; it makes at most \<open>q\<close> calls of the API; and the clock, for the \<open>clock_budget\<close> readings
  the call can make, is not set back and advances by less than \<open>d\<close> ms. Fuel for as many events
  as there are then suffices. It stops early only if the allocator refuses memory or, for
  callbacks that create time events (\<open>S\<close>), if the identifiers are exhausted.
\<close>

theorem processTimeEvents_fires_all_due:
  assumes "ae_ok E h L w" "app_ok S A"
  shows "runs (insert NoFuel (E \<union> S)) (processTimeEvents A fuel L w) (\<lambda>((r, L1), w1). ae_ok E h L1 w1 \<and>
      (\<forall>te\<in>set (timeEventHead L1). te_id te < timeEventNextId L \<longrightarrow>
        (\<exists>n. ntime w \<le> n \<and> n < ntime w1 \<and> reading (clk w) n < te_key te)))
    \<and> (1 \<le> d \<and> progress d A \<and> few_calls q A \<and> length (timeEventHead L) \<le> fuel
         \<and> steady (clk w) (ntime w) (Suc (clock_budget q (length (timeEventHead L)))) d \<longrightarrow>
       runs (E \<union> S) (processTimeEvents A fuel L w) (\<lambda>((r, L1), w1). ae_ok E h L1 w1 \<and>
         (\<forall>te\<in>set (timeEventHead L1). te_id te < timeEventNextId L \<longrightarrow> reading (clk w) (ntime w) < te_key te)))"
proof -
  let ?s = "fst (clk w (ntime w))" and ?now = "reading (clk w) (ntime w)"
  let ?asap = "L\<lparr>timeEventHead := map (\<lambda>te. te\<lparr>when_sec := 0\<rparr>) (timeEventHead L)\<rparr>"
  define L1 where "L1 = (if ?s < lastTime L then ?asap else L)"
  define L2 where "L2 = L1\<lparr>lastTime := ?s\<rparr>"
  let ?w = "w\<lparr>ntime := Suc (ntime w)\<rparr>" and ?m = "timeEventNextId L - 1"
  have ok: "ae_ok E h L2 ?w" using assms(1) ae_ok_asap [OF assms(1)] by (simp add: L2_def L1_def)
  have n: "timeEventNextId L2 = timeEventNextId L" "length (timeEventHead L2) = length (timeEventHead L)"
    by (simp_all add: L2_def L1_def)
  have eq: "processTimeEvents A fuel L w = time_loop A fuel ?m (timeEventHead L2) L2 ?w 0"
    using n(1) by (simp add: processTimeEvents_def time_sec_eq L2_def L1_def Let_def)
  have tst: "runs (insert NoFuel (E \<union> S)) (processTimeEvents A fuel L w)
      (\<lambda>((r, L1), w1). ae_ok E h L1 w1 \<and> clk w1 = clk w \<and> tested ?m (ntime w) w1 (timeEventHead L1))"
    using time_loop_tested [OF ok assms(2), of "[]" "timeEventHead L2" "ntime w" ?m] unfolding eq by (simp add: tested_def)
  then have "runs (insert NoFuel (E \<union> S)) (processTimeEvents A fuel L w) (\<lambda>((r, L1), w1). ae_ok E h L1 w1 \<and>
      (\<forall>te\<in>set (timeEventHead L1). te_id te < timeEventNextId L \<longrightarrow>
        (\<exists>n. ntime w \<le> n \<and> n < ntime w1 \<and> reading (clk w) n < te_key te)))"
    by (auto simp: tested_def not_due elim!: runs_mono)
  moreover have "runs (E \<union> S) (processTimeEvents A fuel L w) (\<lambda>((r, L1), w1). ae_ok E h L1 w1 \<and>
         (\<forall>te\<in>set (timeEventHead L1). te_id te < timeEventNextId L \<longrightarrow> ?now < te_key te))"
    if d: "1 \<le> d" "progress d A" "few_calls q A" "length (timeEventHead L) \<le> fuel"
      and st: "steady (clk w) (ntime w) (Suc (clock_budget q (length (timeEventHead L)))) d"
  proof -
    let ?N = "Suc (ntime w) + clock_budget q (length (timeEventHead L))"
    have ticked: "runs (E \<union> S) (processTimeEvents A fuel L w) (\<lambda>x. ntime (snd x) \<le> ?N)"
      unfolding eq n(2) [symmetric]
      by (rule steady_completes [OF ok assms(2) d(2,3,1)]) (use n d(4) st in simp_all)
    have late: "?now < te_key te" if "ntime w \<le> k" "k < ?N" "\<not> te_due (reading (clk w) k) te" for k te
      using steady_later [OF st, of k te] that unfolding not_due [symmetric] by auto
    show ?thesis
    proof (cases "processTimeEvents A fuel L w")
      case (Inr x)
      then show ?thesis using tst ticked late by (fastforce simp: tested_def split_beta)
    qed (use ticked in simp)
  qed
  ultimately show ?thesis by blast
qed

definition ticker :: app where
  \<comment> \<open>every time event runs again after a second\<close>
  "ticker = \<lparr>on_file = (\<lambda>_ _ _ _ _. []), on_time = (\<lambda>_ _ _ _. ([], 1000)), on_sleep = (\<lambda>_ _. [])\<rparr>"

lemma ticker_ok: "app_ok {} ticker" "progress 1000 ticker" "few_calls 0 ticker"
  by (simp_all add: ticker_def app_ok_def progress_def few_calls_def s32_def)

lemma quiet_empty: "quiet = {}"
  by (simp add: ooms_def sample_world_def zheap_init_def)

lemma ae_ok_clk [simp]: "ae_ok E h L (w\<lparr>clk := c\<rparr>) \<longleftrightarrow> ae_ok E h L w"
  by (simp add: ae_ok_def files_ok_def blocks_ok_def)

definition slow_world :: world where
  \<comment> \<open>every reading of the clock takes 30 ms, from 101.400 s on\<close>
  "slow_world = world1\<lparr>clk := (\<lambda>n. (101, 400000 + 30000 * int (n - ntime world1)))\<rparr>"

theorem processTimeEvents_fires_all_due_witness:
  "\<exists>r L1 w1. processTimeEvents ticker 1 loop1 slow_world = Inr ((r, L1), w1) \<and>
     (\<forall>te\<in>set (timeEventHead L1). te_id te < 1 \<longrightarrow> (101, 400) < te_key te)"
proof -
  have ok: "ae_ok quiet (hdrs (heap sample_world)) loop1 slow_world" using loop1_ok by (simp add: slow_world_def)
  have b: "clock_budget 0 (length (timeEventHead loop1)) = 4" by (simp add: loop1_timers clock_budget_def reads_left_def)
  have r: "reading (clk slow_world) (ntime slow_world) = (101, 400)" by (simp add: reading_def slow_world_def sdiv_nonneg)
  have "steady (clk slow_world) (ntime slow_world) 5 1000"
    by (auto simp: steady_def reading_def slow_world_def sdiv_nonneg msec_def)
  with processTimeEvents_fires_all_due [OF ok ticker_ok(1), of 1 1000 0] show ?thesis
    using ticker_ok(2,3) loop1_timers loop1_fields(4) quiet_empty r b
    by (cases "processTimeEvents ticker 1 loop1 slow_world") auto
qed

lemma unlinked_freed:
  \<comment> \<open>the block of an event that was taken off the list is not live any more\<close>
  assumes "ae_ok E h L w" "te \<in> set (timeEventHead L)" "ae_ok E h L1 w1"
    and L1: "L1 = L\<lparr>timeEventHead := filter (\<lambda>x. te_id x \<noteq> te_id te) (timeEventHead L)\<rparr>"
  shows "hdrs (heap w1) (te_ptr te) = None"
proof -
  let ?t = "map te_block (timeEventHead L)" and ?items = "core_blocks L1 @ map te_block (timeEventHead L1)"
  have r: "region h (core_blocks L @ ?t) (heap w)" "region h ?items (heap w1)"
    using assms(1,3) by (simp_all add: ae_ok_def blocks_ok_def)
  have core: "core_blocks L1 = core_blocks L" by (simp add: L1 core_blocks_def)
  have d: "distinct (map fst (core_blocks L @ ?t))" "fst ` set (core_blocks L @ ?t) \<inter> dom h = {}"
    using r(1) by (simp_all add: region_def)
  have p: "te_ptr te \<in> fst ` set ?t" using assms(2) by (force simp: te_block_def)
  have "h (te_ptr te) = None" using d(2) p by auto
  moreover have "te_ptr te \<notin> fst ` set (core_blocks L)" using d(1) p by auto
  moreover have "te_ptr te \<notin> fst ` set (map te_block (timeEventHead L1))"
  proof
    assume "te_ptr te \<in> fst ` set (map te_block (timeEventHead L1))"
    then obtain x where x: "x \<in> set (timeEventHead L)" "te_id x \<noteq> te_id te" "te_ptr x = te_ptr te"
      by (auto simp: L1 te_block_def)
    have "inj_on (\<lambda>te. fst (te_block te)) (set (timeEventHead L))" using d(1) by (simp add: distinct_map comp_def)
    then have "x = te" using x assms(2) by (auto simp: inj_on_def te_block_def)
    then show False using x(2) by simp
  qed
  ultimately have "map_of ?items (te_ptr te) = None" "h (te_ptr te) = None" by (auto simp: map_of_eq_None_iff core)
  then show ?thesis using r(2) by (simp add: region_def map_add_def)
qed

text \<open>
  C33. A time callback that deletes its own event and still asks to be run again makes
  \<open>processTimeEvents\<close> write to the freed event.
\<close>

theorem self_delete_uses_freed_event:
  assumes "ae_ok E h L w" "te \<in> set (timeEventHead L)"
    and "on_time A (timeProc te) (te_id te) (te_data te) (TimeFired (te_id te) # trace w) = ([CallDeleteTime (te_id te)], delay)"
    and "s32 delay \<noteq> AE_NOMORE"
  shows "fire_te A te L w = Inl BadAccess"
proof -
  let ?w = "log (TimeFired (te_id te)) w"
  have p: "timeProc te \<noteq> 0" using assms(1,2) by (auto simp: ae_ok_def timers_ok_def)
  have ok: "ae_ok E h L ?w" using assms(1) by simp
  obtain r L1 w1 where d: "aeDeleteTimeEvent L (te_id te) ?w = Inr ((r, L1), w1)"
    "L1 = L\<lparr>timeEventHead := filter (\<lambda>x. te_id x \<noteq> te_id te) (timeEventHead L)\<rparr>" "ae_ok E h L1 w1"
    using aeDeleteTimeEvent_effect [OF ok, of "te_id te"] by auto
  have "hdrs (heap w1) (te_ptr te) = None" by (rule unlinked_freed [OF ok assms(2) d(3)]) (simp add: d(2))
  then have "set_when (te_ptr te) t tes (snd (aeAddMillisecondsToNow ms (log e w1))) = Inl BadAccess" for t tes ms e
    by (simp add: set_when_def aeAddMillisecondsToNow_def aeGetTime_eq log_def Let_def)
  moreover have "trace ?w = TimeFired (te_id te) # trace w" by (simp add: log_def)
  ultimately show ?thesis using assms(3,4) d(1) unfolding fire_te_eq [OF p] by (simp add: split_beta)
qed

definition self_deleter :: app where
  "self_deleter = \<lparr>on_file = (\<lambda>_ _ _ _ _. []), on_time = (\<lambda>_ i _ _. ([CallDeleteTime i], 1000)), on_sleep = (\<lambda>_ _. [])\<rparr>"

theorem self_delete_uses_freed_event_witness:
  "fire_te self_deleter timer1 loop1 world1 = Inl BadAccess"
  by (rule self_delete_uses_freed_event [OF loop1_ok, where delay = 1000])
    (simp_all add: loop1_timers self_deleter_def s32_id)

subsection \<open>File events\<close>

definition calls_for :: "aeEventLoop \<Rightarrow> int \<times> int \<Rightarrow> happening list" where
  \<comment> \<open>the callbacks due for one ready descriptor, in order\<close>
  "calls_for L x =
     (let fe = events L ! nat (fst x); m = poll_mask (snd x);
          reads = (fe_mask fe AND m AND AE_READABLE \<noteq> 0) in
      (if reads then [FileFired (fst x) m (rfileProc fe)] else []) @
      (if fe_mask fe AND m AND AE_WRITABLE \<noteq> 0 \<and> (\<not> reads \<or> wfileProc fe \<noteq> rfileProc fe)
       then [FileFired (fst x) m (wfileProc fe)] else []))"

fun registers :: "ae_call \<Rightarrow> bool" where
  "registers (CallCreateFile fd msk proc d) \<longleftrightarrow> True"
| "registers (CallDeleteFile fd msk) \<longleftrightarrow> True"
| "registers (CallResize n) \<longleftrightarrow> True"
| "registers c \<longleftrightarrow> False"

definition leaves_files :: "app \<Rightarrow> bool" where
  \<comment> \<open>file callbacks that do not change which file events are registered\<close>
  "leaves_files A \<longleftrightarrow> (\<forall>proc fd d m tr. \<forall>c\<in>set (on_file A proc fd d m tr). \<not> registers c)"

fun polled :: "happening \<Rightarrow> bool" where
  "polled (Slept t) \<longleftrightarrow> True"
| "polled (FileFired fd m proc) \<longleftrightarrow> True"
| "polled e \<longleftrightarrow> False"

abbreviation seen :: "world \<Rightarrow> happening list" where
  \<comment> \<open>the polls and the file callbacks so far, newest first\<close>
  "seen w \<equiv> filter polled (trace w)"

definition served :: "int \<times> int \<Rightarrow> happening list \<Rightarrow> bool" where
  \<comment> \<open>at most two callbacks, of this descriptor, one for reading and one for writing\<close>
  "served x b \<longleftrightarrow> length b \<le> 2 \<and> (\<forall>e\<in>set b. \<exists>p. p \<noteq> 0 \<and> e = FileFired (fst x) (poll_mask (snd x)) p) \<and>
     (length b = 2 \<longrightarrow> poll_mask (snd x) AND AE_READABLE \<noteq> 0 \<and> poll_mask (snd x) AND AE_WRITABLE \<noteq> 0)"

lemma epoll_ctl_trace [simp]: "trace (snd (epoll_ctl e op fd evs w)) = trace w"
  by (auto simp: epoll_ctl_def Let_def split: option.splits ctl_op.splits)

lemma create_file_trace: "aeCreateFileEvent L fd msk proc d w = Inr ((r, L1), w1) \<Longrightarrow> trace w1 = trace w"
proof (cases "fd \<ge> setsize L")
  case False
  assume "aeCreateFileEvent L fd msk proc d w = Inr ((r, L1), w1)"
  then obtain a where a: "aeApiAddEvent L fd msk w = Inr (a, w1)"
    using False by (cases "aeApiAddEvent L fd msk w"; cases "fe_at L fd"; cases "fst (projr (aeApiAddEvent L fd msk w)) = - 1")
      (auto simp: aeCreateFileEvent_def Let_def)
  then show ?thesis by (auto simp: aeApiAddEvent_def Let_def split_beta rbind_eq_Inr)
qed (auto simp: aeCreateFileEvent_def)

lemma delete_file_trace:
  assumes "aeDeleteFileEvent L fd msk w = Inr (L1, w1)"
  shows "trace w1 = trace w"
proof (cases "fd \<ge> setsize L")
  case False
  then obtain fe where fe: "fe_at L fd = Inr fe" using assms by (cases "fe_at L fd") (simp_all add: aeDeleteFileEvent_def)
  have api: "trace v1 = trace v" if "aeApiDelEvent K fd msk v = Inr v1" for K v v1
    using that by (cases "fe_at K fd") (auto simp: aeApiDelEvent_def Let_def split: if_split_asm)
  show ?thesis
  proof (cases "fe_mask fe = AE_NONE")
    case set: False
    then show ?thesis using assms False fe by (auto simp: aeDeleteFileEvent_def Let_def rbind_eq_Inr dest!: api)
  qed (use assms False fe in \<open>simp add: aeDeleteFileEvent_def\<close>)
qed (use assms in \<open>simp add: aeDeleteFileEvent_def\<close>)

lemma create_time_seen: "aeCreateTimeEvent L ms proc d f w = Inr ((r, L1), w1) \<Longrightarrow> trace w1 = trace w \<and> events L1 = events L"
  by (auto simp: aeCreateTimeEvent_def on_heap_def aeAddMillisecondsToNow_def aeGetTime_eq Let_def split_beta rbind_eq_Inr split: if_splits)

lemma delete_time_seen: "aeDeleteTimeEvent L i w = Inr ((r, L1), w1) \<Longrightarrow> seen w1 = seen w \<and> events L1 = events L"
  by (auto simp: aeDeleteTimeEvent_def wfree_def log_def Let_def rbind_eq_Inr split: option.splits if_splits)

lemma resize_trace: "aeResizeSetSize L n w = Inr ((r, L1), w1) \<Longrightarrow> trace w1 = trace w"
  by (auto simp: aeResizeSetSize_def aeApiResize_def on_heap_def Let_def split_beta rbind_eq_Inr split: if_splits)

lemma run_call_seen: "run_call c L w = Inr (L1, w1) \<Longrightarrow> seen w1 = seen w \<and> (\<not> registers c \<longrightarrow> events L1 = events L)"
  by (cases c) (auto simp: rbind_eq_Inr split_beta log_def aeStop_def
      dest!: create_file_trace delete_file_trace create_time_seen delete_time_seen resize_trace)

lemma run_calls_seen:
  "run_calls cs L w = Inr (L1, w1) \<Longrightarrow> seen w1 = seen w \<and> ((\<forall>c\<in>set cs. \<not> registers c) \<longrightarrow> events L1 = events L)"
proof (induction cs arbitrary: L w)
  case (Cons c cs)
  then obtain L2 w2 where "run_call c L w = Inr (L2, w2)" "run_calls cs L2 w2 = Inr (L1, w1)"
    by (auto simp: rbind_eq_Inr)
  then show ?case using Cons(1) run_call_seen by fastforce
qed simp

lemma call_file_seen:
  assumes "call_file A proc fd d m L w = Inr (L1, w1)"
  shows "proc \<noteq> 0" "seen w1 = FileFired fd m proc # seen w" "leaves_files A \<Longrightarrow> events L1 = events L"
  using assms by (auto simp: call_file_def Let_def log_def leaves_files_def dest!: run_calls_seen split: if_splits)

lemma fire_file_seen:
  assumes f: "fire_file A j L w = Inr (L1, w1)" and j: "fired L ! j = fired_of x"
  shows "\<exists>b. seen w1 = rev b @ seen w \<and> served x b \<and> (leaves_files A \<longrightarrow> b = calls_for L x \<and> events L1 = events L)"
proof -
  let ?m = "poll_mask (snd x)" and ?fd = "fst x" and ?p = "ev_ptr L"
  have at: "fired_at L j = Inr (fired_of x)" using f j by (auto simp: fire_file_def fired_at_def split: if_splits)
  obtain fe where fe: "fe_load L ?p ?fd = Inr fe" using f at by (cases "fe_load L ?p ?fd") (simp_all add: fire_file_def Let_def)
  have load: "fe1 = events K ! nat ?fd" if "fe_load K ?p ?fd = Inr fe1" for K fe1
    using that by (auto simp: fe_load_def fe_at_def split: if_splits)
  let ?r = "fe_mask fe AND ?m AND AE_READABLE \<noteq> 0"
  define first where "first = (if ?r then rbind (call_file A (rfileProc fe) ?fd (fe_data fe) ?m L w) (\<lambda>(L1, w1). Inr ((True, L1), w1))
      else Inr ((False, L), w))"
  define b1 where "b1 = (if ?r then [FileFired ?fd ?m (rfileProc fe)] else [])"
  have f': "rbind first (\<lambda>((rf, L2), w2). rbind (fe_load L2 ?p ?fd) (\<lambda>fe1.
      if fe_mask fe1 AND ?m AND AE_WRITABLE \<noteq> 0 \<and> (\<not> rf \<or> wfileProc fe1 \<noteq> rfileProc fe1)
      then call_file A (wfileProc fe1) ?fd (fe_data fe1) ?m L2 w2 else Inr (L2, w2))) = Inr (L1, w1)"
    using f unfolding fire_file_def at rbind.simps Let_def aeFiredEvent.select_convs fe first_def .
  obtain rf L2 w2 where fi: "first = Inr ((rf, L2), w2)" using f' by (cases first) auto
  then have rf: "rf = ?r" by (cases ?r) (auto simp: first_def rbind_eq_Inr)
  obtain fe1 where s: "first = Inr ((?r, L2), w2)" "fe_load L2 ?p ?fd = Inr fe1"
    "(if fe_mask fe1 AND ?m AND AE_WRITABLE \<noteq> 0 \<and> (\<not> ?r \<or> wfileProc fe1 \<noteq> rfileProc fe1)
      then call_file A (wfileProc fe1) ?fd (fe_data fe1) ?m L2 w2 else Inr (L2, w2)) = Inr (L1, w1)"
    using f' fi rf by (cases "fe_load L2 ?p ?fd") (simp_all add: disj_imp)
  have one: "seen w2 = b1 @ seen w" "b1 \<noteq> [] \<Longrightarrow> rfileProc fe \<noteq> 0" "leaves_files A \<Longrightarrow> events L2 = events L"
    using s(1) by (auto simp: first_def b1_def rbind_eq_Inr split: if_splits dest: call_file_seen)
  let ?w = "fe_mask fe1 AND ?m AND AE_WRITABLE \<noteq> 0 \<and> (\<not> ?r \<or> wfileProc fe1 \<noteq> rfileProc fe1)"
  define b2 where "b2 = (if ?w then [FileFired ?fd ?m (wfileProc fe1)] else [])"
  have two: "seen w1 = b2 @ seen w2" "b2 \<noteq> [] \<Longrightarrow> wfileProc fe1 \<noteq> 0" "leaves_files A \<Longrightarrow> events L1 = events L2"
    using s(3) by (auto simp: b2_def split: if_splits dest: call_file_seen)
  have "?m AND AE_READABLE \<noteq> 0" if ?r using that by auto
  moreover have "?m AND AE_WRITABLE \<noteq> 0" if ?w using that by auto
  ultimately have "served x (b1 @ b2)" using one(2) two(2) by (auto simp: served_def b1_def b2_def split: if_splits)
  moreover have "seen w1 = rev (b1 @ b2) @ seen w" using one(1) two(1) by (simp add: b1_def b2_def)
  moreover have "b1 @ b2 = calls_for L x" if l: "leaves_files A"
    using load [OF fe] load [OF s(2)] one(3) [OF l] by (simp add: b1_def b2_def calls_for_def Let_def)
  ultimately show ?thesis using one(3) two(3) by metis
qed

lemma calls_for_events: "events K = events L \<Longrightarrow> calls_for K = calls_for L"
  by (simp add: calls_for_def fun_eq_iff)

lemma file_loop_seen:
  assumes "ae_ok E h L w" "app_ok S A" "take n (drop j (fired L)) = map fired_of evs" "length evs = n" "fired_ok (j + n) L"
  shows "runs (E \<union> S) (file_loop A j (j + n) L w k) (\<lambda>((r, L1), w1). r = k + int n \<and> ae_ok E h L1 w1 \<and>
    (\<exists>bs. seen w1 = rev (concat bs) @ seen w \<and> list_all2 served evs bs \<and>
      (leaves_files A \<longrightarrow> bs = map (calls_for L) evs \<and> events L1 = events L)))"
  using assms
proof (induction n arbitrary: j evs L w k)
  case 0
  then show ?case by (auto simp: file_loop.simps intro!: exI [of _ "[]"])
next
  case (Suc n)
  obtain x es where evs: "evs = x # es" using Suc(5) by (cases evs) auto
  have j: "j < length (fired L)" "j < j + Suc n" using Suc(6) by (simp_all add: fired_ok_def)
  have dr: "drop j (fired L) = fired L ! j # drop (Suc j) (fired L)" using j(1) by (rule Cons_nth_drop_Suc [symmetric])
  have x: "fired L ! j = fired_of x" "take n (drop (Suc j) (fired L)) = map fired_of es" "length es = n"
    using Suc(4,5) by (simp_all add: evs dr)
  show ?case unfolding file_loop.simps [of A j] if_P [OF j(2)]
  proof (rule runs_bind_eq [OF fire_file_safe [OF Suc(2,3,6) j(2)]], clarify, goal_cases)
    case (1 L1 w1)
    obtain b where b: "seen w1 = rev b @ seen w" "served x b" "leaves_files A \<longrightarrow> b = calls_for L x \<and> events L1 = events L"
      using fire_file_seen [OF 1(1) x(1)] by blast
    have fr: "fired L1 = fired L" "fired_ok (Suc j + n) L1"
      using 1(3) fired_ok_frame [OF Suc(6) 1(3)] by (simp_all add: frame_def)
    have "runs (E \<union> S) (file_loop A (Suc j) (Suc j + n) L1 w1 (k + 1)) (\<lambda>((r, L2), w2). r = k + 1 + int n \<and> ae_ok E h L2 w2 \<and>
        (\<exists>bs. seen w2 = rev (concat bs) @ seen w1 \<and> list_all2 served es bs \<and>
          (leaves_files A \<longrightarrow> bs = map (calls_for L1) es \<and> events L2 = events L1)))"
      using x(2,3) fr by (intro Suc(1) [OF 1(2) Suc(3)]) simp_all
    then show ?case unfolding add_Suc_shift [symmetric]
    proof (rule runs_mono, goal_cases)
      case (2 y)
      obtain r L2 w2 where y: "y = ((r, L2), w2)" by (metis prod.exhaust)
      obtain bs where bs: "seen w2 = rev (concat bs) @ seen w1" "list_all2 served es bs"
        "leaves_files A \<longrightarrow> bs = map (calls_for L1) es \<and> events L2 = events L1" "r = k + 1 + int n" "ae_ok E h L2 w2"
        using 2 by (auto simp: y)
      have all: "seen w2 = rev (concat (b # bs)) @ seen w" "list_all2 served evs (b # bs)" using bs(1,2) b(1,2) by (simp_all add: evs)
      have exact: "leaves_files A \<longrightarrow> b # bs = map (calls_for L) evs \<and> events L2 = events L"
        using bs(3) b(3) calls_for_events [of L1 L] by (simp add: evs)
      have r: "r = k + int (Suc n)" using bs(4) by simp
      show ?case unfolding y prod.case
        by (rule conjI [OF r], rule conjI [OF bs(5)], rule exI [of _ "b # bs"], rule conjI [OF all(1)], rule conjI [OF all(2)], rule exact)
    qed simp
  qed
qed

lemma unregistered_not_fired:
  \<comment> \<open>an event that an earlier callback unregistered is skipped\<close>
  assumes "fired_at L j = Inr fi" "fe_load L (ev_ptr L) (fired_fd fi) = Inr fe" "fe_mask fe AND fired_mask fi = 0"
  shows "fire_file A j L w = Inr (L, w)"
  using assms by (simp add: fire_file_def Let_def flip: and.assoc)

text \<open>
  C19. \<open>aeProcessEvents\<close> for file events, for any application that keeps the rules: it asks the
  kernel once and serves the ready descriptors in the order of the kernel's answer, each with
  at most two callbacks, two only if it is ready for reading and for writing (errors and hang-ups
  count as writable), and returns the number of ready descriptors. If no file callback registers
  or unregisters file events, the callbacks are exactly these: for every ready descriptor the
  read callback and then the write callback, each only if the loop is registered for that event,
  and one callback registered for both only once. (An event that an earlier callback has
  unregistered is skipped: \<open>unregistered_not_fired\<close>.) The call stops early only if the
  allocator refuses memory or the identifiers of time events are exhausted.
\<close>

theorem file_events_dispatched_in_order:
  assumes "ae_ok E h L w" "app_ok S A" "maxfd L \<noteq> - 1"
  defines "evs \<equiv> ready_list (interest (events L)) (nat (setsize L)) (ep_ready w (nsys w))"
  shows "runs (E \<union> S) (aeProcessEvents A fuel L AE_FILE_EVENTS w) (\<lambda>((r, L1), w1). r = int (length evs) \<and> ae_ok E h L1 w1 \<and>
    (\<exists>bs. seen w1 = rev (concat bs) @ Slept (- 1) # seen w \<and> list_all2 served evs bs \<and>
      (leaves_files A \<longrightarrow> bs = map (calls_for L) evs \<and> events L1 = events L)))"
proof -
  let ?fi = "map fired_of evs @ drop (length evs) (fired L)"
  let ?L = "L\<lparr>fired := ?fi\<rparr>" and ?w = "log (Slept (- 1)) (w\<lparr>nsys := Suc (nsys w)\<rparr>)"
  have ct: "choose_timeout L AE_FILE_EVENTS w = (None, w)" by (simp add: choose_timeout_def)
  have pt: "poll_timeout None = - 1" by (simp add: poll_timeout_def)
  note p = aeApiPoll_effect(1) [OF assms(1), of None, folded evs_def, unfolded pt]
    aeApiPoll_effect(2,3) [OF assms(1), folded evs_def]
  have ok: "ae_ok E h ?L ?w" using ae_ok_fired [OF assms(1) p(3)] by simp
  have same: "rbind m (\<lambda>((p, L2), w3). Inr ((p, L2), w3)) = m" for m :: "((int \<times> aeEventLoop) \<times> world) res"
    by (cases m) auto
  have eq: "aeProcessEvents A fuel L AE_FILE_EVENTS w = file_loop A 0 (0 + length evs) ?L ?w 0"
    using assms(3) p(1) ct by (simp add: aeProcessEvents_def same)
  have "seen ?w = Slept (- 1) # seen w" "events ?L = events L" by (simp_all add: log_def)
  then show ?thesis
    using file_loop_seen [OF ok assms(2), of "length evs" 0 evs 0] p(2) calls_for_events [of ?L L] unfolding eq by simp
qed

theorem file_events_dispatched_in_order_witness:
  "\<exists>L1 w1. aeProcessEvents ticker 0 loop1 AE_FILE_EVENTS world1 = Inr ((1, L1), w1) \<and>
     filter polled (trace w1) = FileFired 5 1 1 # Slept (- 1) # filter polled (trace world1)"
proof -
  have e: "ready_list (interest (events loop1)) (nat (setsize loop1)) (ep_ready world1 (nsys world1)) = [(5, 1)]"
    by code_simp
  have c: "calls_for loop1 (5, 1) = [FileFired 5 1 1]" by code_simp
  have l: "leaves_files ticker" by (simp add: leaves_files_def ticker_def)
  have m: "maxfd loop1 \<noteq> - 1" using loop1_fields(2) by simp
  from file_events_dispatched_in_order [OF loop1_ok ticker_ok(1) m, of 0] show ?thesis
    using l quiet_empty unfolding e by (cases "aeProcessEvents ticker 0 loop1 AE_FILE_EVENTS world1") (auto simp: c)
qed

subsection \<open>The main loop\<close>

text \<open>
  C1. For an application that keeps the rules, \<open>aeMain\<close> never reads or writes outside its
  arrays, never uses a freed block or a null callback, in any number of rounds; when it
  returns the loop is stopped and still consistent. The fuel bounds rounds and callbacks,
  which the application may continue for ever.
\<close>

theorem aeMain_memory_safe:
  assumes "ae_ok E h L w" "app_ok S A"
  shows "runs (insert NoFuel (E \<union> S)) (aeMain A fuel rounds L w)
    (\<lambda>(L1, w1). ae_ok E h L1 w1 \<and> lp_stop L1 \<noteq> 0)"
  unfolding aeMain_def by (rule main_loop_safe) (use assms in simp_all)

definition stopper :: app where
  \<comment> \<open>the first time event stops the loop\<close>
  "stopper = \<lparr>on_file = (\<lambda>_ _ _ _ _. []), on_time = (\<lambda>_ _ _ _. ([CallStop], - 1)), on_sleep = (\<lambda>_ _. [])\<rparr>"

lemma stopper_ok: "app_ok {} stopper"
  by (simp add: stopper_def app_ok_def call_in_def s32_id)

theorem aeMain_memory_safe_witness:
  "\<exists>L1 w1. aeMain stopper 5 5 loop1 late_world = Inr (L1, w1) \<and> lp_stop L1 \<noteq> 0"
proof -
  have "ae_ok quiet (hdrs (heap sample_world)) loop1 late_world" using loop1_ok by (simp add: late_world_def)
  from aeMain_memory_safe [OF this stopper_ok, of 5 5]
  have "case aeMain stopper 5 5 loop1 late_world of Inr (L1, w1) \<Rightarrow> lp_stop L1 \<noteq> 0 | Inl e \<Rightarrow> True"
    by (cases "aeMain stopper 5 5 loop1 late_world") auto
  moreover have "case aeMain stopper 5 5 loop1 late_world of Inr x \<Rightarrow> True | Inl e \<Rightarrow> False" by code_simp
  ultimately show ?thesis by (cases "aeMain stopper 5 5 loop1 late_world") auto
qed

end
