(* ===== verification/Anet.thy ===== *)
theory Anet
  imports Sds_Text "HOL-Library.Signed_Division"
begin

text \<open>
  The TCP and Unix socket layer of \<open>anet.c\<close>.

  The record \<open>net\<close> is what the process sees of the kernel and the resolver: its open
  descriptors with their status flags, a log of what was done to them, how many results of
  \<open>getaddrinfo\<close> have not been freed, \<open>errno\<close>, and the caller's error buffer (\<open>None\<close> is
  \<open>NULL\<close>). The answer to each system call is the arbitrary function \<open>kern\<close> of how many
  calls were made, and the resolver is the arbitrary function \<open>gai\<close> of the query, so a
  theorem about all states covers every behaviour of both. The texts of \<open>strerror\<close>,
  \<open>gai_strerror\<close> and \<open>inet_ntop\<close> are parameters too.
\<close>

subsection \<open>The kernel and the resolver\<close>

abbreviation ANET_OK :: int where "ANET_OK \<equiv> 0"
abbreviation ANET_ERR :: int where "ANET_ERR \<equiv> - 1"
definition ANET_ERR_LEN :: nat where "ANET_ERR_LEN = 256"
definition ANET_NONE :: int where "ANET_NONE = 0"
definition ANET_IP_ONLY :: int where "ANET_IP_ONLY = 1"
definition ANET_CONNECT_NONE :: int where "ANET_CONNECT_NONE = 0"
definition ANET_CONNECT_NONBLOCK :: int where "ANET_CONNECT_NONBLOCK = 1"

text \<open>The constants of the C library on Linux.\<close>

definition AF_UNSPEC :: int where "AF_UNSPEC = 0"
definition AF_LOCAL :: int where "AF_LOCAL = 1"
definition AF_INET :: int where "AF_INET = 2"
definition AF_INET6 :: int where "AF_INET6 = 10"
definition SOCK_STREAM :: int where "SOCK_STREAM = 1"
definition AI_PASSIVE :: int where "AI_PASSIVE = 1"
definition AI_NUMERICHOST :: int where "AI_NUMERICHOST = 4"
definition SOL_SOCKET :: int where "SOL_SOCKET = 1"
definition SO_REUSEADDR :: int where "SO_REUSEADDR = 2"
definition SO_SNDBUF :: int where "SO_SNDBUF = 7"
definition SO_KEEPALIVE :: int where "SO_KEEPALIVE = 9"
definition IPPROTO_TCP :: int where "IPPROTO_TCP = 6"
definition TCP_NODELAY :: int where "TCP_NODELAY = 1"
definition TCP_KEEPIDLE :: int where "TCP_KEEPIDLE = 4"
definition TCP_KEEPINTVL :: int where "TCP_KEEPINTVL = 5"
definition TCP_KEEPCNT :: int where "TCP_KEEPCNT = 6"
definition IPPROTO_IPV6 :: int where "IPPROTO_IPV6 = 41"
definition IPV6_V6ONLY :: int where "IPV6_V6ONLY = 26"
definition O_NONBLOCK :: int where "O_NONBLOCK = 2048"
definition EINTR :: int where "EINTR = 4"
definition EINPROGRESS :: int where "EINPROGRESS = 115"

record addrinfo =
  ai_family :: int
  ai_socktype :: int
  ai_protocol :: int
  ai_addr :: nat

record query =
  q_host :: "char list option"
  q_service :: "char list option"
  q_flags :: int
  q_family :: int
  q_socktype :: int

record sockaddr =
  ss_family :: int
  sin_addr :: nat
  sin_port :: int
  sin6_addr :: nat
  sin6_port :: int

datatype addr = AiAddr nat | UnAddr "char list"

datatype sockop =
    Opened int int int
  | SetOpt int int int int
  | Bound int addr
  | Listening int int
  | Connected int addr
  | Connecting int addr
  | Accepted int int
  | Chmod "char list" int
  | Closed int

record answer =
  ret :: int
  err_no :: int
  bytes :: "char list"
  who :: sockaddr

record net =
  fds :: "int set"
  fl :: "int \<Rightarrow> int"
  ops :: "sockop list"
  ailive :: nat
  errno :: int
  errbuf :: "char list option"
  kern :: "nat \<Rightarrow> answer"
  ncalls :: nat
  gai :: "query \<Rightarrow> int + addrinfo list"
  strerror :: "int \<Rightarrow> char list"
  gai_strerror :: "int \<Rightarrow> char list"
  ntop :: "int \<Rightarrow> nat \<Rightarrow> char list"
  stack_path :: "char list"

definition did :: "sockop \<Rightarrow> net \<Rightarrow> net" where
  "did x n = n\<lparr>ops := x # ops n\<rparr>"

definition sys :: "net \<Rightarrow> answer \<times> net" where
  \<comment> \<open>the answer to the next system call; a failing call sets \<open>errno\<close>\<close>
  "sys n = (let a = kern n (ncalls n); n1 = n\<lparr>ncalls := Suc (ncalls n)\<rparr> in
            (a, if ret a = - 1 then n1\<lparr>errno := err_no a\<rparr> else n1))"

definition sys_open :: "(int \<Rightarrow> sockop) \<Rightarrow> net \<Rightarrow> int \<times> net" where
  \<comment> \<open>a call that yields a new descriptor\<close>
  "sys_open what n =
     (let (a, n1) = sys n in
      if 0 \<le> ret a \<and> ret a \<notin> fds n then (ret a, did (what (ret a)) (n1\<lparr>fds := insert (ret a) (fds n)\<rparr>))
      else (- 1, n1\<lparr>errno := err_no a\<rparr>))"

definition sys_socket :: "int \<Rightarrow> int \<Rightarrow> int \<Rightarrow> net \<Rightarrow> int \<times> net" where
  "sys_socket domain type protocol n = sys_open (\<lambda>s. Opened s domain type) n"

definition sys_do :: "sockop \<Rightarrow> net \<Rightarrow> int \<times> net" where
  \<comment> \<open>a call whose result is 0 or -1\<close>
  "sys_do x n = (let (a, n1) = sys n in if ret a = - 1 then (- 1, n1) else (0, did x n1))"

definition sys_close :: "int \<Rightarrow> net \<Rightarrow> net" where
  "sys_close s n = did (Closed s) (n\<lparr>fds := fds n - {s}\<rparr>)"

definition setsockopt :: "int \<Rightarrow> int \<Rightarrow> int \<Rightarrow> int \<Rightarrow> net \<Rightarrow> int \<times> net" where
  "setsockopt fd level opt val n = sys_do (SetOpt fd level opt val) n"

definition getaddrinfo :: "query \<Rightarrow> net \<Rightarrow> (int + addrinfo list) \<times> net" where
  \<comment> \<open>\<open>Inl rv\<close> for a result other than 0\<close>
  "getaddrinfo q n =
     (case gai n q of Inl rv \<Rightarrow> (Inl rv, n) | Inr l \<Rightarrow> (Inr l, n\<lparr>ailive := Suc (ailive n)\<rparr>))"

definition freeaddrinfo :: "net \<Rightarrow> net" where
  "freeaddrinfo n = n\<lparr>ailive := ailive n - 1\<rparr>"

definition strncpy :: "char list \<Rightarrow> char list \<Rightarrow> nat \<Rightarrow> char list" where
  "strncpy dst src k = take k (cstr src @ replicate k NUL) @ drop k dst"

definition snprintf_d :: "nat \<Rightarrow> int \<Rightarrow> char list" where
  \<comment> \<open>the text left by \<open>snprintf(bf, k, "%d", x)\<close>\<close>
  "snprintf_d k x = take (k - 1) (dec_int x)"

definition ntohs :: "int \<Rightarrow> int" where
  "ntohs x = (x mod 256) * 256 + (x div 256) mod 256"

subsection \<open>Errors, flags and options\<close>

definition anetSetError :: "char list \<Rightarrow> net \<Rightarrow> net" where
  \<comment> \<open>the formatted message, cut to the size of the buffer\<close>
  "anetSetError msg n =
     (case errbuf n of None \<Rightarrow> n | Some e \<Rightarrow> n\<lparr>errbuf := Some (take (ANET_ERR_LEN - 1) msg)\<rparr>)"

abbreviation why :: "net \<Rightarrow> char list" where
  "why n \<equiv> strerror n (errno n)"

definition anetNonBlock :: "int \<Rightarrow> net \<Rightarrow> int \<times> net" where
  "anetNonBlock fd n =
     (let (a, n1) = sys n in
      if ret a = - 1 then (ANET_ERR, anetSetError (''fcntl(F_GETFL): '' @ why n1) n1) else
      let flags = fl n1 fd; (b, n2) = sys n1 in
      if ret b = - 1 then (ANET_ERR, anetSetError (''fcntl(F_SETFL,O_NONBLOCK): '' @ why n2) n2) else
      (ANET_OK, n2\<lparr>fl := (fl n2)(fd := flags OR O_NONBLOCK)\<rparr>))"

definition anetKeepAlive :: "int \<Rightarrow> int \<Rightarrow> net \<Rightarrow> int \<times> net" where
  "anetKeepAlive fd interval n =
     (let (r, n1) = setsockopt fd SOL_SOCKET SO_KEEPALIVE 1 n in
      if r = - 1 then (ANET_ERR, anetSetError (''setsockopt SO_KEEPALIVE: '' @ why n1) n1) else
      let (r, n2) = setsockopt fd IPPROTO_TCP TCP_KEEPIDLE interval n1 in
      if r < 0 then (ANET_ERR, anetSetError (''setsockopt TCP_KEEPIDLE: '' @ why n2 @ [CHR 0x0A]) n2) else
      let v0 = interval sdiv 3; v = (if v0 = 0 then 1 else v0);
          (r, n3) = setsockopt fd IPPROTO_TCP TCP_KEEPINTVL v n2 in
      if r < 0 then (ANET_ERR, anetSetError (''setsockopt TCP_KEEPINTVL: '' @ why n3 @ [CHR 0x0A]) n3) else
      let (r, n4) = setsockopt fd IPPROTO_TCP TCP_KEEPCNT 3 n3 in
      if r < 0 then (ANET_ERR, anetSetError (''setsockopt TCP_KEEPCNT: '' @ why n4 @ [CHR 0x0A]) n4) else
      (ANET_OK, n4))"

definition anetSetTcpNoDelay :: "int \<Rightarrow> int \<Rightarrow> net \<Rightarrow> int \<times> net" where
  "anetSetTcpNoDelay fd val n =
     (let (r, n1) = setsockopt fd IPPROTO_TCP TCP_NODELAY val n in
      if r = - 1 then (ANET_ERR, anetSetError (''setsockopt TCP_NODELAY: '' @ why n1) n1) else (ANET_OK, n1))"

definition anetEnableTcpNoDelay :: "int \<Rightarrow> net \<Rightarrow> int \<times> net" where
  "anetEnableTcpNoDelay fd n = anetSetTcpNoDelay fd 1 n"

definition anetDisableTcpNoDelay :: "int \<Rightarrow> net \<Rightarrow> int \<times> net" where
  "anetDisableTcpNoDelay fd n = anetSetTcpNoDelay fd 0 n"

definition anetSetSendBuffer :: "int \<Rightarrow> int \<Rightarrow> net \<Rightarrow> int \<times> net" where
  "anetSetSendBuffer fd buffsize n =
     (let (r, n1) = setsockopt fd SOL_SOCKET SO_SNDBUF buffsize n in
      if r = - 1 then (ANET_ERR, anetSetError (''setsockopt SO_SNDBUF: '' @ why n1) n1) else (ANET_OK, n1))"

definition anetTcpKeepAlive :: "int \<Rightarrow> net \<Rightarrow> int \<times> net" where
  "anetTcpKeepAlive fd n =
     (let (r, n1) = setsockopt fd SOL_SOCKET SO_KEEPALIVE 1 n in
      if r = - 1 then (ANET_ERR, anetSetError (''setsockopt SO_KEEPALIVE: '' @ why n1) n1) else (ANET_OK, n1))"

definition inet_ntop :: "int \<Rightarrow> nat \<Rightarrow> char list \<Rightarrow> nat \<Rightarrow> net \<Rightarrow> char list res" where
  \<comment> \<open>the text of the address and its terminator, if they fit into \<open>k\<close> bytes\<close>
  "inet_ntop af a bf k n =
     (if length (ntop n af a) + 1 \<le> k then write_bytes bf 0 (ntop n af a @ [NUL]) else Inr bf)"

definition anetGenericResolve ::
  "(nat \<Rightarrow> nat) \<Rightarrow> char list \<Rightarrow> char list \<Rightarrow> nat \<Rightarrow> int \<Rightarrow> net \<Rightarrow> ((int \<times> char list) \<times> net) res"
where
  \<comment> \<open>\<open>in_addr\<close> is the address inside a socket address\<close>
  "anetGenericResolve in_addr host ipbuf ipbuf_len flags n =
     (let q = \<lparr>q_host = Some host, q_service = None,
               q_flags = (if flags AND ANET_IP_ONLY \<noteq> 0 then AI_NUMERICHOST else 0),
               q_family = AF_UNSPEC, q_socktype = SOCK_STREAM\<rparr>;
          (r, n1) = getaddrinfo q n in
      case r of
        Inl rv \<Rightarrow> Inr ((ANET_ERR, ipbuf), anetSetError (gai_strerror n1 rv) n1)
      | Inr [] \<Rightarrow> Inl BadAccess
      | Inr (info # rest) \<Rightarrow>
          rbind (if ai_family info = AF_INET then inet_ntop AF_INET (in_addr (ai_addr info)) ipbuf ipbuf_len n1
                 else inet_ntop AF_INET6 (in_addr (ai_addr info)) ipbuf ipbuf_len n1) (\<lambda>bf.
          Inr ((ANET_OK, bf), freeaddrinfo n1)))"

definition anetResolve :: "(nat \<Rightarrow> nat) \<Rightarrow> char list \<Rightarrow> char list \<Rightarrow> nat \<Rightarrow> net \<Rightarrow> ((int \<times> char list) \<times> net) res" where
  "anetResolve in_addr host ipbuf ipbuf_len n = anetGenericResolve in_addr host ipbuf ipbuf_len ANET_NONE n"

definition anetResolveIP :: "(nat \<Rightarrow> nat) \<Rightarrow> char list \<Rightarrow> char list \<Rightarrow> nat \<Rightarrow> net \<Rightarrow> ((int \<times> char list) \<times> net) res" where
  "anetResolveIP in_addr host ipbuf ipbuf_len n = anetGenericResolve in_addr host ipbuf ipbuf_len ANET_IP_ONLY n"

subsection \<open>Connecting\<close>

definition anetSetReuseAddr :: "int \<Rightarrow> net \<Rightarrow> int \<times> net" where
  "anetSetReuseAddr fd n =
     (let (r, n1) = setsockopt fd SOL_SOCKET SO_REUSEADDR 1 n in
      if r = - 1 then (ANET_ERR, anetSetError (''setsockopt SO_REUSEADDR: '' @ why n1) n1) else (ANET_OK, n1))"

definition anetCreateSocket :: "int \<Rightarrow> net \<Rightarrow> int \<times> net" where
  "anetCreateSocket domain n =
     (let (s, n1) = sys_socket domain SOCK_STREAM 0 n in
      if s = - 1 then (ANET_ERR, anetSetError (''creating socket: '' @ why n1) n1) else
      let (r, n2) = anetSetReuseAddr s n1 in
      if r = ANET_ERR then (ANET_ERR, sys_close s n2) else (s, n2))"

fun bind_first :: "int \<Rightarrow> addrinfo list \<Rightarrow> net \<Rightarrow> bool \<times> net" where
  "bind_first s [] n = (False, n)"
| "bind_first s (b # bs) n =
     (let (r, n1) = sys_do (Bound s (AiAddr (ai_addr b))) n in
      if r \<noteq> - 1 then (True, n1) else bind_first s bs n1)"

definition bind_source :: "char list option \<Rightarrow> int \<Rightarrow> net \<Rightarrow> bool \<times> net" where
  \<comment> \<open>\<open>if (source_addr) ...\<close>: whether it ends without \<open>goto end\<close>\<close>
  "bind_source source_addr s n =
     (case source_addr of
        None \<Rightarrow> (True, n)
      | Some src \<Rightarrow>
          let q = \<lparr>q_host = Some src, q_service = None, q_flags = 0, q_family = AF_UNSPEC, q_socktype = SOCK_STREAM\<rparr>;
              (r, n1) = getaddrinfo q n in
          (case r of
             Inl rv \<Rightarrow> (False, anetSetError (gai_strerror n1 rv) n1)
           | Inr bl \<Rightarrow>
               let (bound, n2) = bind_first s bl n1 in
               if \<not> bound then (False, anetSetError (''bind: '' @ why n2) n2) else (True, n2)))"

datatype exit_label = ToError | ToEnd

definition sys_connect :: "int \<Rightarrow> addr \<Rightarrow> net \<Rightarrow> int \<times> net" where
  \<comment> \<open>with \<open>EINPROGRESS\<close> the connection is under way\<close>
  "sys_connect s a n =
     (let (r, n1) = sys_do (Connected s a) n in
      (r, if r = - 1 \<and> errno n1 = EINPROGRESS then did (Connecting s a) n1 else n1))"

definition connect_try ::
  "char list option \<Rightarrow> int \<Rightarrow> addrinfo \<Rightarrow> net \<Rightarrow> (exit_label \<times> int) option \<times> net"
where
  \<comment> \<open>one round: the label it jumps to and \<open>s\<close>, or \<open>None\<close> for \<open>continue\<close>, when \<open>s\<close> is -1\<close>
  "connect_try source_addr flags p n =
     (let (s, n1) = sys_socket (ai_family p) (ai_socktype p) (ai_protocol p) n in
      if s = - 1 then (None, n1) else
      let (r, n2) = anetSetReuseAddr s n1 in
      if r = ANET_ERR then (Some (ToError, s), n2) else
      let (r, n3) = (if flags AND ANET_CONNECT_NONBLOCK \<noteq> 0 then anetNonBlock s n2 else (ANET_OK, n2)) in
      if r \<noteq> ANET_OK then (Some (ToError, s), n3) else
      let (ok, n4) = bind_source source_addr s n3 in
      if \<not> ok then (Some (ToEnd, s), n4) else
      let (r, n5) = sys_connect s (AiAddr (ai_addr p)) n4 in
      if r = - 1 then
        if errno n5 = EINPROGRESS \<and> flags AND ANET_CONNECT_NONBLOCK \<noteq> 0 then (Some (ToEnd, s), n5)
        else (None, sys_close s n5)
      else (Some (ToEnd, s), n5))"

fun connect_loop ::
  "char list option \<Rightarrow> int \<Rightarrow> addrinfo list \<Rightarrow> net \<Rightarrow> (exit_label \<times> int) \<times> net"
where
  "connect_loop source_addr flags [] n = ((ToError, ANET_ERR), anetSetError (''creating socket: '' @ why n) n)"
| "connect_loop source_addr flags (p # ps) n =
     (let (x, n1) = connect_try source_addr flags p n in
      case x of Some e \<Rightarrow> (e, n1) | None \<Rightarrow> connect_loop source_addr flags ps n1)"

definition anetTcpGenericConnect ::
  "char list \<Rightarrow> int \<Rightarrow> char list option \<Rightarrow> int \<Rightarrow> net \<Rightarrow> int \<times> net"
where
  "anetTcpGenericConnect addr port source_addr flags n =
     (let q = \<lparr>q_host = Some addr, q_service = Some (snprintf_d 6 port), q_flags = 0,
               q_family = AF_UNSPEC, q_socktype = SOCK_STREAM\<rparr>;
          (r, n1) = getaddrinfo q n in
      case r of
        Inl rv \<Rightarrow> (ANET_ERR, anetSetError (gai_strerror n1 rv) n1)
      | Inr servinfo \<Rightarrow>
          let ((label, s), n2) = connect_loop source_addr flags servinfo n1;
              (s1, n3) = (if label = ToError \<and> s \<noteq> ANET_ERR then (ANET_ERR, sys_close s n2) else (s, n2)) in
          (s1, freeaddrinfo n3))"

definition anetTcpConnect :: "char list \<Rightarrow> int \<Rightarrow> net \<Rightarrow> int \<times> net" where
  "anetTcpConnect addr port n = anetTcpGenericConnect addr port None ANET_CONNECT_NONE n"

definition anetTcpNonBlockConnect :: "char list \<Rightarrow> int \<Rightarrow> net \<Rightarrow> int \<times> net" where
  "anetTcpNonBlockConnect addr port n = anetTcpGenericConnect addr port None ANET_CONNECT_NONBLOCK n"

definition anetTcpNonBlockBindConnect :: "char list \<Rightarrow> int \<Rightarrow> char list \<Rightarrow> net \<Rightarrow> int \<times> net" where
  "anetTcpNonBlockBindConnect addr port source_addr n =
     anetTcpGenericConnect addr port (Some source_addr) ANET_CONNECT_NONBLOCK n"

definition anetUnixGenericConnect :: "char list \<Rightarrow> int \<Rightarrow> net \<Rightarrow> int \<times> net" where
  \<comment> \<open>\<open>sa\<close> is not cleared: \<open>stack_path\<close> is what \<open>sun_path\<close> holds before\<close>
  "anetUnixGenericConnect path flags n =
     (let (s, n1) = anetCreateSocket AF_LOCAL n in
      if s = ANET_ERR then (ANET_ERR, n1) else
      let sun_path = strncpy (stack_path n1) path 107;
          (r, n2) = (if flags AND ANET_CONNECT_NONBLOCK \<noteq> 0 then anetNonBlock s n1 else (ANET_OK, n1)) in
      if r \<noteq> ANET_OK then (ANET_ERR, n2) else
      let (r, n3) = sys_connect s (UnAddr sun_path) n2 in
      if r = - 1 then
        if errno n3 = EINPROGRESS \<and> flags AND ANET_CONNECT_NONBLOCK \<noteq> 0 then (s, n3)
        else (ANET_ERR, sys_close s (anetSetError (''connect: '' @ why n3) n3))
      else (s, n3))"

definition anetUnixConnect :: "char list \<Rightarrow> net \<Rightarrow> int \<times> net" where
  "anetUnixConnect path n = anetUnixGenericConnect path ANET_CONNECT_NONE n"

definition anetUnixNonBlockConnect :: "char list \<Rightarrow> net \<Rightarrow> int \<times> net" where
  "anetUnixNonBlockConnect path n = anetUnixGenericConnect path ANET_CONNECT_NONBLOCK n"

subsection \<open>Reading and writing\<close>

fun anetRead :: "nat \<Rightarrow> int \<Rightarrow> char list \<Rightarrow> int \<Rightarrow> int \<Rightarrow> net \<Rightarrow> ((int \<times> char list) \<times> net) res" where
  \<comment> \<open>\<open>read\<close> stores at most the bytes asked for behind the \<open>totlen\<close> already read\<close>
  "anetRead fuel fd bf count totlen n =
     (if totlen = count then Inr ((totlen, bf), n) else
      case fuel of
        0 \<Rightarrow> Inl NoFuel
      | Suc k \<Rightarrow>
          let (a, n1) = sys n; got = take (nat (u64 (count - totlen))) (bytes a) in
          if ret a = - 1 then Inr ((- 1, bf), n1)
          else if got = [] then Inr ((totlen, bf), n1)
          else rbind (write_bytes bf totlen got) (\<lambda>bf1.
               anetRead k fd bf1 count (totlen + int (length got)) n1))"

fun anetWrite :: "nat \<Rightarrow> int \<Rightarrow> char list \<Rightarrow> int \<Rightarrow> int \<Rightarrow> char list \<Rightarrow> net \<Rightarrow> ((int \<times> char list) \<times> net) res" where
  \<comment> \<open>\<open>sent\<close> collects what the peer gets; \<open>write\<close> takes between 0 and all bytes offered\<close>
  "anetWrite fuel fd bf count totlen sent n =
     (if totlen = count then Inr ((totlen, sent), n) else
      case fuel of
        0 \<Rightarrow> Inl NoFuel
      | Suc k \<Rightarrow>
          let (a, n1) = sys n; want = u64 (count - totlen); took = min (max 0 (ret a)) want in
          if ret a = - 1 then Inr ((- 1, sent), n1)
          else if took = 0 then Inr ((totlen, sent), n1)
          else rbind (read_bytes bf totlen took) (\<lambda>out.
               anetWrite k fd bf count (totlen + took) (sent @ out) n1))"

subsection \<open>Listening and accepting\<close>

definition anetListen :: "int \<Rightarrow> addr \<Rightarrow> int \<Rightarrow> net \<Rightarrow> int \<times> net" where
  "anetListen s sa backlog n =
     (let (r, n1) = sys_do (Bound s sa) n in
      if r = - 1 then (ANET_ERR, sys_close s (anetSetError (''bind: '' @ why n1) n1)) else
      let (r, n2) = sys_do (Listening s backlog) n1 in
      if r = - 1 then (ANET_ERR, sys_close s (anetSetError (''listen: '' @ why n2) n2)) else
      (ANET_OK, n2))"

definition anetV6Only :: "int \<Rightarrow> net \<Rightarrow> int \<times> net" where
  "anetV6Only s n =
     (let (r, n1) = setsockopt s IPPROTO_IPV6 IPV6_V6ONLY 1 n in
      if r = - 1 then (ANET_ERR, sys_close s (anetSetError (''setsockopt: '' @ why n1) n1)) else (ANET_OK, n1))"

fun server_loop :: "int \<Rightarrow> int \<Rightarrow> addrinfo list \<Rightarrow> net \<Rightarrow> int \<times> net" where
  "server_loop af backlog [] n = (ANET_ERR, anetSetError ''unable to bind socket'' n)"
| "server_loop af backlog (p # ps) n =
     (let (s, n1) = sys_socket (ai_family p) (ai_socktype p) (ai_protocol p) n in
      if s = - 1 then server_loop af backlog ps n1 else
      let (r, n2) = (if af = AF_INET6 then anetV6Only s n1 else (ANET_OK, n1)) in
      if r = ANET_ERR then (ANET_ERR, n2) else
      let (r, n3) = anetSetReuseAddr s n2 in
      if r = ANET_ERR then (ANET_ERR, n3) else
      let (r, n4) = anetListen s (AiAddr (ai_addr p)) backlog n3 in
      if r = ANET_ERR then (ANET_ERR, n4) else (s, n4))"

definition gen_anetTcpServer :: "int \<Rightarrow> char list option \<Rightarrow> int \<Rightarrow> int \<Rightarrow> net \<Rightarrow> int \<times> net" where
  \<comment> \<open>\<open>_anetTcpServer\<close>\<close>
  "gen_anetTcpServer port bindaddr af backlog n =
     (let q = \<lparr>q_host = bindaddr, q_service = Some (snprintf_d 6 port), q_flags = AI_PASSIVE,
               q_family = af, q_socktype = SOCK_STREAM\<rparr>;
          (r, n1) = getaddrinfo q n in
      case r of
        Inl rv \<Rightarrow> (ANET_ERR, anetSetError (gai_strerror n1 rv) n1)
      | Inr servinfo \<Rightarrow> let (s, n2) = server_loop af backlog servinfo n1 in (s, freeaddrinfo n2))"

definition anetTcpServer :: "int \<Rightarrow> char list option \<Rightarrow> int \<Rightarrow> net \<Rightarrow> int \<times> net" where
  "anetTcpServer port bindaddr backlog n = gen_anetTcpServer port bindaddr AF_INET backlog n"

definition anetTcp6Server :: "int \<Rightarrow> char list option \<Rightarrow> int \<Rightarrow> net \<Rightarrow> int \<times> net" where
  "anetTcp6Server port bindaddr backlog n = gen_anetTcpServer port bindaddr AF_INET6 backlog n"

definition anetUnixServer :: "char list \<Rightarrow> int \<Rightarrow> int \<Rightarrow> net \<Rightarrow> int \<times> net" where
  "anetUnixServer path perm backlog n =
     (let (s, n1) = anetCreateSocket AF_LOCAL n in
      if s = ANET_ERR then (ANET_ERR, n1) else
      let sun_path = strncpy (replicate 108 NUL) path 107;
          (r, n2) = anetListen s (UnAddr sun_path) backlog n1 in
      if r = ANET_ERR then (ANET_ERR, n2) else
      (s, if perm \<noteq> 0 then did (Chmod (cstr sun_path) perm) n2 else n2))"

fun anetGenericAccept :: "nat \<Rightarrow> int \<Rightarrow> net \<Rightarrow> (int \<times> net) option" where
  \<comment> \<open>\<open>None\<close>: still interrupted by signals when the fuel is used up\<close>
  "anetGenericAccept 0 s n = None"
| "anetGenericAccept (Suc k) s n =
     (let (fd, n1) = sys_open (\<lambda>fd. Accepted s fd) n in
      if fd = - 1 then
        if errno n1 = EINTR then anetGenericAccept k s n1
        else Some (ANET_ERR, anetSetError (''accept: '' @ why n1) n1)
      else Some (fd, n1))"

definition addr_out ::
  "sockaddr \<Rightarrow> char list option \<Rightarrow> nat \<Rightarrow> bool \<Rightarrow> net \<Rightarrow> (char list option \<times> int option) res"
where
  \<comment> \<open>the address text into \<open>ip\<close> and the port into \<open>*port\<close>, unless they are \<open>NULL\<close>\<close>
  "addr_out sa ip ip_len port n =
     (let (af, a, p) = (if ss_family sa = AF_INET then (AF_INET, sin_addr sa, sin_port sa)
                        else (AF_INET6, sin6_addr sa, sin6_port sa)) in
      rbind (case ip of None \<Rightarrow> Inr None | Some b \<Rightarrow> rbind (inet_ntop af a b ip_len n) (\<lambda>b1. Inr (Some b1))) (\<lambda>ip1.
      Inr (ip1, if port then Some (ntohs p) else None)))"

definition anetTcpAccept ::
  "nat \<Rightarrow> int \<Rightarrow> char list option \<Rightarrow> nat \<Rightarrow> bool \<Rightarrow> net \<Rightarrow> ((int \<times> char list option \<times> int option) \<times> net) res"
where
  "anetTcpAccept fuel s ip ip_len port n =
     (case anetGenericAccept fuel s n of
        None \<Rightarrow> Inl NoFuel
      | Some (fd, n1) \<Rightarrow>
          if fd = - 1 then Inr ((ANET_ERR, ip, None), n1) else
          rbind (addr_out (who (kern n1 (ncalls n1 - 1))) ip ip_len port n1) (\<lambda>(ip1, port1).
          Inr ((fd, ip1, port1), n1)))"

definition anetUnixAccept :: "nat \<Rightarrow> int \<Rightarrow> net \<Rightarrow> (int \<times> net) option" where
  "anetUnixAccept fuel s n =
     (case anetGenericAccept fuel s n of
        None \<Rightarrow> None
      | Some (fd, n1) \<Rightarrow> if fd = - 1 then Some (ANET_ERR, n1) else Some (fd, n1))"

definition name_to_string ::
  "char list option \<Rightarrow> nat \<Rightarrow> bool \<Rightarrow> net \<Rightarrow> ((int \<times> char list option \<times> int option) \<times> net) res"
where
  \<comment> \<open>the body that \<open>anetPeerToString\<close> and \<open>anetSockName\<close> share; \<open>ip\<close> is not tested for \<open>NULL\<close>
     when the system call fails\<close>
  "name_to_string ip ip_len port n =
     (let (a, n1) = sys n in
      if ret a = - 1 then
        (case ip of
           None \<Rightarrow> Inl BadAccess
         | Some b \<Rightarrow> rbind (poke b 0 (CHR ''?'')) (\<lambda>b1. rbind (poke b1 1 NUL) (\<lambda>b2.
             Inr ((- 1, Some b2, if port then Some 0 else None), n1))))
      else rbind (addr_out (who a) ip ip_len port n1) (\<lambda>(ip1, port1). Inr ((0, ip1, port1), n1)))"

definition anetPeerToString ::
  "int \<Rightarrow> char list option \<Rightarrow> nat \<Rightarrow> bool \<Rightarrow> net \<Rightarrow> ((int \<times> char list option \<times> int option) \<times> net) res"
where
  "anetPeerToString fd ip ip_len port n = name_to_string ip ip_len port n"

definition anetSockName ::
  "int \<Rightarrow> char list option \<Rightarrow> nat \<Rightarrow> bool \<Rightarrow> net \<Rightarrow> ((int \<times> char list option \<times> int option) \<times> net) res"
where
  "anetSockName fd ip ip_len port n = name_to_string ip ip_len port n"

declare anetRead.simps [simp del] anetWrite.simps [simp del]

end
