(* ===== verification/Anet_Spec.thy ===== *)
theory Anet_Spec
  imports Anet
begin

text \<open>
  What the socket layer promises: an operation that opens a socket either fails with no
  descriptor left over or returns the only new one, results of the resolver are freed, and
  the reading loop fills the caller's buffer with the bytes of the stream in order. Two
  exits of the code break the first promise; they are stated as well.
\<close>

subsection \<open>Calls that open nothing\<close>

definition keeps :: "net \<Rightarrow> net \<Rightarrow> bool" where
  "keeps n n1 \<longleftrightarrow> fds n1 = fds n \<and> ailive n1 = ailive n \<and> gai n1 = gai n \<and> kern n1 = kern n"

lemma keeps_refl [simp]: "keeps n n"
  by (simp add: keeps_def)

lemma keeps_trans: "keeps n n1 \<Longrightarrow> keeps n1 n2 \<Longrightarrow> keeps n n2"
  by (simp add: keeps_def)

lemma keeps_did [simp]: "keeps n (did x m) \<longleftrightarrow> keeps n m"
  by (simp add: keeps_def did_def)

lemma keeps_fl [simp]: "keeps n (m\<lparr>fl := f\<rparr>) \<longleftrightarrow> keeps n m"
  by (simp add: keeps_def)

lemma error_fields [simp]: "fds (anetSetError msg n) = fds n" "ailive (anetSetError msg n) = ailive n"
  "gai (anetSetError msg n) = gai n" "kern (anetSetError msg n) = kern n" "ops (anetSetError msg n) = ops n"
  by (simp_all add: anetSetError_def split: option.splits)

lemma keeps_error [simp]: "keeps n (anetSetError msg m) \<longleftrightarrow> keeps n m"
  by (simp add: keeps_def)

lemma sys_keeps: "sys n = (a, n1) \<Longrightarrow> keeps n n1"
  by (auto simp: sys_def keeps_def Let_def split: if_splits)

lemma sys_do_keeps: "sys_do x n = (r, n1) \<Longrightarrow> keeps n n1"
  by (auto simp: sys_do_def split: prod.splits if_splits dest: sys_keeps)

lemma setsockopt_keeps: "setsockopt fd l opt v n = (r, n1) \<Longrightarrow> keeps n n1"
  unfolding setsockopt_def by (rule sys_do_keeps)

lemma reuse_keeps: "anetSetReuseAddr fd n = (r, n1) \<Longrightarrow> keeps n n1"
  by (auto simp: anetSetReuseAddr_def split: prod.splits if_splits dest: setsockopt_keeps)

lemma connect_keeps: "sys_connect s a n = (r, n1) \<Longrightarrow> keeps n n1"
  by (auto simp: sys_connect_def split: prod.splits if_splits dest: sys_do_keeps)

lemma nonblock_keeps: "anetNonBlock fd n = (r, n1) \<Longrightarrow> keeps n n1"
  by (auto simp: anetNonBlock_def Let_def split: prod.splits if_splits dest!: sys_keeps intro: keeps_trans)

subsection \<open>Calls that open a socket\<close>

lemma close_fields [simp]: "fds (sys_close s n) = fds n - {s}" "ailive (sys_close s n) = ailive n"
  "gai (sys_close s n) = gai n" "kern (sys_close s n) = kern n"
  by (simp_all add: sys_close_def did_def)

definition opened :: "net \<Rightarrow> int \<Rightarrow> net \<Rightarrow> bool" where
  \<comment> \<open>\<open>s\<close> is the only descriptor added, or none is\<close>
  "opened n s n1 \<longleftrightarrow>
     (if s = - 1 then fds n1 = fds n else s \<notin> fds n \<and> fds n1 = insert s (fds n))"

locale opener =
  fixes op :: "net \<Rightarrow> int \<times> net"
  assumes opens: "op n = (s, n1) \<Longrightarrow> opened n s n1 \<and> ailive n1 = ailive n"
begin

lemma close_restores:
  assumes "op n = (s, n1)"
  shows "fds (if s = - 1 then n1 else sys_close s n1) = fds n"
  using opens [OF assms] by (auto simp: opened_def sys_close_def did_def)

lemma nothing_leaked:
  assumes "op n = (s, n1)"
  shows "(s = - 1 \<longrightarrow> fds n1 = fds n) \<and> (s \<noteq> - 1 \<longrightarrow> s \<notin> fds n \<and> fds n1 - {s} = fds n) \<and> ailive n1 = ailive n"
  using opens [OF assms] by (auto simp: opened_def)

end

lemma opened_keeps: "opened n s n1 \<Longrightarrow> keeps n1 n2 \<Longrightarrow> opened n s n2"
  by (simp add: opened_def keeps_def)

lemma opened_close: "opened n s n1 \<Longrightarrow> s \<noteq> - 1 \<Longrightarrow> keeps n1 n2 \<Longrightarrow> opened n (- 1) (sys_close s n2)"
  by (auto simp: opened_def keeps_def sys_close_def did_def)

lemma sys_open_opened: "sys_open what n = (s, n1) \<Longrightarrow> opened n s n1 \<and> ailive n1 = ailive n \<and> gai n1 = gai n \<and> kern n1 = kern n"
  by (auto simp: sys_open_def opened_def did_def split: prod.splits if_splits dest!: sys_keeps simp: keeps_def)

lemma anetCreateSocket_opened: "anetCreateSocket d n = (s, n1) \<Longrightarrow> opened n s n1 \<and> ailive n1 = ailive n"
proof -
  assume a: "anetCreateSocket d n = (s, n1)"
  obtain t m where t: "sys_socket d SOCK_STREAM 0 n = (t, m)" by fastforce
  obtain r m2 where r: "anetSetReuseAddr t m = (r, m2)" by fastforce
  have o: "opened n t m" "ailive m = ailive n" using sys_open_opened t by (simp_all add: sys_socket_def)
  have k: "keeps m m2" using reuse_keeps [OF r] .
  have fields: "fds m2 = fds m" "ailive m2 = ailive m" using k by (simp_all add: keeps_def)
  show ?thesis
  proof (cases "t = - 1")
    case True
    then obtain msg where "anetCreateSocket d n = (ANET_ERR, anetSetError msg m)"
      using t by (simp add: anetCreateSocket_def)
    then have "s = - 1" "n1 = anetSetError msg m" using a by simp_all
    then show ?thesis using o True by (simp add: opened_def)
  next
    case False
    then have "anetCreateSocket d n = (if r = ANET_ERR then (ANET_ERR, sys_close t m2) else (t, m2))"
      using t r by (simp add: anetCreateSocket_def)
    then have "s = (if r = ANET_ERR then - 1 else t)" "n1 = (if r = ANET_ERR then sys_close t m2 else m2)"
      using a by (simp_all split: if_splits)
    then show ?thesis using o fields False by (auto simp: opened_def)
  qed
qed

interpretation create_socket: opener "anetCreateSocket d" for d
  by unfold_locales (rule anetCreateSocket_opened)

lemma anetListen_outcome:
  assumes "anetListen s a b n = (r, n1)"
  shows "(r = - 1 \<and> fds n1 = fds n - {s} \<or> r = 0 \<and> fds n1 = fds n) \<and> ailive n1 = ailive n"
proof -
  obtain r1 m1 where 1: "sys_do (Bound s a) n = (r1, m1)" by fastforce
  obtain r2 m2 where 2: "sys_do (Listening s b) m1 = (r2, m2)" by fastforce
  have fields: "fds m1 = fds n" "ailive m1 = ailive n" "fds m2 = fds n" "ailive m2 = ailive n"
    using sys_do_keeps [OF 1] sys_do_keeps [OF 2] by (simp_all add: keeps_def)
  show ?thesis
    using assms 1 2 fields by (cases "r1 = - 1"; cases "r2 = - 1") (auto simp: anetListen_def)
qed

lemma anetUnixServer_opened: "anetUnixServer path perm b n = (s, n1) \<Longrightarrow> opened n s n1 \<and> ailive n1 = ailive n"
proof -
  assume a: "anetUnixServer path perm b n = (s, n1)"
  let ?a = "UnAddr (strncpy (replicate 108 NUL) path 107)"
  obtain t m where t: "anetCreateSocket AF_LOCAL n = (t, m)" by fastforce
  obtain r m2 where r: "anetListen t ?a b m = (r, m2)" by fastforce
  note o = anetCreateSocket_opened [OF t] anetListen_outcome [OF r]
  show ?thesis
  proof (cases "t = ANET_ERR")
    case True
    then show ?thesis using a t o(1) by (simp add: anetUnixServer_def)
  next
    case False
    then obtain c where "anetUnixServer path perm b n = (if r = ANET_ERR then (ANET_ERR, m2)
        else (t, if perm \<noteq> 0 then did c m2 else m2))"
      using t r by (simp add: anetUnixServer_def Let_def)
    then have e: "s = (if r = ANET_ERR then - 1 else t)" "fds n1 = fds m2" "ailive n1 = ailive m2"
      using a by (simp_all add: did_def split: if_splits)
    show ?thesis using o False unfolding e opened_def by auto
  qed
qed

interpretation unix_server: opener "anetUnixServer path perm backlog" for path perm backlog
  by unfold_locales (rule anetUnixServer_opened)

subsection \<open>Connecting\<close>

lemma bind_first_keeps: "bind_first s bs n = (b, n1) \<Longrightarrow> keeps n n1"
proof (induction bs arbitrary: n)
  case (Cons x bs)
  obtain r m where m: "sys_do (Bound s (AiAddr (ai_addr x))) n = (r, m)" by fastforce
  have k: "keeps n m" using sys_do_keeps [OF m] .
  show ?case
  proof (cases "r = - 1")
    case True
    then have "bind_first s bs m = (b, n1)" using Cons.prems m by simp
    then show ?thesis using Cons.IH keeps_trans [OF k] by blast
  next
    case False
    then show ?thesis using Cons.prems m k by simp
  qed
qed simp

lemma bind_source_fds:
  assumes "bind_source src s n = (ok, n1)"
  shows "fds n1 = fds n" "src = None \<Longrightarrow> ok \<and> n1 = n"
proof -
  show "src = None \<Longrightarrow> ok \<and> n1 = n" using assms by (simp add: bind_source_def)
  show "fds n1 = fds n"
  proof (cases src)
    case None
    then show ?thesis using assms by (simp add: bind_source_def)
  next
    case (Some h)
    define q where "q = \<lparr>q_host = Some h, q_service = None, q_flags = 0, q_family = AF_UNSPEC, q_socktype = SOCK_STREAM\<rparr>"
    show ?thesis
    proof (cases "gai n q")
      case (Inl rv)
      then show ?thesis using assms Some by (auto simp: bind_source_def getaddrinfo_def q_def [symmetric])
    next
      case (Inr bl)
      let ?m = "n\<lparr>ailive := Suc (ailive n)\<rparr>"
      obtain b m2 where b: "bind_first s bl ?m = (b, m2)" by fastforce
      then have "keeps ?m m2" by (rule bind_first_keeps)
      moreover have "fds n1 = fds m2"
        using assms Some Inr b by (cases b) (auto simp: bind_source_def getaddrinfo_def q_def [symmetric])
      ultimately show ?thesis by (simp add: keeps_def)
    qed
  qed
qed

lemma connect_try_opened:
  assumes "connect_try src flags p n = (x, n1)"
  shows "(case x of None \<Rightarrow> fds n1 = fds n | Some (lbl, s) \<Rightarrow> s \<noteq> - 1 \<and> opened n s n1) \<and>
    (src = None \<longrightarrow> ailive n1 = ailive n \<and>
      (\<forall>s. x = Some (ToEnd, s) \<longrightarrow> hd (ops n1) \<in> {Connected s (AiAddr (ai_addr p)), Connecting s (AiAddr (ai_addr p))} \<and>
        (flags AND ANET_CONNECT_NONBLOCK = 0 \<longrightarrow> hd (ops n1) = Connected s (AiAddr (ai_addr p)))))"
proof -
  let ?nb = "flags AND ANET_CONNECT_NONBLOCK \<noteq> 0" and ?a = "AiAddr (ai_addr p)"
  obtain s m1 where 1: "sys_socket (ai_family p) (ai_socktype p) (ai_protocol p) n = (s, m1)" by fastforce
  obtain r2 m2 where 2: "anetSetReuseAddr s m1 = (r2, m2)" by fastforce
  obtain r3 m3 where 3: "(if ?nb then anetNonBlock s m2 else (ANET_OK, m2)) = (r3, m3)" by fastforce
  obtain ok m4 where 4: "bind_source src s m3 = (ok, m4)" by fastforce
  obtain r5 m5 where 5: "sys_connect s ?a m4 = (r5, m5)" by fastforce
  have eq: "(x, n1) = (if s = - 1 then (None, m1) else if r2 = ANET_ERR then (Some (ToError, s), m2)
      else if r3 \<noteq> ANET_OK then (Some (ToError, s), m3) else if \<not> ok then (Some (ToEnd, s), m4)
      else if r5 = - 1 then if errno m5 = EINPROGRESS \<and> ?nb then (Some (ToEnd, s), m5) else (None, sys_close s m5)
      else (Some (ToEnd, s), m5))"
    unfolding assms [symmetric] connect_try_def 1 Let_def prod.case 2 3 4 5 by (rule refl)
  have o: "opened n s m1" "ailive m1 = ailive n" using sys_open_opened 1 by (simp_all add: sys_socket_def)
  have k3: "keeps m2 m3" using 3 nonblock_keeps by (auto split: if_splits)
  have f: "fds m2 = fds m1" "fds m3 = fds m1" "fds m4 = fds m1" "fds m5 = fds m1"
    "ailive m2 = ailive n" "ailive m3 = ailive n" "src = None \<Longrightarrow> ailive m4 = ailive n \<and> ailive m5 = ailive n \<and> ok"
    using reuse_keeps [OF 2] k3 bind_source_fds [OF 4] connect_keeps [OF 5] o(2) by (auto simp: keeps_def)
  have last: "r5 \<noteq> - 1 \<Longrightarrow> hd (ops m5) = Connected s ?a" "errno m5 = EINPROGRESS \<Longrightarrow> r5 = - 1 \<Longrightarrow> hd (ops m5) = Connecting s ?a"
    using 5 by (auto simp: sys_connect_def sys_do_def did_def split: prod.splits if_splits)
  show ?thesis
    using eq o f last
    by (cases "s = - 1"; cases "r2 = ANET_ERR"; cases "r3 = ANET_OK"; cases ok; cases "r5 = - 1";
        cases "errno m5 = EINPROGRESS \<and> ?nb") (auto simp: opened_def)
qed

lemma connect_loop_opened:
  assumes "connect_loop src flags ps n = ((lbl, s), n1)"
  shows "opened n s n1 \<and> (s = - 1 \<longrightarrow> lbl = ToError) \<and> (src = None \<longrightarrow> ailive n1 = ailive n \<and>
    (lbl = ToEnd \<and> flags AND ANET_CONNECT_NONBLOCK = 0 \<longrightarrow> (\<exists>p\<in>set ps. hd (ops n1) = Connected s (AiAddr (ai_addr p)))))"
  using assms
proof (induction ps arbitrary: n)
  case Nil
  then show ?case by (auto simp: opened_def)
next
  case (Cons p ps)
  obtain x m where x: "connect_try src flags p n = (x, m)" by fastforce
  note t = connect_try_opened [OF x]
  show ?case
  proof (cases x)
    case None
    then have "connect_loop src flags ps m = ((lbl, s), n1)" using Cons.prems x by simp
    from Cons.IH [OF this] show ?thesis using t None by (auto simp: opened_def)
  next
    case (Some e)
    then have "e = (lbl, s)" "n1 = m" using Cons.prems x by simp_all
    then show ?thesis using t Some by (auto simp: opened_def)
  qed
qed

lemma anetTcpGenericConnect_opened:
  assumes "anetTcpGenericConnect host port src flags n = (s, n1)"
  shows "opened n s n1 \<and> (src = None \<longrightarrow> ailive n1 = ailive n \<and>
    (s \<noteq> - 1 \<and> flags AND ANET_CONNECT_NONBLOCK = 0 \<longrightarrow> (\<exists>a. hd (ops n1) = Connected s (AiAddr a))))"
proof -
  define q where "q = \<lparr>q_host = Some host, q_service = Some (snprintf_d 6 port), q_flags = 0,
               q_family = AF_UNSPEC, q_socktype = SOCK_STREAM\<rparr>"
  show ?thesis
  proof (cases "gai n q")
    case (Inl rv)
    then have "s = - 1 \<and> n1 = anetSetError (gai_strerror n rv) n"
      using assms by (auto simp: anetTcpGenericConnect_def getaddrinfo_def q_def [symmetric] Let_def)
    then show ?thesis by (auto simp: opened_def)
  next
    case (Inr l)
    let ?m = "n\<lparr>ailive := Suc (ailive n)\<rparr>"
    obtain lbl t m2 where c: "connect_loop src flags l ?m = ((lbl, t), m2)" by (metis surj_pair)
    have "(s, n1) = (case if lbl = ToError \<and> t \<noteq> ANET_ERR then (ANET_ERR, sys_close t m2) else (t, m2) of
        (s1, n3) \<Rightarrow> (s1, freeaddrinfo n3))"
      using Inr c unfolding assms [symmetric] anetTcpGenericConnect_def Let_def q_def [symmetric]
      by (simp add: getaddrinfo_def)
    then have "s = (if lbl = ToError \<and> t \<noteq> ANET_ERR then - 1 else t) \<and>
        n1 = freeaddrinfo (if lbl = ToError \<and> t \<noteq> ANET_ERR then sys_close t m2 else m2)"
      by (cases "lbl = ToError \<and> t \<noteq> ANET_ERR") (simp_all only: if_True if_False prod.case prod.inject simp_thms)
    then have e: "s = (if lbl = ToError \<and> t \<noteq> ANET_ERR then - 1 else t)"
      "n1 = freeaddrinfo (if lbl = ToError \<and> t \<noteq> ANET_ERR then sys_close t m2 else m2)" by blast+
    show ?thesis using connect_loop_opened [OF c] unfolding e
      by (cases lbl) (auto simp: opened_def freeaddrinfo_def)
  qed
qed

interpretation tcp_connect: opener "anetTcpConnect host port" for host port
  by unfold_locales (auto simp: anetTcpConnect_def dest: anetTcpGenericConnect_opened)

interpretation tcp_nb_connect: opener "anetTcpNonBlockConnect host port" for host port
  by unfold_locales (auto simp: anetTcpNonBlockConnect_def dest: anetTcpGenericConnect_opened)


definition sample_net :: "(nat \<Rightarrow> answer) \<Rightarrow> (query \<Rightarrow> int + addrinfo list) \<Rightarrow> net" where
  "sample_net k g =
     \<lparr>fds = {0, 1, 2}, fl = (\<lambda>_. 2), ops = [], ailive = 0, errno = 0, errbuf = Some [], kern = k, ncalls = 0, gai = g,
      strerror = (\<lambda>_. ''err''), gai_strerror = (\<lambda>_. ''gai''), ntop = (\<lambda>_ _. ''1.2.3.4''), stack_path = replicate 108 (CHR ''x'')\<rparr>"

definition ok_answer :: "int \<Rightarrow> answer" where
  "ok_answer r = \<lparr>ret = r, err_no = 111, bytes = [],
     who = \<lparr>ss_family = 2, sin_addr = 7, sin_port = 36895, sin6_addr = 0, sin6_port = 0\<rparr>\<rparr>"

definition one_addr :: "query \<Rightarrow> int + addrinfo list" where
  \<comment> \<open>names resolve to one address, but the host \<open>bad\<close> does not resolve\<close>
  "one_addr q = (if q_host q = Some ''bad'' then Inl (- 2)
     else Inr [\<lparr>ai_family = 2, ai_socktype = 1, ai_protocol = 6, ai_addr = 9\<rparr>])"

definition sample_net1 :: net where
  "sample_net1 = sample_net (\<lambda>i. ok_answer (if i = 0 then 3 else 0)) one_addr"


text \<open>
  C34. When the source address of \<open>anetTcpNonBlockBindConnect\<close> cannot be resolved it returns a
  descriptor as if it had succeeded: the socket is open, only its address reuse was set, and
  it was never connected.
\<close>

theorem unresolved_source_returned_as_success:
  assumes "gai n \<lparr>q_host = Some host, q_service = Some (snprintf_d 6 port), q_flags = 0,
               q_family = AF_UNSPEC, q_socktype = SOCK_STREAM\<rparr> = Inr (p # ps)"
    and "gai n \<lparr>q_host = Some source, q_service = None, q_flags = 0,
               q_family = AF_UNSPEC, q_socktype = SOCK_STREAM\<rparr> = Inl rv"
    and "ret (kern n (ncalls n)) = s" "0 \<le> s" "s \<notin> fds n"
    and "ret (kern n (ncalls n + 1)) \<noteq> - 1" "ret (kern n (ncalls n + 2)) \<noteq> - 1" "ret (kern n (ncalls n + 3)) \<noteq> - 1"
  shows "\<exists>n1. anetTcpNonBlockBindConnect host port source n = (s, n1) \<and> s \<in> fds n1 \<and>
    ops n1 = [SetOpt s SOL_SOCKET SO_REUSEADDR 1, Opened s (ai_family p) (ai_socktype p)] @ ops n"
proof -
  have calls: "ret (kern n (Suc (ncalls n))) \<noteq> - 1" "ret (kern n (Suc (Suc (ncalls n)))) \<noteq> - 1"
    "ret (kern n (Suc (Suc (Suc (ncalls n))))) \<noteq> - 1"
    using assms(6-8) by (simp_all add: numeral_2_eq_2 numeral_3_eq_3)
  have "s \<noteq> - 1" using assms(4) by simp
  then show ?thesis
    using assms(1-5) calls
    by (simp add: anetTcpNonBlockBindConnect_def anetTcpGenericConnect_def getaddrinfo_def connect_try_def
        sys_socket_def sys_open_def sys_def anetSetReuseAddr_def setsockopt_def sys_do_def did_def anetNonBlock_def
        bind_source_def freeaddrinfo_def ANET_CONNECT_NONBLOCK_def Let_def)
qed

theorem unresolved_source_returned_as_success_witness:
  "\<exists>n1. anetTcpNonBlockBindConnect ''host'' 7 ''bad'' sample_net1 = (3, n1) \<and> 3 \<in> fds n1 \<and>
     Connected 3 (AiAddr 9) \<notin> set (ops n1)"
proof -
  let ?p = "\<lparr>ai_family = 2, ai_socktype = 1, ai_protocol = 6, ai_addr = 9\<rparr>"
  have "gai sample_net1 \<lparr>q_host = Some ''host'', q_service = Some (snprintf_d 6 7), q_flags = 0,
               q_family = AF_UNSPEC, q_socktype = SOCK_STREAM\<rparr> = Inr [?p]"
    and "gai sample_net1 \<lparr>q_host = Some ''bad'', q_service = None, q_flags = 0,
               q_family = AF_UNSPEC, q_socktype = SOCK_STREAM\<rparr> = Inl (- 2)"
    and "ops sample_net1 = []"
    by (simp_all add: sample_net1_def sample_net_def one_addr_def)
  then show ?thesis
    using unresolved_source_returned_as_success [of sample_net1 "''host''" 7 ?p "[]" "''bad''" "- 2" 3]
    by (auto simp: sample_net1_def sample_net_def ok_answer_def)
qed

subsection \<open>Listening\<close>

lemma v6only_outcome:
  assumes "anetV6Only s n = (r, n1)"
  shows "(r = - 1 \<and> fds n1 = fds n - {s} \<or> r = 0 \<and> fds n1 = fds n) \<and> ailive n1 = ailive n"
proof -
  obtain r1 m where 1: "setsockopt s IPPROTO_IPV6 IPV6_V6ONLY 1 n = (r1, m)" by fastforce
  have "fds m = fds n" "ailive m = ailive n" using setsockopt_keeps [OF 1] by (simp_all add: keeps_def)
  moreover obtain msg where "anetV6Only s n =
      (if r1 = - 1 then (ANET_ERR, sys_close s (anetSetError msg m)) else (ANET_OK, m))"
    using 1 by (simp add: anetV6Only_def)
  then have "r = (if r1 = - 1 then - 1 else 0)" "n1 = (if r1 = - 1 then sys_close s (anetSetError msg m) else m)"
    using assms by (simp_all split: if_splits)
  ultimately show ?thesis by simp
qed

lemma reuse_ret: "anetSetReuseAddr fd n = (r, n1) \<Longrightarrow> r = ANET_OK \<or> r = ANET_ERR"
  by (auto simp: anetSetReuseAddr_def split: prod.splits if_splits)

lemma sys_do_ops: "sys_do x n = (r, n1) \<Longrightarrow> r = 0 \<and> ops n1 = x # ops n \<or> r = - 1 \<and> ops n1 = ops n"
  by (auto simp: sys_do_def did_def sys_def Let_def split: if_splits)

lemma listen_last:
  assumes "anetListen s a b n = (ANET_OK, n1)"
  shows "hd (ops n1) = Listening s b"
proof -
  obtain r1 m1 where 1: "sys_do (Bound s a) n = (r1, m1)" by fastforce
  obtain r2 m2 where 2: "sys_do (Listening s b) m1 = (r2, m2)" by fastforce
  have "r1 \<noteq> - 1" "r2 \<noteq> - 1" "n1 = m2" using assms 1 2 unfolding anetListen_def by (simp_all split: if_splits)
  then show ?thesis using sys_do_ops [OF 2] by auto
qed

lemma reuse_fails_ops: "anetSetReuseAddr fd n = (ANET_ERR, n1) \<Longrightarrow> ops n1 = ops n"
  using sys_do_ops by (fastforce simp: anetSetReuseAddr_def setsockopt_def split: prod.splits if_splits)

definition unused :: "int \<Rightarrow> net \<Rightarrow> bool" where
  \<comment> \<open>the last thing done was opening \<open>t\<close>, or restricting it to version 6\<close>
  "unused t n \<longleftrightarrow> (\<exists>d ty. hd (ops n) = Opened t d ty) \<or> hd (ops n) = SetOpt t IPPROTO_IPV6 IPV6_V6ONLY 1"

lemma v6only_unused: "anetV6Only t n = (ANET_OK, n1) \<Longrightarrow> unused t n1"
  using sys_do_ops by (fastforce simp: anetV6Only_def setsockopt_def unused_def split: prod.splits if_splits)

lemma socket_unused: "sys_socket d ty pr n = (t, n1) \<Longrightarrow> t \<noteq> - 1 \<Longrightarrow> unused t n1"
  by (auto simp: sys_socket_def sys_open_def did_def unused_def split: prod.splits if_splits)

definition server_outcome :: "int \<Rightarrow> net \<Rightarrow> int \<Rightarrow> net \<Rightarrow> bool" where
  \<comment> \<open>listening on the only new descriptor; or failed, with at most one descriptor left over\<close>
  "server_outcome backlog n s n1 \<longleftrightarrow> ailive n1 = ailive n \<and>
     (if s \<noteq> - 1 then s \<notin> fds n \<and> fds n1 = insert s (fds n) \<and> hd (ops n1) = Listening s backlog
      else fds n1 = fds n \<or>
        (\<exists>t. t \<notin> fds n \<and> fds n1 = insert t (fds n) \<and> unused t n1))"

lemma server_loop_outcome: "server_loop af b ps n = (s, n1) \<Longrightarrow> server_outcome b n s n1"
proof (induction ps arbitrary: n)
  case Nil
  then show ?case by (auto simp: server_outcome_def)
next
  case (Cons p ps)
  obtain t m1 where 1: "sys_socket (ai_family p) (ai_socktype p) (ai_protocol p) n = (t, m1)" by fastforce
  obtain r2 m2 where 2: "(if af = AF_INET6 then anetV6Only t m1 else (ANET_OK, m1)) = (r2, m2)" by fastforce
  note v6 = 2
  obtain r3 m3 where 3: "anetSetReuseAddr t m2 = (r3, m3)" by fastforce
  obtain r4 m4 where 4: "anetListen t (AiAddr (ai_addr p)) b m3 = (r4, m4)" by fastforce
  have eq: "(s, n1) = (if t = - 1 then server_loop af b ps m1 else if r2 = ANET_ERR then (ANET_ERR, m2)
      else if r3 = ANET_ERR then (ANET_ERR, m3) else if r4 = ANET_ERR then (ANET_ERR, m4) else (t, m4))"
    unfolding Cons.prems [symmetric] server_loop.simps 1 Let_def prod.case 2 3 4 by (rule refl)
  have o: "opened n t m1" "ailive m1 = ailive n" using sys_open_opened 1 by (simp_all add: sys_socket_def)
  show ?case
  proof (cases "t = - 1")
    case True
    then have "server_outcome b m1 s n1" using eq by (intro Cons.IH) simp
    then show ?thesis using o True by (auto simp: server_outcome_def opened_def split: if_splits)
  next
    case False
    have f2: "(r2 = - 1 \<and> fds m2 = fds m1 - {t} \<or> r2 = 0 \<and> fds m2 = fds m1)" "ailive m2 = ailive n"
      using 2 v6only_outcome [of t m1 r2 m2] o(2) by (auto split: if_splits)
    have f3: "fds m3 = fds m2" "ailive m3 = ailive n" using reuse_keeps [OF 3] f2(2) by (auto simp: keeps_def)
    have f4: "(r4 = - 1 \<and> fds m4 = fds m3 - {t} \<or> r4 = 0 \<and> fds m4 = fds m3)" "ailive m4 = ailive n"
      using anetListen_outcome [OF 4] f3(2) by auto
    have l: "r4 = 0 \<Longrightarrow> hd (ops m4) = Listening t b" using listen_last 4 by blast
    have n: "t \<notin> fds n" "fds m1 = insert t (fds n)" using o(1) False by (auto simp: opened_def)
    consider "r2 = - 1" | "r2 = 0" "r3 = - 1" | "r2 = 0" "r3 = 0" "r4 = - 1" | "r2 = 0" "r3 = 0" "r4 = 0"
      using f2(1) f4(1) reuse_ret [OF 3] by auto
    then show ?thesis
    proof cases
      case 2
      then have "s = - 1" "n1 = m3" using eq False by simp_all
      moreover have "fds m3 = insert t (fds n)" using f2 f3 n 2 by simp
      moreover have "unused t m3"
      proof -
        have "unused t m2"
          using v6 2(1) socket_unused [OF 1 False] v6only_unused by (auto split: if_splits)
        then show ?thesis using reuse_fails_ops 3 2(2) by (simp add: unused_def)
      qed
      ultimately show ?thesis using f3 n(1) by (auto simp: server_outcome_def)
    qed (use eq False f2 f3 f4 n l in \<open>auto simp: server_outcome_def\<close>)
  qed
qed

text \<open>
  \<open>_anetTcpServer\<close> returns the only new descriptor, bound and listening, or fails; when it
  fails no descriptor is left over, except when setting the address reuse of the socket
  failed: that socket stays open, unbound. The result of the resolver is always freed.
\<close>

theorem anetTcpServer_outcome:
  assumes "gen_anetTcpServer port bindaddr af backlog n = (s, n1)"
  shows "server_outcome backlog n s n1"
proof -
  define q where "q = \<lparr>q_host = bindaddr, q_service = Some (snprintf_d 6 port), q_flags = AI_PASSIVE,
               q_family = af, q_socktype = SOCK_STREAM\<rparr>"
  show ?thesis
  proof (cases "gai n q")
    case (Inl rv)
    then have "s = - 1 \<and> n1 = anetSetError (gai_strerror n rv) n"
      using assms by (auto simp: gen_anetTcpServer_def getaddrinfo_def q_def [symmetric] Let_def)
    then show ?thesis by (simp add: server_outcome_def)
  next
    case (Inr l)
    let ?m = "n\<lparr>ailive := Suc (ailive n)\<rparr>"
    obtain t m2 where c: "server_loop af backlog l ?m = (t, m2)" by fastforce
    have "s = t" "n1 = freeaddrinfo m2"
      using Inr c assms by (auto simp: gen_anetTcpServer_def Let_def q_def [symmetric] getaddrinfo_def)
    then show ?thesis using server_loop_outcome [OF c]
      by (auto simp: server_outcome_def freeaddrinfo_def unused_def)
  qed
qed

theorem anetTcpServer_outcome_witness:
  "\<exists>n1. gen_anetTcpServer 7 None AF_INET 5 (sample_net (\<lambda>i. ok_answer (if i = 0 then 3 else - 1)) one_addr) = (- 1, n1) \<and>
     3 \<in> fds n1 \<and> server_outcome 5 (sample_net (\<lambda>i. ok_answer (if i = 0 then 3 else - 1)) one_addr) (- 1) n1"
proof -
  let ?n = "sample_net (\<lambda>i. ok_answer (if i = 0 then 3 else - 1)) one_addr"
  have f: "fst (gen_anetTcpServer 7 None AF_INET 5 ?n) = - 1" "3 \<in> fds (snd (gen_anetTcpServer 7 None AF_INET 5 ?n))"
    by code_simp+
  obtain s n1 where c: "gen_anetTcpServer 7 None AF_INET 5 ?n = (s, n1)" by fastforce
  then show ?thesis using anetTcpServer_outcome [OF c] f by simp
qed

subsection \<open>Reading\<close>

definition stream :: "net \<Rightarrow> nat \<Rightarrow> char list" where
  \<comment> \<open>what the next \<open>m\<close> calls of \<open>read\<close> find\<close>
  "stream n m = concat (map (\<lambda>i. bytes (kern n (ncalls n + i))) [0..<m])"

lemma stream_Suc: "stream n (Suc m) = bytes (kern n (ncalls n)) @ stream (snd (sys n)) m"
proof -
  have "[0..<Suc m] = 0 # map Suc [0..<m]" by (simp add: map_Suc_upt upt_conv_Cons del: upt_Suc)
  then show ?thesis by (simp add: stream_def sys_def Let_def comp_def del: upt_Suc)
qed

lemma sys_fields: "sys n = (a, n1) \<Longrightarrow> a = kern n (ncalls n) \<and> kern n1 = kern n \<and> ncalls n1 = Suc (ncalls n)"
  by (auto simp: sys_def Let_def split: if_splits)

definition filled :: "char list \<Rightarrow> nat \<Rightarrow> char list \<Rightarrow> char list" where
  \<comment> \<open>the buffer with \<open>d\<close> stored at offset \<open>t\<close>\<close>
  "filled b t d = take t b @ d @ drop (t + length d) b"

lemma filled_twice:
  assumes "t + length d + length e \<le> length b"
  shows "filled (filled b t d) (t + length d) e = filled b t (d @ e)"
proof -
  have "length (take t b) = t" using assms by simp
  then show ?thesis by (simp add: filled_def add.commute add.left_commute)
qed

lemma filled_nil: "t \<le> length b \<Longrightarrow> filled b t [] = b"
  by (simp add: filled_def)

lemma length_filled: "t + length d \<le> length b \<Longrightarrow> length (filled b t d) = length b"
  by (simp add: filled_def)

lemma anetRead_reads:
  assumes "t \<le> c" "c \<le> length b" "c < 2147483648" "c - t \<le> fuel"
  shows "\<exists>m r b1 n1. anetRead fuel fd b (int c) (int t) n = Inr ((r, b1), n1) \<and> ncalls n1 = ncalls n + m \<and>
    (if r = - 1 then 0 < m \<and> ret (kern n (ncalls n + m - 1)) = - 1
     else b1 = filled b t (take (c - t) (stream n m)) \<and> r = int (t + length (take (c - t) (stream n m))) \<and>
       (r < int c \<longrightarrow> 0 < m \<and> bytes (kern n (ncalls n + m - 1)) = []))"
  using assms
proof (induction fuel arbitrary: t b n)
  case 0
  then show ?case
    by (intro exI [of _ 0] exI [of _ "int t"] exI [of _ b] exI [of _ n]) (simp add: anetRead.simps filled_nil)
next
  case (Suc k)
  show ?case
  proof (cases "t = c")
    case True
    then show ?thesis using Suc.prems
      by (intro exI [of _ 0] exI [of _ "int t"] exI [of _ b] exI [of _ n]) (simp add: anetRead.simps filled_nil)
  next
    case False
    obtain a n1 where a: "sys n = (a, n1)" by fastforce
    note s = sys_fields [OF a]
    let ?got = "take (c - t) (bytes a)"
    have w: "nat (u64 (int c - int t)) = c - t" using Suc.prems False by (simp add: u64_id)
    have step: "anetRead (Suc k) fd b (int c) (int t) n =
        (if ret a = - 1 then Inr ((- 1, b), n1) else if ?got = [] then Inr ((int t, b), n1)
         else rbind (write_bytes b (int t) ?got) (\<lambda>b1. anetRead k fd b1 (int c) (int (t + length ?got)) n1))"
      using False a w by (subst anetRead.simps) (simp add: Let_def)
    have one: "stream n (Suc 0) = bytes a" using s by (simp add: stream_def)
    show ?thesis
    proof (cases "ret a = - 1 \<or> ?got = []")
      case True
      then show ?thesis using s step one False Suc.prems
        by (intro exI [of _ "Suc 0"]) (auto simp: filled_nil)
    next
      case go: False
      let ?t = "t + length ?got" and ?b = "filled b t ?got"
      have le: "?t \<le> c" using Suc.prems by simp
      have wr: "write_bytes b (int t) ?got = Inr ?b"
        using le Suc.prems by (subst write_bytes_in) (auto simp: filled_def)
      have "0 < length ?got" using go by simp
      then have "c - ?t \<le> k" using Suc.prems(4) by linarith
      from Suc.IH [OF le _ Suc.prems(3) this, of ?b n1] obtain m r b1 n2 where
        IH: "anetRead k fd ?b (int c) (int ?t) n1 = Inr ((r, b1), n2)" "ncalls n2 = ncalls n1 + m"
        "if r = - 1 then 0 < m \<and> ret (kern n1 (ncalls n1 + m - 1)) = - 1
         else b1 = filled ?b ?t (take (c - ?t) (stream n1 m)) \<and> r = int (?t + length (take (c - ?t) (stream n1 m))) \<and>
           (r < int c \<longrightarrow> 0 < m \<and> bytes (kern n1 (ncalls n1 + m - 1)) = [])"
        using Suc.prems(2) le length_filled [of t ?got b] by auto
      have st: "stream n (Suc m) = bytes a @ stream n1 m" using stream_Suc [of n m] s a by simp
      have tk: "take (c - t) (stream n (Suc m)) = ?got @ take (c - ?t) (stream n1 m)"
        by (cases "length (bytes a) \<le> c - t") (simp_all add: st)
      have fl: "filled ?b ?t (take (c - ?t) (stream n1 m)) = filled b t (take (c - t) (stream n (Suc m)))"
      proof -
        have "length (take (c - ?t) (stream n1 m)) \<le> c - ?t" by simp
        then have "?t + length (take (c - ?t) (stream n1 m)) \<le> length b"
          using le Suc.prems(2) by linarith
        then show ?thesis unfolding tk by (rule filled_twice)
      qed
      have "anetRead (Suc k) fd b (int c) (int t) n = Inr ((r, b1), n2)" using step go wr IH(1) by simp
      moreover have "ncalls n2 = ncalls n + Suc m" using IH(2) s by simp
      ultimately show ?thesis using IH(3) s fl tk
        by (intro exI [of _ "Suc m"] exI [of _ r] exI [of _ b1] exI [of _ n2]) (auto split: if_splits)
    qed
  qed
qed

text \<open>
  \<open>anetRead\<close> ends after at most as many reads as bytes asked for: it returns -1 when a
  read fails; otherwise the buffer starts with the bytes of the stream in order, up to the
  count, the result is their number, and it is short only when a read found the end of the
  stream. Nothing is stored behind the bytes read.
\<close>

theorem anetRead_fills_in_order:
  assumes "count \<le> length b" "count < 2147483648" "count \<le> fuel"
  shows "\<exists>m r b1 n1. anetRead fuel fd b (int count) 0 n = Inr ((r, b1), n1) \<and> ncalls n1 = ncalls n + m \<and>
    (if r = - 1 then 0 < m \<and> ret (kern n (ncalls n + m - 1)) = - 1
     else let d = take count (stream n m) in
       b1 = d @ drop (length d) b \<and> r = int (length d) \<and>
       (r < int count \<longrightarrow> 0 < m \<and> bytes (kern n (ncalls n + m - 1)) = []))"
proof -
  have "count - 0 \<le> fuel" using assms(3) by simp
  from anetRead_reads [OF le0 assms(1,2) this, of fd n] show ?thesis
    by (simp only: filled_def take_0 append_Nil add_0 minus_nat.diff_0 Let_def semiring_1_class.of_nat_0)
qed

definition chunks :: "nat \<Rightarrow> answer" where
  "chunks i = (ok_answer 2)\<lparr>bytes := (if i = 0 then ''ab'' else if i = 1 then ''cde'' else [])\<rparr>"

theorem anetRead_fills_in_order_witness:
  "\<exists>n1. anetRead 4 3 ''......'' 4 0 (sample_net chunks one_addr) = Inr ((4, ''abcd..''), n1) \<and> ncalls n1 = 2"
proof -
  let ?n = "sample_net chunks one_addr"
  have f: "map_sum id fst (anetRead 4 3 ''......'' 4 0 ?n) = Inr (4, ''abcd..'')"
    "(case anetRead 4 3 ''......'' 4 0 ?n of Inr (x, n1) \<Rightarrow> ncalls n1 = 2 | Inl e \<Rightarrow> False)"
    by code_simp+
  have "\<exists>m r b1 n1. anetRead 4 3 ''......'' (int 4) 0 ?n = Inr ((r, b1), n1) \<and> ncalls n1 = ncalls ?n + m"
    using anetRead_fills_in_order [of 4 "''......''" 4 3 ?n] by fastforce
  then show ?thesis using f by auto
qed

end
