(* ===== verification/Crypt_Hash.thy ===== *)
theory Crypt_Hash
  imports Prelude
begin

text \<open>
  The file encryption tool of \<open>mbedtls/crypt_and_hash/main.cpp\<close>: a single \<open>main\<close> that encrypts
  or decrypts a file with a cipher and authenticates it with a keyed hash. The definitions
  follow the blocks of \<open>main\<close>; every \<open>goto exit\<close> is the outcome \<open>GotoExit\<close>, which carries the
  state to the clean-up code, and an access outside of an array is the outcome \<open>Fault\<close>.

  The Mbed TLS library is not part of the repository: it is the parameter \<open>mbedtls\<close> of the
  definitions, a record of its functions. The operating system is the record \<open>fs\<close>: names lead
  to inodes, so that two names may lead to the same file, and the answers \<open>io\<close> of the device
  may cut every transfer short and refuse every seek.
\<close>

subsection \<open>The library and the operating system\<close>

record ('c, 'm) mbedtls =
  mbedtls_cipher_list :: "nat list"
  mbedtls_cipher_info_get_name :: "nat \<Rightarrow> char list"
  mbedtls_md_list :: "nat list"
  mbedtls_md_get_name :: "nat \<Rightarrow> char list"
  mbedtls_cipher_info_from_string :: "char list \<Rightarrow> nat option"
  mbedtls_cipher_info_get_key_bitlen :: "nat \<Rightarrow> nat"
  mbedtls_mode_is_gcm :: "nat \<Rightarrow> bool"
  mbedtls_cipher_get_block_size :: "nat \<Rightarrow> nat"
  mbedtls_cipher_init :: 'c
  mbedtls_cipher_setup :: "'c \<Rightarrow> nat \<Rightarrow> 'c option"
  mbedtls_cipher_setkey :: "'c \<Rightarrow> char list \<Rightarrow> nat \<Rightarrow> bool \<Rightarrow> 'c option"
  mbedtls_cipher_set_iv :: "'c \<Rightarrow> char list \<Rightarrow> 'c option"
  mbedtls_cipher_reset :: "'c \<Rightarrow> 'c option"
  mbedtls_cipher_update :: "'c \<Rightarrow> char list \<Rightarrow> (char list \<times> 'c) option"
  mbedtls_cipher_finish :: "'c \<Rightarrow> (char list \<times> 'c) option"
  MBEDTLS_MD_MAX_SIZE :: nat
  mbedtls_md_info_from_string :: "char list \<Rightarrow> nat option"
  mbedtls_md_get_size :: "nat \<Rightarrow> nat"
  mbedtls_md_init :: 'm
  mbedtls_md_setup :: "'m \<Rightarrow> nat \<Rightarrow> bool \<Rightarrow> 'm option"
  mbedtls_md_starts :: "'m \<Rightarrow> 'm option"
  mbedtls_md_update :: "'m \<Rightarrow> char list \<Rightarrow> 'm option"
  mbedtls_md_finish :: "'m \<Rightarrow> (char list \<times> 'm) option"
  mbedtls_md_hmac_starts :: "'m \<Rightarrow> char list \<Rightarrow> 'm option"
  mbedtls_md_hmac_update :: "'m \<Rightarrow> char list \<Rightarrow> 'm option"
  mbedtls_md_hmac_finish :: "'m \<Rightarrow> (char list \<times> 'm) option"

record fs =
  dir :: "char list \<Rightarrow> nat option"
  inodes :: "nat \<Rightarrow> char list"
  next_ino :: nat
  readable :: "char list \<Rightarrow> bool"
  writable :: "char list \<Rightarrow> bool"
  io :: "nat \<Rightarrow> int"
  nio :: nat

datatype msg =
    Usage
  | Listed "char list"
  | InvalidMode
  | NamesMustDiffer
  | FopenFailed "char list"
  | CipherNotFound "char list"
  | MdNotFound "char list"
  | LibraryError
  | SeekFailed
  | FreadFailed
  | FwriteFailed
  | TooShort
  | InvalidBlockSize
  | NotMultiple
  | HmacFailed

record ('c, 'm) proc =
  argv :: "char list list"
  IV :: "char list"
  key :: "char list"
  keylen :: nat
  digest :: "char list"
  buffer :: "char list"
  outbuf :: "char list"
  cipher_ctx :: 'c
  cipher_info :: nat
  md_ctx :: 'm
  md_info :: nat
  fin :: "(nat \<times> nat) option"
  fout :: "(nat \<times> nat) option"
  nopen :: int
  disk :: fs
  msgs :: "msg list"

datatype 's leave = Fault stop | GotoExit 's

type_synonym ('c, 'm) run = "('c, 'm) proc leave + ('c, 'm) proc"

definition say :: "msg \<Rightarrow> ('c, 'm) proc \<Rightarrow> ('c, 'm) proc" where
  "say m s = s\<lparr>msgs := msgs s @ [m]\<rparr>"

definition fail :: "msg \<Rightarrow> ('c, 'm) proc \<Rightarrow> ('c, 'm) proc leave + 'a" where
  "fail m s = Inl (GotoExit (say m s))"

definition guard :: "bool \<Rightarrow> msg \<Rightarrow> ('c, 'm) proc \<Rightarrow> ('c, 'm) run" where
  "guard b m s = (if b then Inr s else fail m s)"

definition need :: "'a option \<Rightarrow> msg \<Rightarrow> ('c, 'm) proc \<Rightarrow> ('c, 'm) proc leave + 'a" where
  "need r m s = (case r of None \<Rightarrow> fail m s | Some x \<Rightarrow> Inr x)"

definition mem :: "'a res \<Rightarrow> 's leave + 'a" where
  "mem r = (case r of Inl e \<Rightarrow> Inl (Fault e) | Inr x \<Rightarrow> Inr x)"

definition fopen_rb :: "char list \<Rightarrow> fs \<Rightarrow> nat option" where
  "fopen_rb name w = (if readable w name then dir w name else None)"

definition fopen_wb :: "char list \<Rightarrow> fs \<Rightarrow> (nat \<times> fs) option" where
  \<comment> \<open>mode \<open>wb+\<close>: an existing file is truncated, a missing one is created\<close>
  "fopen_wb name w =
     (if \<not> writable w name then None else
      case dir w name of
        Some i \<Rightarrow> Some (i, w\<lparr>inodes := (inodes w)(i := [])\<rparr>)
      | None \<Rightarrow> Some (next_ino w, w\<lparr>dir := (dir w)(name := Some (next_ino w)),
          inodes := (inodes w)(next_ino w := []), next_ino := Suc (next_ino w)\<rparr>))"

definition fread :: "nat \<Rightarrow> nat \<times> nat \<Rightarrow> fs \<Rightarrow> char list \<times> (nat \<times> nat) \<times> fs" where
  "fread n f w =
     (let d = take (min n (nat (io w (nio w)))) (drop (snd f) (inodes w (fst f))) in
      (d, (fst f, snd f + length d), w\<lparr>nio := Suc (nio w)\<rparr>))"

definition fwrite :: "char list \<Rightarrow> nat \<times> nat \<Rightarrow> fs \<Rightarrow> nat \<times> (nat \<times> nat) \<times> fs" where
  "fwrite d f w =
     (let x = take (nat (io w (nio w))) d; old = inodes w (fst f) in
      (length x, (fst f, snd f + length x),
       w\<lparr>inodes := (inodes w)(fst f := take (snd f) old @ x @ drop (snd f + length x) old),
         nio := Suc (nio w)\<rparr>))"

definition seek_ok :: "fs \<Rightarrow> bool \<times> fs" where
  "seek_ok w = (0 \<le> io w (nio w), w\<lparr>nio := Suc (nio w)\<rparr>)"

subsection \<open>Command line\<close>

definition MODE_ENCRYPT :: int where "MODE_ENCRYPT = 0"
definition MODE_DECRYPT :: int where "MODE_DECRYPT = 1"

definition atoi :: "char list \<Rightarrow> int" where
  "atoi t = s32 (strtol10 t)"

definition usage :: "('c, 'm) mbedtls \<Rightarrow> ('c, 'm) proc \<Rightarrow> ('c, 'm) proc" where
  \<comment> \<open>the lists of the library end with a zero\<close>
  "usage lib s = s\<lparr>msgs := msgs s @ Usage
       # map (\<lambda>i. Listed (mbedtls_cipher_info_get_name lib i)) (takeWhile (\<lambda>i. i \<noteq> 0) (mbedtls_cipher_list lib))
       @ map (\<lambda>i. Listed (mbedtls_md_get_name lib i)) (takeWhile (\<lambda>i. i \<noteq> 0) (mbedtls_md_list lib))\<rparr>"

definition open_files :: "('c, 'm) mbedtls \<Rightarrow> ('c, 'm) proc \<Rightarrow> ('c, 'm) proc leave + (int \<times> ('c, 'm) proc)" where
  "open_files lib s =
     (if length (argv s) \<noteq> 7 then Inl (GotoExit (usage lib s)) else
      let mode = atoi (argv s ! 1); a = argv s ! 2; b = argv s ! 3 in
      rbind (guard (mode = MODE_ENCRYPT \<or> mode = MODE_DECRYPT) InvalidMode s) (\<lambda>s.
      rbind (guard (a \<noteq> b) NamesMustDiffer s) (\<lambda>s.
      rbind (need (fopen_rb a (disk s)) (FopenFailed a) s) (\<lambda>i.
      let s1 = s\<lparr>fin := Some (i, 0), nopen := nopen s + 1\<rparr> in
      rbind (need (fopen_wb b (disk s1)) (FopenFailed b) s1) (\<lambda>(j, w).
      Inr (mode, s1\<lparr>fout := Some (j, 0), nopen := nopen s1 + 1, disk := w\<rparr>))))))"

definition setup_library :: "('c, 'm) mbedtls \<Rightarrow> ('c, 'm) proc \<Rightarrow> ('c, 'm) run" where
  "setup_library lib s =
     rbind (need (mbedtls_cipher_info_from_string lib (argv s ! 4)) (CipherNotFound (argv s ! 4)) s) (\<lambda>ci.
     rbind (need (mbedtls_cipher_setup lib (cipher_ctx s) ci) LibraryError s) (\<lambda>c.
     let s1 = s\<lparr>cipher_info := ci, cipher_ctx := c\<rparr> in
     rbind (need (mbedtls_md_info_from_string lib (argv s ! 5)) (MdNotFound (argv s ! 5)) s1) (\<lambda>mi.
     rbind (need (mbedtls_md_setup lib (md_ctx s1) mi True) LibraryError s1) (\<lambda>m.
     Inr (s1\<lparr>md_info := mi, md_ctx := m\<rparr>)))))"

subsection \<open>The key\<close>

definition xdigit :: "char \<Rightarrow> int option" where
  "xdigit c =
     (if 48 \<le> code c \<and> code c \<le> 57 then Some (code c - 48)
      else if 65 \<le> code c \<and> code c \<le> 70 then Some (code c - 55)
      else if 97 \<le> code c \<and> code c \<le> 102 then Some (code c - 87) else None)"

definition hex_value :: "char list \<Rightarrow> int" where
  "hex_value ds = foldl (\<lambda>v c. 16 * v + the (xdigit c)) 0 ds"

definition sscanf_02X :: "char list \<Rightarrow> int option" where
  \<comment> \<open>white space is skipped; then at most two characters: a sign and hexadecimal digits\<close>
  "sscanf_02X t =
     (let w = take 2 (dropWhile isspace t);
          neg = (w \<noteq> [] \<and> hd w = CHR ''-'');
          ds = (if w \<noteq> [] \<and> hd w \<in> {CHR ''-'', CHR ''+''} then tl w else w);
          hs = takeWhile (\<lambda>c. xdigit c \<noteq> None) ds in
      if hs = [] \<or> w = ''0x'' \<or> w = ''0X'' then None
      else Some (u32 (if neg then - hex_value hs else hex_value hs)))"

function hex_loop :: "char list \<Rightarrow> nat \<Rightarrow> nat \<Rightarrow> char list \<Rightarrow> (char list \<times> nat) res" where
  \<comment> \<open>\<open>p\<close> is the offset of the pointer in \<open>argv[6]\<close>; behind the terminator there is nothing to scan\<close>
  "hex_loop t p kl k =
     (if length t < p then Inl BadAccess else
      case sscanf_02X (drop p t) of
        None \<Rightarrow> Inr (k, kl)
      | Some n \<Rightarrow>
          if kl < 512 then rbind (poke k (int kl) (chr n)) (\<lambda>k1. hex_loop t (p + 2) (Suc kl) k1)
          else Inr (k, kl))"
  by pat_completeness auto

termination hex_loop
  by (relation "measure (\<lambda>(t, p, kl, k). length t + 1 - p)") auto

declare hex_loop.simps [simp del]

definition read_key :: "('c, 'm) proc \<Rightarrow> ('c, 'm) run" where
  "read_key s =
     (let t = argv s ! 6 in
      case fopen_rb t (disk s) of
        Some i \<Rightarrow>
          let s1 = s\<lparr>nopen := nopen s + 1\<rparr>; (d, f, w) = fread 512 (i, 0) (disk s1) in
          rbind (mem (write_bytes (key s1) 0 d)) (\<lambda>k.
          let s2 = s1\<lparr>key := k, keylen := length d, disk := w\<rparr> in
          Inr (s2\<lparr>nopen := nopen s2 - 1\<rparr>))
      | None \<Rightarrow>
          if take 4 t = ''hex:'' then
            rbind (mem (hex_loop t 4 0 (key s))) (\<lambda>(k, n). Inr (s\<lparr>key := k, keylen := n\<rparr>))
          else
            let n = min (length t) 512 in
            rbind (mem (write_bytes (key s) 0 (take n t))) (\<lambda>k.
            Inr (s\<lparr>key := k, keylen := n\<rparr>)))"

definition file_size :: "('c, 'm) proc \<Rightarrow> ('c, 'm) proc leave + (int \<times> ('c, 'm) proc)" where
  \<comment> \<open>\<open>lseek\<close> to the end, then \<open>fseek\<close> back to the start\<close>
  "file_size s =
     (let (ok, w) = seek_ok (disk s); i = fst (the (fin s)); n = length (inodes w i);
          s1 = s\<lparr>disk := w\<rparr> in
      rbind (guard ok SeekFailed s1) (\<lambda>s1.
      let s2 = s1\<lparr>fin := Some (i, n)\<rparr>; (ok2, w2) = seek_ok (disk s2); s3 = s2\<lparr>disk := w2\<rparr> in
      rbind (guard ok2 SeekFailed s3) (\<lambda>s3.
      Inr (int n, s3\<lparr>fin := Some (i, 0)\<rparr>))))"

subsection \<open>Hashing\<close>

definition on_md :: "'m option \<Rightarrow> ('c, 'm) proc \<Rightarrow> ('c, 'm) run" where
  "on_md r s = rbind (need r LibraryError s) (\<lambda>m. Inr (s\<lparr>md_ctx := m\<rparr>))"

definition on_cipher :: "'c option \<Rightarrow> ('c, 'm) proc \<Rightarrow> ('c, 'm) run" where
  "on_cipher r s = rbind (need r LibraryError s) (\<lambda>c. Inr (s\<lparr>cipher_ctx := c\<rparr>))"

definition to_digest :: "(char list \<times> 'm) option \<Rightarrow> ('c, 'm) proc \<Rightarrow> ('c, 'm) run" where
  "to_digest r s =
     rbind (need r LibraryError s) (\<lambda>(h, m).
     rbind (mem (write_bytes (digest s) 0 h)) (\<lambda>d.
     Inr (s\<lparr>digest := d, md_ctx := m\<rparr>)))"

definition to_output :: "(char list \<times> 'c) option \<Rightarrow> ('c, 'm) proc \<Rightarrow> ('c, 'm) proc leave + (nat \<times> ('c, 'm) proc)" where
  "to_output r s =
     rbind (need r LibraryError s) (\<lambda>(x, c).
     rbind (mem (write_bytes (outbuf s) 0 x)) (\<lambda>b.
     Inr (length x, s\<lparr>outbuf := b, cipher_ctx := c\<rparr>)))"

definition read_in :: "nat \<Rightarrow> ('c, 'm) proc \<Rightarrow> ('c, 'm) run" where
  \<comment> \<open>\<open>fread(buffer, 1, n, fin) != n\<close>\<close>
  "read_in n s =
     (let (d, f, w) = fread n (the (fin s)) (disk s) in
      rbind (mem (write_bytes (buffer s) 0 d)) (\<lambda>b.
      guard (length d = n) FreadFailed (s\<lparr>buffer := b, fin := Some f, disk := w\<rparr>)))"

definition write_out :: "char list \<Rightarrow> ('c, 'm) proc \<Rightarrow> ('c, 'm) run" where
  \<comment> \<open>\<open>fwrite(d, 1, n, fout) != n\<close>\<close>
  "write_out d s =
     (let (n, f, w) = fwrite d (the (fout s)) (disk s) in
      guard (n = length d) FwriteFailed (s\<lparr>fout := Some f, disk := w\<rparr>))"

definition size_bytes :: "int \<Rightarrow> char list" where
  \<comment> \<open>\<open>buffer[i] = (unsigned char)( filesize >> ( i << 3 ) )\<close>\<close>
  "size_bytes n = map (\<lambda>i. chr (n div 2 ^ (8 * i))) [0..<8]"

definition make_iv :: "('c, 'm) mbedtls \<Rightarrow> int \<Rightarrow> ('c, 'm) proc \<Rightarrow> ('c, 'm) run" where
  "make_iv lib filesize s =
     rbind (mem (write_bytes (buffer s) 0 (size_bytes filesize))) (\<lambda>b.
     let s = s\<lparr>buffer := b\<rparr> in
     rbind (on_md (mbedtls_md_starts lib (md_ctx s)) s) (\<lambda>s.
     rbind (on_md (mbedtls_md_update lib (md_ctx s) (take 8 (buffer s))) s) (\<lambda>s.
     rbind (on_md (mbedtls_md_update lib (md_ctx s) (argv s ! 2)) s) (\<lambda>s.
     rbind (to_digest (mbedtls_md_finish lib (md_ctx s)) s) (\<lambda>s.
     rbind (mem (read_bytes (digest s) 0 16)) (\<lambda>d.
     rbind (mem (write_bytes (IV s) 0 d)) (\<lambda>v.
     write_out (take 16 v) (s\<lparr>IV := v\<rparr>))))))))"

definition hash_once :: "('c, 'm) mbedtls \<Rightarrow> ('c, 'm) proc \<Rightarrow> ('c, 'm) run" where
  "hash_once lib s =
     rbind (on_md (mbedtls_md_starts lib (md_ctx s)) s) (\<lambda>s.
     rbind (mem (read_bytes (digest s) 0 32)) (\<lambda>d.
     rbind (on_md (mbedtls_md_update lib (md_ctx s) d) s) (\<lambda>s.
     rbind (mem (read_bytes (key s) 0 (int (keylen s)))) (\<lambda>k.
     rbind (on_md (mbedtls_md_update lib (md_ctx s) k) s) (\<lambda>s.
     to_digest (mbedtls_md_finish lib (md_ctx s)) s)))))"

fun hash_rounds :: "('c, 'm) mbedtls \<Rightarrow> nat \<Rightarrow> ('c, 'm) proc \<Rightarrow> ('c, 'm) run" where
  "hash_rounds lib 0 s = Inr s"
| "hash_rounds lib (Suc n) s = rbind (hash_once lib s) (hash_rounds lib n)"

definition derive_key :: "('c, 'm) mbedtls \<Rightarrow> ('c, 'm) proc \<Rightarrow> ('c, 'm) run" where
  \<comment> \<open>\<open>memset(digest, 0, 32); memcpy(digest, IV, 16);\<close> and the 8192 rounds\<close>
  "derive_key lib s =
     rbind (mem (write_bytes (digest s) 0 (replicate 32 NUL))) (\<lambda>d.
     rbind (mem (read_bytes (IV s) 0 16)) (\<lambda>v.
     rbind (mem (write_bytes d 0 v)) (\<lambda>d.
     hash_rounds lib 8192 (s\<lparr>digest := d\<rparr>))))"

definition start_cipher :: "('c, 'm) mbedtls \<Rightarrow> bool \<Rightarrow> ('c, 'm) proc \<Rightarrow> ('c, 'm) run" where
  \<comment> \<open>\<open>enc\<close>: \<open>MBEDTLS_ENCRYPT\<close>; the library reads as many bytes of \<open>digest\<close> as the key has\<close>
  "start_cipher lib enc s =
     (let bits = mbedtls_cipher_info_get_key_bitlen lib (cipher_info s) in
      rbind (mem (read_bytes (digest s) 0 (int ((bits + 7) div 8)))) (\<lambda>k.
      rbind (on_cipher (mbedtls_cipher_setkey lib (cipher_ctx s) k bits enc) s) (\<lambda>s.
      rbind (on_cipher (mbedtls_cipher_set_iv lib (cipher_ctx s) (take 16 (IV s))) s) (\<lambda>s.
      rbind (on_cipher (mbedtls_cipher_reset lib (cipher_ctx s)) s) (\<lambda>s.
      rbind (mem (read_bytes (digest s) 0 32)) (\<lambda>d.
      on_md (mbedtls_md_hmac_starts lib (md_ctx s) d) s))))))"

subsection \<open>Encryption\<close>

definition chunk_len :: "int \<Rightarrow> int \<Rightarrow> int \<Rightarrow> int" where
  \<comment> \<open>\<open>ilen\<close>: only \<open>filesize\<close> is converted to \<open>unsigned int\<close> before the subtraction\<close>
  "chunk_len filesize offset bs =
     (if u32 filesize - offset > bs then bs else u32 (filesize - offset))"

definition encrypt_chunk :: "('c, 'm) mbedtls \<Rightarrow> nat \<Rightarrow> ('c, 'm) proc \<Rightarrow> ('c, 'm) run" where
  "encrypt_chunk lib ilen s =
     rbind (read_in ilen s) (\<lambda>s.
     rbind (to_output (mbedtls_cipher_update lib (cipher_ctx s) (take ilen (buffer s))) s) (\<lambda>(olen, s).
     rbind (on_md (mbedtls_md_hmac_update lib (md_ctx s) (take olen (outbuf s))) s) (\<lambda>s.
     write_out (take olen (outbuf s)) s)))"

fun encrypt_loop :: "('c, 'm) mbedtls \<Rightarrow> nat \<Rightarrow> int \<Rightarrow> int \<Rightarrow> ('c, 'm) proc \<Rightarrow> ('c, 'm) run" where
  "encrypt_loop lib 0 filesize offset s = Inl (Fault NoFuel)"
| "encrypt_loop lib (Suc n) filesize offset s =
     (if offset < filesize then
        let bs = int (mbedtls_cipher_get_block_size lib (cipher_info s)) in
        rbind (encrypt_chunk lib (nat (chunk_len filesize offset bs)) s) (\<lambda>s.
        encrypt_loop lib n filesize (offset + bs) s)
      else Inr s)"

definition encrypt_tail :: "('c, 'm) mbedtls \<Rightarrow> ('c, 'm) proc \<Rightarrow> ('c, 'm) run" where
  "encrypt_tail lib s =
     rbind (to_output (mbedtls_cipher_finish lib (cipher_ctx s)) s) (\<lambda>(olen, s).
     rbind (on_md (mbedtls_md_hmac_update lib (md_ctx s) (take olen (outbuf s))) s) (\<lambda>s.
     rbind (write_out (take olen (outbuf s)) s) (\<lambda>s.
     rbind (to_digest (mbedtls_md_hmac_finish lib (md_ctx s)) s) (\<lambda>s.
     rbind (mem (read_bytes (digest s) 0 (int (mbedtls_md_get_size lib (md_info s))))) (\<lambda>d.
     write_out d s)))))"

definition encrypt :: "('c, 'm) mbedtls \<Rightarrow> nat \<Rightarrow> int \<Rightarrow> ('c, 'm) proc \<Rightarrow> ('c, 'm) run" where
  "encrypt lib fuel filesize s =
     rbind (make_iv lib filesize s) (\<lambda>s.
     rbind (derive_key lib s) (\<lambda>s.
     rbind (start_cipher lib True s) (\<lambda>s.
     rbind (encrypt_loop lib fuel filesize 0 s) (\<lambda>s.
     encrypt_tail lib s))))"

subsection \<open>Decryption\<close>

definition check_size :: "('c, 'm) mbedtls \<Rightarrow> int \<Rightarrow> ('c, 'm) proc \<Rightarrow> ('c, 'm) proc leave + (int \<times> ('c, 'm) proc)" where
  "check_size lib filesize s =
     (let msz = int (mbedtls_md_get_size lib (md_info s));
          bs = int (mbedtls_cipher_get_block_size lib (cipher_info s)) in
      rbind (guard (\<not> filesize < 16 + msz) TooShort s) (\<lambda>s.
      rbind (guard (bs \<noteq> 0) InvalidBlockSize s) (\<lambda>s.
      rbind (guard (\<not> (\<not> mbedtls_mode_is_gcm lib (cipher_info s) \<and> (filesize - msz) mod bs \<noteq> 0)) NotMultiple s) (\<lambda>s.
      Inr (filesize - (16 + msz), s)))))"

definition read_iv :: "('c, 'm) proc \<Rightarrow> ('c, 'm) run" where
  "read_iv s =
     rbind (read_in 16 s) (\<lambda>s.
     rbind (mem (write_bytes (IV s) 0 (take 16 (buffer s)))) (\<lambda>v.
     Inr (s\<lparr>IV := v\<rparr>)))"

definition decrypt_chunk :: "('c, 'm) mbedtls \<Rightarrow> nat \<Rightarrow> ('c, 'm) proc \<Rightarrow> ('c, 'm) run" where
  "decrypt_chunk lib ilen s =
     rbind (read_in ilen s) (\<lambda>s.
     rbind (on_md (mbedtls_md_hmac_update lib (md_ctx s) (take ilen (buffer s))) s) (\<lambda>s.
     rbind (to_output (mbedtls_cipher_update lib (cipher_ctx s) (take ilen (buffer s))) s) (\<lambda>(olen, s).
     write_out (take olen (outbuf s)) s)))"

fun decrypt_loop :: "('c, 'm) mbedtls \<Rightarrow> nat \<Rightarrow> int \<Rightarrow> int \<Rightarrow> ('c, 'm) proc \<Rightarrow> ('c, 'm) run" where
  "decrypt_loop lib 0 filesize offset s = Inl (Fault NoFuel)"
| "decrypt_loop lib (Suc n) filesize offset s =
     (if offset < filesize then
        let bs = int (mbedtls_cipher_get_block_size lib (cipher_info s)) in
        rbind (decrypt_chunk lib (nat (chunk_len filesize offset bs)) s) (\<lambda>s.
        decrypt_loop lib n filesize (offset + bs) s)
      else Inr s)"

definition byte :: "char \<Rightarrow> 8 word" where
  "byte c = of_char c"

definition diff_bytes :: "char list \<Rightarrow> char list \<Rightarrow> 8 word" where
  \<comment> \<open>\<open>diff |= digest[i] ^ buffer[i]\<close>\<close>
  "diff_bytes a b = foldl (\<lambda>diff (x, y). diff OR (byte x XOR byte y)) 0 (zip a b)"

definition verify_mac :: "('c, 'm) mbedtls \<Rightarrow> ('c, 'm) proc \<Rightarrow> ('c, 'm) run" where
  "verify_mac lib s =
     (let msz = mbedtls_md_get_size lib (md_info s) in
      rbind (to_digest (mbedtls_md_hmac_finish lib (md_ctx s)) s) (\<lambda>s.
      rbind (read_in msz s) (\<lambda>s.
      rbind (mem (read_bytes (digest s) 0 (int msz))) (\<lambda>a.
      rbind (mem (read_bytes (buffer s) 0 (int msz))) (\<lambda>b.
      guard (diff_bytes a b = 0) HmacFailed s)))))"

definition decrypt_tail :: "('c, 'm) mbedtls \<Rightarrow> ('c, 'm) proc \<Rightarrow> ('c, 'm) run" where
  "decrypt_tail lib s =
     rbind (verify_mac lib s) (\<lambda>s.
     rbind (to_output (mbedtls_cipher_finish lib (cipher_ctx s)) s) (\<lambda>(olen, s).
     write_out (take olen (outbuf s)) s))"

definition decrypt :: "('c, 'm) mbedtls \<Rightarrow> nat \<Rightarrow> int \<Rightarrow> ('c, 'm) proc \<Rightarrow> ('c, 'm) run" where
  "decrypt lib fuel filesize s =
     rbind (check_size lib filesize s) (\<lambda>(n, s).
     rbind (read_iv s) (\<lambda>s.
     rbind (derive_key lib s) (\<lambda>s.
     rbind (start_cipher lib False s) (\<lambda>s.
     rbind (decrypt_loop lib fuel n 0 s) (\<lambda>s.
     decrypt_tail lib s)))))"

subsection \<open>The program\<close>

definition clean_up :: "('c, 'm) proc \<Rightarrow> ('c, 'm) proc" where
  \<comment> \<open>the code behind \<open>exit:\<close>\<close>
  "clean_up s =
     (let closed = (if fin s \<noteq> None then 1 else 0) + (if fout s \<noteq> None then 1 else 0) in
      s\<lparr>nopen := nopen s - closed, fin := None, fout := None,
        argv := map (\<lambda>a. replicate (length a) NUL) (argv s),
        IV := replicate 16 NUL, key := replicate 512 NUL, buffer := replicate 1024 NUL,
        outbuf := replicate 1024 NUL, digest := replicate (length (digest s)) NUL\<rparr>)"

definition body :: "('c, 'm) mbedtls \<Rightarrow> nat \<Rightarrow> ('c, 'm) proc \<Rightarrow> ('c, 'm) run" where
  "body lib fuel s =
     rbind (open_files lib s) (\<lambda>(mode, s).
     rbind (setup_library lib s) (\<lambda>s.
     rbind (read_key s) (\<lambda>s.
     rbind (file_size s) (\<lambda>(filesize, s).
     rbind (if mode = MODE_ENCRYPT then encrypt lib fuel filesize s else Inr s) (\<lambda>s.
     if mode = MODE_DECRYPT then decrypt lib fuel filesize s else Inr s)))))"

definition start :: "('c, 'm) mbedtls \<Rightarrow> char list list \<Rightarrow> (nat \<Rightarrow> char) \<Rightarrow> fs \<Rightarrow> ('c, 'm) proc" where
  \<comment> \<open>the arrays on the stack are not initialised: \<open>junk\<close> is what they hold\<close>
  "start lib args junk w =
     \<lparr>argv = args, IV = map junk [0..<16], key = map junk [0..<512], keylen = 0,
      digest = map junk [0..<MBEDTLS_MD_MAX_SIZE lib], buffer = map junk [0..<1024],
      outbuf = map junk [0..<1024], cipher_ctx = mbedtls_cipher_init lib, cipher_info = 0,
      md_ctx = mbedtls_md_init lib, md_info = 0, fin = None, fout = None, nopen = 0,
      disk = w, msgs = []\<rparr>"

definition crypt_main :: "('c, 'm) mbedtls \<Rightarrow> nat \<Rightarrow> char list list \<Rightarrow> (nat \<Rightarrow> char) \<Rightarrow> fs \<Rightarrow> (int \<times> ('c, 'm) proc) res" where
  \<comment> \<open>\<open>MBEDTLS_EXIT_SUCCESS\<close> is 0 and \<open>MBEDTLS_EXIT_FAILURE\<close> is 1\<close>
  "crypt_main lib fuel args junk w =
     (case body lib fuel (start lib args junk w) of
        Inl (Fault e) \<Rightarrow> Inl e
      | Inl (GotoExit s) \<Rightarrow> Inr (1, clean_up s)
      | Inr s \<Rightarrow> Inr (0, clean_up s))"

end
