(* ===== verification/Crypt_Spec.thy ===== *)
theory Crypt_Spec
  imports Crypt_Hash
begin

text \<open>
  What the file encryption tool does with a library that behaves as documented. The laws of
  the library are the predicates \<open>md_documented\<close> and \<open>cipher_documented\<close>: a hash context that
  was started and fed some text finishes with the hash of that text, and a cipher context
  that was keyed and fed some text finishes with the encryption of that text, which a
  decrypting context with the same key and vector turns back.
\<close>

subsection \<open>The laws of the library\<close>

definition md_documented ::
  "('c, 'm) mbedtls \<Rightarrow> nat \<Rightarrow> (char list \<Rightarrow> char list) \<Rightarrow> (char list \<Rightarrow> char list \<Rightarrow> char list) \<Rightarrow>
   ('m \<Rightarrow> bool) \<Rightarrow> ('m \<Rightarrow> char list \<Rightarrow> bool) \<Rightarrow> ('m \<Rightarrow> char list \<Rightarrow> char list \<Rightarrow> bool) \<Rightarrow> bool"
where
  "md_documented lib mi H HM idle hashing macing \<longleftrightarrow>
     16 \<le> mbedtls_md_get_size lib mi \<and> mbedtls_md_get_size lib mi \<le> MBEDTLS_MD_MAX_SIZE lib \<and>
     32 \<le> MBEDTLS_MD_MAX_SIZE lib \<and> MBEDTLS_MD_MAX_SIZE lib \<le> 64 \<and>
     (\<forall>x. length (H x) = mbedtls_md_get_size lib mi) \<and>
     (\<forall>k x. length (HM k x) = mbedtls_md_get_size lib mi) \<and>
     (\<exists>m. mbedtls_md_setup lib (mbedtls_md_init lib) mi True = Some m \<and> idle m) \<and>
     (\<forall>m. idle m \<longrightarrow> (\<exists>m1. mbedtls_md_starts lib m = Some m1 \<and> hashing m1 [])) \<and>
     (\<forall>m x d. hashing m x \<longrightarrow> (\<exists>m1. mbedtls_md_update lib m d = Some m1 \<and> hashing m1 (x @ d))) \<and>
     (\<forall>m x. hashing m x \<longrightarrow> (\<exists>m1. mbedtls_md_finish lib m = Some (H x, m1) \<and> idle m1)) \<and>
     (\<forall>m k. idle m \<longrightarrow> (\<exists>m1. mbedtls_md_hmac_starts lib m k = Some m1 \<and> macing m1 k [])) \<and>
     (\<forall>m k x d. macing m k x \<longrightarrow> (\<exists>m1. mbedtls_md_hmac_update lib m d = Some m1 \<and> macing m1 k (x @ d))) \<and>
     (\<forall>m k x. macing m k x \<longrightarrow> (\<exists>m1. mbedtls_md_hmac_finish lib m = Some (HM k x, m1)))"

definition cipher_documented ::
  "('c, 'm) mbedtls \<Rightarrow> nat \<Rightarrow> (char list \<Rightarrow> char list \<Rightarrow> char list \<Rightarrow> char list) \<Rightarrow> ('c \<Rightarrow> bool) \<Rightarrow>
   ('c \<Rightarrow> bool \<Rightarrow> char list \<Rightarrow> char list \<Rightarrow> char list \<Rightarrow> char list \<Rightarrow> bool) \<Rightarrow> bool"
where
  "cipher_documented lib ci E fresh streaming \<longleftrightarrow>
     0 < mbedtls_cipher_get_block_size lib ci \<and> mbedtls_cipher_get_block_size lib ci dvd 16 \<and>
     (\<exists>c. mbedtls_cipher_setup lib (mbedtls_cipher_init lib) ci = Some c \<and> fresh c) \<and>
     (\<forall>c k enc iv. fresh c \<longrightarrow> length k = (mbedtls_cipher_info_get_key_bitlen lib ci + 7) div 8 \<longrightarrow> length iv = 16 \<longrightarrow>
        (\<exists>c1 c2 c3. mbedtls_cipher_setkey lib c k (mbedtls_cipher_info_get_key_bitlen lib ci) enc = Some c1 \<and>
           mbedtls_cipher_set_iv lib c1 iv = Some c2 \<and> mbedtls_cipher_reset lib c2 = Some c3 \<and>
           streaming c3 enc k iv [] [])) \<and>
     (\<forall>c enc k iv x y d. streaming c enc k iv x y \<longrightarrow> length d \<le> mbedtls_cipher_get_block_size lib ci \<longrightarrow>
        (\<exists>out c1. mbedtls_cipher_update lib c d = Some (out, c1) \<and> streaming c1 enc k iv (x @ d) (y @ out) \<and>
           length out \<le> length d + mbedtls_cipher_get_block_size lib ci)) \<and>
     (\<forall>c k iv x y. streaming c True k iv x y \<longrightarrow>
        (\<exists>out c1. mbedtls_cipher_finish lib c = Some (out, c1) \<and> y @ out = E k iv x \<and>
           length out \<le> mbedtls_cipher_get_block_size lib ci)) \<and>
     (\<forall>c k iv x y. streaming c False k iv (E k iv x) y \<longrightarrow>
        (\<exists>out c1. mbedtls_cipher_finish lib c = Some (out, c1) \<and> y @ out = x \<and>
           length out \<le> mbedtls_cipher_get_block_size lib ci))"

lemma chunk_len_eq:
  assumes "0 \<le> offset" "offset < u32 filesize" "0 < bs"
  shows "chunk_len filesize offset bs = min bs (u32 filesize - offset)"
proof -
  have "u32 (filesize - offset) = u32 (u32 filesize - offset)"
    by (simp add: u32_def mod_simps)
  moreover have "u32 (u32 filesize - offset) = u32 filesize - offset"
    using assms by (intro u32_id) (simp_all add: u32_def)
  ultimately show ?thesis by (simp add: chunk_len_def min_def)
qed

subsection \<open>The helpers when the library succeeds\<close>

lemma need_Some [simp]: "need (Some x) m s = Inr x"
  by (simp add: need_def)

lemma need_eq_Inr: "need r m s = Inr x \<longleftrightarrow> r = Some x"
  by (auto simp: need_def fail_def split: option.splits)

lemma mem_Inr [simp]: "mem (Inr x) = Inr x" and mem_Inl [simp]: "mem (Inl e) = Inl (Fault e)"
  by (simp_all add: mem_def)

lemma mem_eq_Inr [simp]: "mem r = Inr x \<longleftrightarrow> r = Inr x"
  by (cases r) (simp_all add: mem_def)

lemma guard_True [simp]: "guard True m s = Inr s"
  by (simp add: guard_def)

lemma guard_eq_Inr [simp]: "guard b m s = Inr x \<longleftrightarrow> b \<and> x = s"
  by (auto simp: guard_def fail_def)

lemma on_md_Some [simp]: "on_md (Some m) s = Inr (s\<lparr>md_ctx := m\<rparr>)"
  by (simp add: on_md_def)

lemma on_cipher_Some [simp]: "on_cipher (Some c) s = Inr (s\<lparr>cipher_ctx := c\<rparr>)"
  by (simp add: on_cipher_def)

lemma write_bytes_front: "length d \<le> length b \<Longrightarrow> write_bytes b 0 d = Inr (d @ drop (length d) b)"
  by (simp add: write_bytes_def)

lemma to_digest_Some:
  "length h \<le> length (digest s) \<Longrightarrow>
     to_digest (Some (h, m)) s = Inr (s\<lparr>digest := h @ drop (length h) (digest s), md_ctx := m\<rparr>)"
  by (simp add: to_digest_def write_bytes_front)

lemma to_output_Some:
  "length x \<le> length (outbuf s) \<Longrightarrow>
     to_output (Some (x, c)) s = Inr (length x, s\<lparr>outbuf := x @ drop (length x) (outbuf s), cipher_ctx := c\<rparr>)"
  by (simp add: to_output_def write_bytes_front)

subsection \<open>Key derivation\<close>

definition hash_step :: "(char list \<Rightarrow> char list) \<Rightarrow> char list \<Rightarrow> char list \<Rightarrow> char list" where
  "hash_step H k d = (let h = H (take 32 d @ k) in h @ drop (length h) d)"

lemma hash_once_runs:
  assumes doc: "md_documented lib mi H HM idle hashing macing" and "idle (md_ctx s)"
    and len: "length (digest s) = MBEDTLS_MD_MAX_SIZE lib" "keylen s \<le> length (key s)"
  shows "\<exists>m. hash_once lib s
      = Inr (s\<lparr>digest := hash_step H (take (keylen s) (key s)) (digest s), md_ctx := m\<rparr>) \<and> idle m"
proof -
  let ?d = "take 32 (digest s)" and ?k = "take (keylen s) (key s)"
  have size: "32 \<le> length (digest s)" "length (H (?d @ ?k)) \<le> length (digest s)"
    using doc len by (auto simp: md_documented_def)
  obtain m1 m2 m3 m4 where
    "mbedtls_md_starts lib (md_ctx s) = Some m1" "mbedtls_md_update lib m1 ?d = Some m2"
    "mbedtls_md_update lib m2 ?k = Some m3" "mbedtls_md_finish lib m3 = Some (H (?d @ ?k), m4)" "idle m4"
    using doc assms(2) unfolding md_documented_def by (metis append_Nil)
  then show ?thesis
    using size len(2) read_bytes_in0 [of 32 "digest s"] read_bytes_in0 [of "keylen s" "key s"]
    by (auto simp: hash_once_def to_digest_Some hash_step_def Let_def)
qed

lemma length_hash_step:
  "length (H (take 32 d @ k)) \<le> length d \<Longrightarrow> length (hash_step H k d) = length d"
  by (simp add: hash_step_def Let_def)

lemma hash_rounds_runs:
  assumes "md_documented lib mi H HM idle hashing macing" "idle (md_ctx s)"
    "length (digest s) = MBEDTLS_MD_MAX_SIZE lib" "keylen s \<le> length (key s)"
  shows "\<exists>m. hash_rounds lib n s
      = Inr (s\<lparr>digest := (hash_step H (take (keylen s) (key s)) ^^ n) (digest s), md_ctx := m\<rparr>) \<and> idle m"
  using assms(2-4)
proof (induction n arbitrary: s)
  case 0
  then show ?case by (intro exI [of _ "md_ctx s"]) simp
next
  case (Suc n)
  obtain m where m: "hash_once lib s
      = Inr (s\<lparr>digest := hash_step H (take (keylen s) (key s)) (digest s), md_ctx := m\<rparr>)" "idle m"
    using hash_once_runs [OF assms(1) Suc(2-4)] by blast
  let ?s = "s\<lparr>digest := hash_step H (take (keylen s) (key s)) (digest s), md_ctx := m\<rparr>"
  have "length (digest ?s) = MBEDTLS_MD_MAX_SIZE lib"
    using Suc(3) assms(1) by (simp add: length_hash_step md_documented_def)
  then have "\<exists>m'. hash_rounds lib n ?s
      = Inr (?s\<lparr>digest := (hash_step H (take (keylen ?s) (key ?s)) ^^ n) (digest ?s), md_ctx := m'\<rparr>) \<and> idle m'"
    using m(2) Suc(4) by (intro Suc(1)) simp_all
  then show ?case using m(1) by (auto simp: funpow_swap1 [symmetric])
qed

definition derived :: "(char list \<Rightarrow> char list) \<Rightarrow> char list \<Rightarrow> char list \<Rightarrow> char list \<Rightarrow> char list" where
  \<comment> \<open>the array \<open>digest\<close> behind the rounds; \<open>junk\<close> is what it held behind its first 32 bytes\<close>
  "derived H k iv junk = (hash_step H k ^^ 8192) (iv @ replicate 16 NUL @ junk)"

lemma derive_key_runs:
  assumes doc: "md_documented lib mi H HM idle hashing macing" and "idle (md_ctx s)"
    and len: "length (digest s) = MBEDTLS_MD_MAX_SIZE lib" "keylen s \<le> length (key s)" "length (IV s) = 16"
  shows "\<exists>m. derive_key lib s
      = Inr (s\<lparr>digest := derived H (take (keylen s) (key s)) (IV s) (drop 32 (digest s)), md_ctx := m\<rparr>) \<and> idle m"
proof -
  let ?d = "IV s @ replicate 16 NUL @ drop 32 (digest s)" let ?s = "s\<lparr>digest := ?d\<rparr>"
  have l: "32 \<le> length (digest s)" using doc len(1) by (simp add: md_documented_def)
  have "derive_key lib s = hash_rounds lib 8192 ?s"
    using l len(3) write_bytes_front [of "replicate 32 NUL" "digest s"] read_bytes_all [of "IV s"]
    by (simp add: derive_key_def write_bytes_def)
  moreover have "length (digest ?s) = MBEDTLS_MD_MAX_SIZE lib" using l len by simp
  ultimately show ?thesis
    using hash_rounds_runs [OF doc, of ?s 8192] assms(2) len(2) by (simp add: derived_def)
qed

lemma hash_step_agree:
  assumes "\<And>x. length (H x) = n" "take 32 d = take 32 d'" "length d = length d'"
  shows "take (max 32 n) (hash_step H k d) = take (max 32 n) (hash_step H k d')"
proof (cases "n \<le> 32")
  case True
  have "take (32 - n) (drop n d) = take (32 - n) (drop n d')"
    using assms(2) by (simp add: drop_take [symmetric])
  then show ?thesis using True assms by (simp add: hash_step_def Let_def max_def)
qed (simp add: hash_step_def Let_def assms max_def)

lemma hash_steps_agree:
  assumes "\<And>x. length (H x) = n" "take 32 d = take 32 d'" "length d = length d'" "n \<le> length d"
  shows "take 32 ((hash_step H k ^^ i) d) = take 32 ((hash_step H k ^^ i) d') \<and>
    length ((hash_step H k ^^ i) d) = length d \<and> length ((hash_step H k ^^ i) d') = length d"
proof (induction i)
  case (Suc i)
  let ?a = "(hash_step H k ^^ i) d" and ?b = "(hash_step H k ^^ i) d'"
  have "take (max 32 n) (hash_step H k ?a) = take (max 32 n) (hash_step H k ?b)"
    using Suc by (intro hash_step_agree assms(1)) simp_all
  from arg_cong [OF this, of "take 32"]
  have "take 32 (hash_step H k ?a) = take 32 (hash_step H k ?b)" by simp
  then show ?case using Suc assms(1,4) by (simp add: length_hash_step)
qed (use assms in simp)

lemma derived_agree:
  assumes "\<And>x. length (H x) = n" "n \<le> 32 + length j" "length j = length j'" "length iv = 16"
  shows "take (max 32 n) (derived H k iv j) = take (max 32 n) (derived H k iv j')"
proof -
  let ?f = "hash_step H k" and ?z = "replicate 16 NUL"
  have e: "(8192 :: nat) = Suc 8191" by simp
  have step: "(?f ^^ 8192) d = ?f ((?f ^^ 8191) d)" for d by (subst e) (simp only: funpow.simps comp_apply)
  have "take 32 (iv @ ?z @ j) = take 32 (iv @ ?z @ j')" using assms(4) by simp
  then have "take 32 ((?f ^^ 8191) (iv @ ?z @ j)) = take 32 ((?f ^^ 8191) (iv @ ?z @ j')) \<and>
      length ((?f ^^ 8191) (iv @ ?z @ j)) = length ((?f ^^ 8191) (iv @ ?z @ j'))"
    using hash_steps_agree [of H n "iv @ ?z @ j" "iv @ ?z @ j'" 8191 k, OF assms(1)] assms(2-4) by simp
  then show ?thesis unfolding derived_def step by (intro hash_step_agree assms(1)) simp_all
qed

subsection \<open>Reading, enciphering and writing one chunk\<close>

text \<open>
  While the loops run only the contents \<open>v\<close> of the output file \<open>j\<close> and the count of the
  system calls change on the disk.
\<close>

definition disk_is :: "fs \<Rightarrow> nat \<Rightarrow> char list \<Rightarrow> ('c, 'm) proc \<Rightarrow> bool" where
  "disk_is w j v s \<longleftrightarrow> (\<exists>n. disk s = w\<lparr>inodes := (inodes w)(j := v), nio := n\<rparr>)"

definition io_good :: "fs \<Rightarrow> bool" where
  "io_good w \<longleftrightarrow> (\<forall>n. 1024 < io w n)"

lemma read_in_runs:
  assumes "disk_is w j v s" "io_good w" "fin s = Some (i, p)" "i \<noteq> j" "length (buffer s) = 1024"
    and "n \<le> 1024" "p + n \<le> length (inodes w i)"
  shows "\<exists>b w1. read_in n s = Inr (s\<lparr>buffer := b, fin := Some (i, p + n), disk := w1\<rparr>) \<and> length b = 1024 \<and>
    take n b = take n (drop p (inodes w i)) \<and> disk_is w j v (s\<lparr>disk := w1\<rparr>)"
proof -
  obtain k where d: "disk s = w\<lparr>inodes := (inodes w)(j := v), nio := k\<rparr>"
    using assms(1) by (auto simp: disk_is_def)
  have "1024 < io w k" using assms(2) by (simp add: io_good_def)
  then have "min n (nat (io w k)) = n" using assms(6) by simp
  moreover have "length (take n (drop p (inodes w i))) = n" using assms(7) by simp
  ultimately show ?thesis
    using assms(3-7) d
    by (intro exI [of _ "take n (drop p (inodes w i)) @ drop n (buffer s)"]
        exI [of _ "w\<lparr>inodes := (inodes w)(j := v), nio := Suc k\<rparr>"])
      (auto simp: read_in_def fread_def Let_def write_bytes_front disk_is_def)
qed

lemma read_in_overflows:
  assumes "disk_is w j v s" "io_good w" "fin s = Some (i, p)" "i \<noteq> j" "length (buffer s) = 1024"
    and "1024 < n" "p + 1024 < length (inodes w i)"
  shows "read_in n s = Inl (Fault BadAccess)"
proof -
  obtain k where d: "disk s = w\<lparr>inodes := (inodes w)(j := v), nio := k\<rparr>"
    using assms(1) by (auto simp: disk_is_def)
  have "1024 < nat (io w k)" using assms(2) by (simp add: io_good_def zless_nat_eq_int_zless)
  then have "1024 < length (take (min n (nat (io w k))) (drop p (inodes w i)))" using assms(6,7) by simp
  then have "write_bytes (buffer s) 0 (take (min n (nat (io w k))) (drop p (inodes w i))) = Inl BadAccess"
    using assms(5) by (auto simp: write_bytes_def)
  then show ?thesis using assms(3-5) d by (simp add: read_in_def fread_def Let_def)
qed

lemma write_out_runs:
  assumes "disk_is w j v s" "io_good w" "fout s = Some (j, length v)" "length d \<le> 1024"
  shows "\<exists>w1. write_out d s = Inr (s\<lparr>fout := Some (j, length (v @ d)), disk := w1\<rparr>) \<and>
    disk_is w j (v @ d) (s\<lparr>disk := w1\<rparr>)"
proof -
  obtain k where d: "disk s = w\<lparr>inodes := (inodes w)(j := v), nio := k\<rparr>"
    using assms(1) by (auto simp: disk_is_def)
  have "1024 < io w k" using assms(2) by (simp add: io_good_def)
  then have "take (nat (io w k)) d = d" using assms(4) by simp
  then show ?thesis using assms(3) d by (auto simp: write_out_def fwrite_def Let_def disk_is_def)
qed

text \<open>
  The state of the loops: the input \<open>x\<close> was read from the file \<open>i\<close> behind its first \<open>from\<close> bytes,
  its image \<open>y\<close> was written to the file \<open>j\<close> behind \<open>pre\<close>, and the ciphertext \<open>z\<close> so far was
  given to the keyed hash.
\<close>

definition coding where
  "coding streaming macing enc K iv hk w i from j pre s0 x y s \<longleftrightarrow>
     streaming (cipher_ctx s) enc K iv x y \<and> macing (md_ctx s) hk (if enc then y else x) \<and>
     disk_is w j (pre @ y) s \<and> fin s = Some (i, from + length x) \<and> fout s = Some (j, length (pre @ y)) \<and>
     length (buffer s) = 1024 \<and> length (outbuf s) = 1024 \<and>
     cipher_info s = cipher_info s0 \<and> md_info s = md_info s0 \<and> digest s = digest s0"

lemma chunk_step:
  assumes cd: "cipher_documented lib ci E fresh streaming" and md: "md_documented lib mi H HM idle hashing macing"
    and inv: "coding streaming macing enc K iv hk w i from j pre s0 x y s"
    and fs: "io_good w" "i \<noteq> j" "from + length x + n \<le> length (inodes w i)"
    and n: "n \<le> mbedtls_cipher_get_block_size lib ci"
  shows "\<exists>out s'. (if enc then encrypt_chunk else decrypt_chunk) lib n s = Inr s' \<and>
    coding streaming macing enc K iv hk w i from j pre s0
      (x @ take n (drop (from + length x) (inodes w i))) (y @ out) s'"
proof -
  let ?bs = "mbedtls_cipher_get_block_size lib ci" and ?d = "take n (drop (from + length x) (inodes w i))"
  have bs: "?bs \<le> 16" using cd by (simp add: cipher_documented_def dvd_imp_le)
  have n1: "n \<le> 1024" using n bs by simp
  have inv': "disk_is w j (pre @ y) s" "fin s = Some (i, from + length x)" "length (buffer s) = 1024"
    using inv by (simp_all add: coding_def)
  obtain b w1 where r: "read_in n s = Inr (s\<lparr>buffer := b, fin := Some (i, from + length x + n), disk := w1\<rparr>)"
    "length b = 1024" "take n b = ?d" "disk_is w j (pre @ y) (s\<lparr>disk := w1\<rparr>)"
    using read_in_runs [OF inv'(1) fs(1) inv'(2) fs(2) inv'(3) n1 fs(3)] by blast
  have ld: "length ?d = n" using fs(3) by simp
  obtain out c where u: "mbedtls_cipher_update lib (cipher_ctx s) ?d = Some (out, c)"
    "streaming c enc K iv (x @ ?d) (y @ out)" "length out \<le> n + ?bs"
    using cd inv n ld unfolding cipher_documented_def coding_def by metis
  let ?z = "if enc then out else ?d"
  obtain m where m: "mbedtls_md_hmac_update lib (md_ctx s) ?z = Some m"
    "macing m hk ((if enc then y else x) @ ?z)"
    using md inv unfolding md_documented_def coding_def by metis
  let ?o = "out @ drop (length out) (outbuf s)"
  let ?s = "s\<lparr>buffer := b, fin := Some (i, from + length x + n), disk := w1, outbuf := ?o, cipher_ctx := c, md_ctx := m\<rparr>"
  have lo: "length out \<le> length (outbuf s)" "length out \<le> 1024" using u(3) n bs inv by (simp_all add: coding_def)
  have "disk_is w j (pre @ y) ?s" "fout ?s = Some (j, length (pre @ y))"
    using r(4) inv by (simp_all add: disk_is_def coding_def)
  then obtain w2 where w2: "write_out out ?s = Inr (?s\<lparr>fout := Some (j, length ((pre @ y) @ out)), disk := w2\<rparr>)"
    "disk_is w j ((pre @ y) @ out) (?s\<lparr>disk := w2\<rparr>)"
    using write_out_runs [OF _ fs(1) _ lo(2)] by blast
  have swap: "s\<lparr>buffer := b, fin := Some (i, from + length x + n), disk := w1, md_ctx := m, outbuf := ?o, cipher_ctx := c\<rparr> = ?s"
    by simp
  have "(if enc then encrypt_chunk else decrypt_chunk) lib n s = write_out out ?s"
    using r(1,3) u(1) m(1) lo(1)
    by (cases enc) (simp_all add: encrypt_chunk_def decrypt_chunk_def to_output_Some swap)
  then show ?thesis
    using w2 u(2) m(2) r(2) lo(1) inv ld
    by (intro exI [of _ out]) (auto simp: coding_def disk_is_def)
qed

definition code_loop where
  "code_loop enc = (if enc then encrypt_loop else decrypt_loop)"

lemma code_loop_Suc:
  "code_loop enc lib (Suc n) filesize offset s =
     (if offset < filesize then
        let bs = int (mbedtls_cipher_get_block_size lib (cipher_info s)) in
        rbind ((if enc then encrypt_chunk else decrypt_chunk) lib (nat (chunk_len filesize offset bs)) s)
          (\<lambda>s. code_loop enc lib n filesize (offset + bs) s)
      else Inr s)"
  by (simp add: code_loop_def)

text \<open>
  The loops go through the first \<open>filesize mod 2 ^ 32\<close> bytes block by block. For a file of at
  least 4 GiB they then ask for almost 4 GiB at once.
\<close>

lemma code_loop_chunk:
  assumes cd: "cipher_documented lib ci E fresh streaming" and md: "md_documented lib mi H HM idle hashing macing"
    and inv: "coding streaming macing enc K iv hk w i from j pre s0 x y s"
    and fs: "io_good w" "i \<noteq> j" "from + nat filesize \<le> length (inodes w i)"
    and x: "int (length x) = offset" "offset < u32 filesize" and ci: "cipher_info s = ci" and f: "0 \<le> filesize"
  shows "\<exists>d out s'. code_loop enc lib (Suc fuel) filesize offset s
      = code_loop enc lib fuel filesize (offset + int (mbedtls_cipher_get_block_size lib ci)) s' \<and>
    coding streaming macing enc K iv hk w i from j pre s0 (x @ d) (y @ out) s' \<and>
    x @ d = take (nat (min (u32 filesize) (offset + int (mbedtls_cipher_get_block_size lib ci)))) (x @ drop (from + length x) (inodes w i)) \<and>
    int (length (x @ d)) = min (u32 filesize) (offset + int (mbedtls_cipher_get_block_size lib ci))"
proof -
  let ?bs = "mbedtls_cipher_get_block_size lib ci"
  define n where "n = nat (chunk_len filesize offset (int ?bs))"
  have bs: "0 < ?bs" using cd by (simp add: cipher_documented_def)
  have le: "u32 filesize \<le> filesize" using f by (simp add: u32_def zmod_le_nonneg_dividend)
  have c: "int n = min (int ?bs) (u32 filesize - offset)"
    using chunk_len_eq [of offset filesize "int ?bs"] x bs unfolding n_def by simp
  have n1: "from + length x + n \<le> length (inodes w i)" "n \<le> ?bs" using c x fs(3) le by linarith+
  obtain out s' where s': "(if enc then encrypt_chunk else decrypt_chunk) lib n s = Inr s'"
    "coding streaming macing enc K iv hk w i from j pre s0
      (x @ take n (drop (from + length x) (inodes w i))) (y @ out) s'"
    using chunk_step [OF cd md inv fs(1,2) n1] by blast
  have m: "nat (min (u32 filesize) (offset + int ?bs)) = length x + n" using c x(1) by linarith
  have "offset < filesize" using x(2) le by simp
  then show ?thesis
    using s' ci n1(1) m c x(1)
    by (intro exI [of _ "take n (drop (from + length x) (inodes w i))"] exI [of _ out] exI [of _ s'])
      (simp add: code_loop_Suc n_def [symmetric] del: of_nat_add)
qed

lemma code_loop_runs:
  assumes cd: "cipher_documented lib ci E fresh streaming" and md: "md_documented lib mi H HM idle hashing macing"
    and fs: "io_good w" "i \<noteq> j" "from + nat filesize \<le> length (inodes w i)"
    and f: "0 \<le> filesize" "filesize < 4294967296" "nat filesize < fuel" and ci: "cipher_info s0 = ci"
    and inv: "coding streaming macing enc K iv hk w i from j pre s0 [] [] s"
  shows "\<exists>y s'. code_loop enc lib fuel filesize 0 s = Inr s' \<and>
    coding streaming macing enc K iv hk w i from j pre s0 (take (nat filesize) (drop from (inodes w i))) y s'"
proof -
  let ?bs = "int (mbedtls_cipher_get_block_size lib ci)" and ?all = "drop from (inodes w i)"
  have bs: "0 < ?bs" using cd by (simp add: cipher_documented_def)
  have u: "u32 filesize = filesize" using f by (intro u32_id) simp_all
  have "\<exists>y s'. code_loop enc lib fuel filesize offset s = Inr s' \<and>
      coding streaming macing enc K iv hk w i from j pre s0 (take (nat filesize) ?all) y s'"
    if "coding streaming macing enc K iv hk w i from j pre s0 x y s" "x = take (length x) ?all"
      "0 \<le> offset" "nat (filesize - offset) < fuel" "int (length x) = min filesize offset"
    for x y s offset
    using that
  proof (induction fuel arbitrary: x y s offset)
    case (Suc fuel)
    show ?case
    proof (cases "offset < filesize")
      case False
      then have "x = take (nat filesize) ?all" using Suc(3,6) by (metis min_def nat_int not_le less_le_not_le)
      then show ?thesis using False Suc(2) by (auto simp: code_loop_Suc)
    next
      case True
      have ci': "cipher_info s = ci" using Suc(2) ci by (simp add: coding_def)
      have lx: "int (length x) = offset" "offset < u32 filesize" using Suc(6) True u by auto
      have ap: "x @ drop (from + length x) (inodes w i) = ?all"
        using Suc(3) by (metis append_take_drop_id drop_drop add.commute)
      obtain d out s' where st: "code_loop enc lib (Suc fuel) filesize offset s = code_loop enc lib fuel filesize (offset + ?bs) s'"
        "coding streaming macing enc K iv hk w i from j pre s0 (x @ d) (y @ out) s'"
        "x @ d = take (nat (min filesize (offset + ?bs))) ?all" "int (length (x @ d)) = min filesize (offset + ?bs)"
        using code_loop_chunk [OF cd md Suc(2) fs lx ci' f(1), of fuel] unfolding u ap by blast
      have pre: "x @ d = take (length (x @ d)) ?all"
        using st(3) unfolding st(4) [symmetric] nat_int .
      show ?thesis
        unfolding st(1) using Suc(4,5) bs True by (intro Suc(1) [OF st(2) pre _ _ st(4)]) auto
    qed
  qed simp
  from this [OF inv, of 0] show ?thesis using f by simp
qed

lemma code_loop_overflows:
  assumes cd: "cipher_documented lib ci E fresh streaming" and md: "md_documented lib mi H HM idle hashing macing"
    and fs: "io_good w" "i \<noteq> j" "from + nat filesize \<le> length (inodes w i)"
    and f: "4294967296 \<le> filesize" "4294967296 < fuel" and ci: "cipher_info s0 = ci"
    and inv: "coding streaming macing enc K iv hk w i from j pre s0 [] [] s"
  shows "code_loop enc lib fuel filesize 0 s = Inl (Fault BadAccess)"
proof -
  let ?bs = "int (mbedtls_cipher_get_block_size lib ci)" and ?k = "u32 filesize"
  have bs: "0 < ?bs" "?bs \<le> 16" using cd by (simp_all add: cipher_documented_def dvd_imp_le)
  have k: "0 \<le> ?k" "?k < 4294967296" "?k + 4294967296 \<le> filesize"
  proof -
    have "0 \<le> filesize - 4294967296" using f(1) by simp
    then have "(filesize - 4294967296) mod 4294967296 \<le> filesize - 4294967296"
      by (rule zmod_le_nonneg_dividend)
    then show "?k + 4294967296 \<le> filesize" by (simp add: u32_def)
  qed (simp_all add: u32_def)
  have "code_loop enc lib fuel filesize offset s = Inl (Fault BadAccess)"
    if "coding streaming macing enc K iv hk w i from j pre s0 x y s" "int (length x) = min ?k offset"
      "0 \<le> offset" "offset \<le> ?k + 16" "nat (?k + 1 - offset) < fuel" for x y s offset
    using that
  proof (induction fuel arbitrary: x y s offset)
    case (Suc fuel)
    have ci': "cipher_info s = ci" using Suc(2) ci by (simp add: coding_def)
    have fz: "0 \<le> filesize" using f(1) by simp
    have room: "from + length x + 1024 < length (inodes w i)"
      using Suc(3) fs(3) k by linarith
    have u: "u32 (filesize - offset) = (?k - offset) mod 4294967296" by (simp add: u32_def mod_simps)
    consider "offset < ?k" | "offset = ?k" | "?k < offset" by linarith
    then show ?case
    proof cases
      case 1
      then have lx: "int (length x) = offset" using Suc(3) by simp
      obtain d out s' where st: "code_loop enc lib (Suc fuel) filesize offset s = code_loop enc lib fuel filesize (offset + ?bs) s'"
        "coding streaming macing enc K iv hk w i from j pre s0 (x @ d) (y @ out) s'"
        "int (length (x @ d)) = min ?k (offset + ?bs)"
        using code_loop_chunk [OF cd md Suc(2) fs lx 1 ci' fz, of fuel] by blast
      show ?thesis
        unfolding st(1) using Suc(4,6) bs 1 by (intro Suc(1) [OF st(2,3)]) auto
    next
      case 2
      have n: "from + length x + 0 \<le> length (inodes w i)" "0 \<le> mbedtls_cipher_get_block_size lib ci"
        using room by auto
      obtain out s' where s': "(if enc then encrypt_chunk else decrypt_chunk) lib 0 s = Inr s'"
        "coding streaming macing enc K iv hk w i from j pre s0 x (y @ out) s'"
        using chunk_step [OF cd md Suc(2) fs(1,2) n] by auto
      have "chunk_len filesize offset ?bs = 0" using 2 bs u by (simp add: chunk_len_def)
      then have "code_loop enc lib (Suc fuel) filesize offset s = code_loop enc lib fuel filesize (offset + ?bs) s'"
        using s'(1) ci' 2 k by (simp add: code_loop_Suc)
      then show ?thesis using Suc(1) [OF s'(2), of "offset + ?bs"] Suc(3,4,6) bs 2 by simp
    next
      case 3
      have "(?k - offset) mod 4294967296 = ?k - offset + 4294967296"
        using 3 Suc(5) mod_add_self2 [of "?k - offset" 4294967296] mod_pos_pos_trivial [of "?k - offset + 4294967296" 4294967296]
        by linarith
      then have "1024 < nat (chunk_len filesize offset ?bs)"
        using 3 bs u Suc(5) by (simp add: chunk_len_def)
      moreover have "disk_is w j (pre @ y) s" "fin s = Some (i, from + length x)" "length (buffer s) = 1024"
        using Suc(2) by (simp_all add: coding_def)
      ultimately have "read_in (nat (chunk_len filesize offset ?bs)) s = Inl (Fault BadAccess)"
        using fs(1,2) room by (intro read_in_overflows)
      then show ?thesis
        using ci' 3 k Suc(5) by (simp add: code_loop_Suc encrypt_chunk_def decrypt_chunk_def)
    qed
  qed simp
  from this [OF inv, of 0] show ?thesis using k f by simp
qed

subsection \<open>The blocks of main when nothing fails\<close>

lemma read_bytes_take: "n \<le> length b \<Longrightarrow> read_bytes b 0 (int n) = Inr (take n b)"
  by (simp add: read_bytes_def)

lemma read_bytes_num: "nat n \<le> length b \<Longrightarrow> 0 \<le> n \<Longrightarrow> read_bytes b 0 n = Inr (take (nat n) b)"
  by (simp add: read_bytes_def)

lemma start_cipher_runs:
  assumes cd: "cipher_documented lib ci E fresh streaming" and md: "md_documented lib mi H HM idle hashing macing"
    and s: "fresh (cipher_ctx s)" "idle (md_ctx s)" "cipher_info s = ci" "length (IV s) = 16"
    and d: "(mbedtls_cipher_info_get_key_bitlen lib ci + 7) div 8 \<le> length (digest s)" "32 \<le> length (digest s)"
  shows "\<exists>c m. start_cipher lib enc s = Inr (s\<lparr>cipher_ctx := c, md_ctx := m\<rparr>) \<and>
    streaming c enc (take ((mbedtls_cipher_info_get_key_bitlen lib ci + 7) div 8) (digest s)) (IV s) [] [] \<and>
    macing m (take 32 (digest s)) []"
proof -
  let ?bits = "mbedtls_cipher_info_get_key_bitlen lib ci"
  let ?k = "take ((?bits + 7) div 8) (digest s)" and ?h = "take 32 (digest s)"
  have lk: "length ?k = (?bits + 7) div 8" using d(1) by simp
  obtain c1 c2 c3 where c: "mbedtls_cipher_setkey lib (cipher_ctx s) ?k ?bits enc = Some c1"
    "mbedtls_cipher_set_iv lib c1 (IV s) = Some c2" "mbedtls_cipher_reset lib c2 = Some c3"
    "streaming c3 enc ?k (IV s) [] []"
    using cd s(1,4) lk unfolding cipher_documented_def by metis
  obtain m where m: "mbedtls_md_hmac_starts lib (md_ctx s) ?h = Some m" "macing m ?h []"
    using md s(2) unfolding md_documented_def by metis
  have "read_bytes (digest s) 0 (int ((?bits + 7) div 8)) = Inr ?k" "read_bytes (digest s) 0 32 = Inr ?h"
    using read_bytes_take [OF d(1)] read_bytes_num [of 32 "digest s"] d(2) by simp_all
  then have "start_cipher lib enc s = Inr (s\<lparr>cipher_ctx := c3, md_ctx := m\<rparr>)"
    using c m(1) s(3,4) by (simp add: start_cipher_def Let_def)
  then show ?thesis using c(4) m(2) by blast
qed

lemma make_iv_runs:
  assumes md: "md_documented lib mi H HM idle hashing macing" and s: "idle (md_ctx s)"
    "length (digest s) = MBEDTLS_MD_MAX_SIZE lib" "length (buffer s) = 1024" "length (IV s) = 16"
    and w: "disk_is w j [] s" "io_good w" "fout s = Some (j, 0)"
  shows "\<exists>b m d w1. let iv = take 16 (H (size_bytes n @ argv s ! 2));
      s' = s\<lparr>buffer := b, md_ctx := m, digest := d, IV := iv, fout := Some (j, 16), disk := w1\<rparr> in
    make_iv lib n s = Inr s' \<and> idle m \<and> length d = MBEDTLS_MD_MAX_SIZE lib \<and> length b = 1024 \<and>
    length iv = 16 \<and> disk_is w j iv s'"
proof -
  let ?x = "size_bytes n" and ?a = "argv s ! 2" let ?h = "H (?x @ ?a)" let ?iv = "take 16 ?h"
  let ?b = "?x @ drop 8 (buffer s)" and ?d = "?h @ drop (length ?h) (digest s)"
  have lx: "length ?x = 8" by (simp add: size_bytes_def)
  have lh: "16 \<le> length ?h" "length ?h \<le> length (digest s)" using md s(2) by (simp_all add: md_documented_def)
  obtain m1 m2 m3 m4 where m: "mbedtls_md_starts lib (md_ctx s) = Some m1"
    "mbedtls_md_update lib m1 ?x = Some m2" "mbedtls_md_update lib m2 ?a = Some m3"
    "mbedtls_md_finish lib m3 = Some (?h, m4)" "idle m4"
    using md s(1) unfolding md_documented_def by (metis append_Nil)
  let ?t = "s\<lparr>buffer := ?b, digest := ?d, md_ctx := m4, IV := ?iv\<rparr>"
  have st: "disk_is w j [] ?t" "fout ?t = Some (j, length [])" "length ?iv \<le> 1024"
    using w by (simp_all add: disk_is_def)
  obtain w1 where w1: "write_out ?iv ?t = Inr (?t\<lparr>fout := Some (j, length ([] @ ?iv)), disk := w1\<rparr>)"
    "disk_is w j ([] @ ?iv) (?t\<lparr>disk := w1\<rparr>)"
    using write_out_runs [OF st(1) w(2) st(2,3)] by blast
  have "write_bytes (buffer s) 0 ?x = Inr ?b" using lx s(3) by (simp add: write_bytes_front)
  moreover have "read_bytes ?d 0 16 = Inr ?iv" using lh by (simp add: read_bytes_num)
  moreover have "write_bytes (IV s) 0 ?iv = Inr ?iv" using lh(1) s(4) by (simp add: write_bytes_front)
  ultimately have "make_iv lib n s = write_out ?iv ?t"
    using m(1-4) lx lh(2) by (simp add: make_iv_def Let_def to_digest_Some)
  then show ?thesis
    using w1 m(5) lh lx s(3) unfolding Let_def
    by (intro exI [of _ ?b] exI [of _ m4] exI [of _ ?d] exI [of _ w1])
      (simp add: s(2) [symmetric] disk_is_def)
qed

lemma encrypt_tail_runs:
  assumes cd: "cipher_documented lib ci E fresh streaming" and md: "md_documented lib mi H HM idle hashing macing"
    and inv: "coding streaming macing True K iv hk w i from j pre s0 x y s" and w: "io_good w"
    and s: "md_info s = mi" "length (digest s) = MBEDTLS_MD_MAX_SIZE lib"
  shows "\<exists>s'. encrypt_tail lib s = Inr s' \<and> disk_is w j (pre @ E K iv x @ HM hk (E K iv x)) s'"
proof -
  let ?C = "E K iv x" let ?M = "HM hk ?C" and ?n = "mbedtls_md_get_size lib mi"
  have lM: "length ?M = ?n" "?n \<le> length (digest s)" "?n \<le> 1024" using md s(2) by (auto simp: md_documented_def)
  have bs: "mbedtls_cipher_get_block_size lib ci \<le> 16" using cd by (simp add: cipher_documented_def dvd_imp_le)
  obtain out c where c: "mbedtls_cipher_finish lib (cipher_ctx s) = Some (out, c)" "y @ out = ?C"
    "length out \<le> mbedtls_cipher_get_block_size lib ci"
    using cd inv unfolding cipher_documented_def coding_def by metis
  obtain m m1 where m: "mbedtls_md_hmac_update lib (md_ctx s) out = Some m" "mbedtls_md_hmac_finish lib m = Some (?M, m1)"
    using md inv c(2) unfolding md_documented_def coding_def by metis
  let ?s = "s\<lparr>outbuf := out @ drop (length out) (outbuf s), cipher_ctx := c, md_ctx := m\<rparr>"
  have lo: "length out \<le> length (outbuf s)" "length out \<le> 1024" using c(3) bs inv by (simp_all add: coding_def)
  have st: "disk_is w j (pre @ y) ?s" "fout ?s = Some (j, length (pre @ y))"
    using inv by (simp_all add: coding_def disk_is_def)
  obtain w1 where w1: "write_out out ?s = Inr (?s\<lparr>fout := Some (j, length ((pre @ y) @ out)), disk := w1\<rparr>)"
    "disk_is w j ((pre @ y) @ out) (?s\<lparr>disk := w1\<rparr>)"
    using write_out_runs [OF st(1) w st(2) lo(2)] by blast
  let ?t = "?s\<lparr>fout := Some (j, length ((pre @ y) @ out)), disk := w1,
      digest := ?M @ drop ?n (digest s), md_ctx := m1\<rparr>"
  have st1: "disk_is w j ((pre @ y) @ out) ?t" "fout ?t = Some (j, length ((pre @ y) @ out))" "length ?M \<le> 1024"
    using w1(2) lM by (simp_all add: disk_is_def)
  obtain s' where s': "write_out ?M ?t = Inr s'" "disk_is w j (((pre @ y) @ out) @ ?M) s'"
    using write_out_runs [OF st1(1) w st1(2,3)] by (fastforce simp: disk_is_def)
  have "encrypt_tail lib s = write_out ?M ?t"
    using c(1) m w1(1) lo(1) s(1) lM(1,2)
    by (simp add: encrypt_tail_def to_output_Some to_digest_Some read_bytes_def)
  then show ?thesis using s' c(2) by (metis append.assoc)
qed

lemma diff_bytes_zero:
  assumes "length a = length b"
  shows "diff_bytes a b = 0 \<longleftrightarrow> a = b"
proof -
  have or0: "x OR (y XOR z) = 0 \<longleftrightarrow> x = 0 \<and> y = z" for x y z :: "8 word"
    by (metis or_eq_0_iff xor.right_neutral xor_self_eq xor.assoc xor.left_neutral)
  have inj: "byte c = byte d \<longleftrightarrow> c = d" for c d
  proof -
    have "unat (byte c) = of_char c" for c
    proof -
      have "byte c = of_nat (of_char c)" by (simp only: byte_def of_nat_of_char)
      then show ?thesis using nat_of_char_less_256 [of c] by (simp only: unat_of_nat) (simp add: take_bit_nat_eq_self)
    qed
    then show ?thesis by (metis of_char_eq_iff)
  qed
  have "foldl (\<lambda>diff (x, y). diff OR (byte x XOR byte y)) e (zip a b) = 0 \<longleftrightarrow> e = 0 \<and> a = b" for e
    using assms by (induction a b arbitrary: e rule: list_induct2) (auto simp: or0 inj)
  then show ?thesis by (simp add: diff_bytes_def)
qed

lemma verify_mac_runs:
  assumes md: "md_documented lib mi H HM idle hashing macing" and m: "macing (md_ctx s) hk x"
    and s: "md_info s = mi" "length (digest s) = MBEDTLS_MD_MAX_SIZE lib" "length (buffer s) = 1024"
    and w: "disk_is w j v s" "io_good w" "fin s = Some (i, p)" "i \<noteq> j"
      "p + mbedtls_md_get_size lib mi \<le> length (inodes w i)"
      "take (mbedtls_md_get_size lib mi) (drop p (inodes w i)) = HM hk x"
  shows "\<exists>d m b f w1. verify_mac lib s = Inr (s\<lparr>digest := d, md_ctx := m, buffer := b, fin := f, disk := w1\<rparr>) \<and>
    disk_is w j v (s\<lparr>disk := w1\<rparr>)"
proof -
  let ?n = "mbedtls_md_get_size lib mi" and ?M = "HM hk x"
  have l: "length ?M = ?n" "?n \<le> length (digest s)" "?n \<le> 1024" using md s(2) by (auto simp: md_documented_def)
  obtain m1 where m1: "mbedtls_md_hmac_finish lib (md_ctx s) = Some (?M, m1)"
    using md m unfolding md_documented_def by metis
  let ?s = "s\<lparr>digest := ?M @ drop ?n (digest s), md_ctx := m1\<rparr>"
  have st: "disk_is w j v ?s" "fin ?s = Some (i, p)" "length (buffer ?s) = 1024"
    using w s by (simp_all add: disk_is_def)
  obtain b w1 where r: "read_in ?n ?s = Inr (?s\<lparr>buffer := b, fin := Some (i, p + ?n), disk := w1\<rparr>)" "length b = 1024"
    "take ?n b = ?M" "disk_is w j v (?s\<lparr>disk := w1\<rparr>)"
    using read_in_runs [OF st(1) w(2) st(2) w(4) st(3) l(3) w(5)] unfolding w(6) by blast
  have "read_bytes (?M @ drop ?n (digest s)) 0 (int ?n) = Inr ?M" "read_bytes b 0 (int ?n) = Inr ?M"
    using l r(2,3) by (simp_all add: read_bytes_def)
  then have "verify_mac lib s = Inr (?s\<lparr>buffer := b, fin := Some (i, p + ?n), disk := w1\<rparr>)"
    using m1 r(1) l s(1) diff_bytes_zero [of ?M ?M] by (simp add: verify_mac_def Let_def to_digest_Some)
  then show ?thesis using r(4) by (fastforce simp: disk_is_def)
qed

lemma decrypt_tail_runs:
  assumes cd: "cipher_documented lib ci E fresh streaming" and md: "md_documented lib mi H HM idle hashing macing"
    and inv: "coding streaming macing False K iv hk w i from j pre s0 (E K iv x) y s"
    and w: "io_good w" "i \<noteq> j" "inodes w i = take from (inodes w i) @ E K iv x @ HM hk (E K iv x)"
      "from \<le> length (inodes w i)"
    and s: "md_info s = mi" "length (digest s) = MBEDTLS_MD_MAX_SIZE lib"
  shows "\<exists>s'. decrypt_tail lib s = Inr s' \<and> disk_is w j (pre @ x) s'"
proof -
  let ?C = "E K iv x" let ?M = "HM hk ?C"
  have lM: "length ?M = mbedtls_md_get_size lib mi" using md by (simp add: md_documented_def)
  have dr: "drop (from + length ?C) (inodes w i) = ?M"
  proof -
    have "drop (from + length ?C) (take from (inodes w i) @ ?C @ ?M) = ?M" using w(4) by simp
    then show ?thesis by (subst w(3))
  qed
  have le: "from + length ?C + mbedtls_md_get_size lib mi \<le> length (inodes w i)"
    using arg_cong [OF w(3), of length] lM w(4) by simp
  have st: "macing (md_ctx s) hk ?C" "disk_is w j (pre @ y) s" "fin s = Some (i, from + length ?C)"
    "length (buffer s) = 1024" "fout s = Some (j, length (pre @ y))" "length (outbuf s) = 1024"
    using inv by (simp_all add: coding_def)
  obtain d m b f w1 where v: "verify_mac lib s = Inr (s\<lparr>digest := d, md_ctx := m, buffer := b, fin := f, disk := w1\<rparr>)"
    "disk_is w j (pre @ y) (s\<lparr>disk := w1\<rparr>)"
    using verify_mac_runs [OF md st(1) s st(4) st(2) w(1) st(3) w(2) le] dr lM by auto
  obtain out c where c: "mbedtls_cipher_finish lib (cipher_ctx s) = Some (out, c)" "y @ out = x"
    "length out \<le> mbedtls_cipher_get_block_size lib ci"
    using cd inv unfolding cipher_documented_def coding_def by metis
  have "mbedtls_cipher_get_block_size lib ci \<le> 16" using cd by (simp add: cipher_documented_def dvd_imp_le)
  then have lo: "length out \<le> 1024" using c(3) by simp
  let ?t = "s\<lparr>digest := d, md_ctx := m, buffer := b, fin := f, disk := w1,
      outbuf := out @ drop (length out) (outbuf s), cipher_ctx := c\<rparr>"
  have st1: "disk_is w j (pre @ y) ?t" "fout ?t = Some (j, length (pre @ y))"
    using v(2) st(5) by (simp_all add: disk_is_def)
  obtain s' where s': "write_out out ?t = Inr s'" "disk_is w j ((pre @ y) @ out) s'"
    using write_out_runs [OF st1(1) w(1) st1(2) lo] by (fastforce simp: disk_is_def)
  have "decrypt_tail lib s = write_out out ?t"
    using v(1) c(1) lo st(6) by (simp add: decrypt_tail_def to_output_Some)
  then show ?thesis using s' c(2) by (metis append.assoc)
qed

subsection \<open>Encryption and decryption\<close>

definition prepared where
  "prepared lib ci mi fresh idle K w i j s \<longleftrightarrow>
     fresh (cipher_ctx s) \<and> idle (md_ctx s) \<and> cipher_info s = ci \<and> md_info s = mi \<and>
     length (digest s) = MBEDTLS_MD_MAX_SIZE lib \<and> length (buffer s) = 1024 \<and> length (outbuf s) = 1024 \<and>
     length (IV s) = 16 \<and> keylen s \<le> length (key s) \<and> take (keylen s) (key s) = K \<and>
     fin s = Some (i, 0) \<and> fout s = Some (j, 0) \<and> disk_is w j [] s \<and> io_good w \<and> i \<noteq> j"

abbreviation key_bytes where
  "key_bytes lib ci \<equiv> (mbedtls_cipher_info_get_key_bitlen lib ci + 7) div 8"

definition kdf where
  "kdf lib mi H K iv =
     take (max 32 (mbedtls_md_get_size lib mi)) (derived H K iv (replicate (MBEDTLS_MD_MAX_SIZE lib - 32) NUL))"

definition sealed where
  \<comment> \<open>the encrypted file: the vector, the ciphertext and its keyed hash\<close>
  "sealed lib ci mi H HM E K iv p =
     (let d = kdf lib mi H K iv; C = E (take (key_bytes lib ci) d) iv p in iv @ C @ HM (take 32 d) C)"

lemma take_kdf:
  assumes "md_documented lib mi H HM idle hashing macing" "length junk = MBEDTLS_MD_MAX_SIZE lib - 32" "length iv = 16"
    "n \<le> max 32 (mbedtls_md_get_size lib mi)"
  shows "take n (derived H K iv junk) = take n (kdf lib mi H K iv)"
proof -
  let ?m = "max 32 (mbedtls_md_get_size lib mi)"
  have "take ?m (derived H K iv junk) = kdf lib mi H K iv"
    unfolding kdf_def using assms by (intro derived_agree) (auto simp: md_documented_def)
  from arg_cong [OF this, of "take n"] show ?thesis using assms(4) by (simp add: min_def)
qed

lemma keyed_start:
  assumes cd: "cipher_documented lib ci E fresh streaming" and md: "md_documented lib mi H HM idle hashing macing"
    and s: "fresh (cipher_ctx s)" "idle (md_ctx s)" "cipher_info s = ci" "length (IV s) = 16"
      "length (digest s) = MBEDTLS_MD_MAX_SIZE lib" "keylen s \<le> length (key s)"
    and kb: "key_bytes lib ci \<le> max 32 (mbedtls_md_get_size lib mi)"
  shows "\<exists>d c m. rbind (derive_key lib s) (start_cipher lib enc) = Inr (s\<lparr>digest := d, cipher_ctx := c, md_ctx := m\<rparr>) \<and>
    length d = MBEDTLS_MD_MAX_SIZE lib \<and>
    streaming c enc (take (key_bytes lib ci) (kdf lib mi H (take (keylen s) (key s)) (IV s))) (IV s) [] [] \<and>
    macing m (take 32 (kdf lib mi H (take (keylen s) (key s)) (IV s))) []"
proof -
  let ?d = "derived H (take (keylen s) (key s)) (IV s) (drop 32 (digest s))"
  have l: "\<And>x. length (H x) = mbedtls_md_get_size lib mi" "32 \<le> MBEDTLS_MD_MAX_SIZE lib"
    "mbedtls_md_get_size lib mi \<le> MBEDTLS_MD_MAX_SIZE lib" using md by (simp_all add: md_documented_def)
  have ld: "length ?d = MBEDTLS_MD_MAX_SIZE lib"
    unfolding derived_def using hash_steps_agree [OF l(1) refl refl] l(2,3) s(4,5) by simp
  obtain m1 where m1: "derive_key lib s = Inr (s\<lparr>digest := ?d, md_ctx := m1\<rparr>)" "idle m1"
    using derive_key_runs [OF md s(2,5,6,4)] by blast
  let ?s = "s\<lparr>digest := ?d, md_ctx := m1\<rparr>"
  have "key_bytes lib ci \<le> length (digest ?s)" "32 \<le> length (digest ?s)" using kb ld l by simp_all
  then obtain c m where c: "start_cipher lib enc ?s = Inr (?s\<lparr>cipher_ctx := c, md_ctx := m\<rparr>)"
    "streaming c enc (take (key_bytes lib ci) ?d) (IV s) [] []" "macing m (take 32 ?d) []"
    using start_cipher_runs [OF cd md, of ?s enc] s(1,3,4) m1(2) by auto
  have "length (drop 32 (digest s)) = MBEDTLS_MD_MAX_SIZE lib - 32" using s(5) by simp
  note t = take_kdf [OF md this s(4)]
  show ?thesis
    using m1(1) c ld kb by (intro exI [of _ ?d] exI [of _ c] exI [of _ m]) (simp add: t)
qed

lemma encrypt_prefix:
  assumes cd: "cipher_documented lib ci E fresh streaming" and md: "md_documented lib mi H HM idle hashing macing"
    and p: "prepared lib ci mi fresh idle K w i j s"
    and kb: "key_bytes lib ci \<le> max 32 (mbedtls_md_get_size lib mi)"
  shows "\<exists>s1. let iv = take 16 (H (size_bytes n @ argv s ! 2)) in
    encrypt lib fuel n s = rbind (code_loop True lib fuel n 0 s1) (encrypt_tail lib) \<and> length iv = 16 \<and>
    cipher_info s1 = ci \<and> md_info s1 = mi \<and> length (digest s1) = MBEDTLS_MD_MAX_SIZE lib \<and>
    coding streaming macing True (take (key_bytes lib ci) (kdf lib mi H K iv)) iv (take 32 (kdf lib mi H K iv))
      w i 0 j iv s1 [] [] s1"
proof -
  let ?iv = "take 16 (H (size_bytes n @ argv s ! 2))"
  have p': "idle (md_ctx s)" "length (digest s) = MBEDTLS_MD_MAX_SIZE lib" "length (buffer s) = 1024" "length (IV s) = 16"
    "disk_is w j [] s" "io_good w" "fout s = Some (j, 0)" using p by (simp_all add: prepared_def)
  obtain b m d w1 where mk: "make_iv lib n s = Inr (s\<lparr>buffer := b, md_ctx := m, digest := d, IV := ?iv, fout := Some (j, 16), disk := w1\<rparr>)"
    "idle m" "length d = MBEDTLS_MD_MAX_SIZE lib" "length b = 1024" "length ?iv = 16"
    "disk_is w j ?iv (s\<lparr>buffer := b, md_ctx := m, digest := d, IV := ?iv, fout := Some (j, 16), disk := w1\<rparr>)"
    using make_iv_runs [OF md p', of n] unfolding Let_def by blast
  define t where "t = s\<lparr>buffer := b, md_ctx := m, digest := d, IV := ?iv, fout := Some (j, 16), disk := w1\<rparr>"
  have t: "fresh (cipher_ctx t)" "idle (md_ctx t)" "cipher_info t = ci" "length (IV t) = 16"
    "length (digest t) = MBEDTLS_MD_MAX_SIZE lib" "keylen t \<le> length (key t)" "take (keylen t) (key t) = K"
    "IV t = ?iv" "md_info t = mi"
    using p mk by (simp_all add: t_def prepared_def)
  obtain d1 c m1 where k: "rbind (derive_key lib t) (start_cipher lib True) = Inr (t\<lparr>digest := d1, cipher_ctx := c, md_ctx := m1\<rparr>)"
    "length d1 = MBEDTLS_MD_MAX_SIZE lib" "streaming c True (take (key_bytes lib ci) (kdf lib mi H K ?iv)) ?iv [] []"
    "macing m1 (take 32 (kdf lib mi H K ?iv)) []"
    using keyed_start [OF cd md t(1-6) kb, of True] unfolding t(7,8) by blast
  let ?s = "t\<lparr>digest := d1, cipher_ctx := c, md_ctx := m1\<rparr>"
  have "encrypt lib fuel n s = rbind (rbind (derive_key lib t) (start_cipher lib True))
      (\<lambda>s. rbind (code_loop True lib fuel n 0 s) (encrypt_tail lib))"
    by (simp add: encrypt_def mk(1) t_def [symmetric] rbind_assoc code_loop_def)
  then have "encrypt lib fuel n s = rbind (code_loop True lib fuel n 0 ?s) (encrypt_tail lib)" by (simp add: k(1))
  moreover have "coding streaming macing True (take (key_bytes lib ci) (kdf lib mi H K ?iv)) ?iv (take 32 (kdf lib mi H K ?iv))
      w i 0 j ?iv ?s [] [] ?s"
    using k(3,4) mk(4-6) p unfolding coding_def prepared_def t_def by (simp add: disk_is_def)
  ultimately show ?thesis using k(2) t(3,9) mk(5) unfolding Let_def by (intro exI [of _ ?s]) simp
qed

lemma encrypt_runs:
  assumes cd: "cipher_documented lib ci E fresh streaming" and md: "md_documented lib mi H HM idle hashing macing"
    and p: "prepared lib ci mi fresh idle K w i j s"
    and kb: "key_bytes lib ci \<le> max 32 (mbedtls_md_get_size lib mi)"
    and f: "length (inodes w i) < 4294967296" "length (inodes w i) < fuel"
  shows "\<exists>s'. encrypt lib fuel (int (length (inodes w i))) s = Inr s' \<and>
    disk_is w j (sealed lib ci mi H HM E K (take 16 (H (size_bytes (int (length (inodes w i))) @ argv s ! 2))) (inodes w i)) s'"
proof -
  let ?n = "int (length (inodes w i))" let ?iv = "take 16 (H (size_bytes ?n @ argv s ! 2))"
  obtain s1 where s1: "encrypt lib fuel ?n s = rbind (code_loop True lib fuel ?n 0 s1) (encrypt_tail lib)"
    "cipher_info s1 = ci" "md_info s1 = mi" "length (digest s1) = MBEDTLS_MD_MAX_SIZE lib"
    "coding streaming macing True (take (key_bytes lib ci) (kdf lib mi H K ?iv)) ?iv (take 32 (kdf lib mi H K ?iv))
      w i 0 j ?iv s1 [] [] s1"
    using encrypt_prefix [OF cd md p kb, of ?n fuel] unfolding Let_def by blast
  have w: "io_good w" "i \<noteq> j" "0 + nat ?n \<le> length (inodes w i)" "0 \<le> ?n" "?n < 4294967296" "nat ?n < fuel"
    using p f by (simp_all add: prepared_def)
  obtain y s2 where s2: "code_loop True lib fuel ?n 0 s1 = Inr s2"
    "coding streaming macing True (take (key_bytes lib ci) (kdf lib mi H K ?iv)) ?iv (take 32 (kdf lib mi H K ?iv))
      w i 0 j ?iv s1 (inodes w i) y s2"
    using code_loop_runs [OF cd md w s1(2,5)] by auto
  have "md_info s2 = mi" "length (digest s2) = MBEDTLS_MD_MAX_SIZE lib"
    using s2(2) s1(3,4) by (simp_all add: coding_def)
  from encrypt_tail_runs [OF cd md s2(2) w(1) this] show ?thesis
    using s1(1) s2(1) by (simp add: sealed_def Let_def)
qed

lemma encrypt_overflows:
  assumes cd: "cipher_documented lib ci E fresh streaming" and md: "md_documented lib mi H HM idle hashing macing"
    and p: "prepared lib ci mi fresh idle K w i j s"
    and kb: "key_bytes lib ci \<le> max 32 (mbedtls_md_get_size lib mi)"
    and f: "4294967296 \<le> length (inodes w i)" "4294967296 < fuel"
  shows "encrypt lib fuel (int (length (inodes w i))) s = Inl (Fault BadAccess)"
proof -
  let ?n = "int (length (inodes w i))" let ?iv = "take 16 (H (size_bytes ?n @ argv s ! 2))"
  obtain s1 where s1: "encrypt lib fuel ?n s = rbind (code_loop True lib fuel ?n 0 s1) (encrypt_tail lib)" "cipher_info s1 = ci"
    "coding streaming macing True (take (key_bytes lib ci) (kdf lib mi H K ?iv)) ?iv (take 32 (kdf lib mi H K ?iv))
      w i 0 j ?iv s1 [] [] s1"
    using encrypt_prefix [OF cd md p kb, of ?n fuel] unfolding Let_def by blast
  have w: "io_good w" "i \<noteq> j" "0 + nat ?n \<le> length (inodes w i)" "4294967296 \<le> ?n"
    using p f by (simp_all add: prepared_def)
  show ?thesis using code_loop_overflows [OF cd md w f(2) s1(2,3)] s1(1) by simp
qed

lemma decrypt_runs:
  assumes cd: "cipher_documented lib ci E fresh streaming" and md: "md_documented lib mi H HM idle hashing macing"
    and p: "prepared lib ci mi fresh idle K w i j s"
    and kb: "key_bytes lib ci \<le> max 32 (mbedtls_md_get_size lib mi)"
    and i: "inodes w i = sealed lib ci mi H HM E K iv x" "length iv = 16"
    and b: "mbedtls_mode_is_gcm lib ci \<or>
      mbedtls_cipher_get_block_size lib ci dvd length (E (take (key_bytes lib ci) (kdf lib mi H K iv)) iv x)"
    and f: "length (inodes w i) < 4294967296" "length (inodes w i) < fuel"
  shows "\<exists>s'. decrypt lib fuel (int (length (inodes w i))) s = Inr s' \<and> disk_is w j x s'"
proof -
  let ?K = "take (key_bytes lib ci) (kdf lib mi H K iv)" and ?h = "take 32 (kdf lib mi H K iv)"
  let ?C = "E ?K iv x" let ?M = "HM ?h ?C" and ?bs = "mbedtls_cipher_get_block_size lib ci"
  let ?m = "mbedtls_md_get_size lib mi"
  have q: "inodes w i = iv @ ?C @ ?M" using i(1) by (simp add: sealed_def Let_def)
  have lM: "length ?M = ?m" "?m \<le> 64" using md by (auto simp: md_documented_def)
  have bs: "0 < ?bs" "?bs dvd 16" using cd by (simp_all add: cipher_documented_def)
  have p': "disk_is w j [] s" "io_good w" "fin s = Some (i, 0)" "i \<noteq> j" "length (buffer s) = 1024"
    "cipher_info s = ci" "md_info s = mi" "length (IV s) = 16" using p by (simp_all add: prepared_def)
  have len: "length (inodes w i) = 16 + length ?C + ?m" using q i(2) lM by simp
  have dv: "mbedtls_mode_is_gcm lib ci \<or> (16 + int (length ?C)) mod int ?bs = 0"
  proof -
    have "?bs dvd length ?C \<Longrightarrow> int ?bs dvd int (16 + length ?C)" using bs(2) by (metis dvd_add of_nat_dvd_iff)
    then show ?thesis using b by auto
  qed
  have cs: "check_size lib (int (length (inodes w i))) s = Inr (int (length ?C), s)"
    using dv bs(1) len p'(6,7) by (auto simp: check_size_def Let_def)
  obtain bf w1 where r: "read_in 16 s = Inr (s\<lparr>buffer := bf, fin := Some (i, 0 + 16), disk := w1\<rparr>)" "length bf = 1024"
    "take 16 bf = iv" "disk_is w j [] (s\<lparr>disk := w1\<rparr>)"
    using read_in_runs [OF p'(1-5), of 16] len q i(2) by auto
  define t where "t = s\<lparr>buffer := bf, fin := Some (i, 16), disk := w1, IV := iv\<rparr>"
  have ri: "read_iv s = Inr t" using r p'(8) i(2) by (simp add: read_iv_def write_bytes_front t_def)
  have t: "fresh (cipher_ctx t)" "idle (md_ctx t)" "cipher_info t = ci" "length (IV t) = 16"
    "length (digest t) = MBEDTLS_MD_MAX_SIZE lib" "keylen t \<le> length (key t)" "take (keylen t) (key t) = K" "IV t = iv"
    using p i(2) by (simp_all add: t_def prepared_def)
  obtain d1 c m1 where k: "rbind (derive_key lib t) (start_cipher lib False) = Inr (t\<lparr>digest := d1, cipher_ctx := c, md_ctx := m1\<rparr>)"
    "length d1 = MBEDTLS_MD_MAX_SIZE lib" "streaming c False ?K iv [] []" "macing m1 ?h []"
    using keyed_start [OF cd md t(1-6) kb, of False] unfolding t(7,8) by blast
  let ?s = "t\<lparr>digest := d1, cipher_ctx := c, md_ctx := m1\<rparr>"
  have inv: "coding streaming macing False ?K iv ?h w i 16 j [] ?s [] [] ?s"
    using k(3,4) r(2,4) p unfolding coding_def prepared_def t_def by (simp add: disk_is_def)
  have w: "16 + nat (int (length ?C)) \<le> length (inodes w i)" "0 \<le> int (length ?C)" "int (length ?C) < 4294967296"
    "nat (int (length ?C)) < fuel" "cipher_info ?s = ci" using len f t(3) by simp_all
  have tk: "take (nat (int (length ?C))) (drop 16 (inodes w i)) = ?C" unfolding q using i(2) by simp
  obtain y s2 where s2: "code_loop False lib fuel (int (length ?C)) 0 ?s = Inr s2"
    "coding streaming macing False ?K iv ?h w i 16 j [] ?s ?C y s2"
    using code_loop_runs [OF cd md p'(2,4) w inv] unfolding tk by blast
  have s2': "md_info s2 = mi" "length (digest s2) = MBEDTLS_MD_MAX_SIZE lib"
    using s2(2) p'(7) k(2) by (simp_all add: coding_def t_def)
  have q': "inodes w i = take 16 (inodes w i) @ ?C @ ?M" "16 \<le> length (inodes w i)" using q i(2) by simp_all
  obtain s3 where s3: "decrypt_tail lib s2 = Inr s3" "disk_is w j ([] @ x) s3"
    using decrypt_tail_runs [OF cd md s2(2) p'(2,4) q' s2'] by blast
  have "decrypt lib fuel (int (length (inodes w i))) s
      = rbind (rbind (derive_key lib t) (start_cipher lib False)) (\<lambda>s. rbind (code_loop False lib fuel (int (length ?C)) 0 s) (decrypt_tail lib))"
    by (simp add: decrypt_def cs ri rbind_assoc code_loop_def)
  then show ?thesis using s2(1) s3 by (simp add: k(1))
qed

end
