(* ===== verification/Crypt_Main.thy ===== *)
theory Crypt_Main
  imports Crypt_Spec
begin

text \<open>
  The whole program of \<open>mbedtls/crypt_and_hash/main.cpp\<close>: what it leaves on the disk, which
  files it accepts, what it does with files of 4 GiB and more, and that it wipes its secrets.
\<close>

subsection \<open>Files\<close>

definition fs_ok :: "fs \<Rightarrow> bool" where
  \<comment> \<open>different names lead to different files\<close>
  "fs_ok w \<longleftrightarrow> (\<forall>n i. dir w n = Some i \<longrightarrow> i < next_ino w) \<and>
     (\<forall>m n i. dir w m = Some i \<longrightarrow> dir w n = Some i \<longrightarrow> m = n)"

definition content :: "fs \<Rightarrow> char list \<Rightarrow> char list option" where
  "content w n = map_option (inodes w) (dir w n)"

definition keeps_but :: "char list \<Rightarrow> fs \<Rightarrow> fs \<Rightarrow> bool" where
  \<comment> \<open>every file but \<open>b\<close> is as it was\<close>
  "keeps_but b w w' \<longleftrightarrow> fs_ok w' \<and> readable w' = readable w \<and> writable w' = writable w \<and> io w' = io w \<and>
     (\<forall>n. n \<noteq> b \<longrightarrow> dir w' n = dir w n \<and> content w' n = content w n)"

lemma fopen_wb_runs:
  assumes "fs_ok w" "writable w b"
  shows "\<exists>j w'. fopen_wb b w = Some (j, w') \<and> keeps_but b w w' \<and> dir w' b = Some j \<and> inodes w' j = []"
proof (cases "dir w b")
  case None
  have "dir w n \<noteq> Some (next_ino w)" for n using assms(1) by (auto simp: fs_ok_def)
  then show ?thesis
    using None assms
    by (auto simp: fopen_wb_def keeps_but_def fs_ok_def content_def less_Suc_eq option.map_comp intro!: map_option_cong)
next
  case (Some j)
  have "dir w n \<noteq> Some j" if "n \<noteq> b" for n using assms(1) Some that unfolding fs_ok_def by metis
  then show ?thesis
    using Some assms by (auto simp: fopen_wb_def keeps_but_def content_def fs_ok_def intro!: map_option_cong)
qed

lemma disk_is_keeps:
  assumes "disk_is w j v s" "fs_ok w" "dir w b = Some j"
  shows "keeps_but b w (disk s) \<and> content (disk s) b = Some v \<and> dir (disk s) b = Some j"
proof -
  have "dir w n \<noteq> Some j" if "n \<noteq> b" for n using assms(2,3) that unfolding fs_ok_def by metis
  then show ?thesis
    using assms by (auto simp: disk_is_def keeps_but_def content_def fs_ok_def intro!: map_option_cong)
qed

lemma keeps_but_trans: "keeps_but b w w' \<Longrightarrow> keeps_but b w' w'' \<Longrightarrow> keeps_but b w w''"
  by (simp add: keeps_but_def)

subsection \<open>The key\<close>

definition key_of :: "fs \<Rightarrow> char list \<Rightarrow> char list res" where
  \<comment> \<open>the key that the argument \<open>t\<close> stands for\<close>
  "key_of w t =
     (case fopen_rb t w of
        Some i \<Rightarrow> Inr (take 512 (inodes w i))
      | None \<Rightarrow> if take 4 t = ''hex:''
                then rbind (hex_loop t 4 0 (replicate 512 NUL)) (\<lambda>(k, n). Inr (take n k))
                else Inr (take 512 t))"

lemma hex_loop_agree:
  assumes "take kl k = take kl k'" "length k = 512" "length k' = 512" "kl \<le> 512"
  shows "case hex_loop t p kl k of
      Inl e \<Rightarrow> hex_loop t p kl k' = Inl e
    | Inr (r, n) \<Rightarrow> n \<le> 512 \<and> length r = 512 \<and>
        (\<exists>r'. hex_loop t p kl k' = Inr (r', n) \<and> take n r' = take n r \<and> length r' = 512)"
  using assms
proof (induction t p kl k arbitrary: k' rule: hex_loop.induct)
  case (1 t p kl k)
  show ?case
  proof (cases "length t < p \<or> sscanf_02X (drop p t) = None \<or> \<not> kl < 512")
    case True
    then show ?thesis
      using 1(2-5) hex_loop.simps [of t p kl k] hex_loop.simps [of t p kl k']
      by (cases "length t < p"; cases "sscanf_02X (drop p t)") simp_all
  next
    case False
    then obtain n where n: "sscanf_02X (drop p t) = Some n" "\<not> length t < p" "kl < 512" by auto
    have pk: "poke k (int kl) (chr n) = Inr (k[kl := chr n])" "poke k' (int kl) (chr n) = Inr (k'[kl := chr n])"
      using n(3) 1(3,4) by (simp_all add: poke_in)
    have "take (Suc kl) (k[kl := chr n]) = take (Suc kl) (k'[kl := chr n])"
      using 1(2-4) n(3) by (simp add: take_Suc_conv_app_nth)
    moreover have "length (k[kl := chr n]) = 512" "length (k'[kl := chr n]) = 512" "Suc kl \<le> 512"
      using 1(3,4) n(3) by simp_all
    ultimately have ih: "case hex_loop t (p + 2) (Suc kl) (k[kl := chr n]) of
        Inl e \<Rightarrow> hex_loop t (p + 2) (Suc kl) (k'[kl := chr n]) = Inl e
      | Inr (r, m) \<Rightarrow> m \<le> 512 \<and> length r = 512 \<and>
        (\<exists>r'. hex_loop t (p + 2) (Suc kl) (k'[kl := chr n]) = Inr (r', m) \<and> take m r' = take m r \<and> length r' = 512)"
      by (rule 1(1) [OF n(2,1,3) pk(1)])
    have eqs: "hex_loop t p kl k = hex_loop t (p + 2) (Suc kl) (k[kl := chr n])"
      "hex_loop t p kl k' = hex_loop t (p + 2) (Suc kl) (k'[kl := chr n])"
      using n pk by (simp_all add: hex_loop.simps [of t p])
    show ?thesis unfolding eqs by (rule ih)
  qed
qed

lemma read_key_runs:
  assumes k: "key_of (disk s) (argv s ! 6) = Inr K" and io: "io_good (disk s)" and l: "length (key s) = 512"
  shows "\<exists>k n w. read_key s = Inr (s\<lparr>key := k, keylen := n, disk := w\<rparr>) \<and> take n k = K \<and> n \<le> length k \<and>
    (\<exists>c. w = (disk s)\<lparr>nio := c\<rparr>)"
proof (cases "fopen_rb (argv s ! 6) (disk s)")
  case (Some i)
  let ?w = "disk s"
  have "1024 < io ?w (nio ?w)" using io by (simp add: io_good_def)
  then have "min 512 (nat (io ?w (nio ?w))) = 512" by simp
  then show ?thesis
    using Some k l
    by (intro exI [of _ "take 512 (inodes ?w i) @ drop (min (length (inodes ?w i)) 512) (key s)"]
        exI [of _ "min (length (inodes ?w i)) 512"] exI [of _ "?w\<lparr>nio := Suc (nio ?w)\<rparr>"])
      (auto simp: read_key_def key_of_def fread_def Let_def write_bytes_front, simp add: min_def)
next
  case None
  have same: "\<exists>c. disk s = (disk s)\<lparr>nio := c\<rparr>" by (intro exI [of _ "nio (disk s)"]) simp
  show ?thesis
  proof (cases "take 4 (argv s ! 6) = ''hex:''")
    case True
    then obtain r n where r: "hex_loop (argv s ! 6) 4 0 (replicate 512 NUL) = Inr (r, n)" "take n r = K"
      using k None by (auto simp: key_of_def rbind_eq_Inr)
    then obtain r' where "hex_loop (argv s ! 6) 4 0 (key s) = Inr (r', n)" "take n r' = take n r" "length r' = 512" "n \<le> 512"
      using hex_loop_agree [of 0 "replicate 512 NUL" "key s" "argv s ! 6" 4] l by auto
    then show ?thesis
      using None True r(2) same
      by (intro exI [of _ r'] exI [of _ n] exI [of _ "disk s"]) (simp add: read_key_def Let_def)
  next
    case False
    let ?n = "min (length (argv s ! 6)) 512"
    have "take ?n (argv s ! 6) = K" using k None False by (auto simp: key_of_def min_def)
    then show ?thesis
      using None False l same
      by (intro exI [of _ "take ?n (argv s ! 6) @ drop ?n (key s)"] exI [of _ ?n] exI [of _ "disk s"])
        (auto simp: read_key_def Let_def write_bytes_front)
  qed
qed

subsection \<open>From the command line to the loops\<close>

lemma key_of_keeps:
  assumes "keeps_but b w w'" "k \<noteq> b"
  shows "key_of w' k = key_of w k"
proof -
  have "dir w' k = dir w k" "content w' k = content w k" "readable w' = readable w"
    using assms by (simp_all add: keeps_but_def)
  then show ?thesis by (auto simp: key_of_def fopen_rb_def content_def split: option.splits)
qed

definition arguments where
  \<comment> \<open>a command line whose files, cipher and hash are there\<close>
  "arguments lib ci mi w a b cn mn i \<longleftrightarrow>
     fs_ok w \<and> io_good w \<and> a \<noteq> b \<and> readable w a \<and> dir w a = Some i \<and> writable w b \<and>
     mbedtls_cipher_info_from_string lib cn = Some ci \<and> mbedtls_md_info_from_string lib mn = Some mi"

lemma file_size_runs:
  assumes "io_good (disk s)" "fin s = Some (i, p)"
  shows "\<exists>c. file_size s = Inr (int (length (inodes (disk s) i)), s\<lparr>disk := (disk s)\<lparr>nio := c\<rparr>, fin := Some (i, 0)\<rparr>)"
proof -
  have "0 \<le> io (disk s) n" for n
  proof -
    have "1024 < io (disk s) n" using assms(1) by (simp add: io_good_def)
    then show ?thesis by simp
  qed
  then show ?thesis
    using assms(2) by (intro exI [of _ "Suc (Suc (nio (disk s)))"]) (simp add: file_size_def seek_ok_def Let_def)
qed

lemma body_prefix:
  assumes cs: "\<exists>c. mbedtls_cipher_setup lib (mbedtls_cipher_init lib) ci = Some c \<and> fresh c" and md: "md_documented lib mi H HM idle hashing macing"
    and arg: "arguments lib ci mi w a b cn mn i" and k: "key_of w k = Inr K" "k \<noteq> b"
    and mode: "atoi mo = MODE_ENCRYPT \<or> atoi mo = MODE_DECRYPT"
  shows "\<exists>j w' s. body lib fuel (start lib [prog, mo, a, b, cn, mn, k] junk w)
      = (if atoi mo = MODE_ENCRYPT then encrypt else decrypt) lib fuel (int (length (inodes w i))) s \<and>
    prepared lib ci mi fresh idle K w' i j s \<and> argv s = [prog, mo, a, b, cn, mn, k] \<and>
    inodes w' i = inodes w i \<and> keeps_but b w w' \<and> dir w' b = Some j"
proof -
  let ?args = "[prog, mo, a, b, cn, mn, k]" let ?s = "start lib ?args junk w"
  have arg': "fs_ok w" "io_good w" "a \<noteq> b" "readable w a" "dir w a = Some i" "writable w b"
    "mbedtls_cipher_info_from_string lib cn = Some ci" "mbedtls_md_info_from_string lib mn = Some mi"
    using arg by (simp_all add: arguments_def)
  obtain j w1 where o: "fopen_wb b w = Some (j, w1)" "keeps_but b w w1" "dir w1 b = Some j" "inodes w1 j = []"
    using fopen_wb_runs [OF arg'(1,6)] by blast
  obtain c m where l: "mbedtls_cipher_setup lib (mbedtls_cipher_init lib) ci = Some c" "fresh c"
    "mbedtls_md_setup lib (mbedtls_md_init lib) mi True = Some m" "idle m"
    using cs md by (auto simp: md_documented_def)
  define s1 where "s1 = ?s\<lparr>fin := Some (i, 0), nopen := 2, fout := Some (j, 0), disk := w1\<rparr>"
  have p1: "open_files lib ?s = Inr (atoi mo, s1)"
    using arg'(3-5) mode o(1)
    by (auto simp: open_files_def start_def fopen_rb_def s1_def Let_def numeral_2_eq_2 numeral_3_eq_3 guard_def)
  define s2 where "s2 = s1\<lparr>cipher_info := ci, cipher_ctx := c, md_info := mi, md_ctx := m\<rparr>"
  have p2: "setup_library lib s1 = Inr s2"
    using arg'(7,8) l by (simp add: setup_library_def s1_def s2_def start_def Let_def)
  have d2: "disk s2 = w1" "argv s2 ! 6 = k" "length (key s2) = 512" by (simp_all add: s2_def s1_def start_def)
  have io1: "io_good w1" using o(2) arg'(2) by (simp add: io_good_def keeps_but_def)
  obtain kk n w2 e where p3: "read_key s2 = Inr (s2\<lparr>key := kk, keylen := n, disk := w2\<rparr>)" "take n kk = K" "n \<le> length kk"
    "w2 = w1\<lparr>nio := e\<rparr>"
    using read_key_runs [of s2 K] k o(2) io1 by (auto simp: d2 key_of_keeps)
  let ?s3 = "s2\<lparr>key := kk, keylen := n, disk := w2\<rparr>"
  have f3: "io_good (disk ?s3)" "fin ?s3 = Some (i, 0)"
    using io1 p3(4) by (simp_all add: io_good_def s2_def s1_def)
  obtain e1 where p4: "file_size ?s3 = Inr (int (length (inodes (disk ?s3) i)), ?s3\<lparr>disk := (disk ?s3)\<lparr>nio := e1\<rparr>, fin := Some (i, 0)\<rparr>)"
    using file_size_runs [OF f3] by blast
  let ?s4 = "?s3\<lparr>disk := (disk ?s3)\<lparr>nio := e1\<rparr>, fin := Some (i, 0)\<rparr>"
  have same: "inodes w1 i = inodes w i" and ij: "i \<noteq> j"
  proof -
    have "dir w1 a = Some i" "content w1 a = content w a" using o(2) arg'(3,5) by (simp_all add: keeps_but_def)
    then show "inodes w1 i = inodes w i" using arg'(5) by (simp add: content_def)
    show "i \<noteq> j" using o(2,3) \<open>dir w1 a = Some i\<close> arg'(3) unfolding keeps_but_def fs_ok_def by metis
  qed
  have "body lib fuel ?s = (if atoi mo = MODE_ENCRYPT then encrypt else decrypt) lib fuel (int (length (inodes w i))) ?s4"
    using mode p1 p2 p3(1) p4 same p3(4)
    by (auto simp: body_def MODE_ENCRYPT_def MODE_DECRYPT_def rbind_Inr)
  moreover have "prepared lib ci mi fresh idle K w1 i j ?s4"
    using l p3 io1 ij o(4) by (auto simp: prepared_def s2_def s1_def start_def disk_is_def fun_upd_idem)
  ultimately show ?thesis
    using same o(2,3) by (intro exI [of _ j] exI [of _ w1] exI [of _ ?s4]) (simp add: s2_def s1_def start_def)
qed

lemma mode_texts: "atoi ''0'' = MODE_ENCRYPT" "atoi ''1'' = MODE_DECRYPT"
  by code_simp+

lemma crypt_main_success:
  "body lib fuel (start lib args junk w) = Inr s \<Longrightarrow>
     crypt_main lib fuel args junk w = Inr (0, clean_up s) \<and> disk (clean_up s) = disk s"
  by (simp add: crypt_main_def clean_up_def Let_def)

subsection \<open>Encrypting and decrypting a file\<close>

text \<open>
  C7. Decrypting what the program encrypted restores the file: for a library that behaves as
  documented, with the same key, cipher and hash, both runs exit with success and the second
  output file holds the bytes of the first input file, which is itself unchanged. It takes
  different files, an answer of the device to every call, a file below 4 GiB, a key no longer
  than the derived digest, and a cipher whose output is a multiple of its block size.
\<close>

theorem decrypt_restores_file:
  assumes "cipher_documented lib ci E fresh streaming" "md_documented lib mi H HM idle hashing macing"
    and "arguments lib ci mi w a b cn mn i" "readable w b \<and> writable w c"
    and "distinct [a, b, c, k]" "key_of w k = Inr K"
    and "(mbedtls_cipher_info_get_key_bitlen lib ci + 7) div 8 \<le> max 32 (mbedtls_md_get_size lib mi)"
    and "\<And>k iv x. mbedtls_mode_is_gcm lib ci \<or> mbedtls_cipher_get_block_size lib ci dvd length (E k iv x)"
    and "\<And>k iv x. length (E k iv x) \<le> length x + 16"
    and "content w a = Some p" "length p + 96 < 4294967296" "length p + 96 < fuel"
  shows "\<exists>s1 s2. crypt_main lib fuel [prog, ''0'', a, b, cn, mn, k] junk w = Inr (0, s1) \<and>
    crypt_main lib fuel [prog, ''1'', b, c, cn, mn, k] junk2 (disk s1) = Inr (0, s2) \<and>
    content (disk s2) c = Some p \<and> content (disk s2) a = Some p"
proof -
  have arg: "fs_ok w" "io_good w" "dir w a = Some i" "mbedtls_cipher_info_from_string lib cn = Some ci"
    "mbedtls_md_info_from_string lib mn = Some mi" using assms(3) by (simp_all add: arguments_def)
  have cs: "\<exists>c. mbedtls_cipher_setup lib (mbedtls_cipher_init lib) ci = Some c \<and> fresh c"
    using assms(1) by (simp add: cipher_documented_def)
  have rw: "readable w b" "writable w c" using assms(4) by auto
  have ne: "a \<noteq> b" "a \<noteq> c" "b \<noteq> c" "k \<noteq> b" "k \<noteq> c" using assms(5) by auto
  have p: "inodes w i = p" using assms(10) arg(3) by (simp add: content_def)
  have m0: "atoi ''0'' = MODE_ENCRYPT \<or> atoi ''0'' = MODE_DECRYPT" "atoi ''1'' = MODE_ENCRYPT \<or> atoi ''1'' = MODE_DECRYPT"
    "atoi ''1'' \<noteq> MODE_ENCRYPT" by (simp_all add: mode_texts MODE_ENCRYPT_def MODE_DECRYPT_def)
  obtain j1 w1 s1 where b1: "body lib fuel (start lib [prog, ''0'', a, b, cn, mn, k] junk w) = encrypt lib fuel (int (length p)) s1"
    "prepared lib ci mi fresh idle K w1 i j1 s1" "inodes w1 i = p" "keeps_but b w w1" "dir w1 b = Some j1"
    using body_prefix [OF cs assms(2,3,6) ne(4) m0(1), of fuel prog junk] unfolding mode_texts p by auto
  have f1: "length (inodes w1 i) < 4294967296" "length (inodes w1 i) < fuel" using b1(3) assms(11,12) by simp_all
  define iv where "iv = take 16 (H (size_bytes (int (length p)) @ argv s1 ! 2))"
  have iv: "length iv = 16" using assms(2) by (simp add: iv_def md_documented_def)
  obtain e1 where e1: "encrypt lib fuel (int (length p)) s1 = Inr e1" "disk_is w1 j1 (sealed lib ci mi H HM E K iv p) e1"
    using encrypt_runs [OF assms(1,2) b1(2) assms(7) f1] unfolding b1(3) iv_def by blast
  let ?c = "sealed lib ci mi H HM E K iv p"
  have k1: "keeps_but b w1 (disk e1)" "content (disk e1) b = Some ?c" "dir (disk e1) b = Some j1"
    using disk_is_keeps [OF e1(2) _ b1(5)] b1(4) by (auto simp: keeps_but_def)
  have kp: "keeps_but b w (disk e1)" using b1(4) k1(1) by (rule keeps_but_trans)
  have a2: "arguments lib ci mi (disk e1) b c cn mn j1"
    using kp k1(3) arg rw ne(3) by (simp add: arguments_def keeps_but_def io_good_def)
  have key2: "key_of (disk e1) k = Inr K" using key_of_keeps [OF kp ne(4)] assms(6) by simp
  have c: "inodes (disk e1) j1 = ?c" using k1(2,3) by (simp add: content_def)
  obtain j2 w2 s2 where b2: "body lib fuel (start lib [prog, ''1'', b, c, cn, mn, k] junk2 (disk e1)) = decrypt lib fuel (int (length ?c)) s2"
    "prepared lib ci mi fresh idle K w2 j1 j2 s2" "inodes w2 j1 = ?c" "keeps_but c (disk e1) w2" "dir w2 c = Some j2"
    using body_prefix [OF cs assms(2) a2 key2 ne(5) m0(2), of fuel prog junk2] m0(3) unfolding c by auto
  have "length ?c \<le> length p + 96"
  proof -
    let ?K = "take ((mbedtls_cipher_info_get_key_bitlen lib ci + 7) div 8) (kdf lib mi H K iv)"
    have "length (HM (take 32 (kdf lib mi H K iv)) (E ?K iv p)) \<le> 64" using assms(2) by (auto simp: md_documented_def)
    then show ?thesis using assms(9) [of ?K iv p] iv by (simp add: sealed_def Let_def)
  qed
  then have f2: "length (inodes w2 j1) < 4294967296" "length (inodes w2 j1) < fuel" using b2(3) assms(11,12) by simp_all
  obtain e2 where e2: "decrypt lib fuel (int (length ?c)) s2 = Inr e2" "disk_is w2 j2 p e2"
    using decrypt_runs [OF assms(1,2) b2(2) assms(7) b2(3) iv assms(8) f2] unfolding b2(3) by blast
  have k2: "keeps_but c w2 (disk e2)" "content (disk e2) c = Some p"
    using disk_is_keeps [OF e2(2) _ b2(5)] b2(4) by (auto simp: keeps_but_def)
  have "content (disk e2) a = content w a"
    using k2(1) b2(4) kp ne(1,2) by (simp add: keeps_but_def)
  then show ?thesis
    using crypt_main_success [OF b1(1) [unfolded e1(1)]] crypt_main_success [OF b2(1) [unfolded e2(1)]] k2(2) assms(10)
    by auto
qed

text \<open>
  A library that keeps the laws: the cipher complements every byte, the hash is the text cut
  or padded to sixteen bytes.
\<close>

definition toggle :: "char \<Rightarrow> char" where
  "toggle c = chr (255 - code c)"

definition pad16 :: "char list \<Rightarrow> char list" where
  "pad16 x = take 16 (x @ replicate 16 NUL)"

definition sample_lib :: "(bool \<times> char list \<times> char list, char list \<times> char list) mbedtls" where
  "sample_lib = \<lparr>mbedtls_cipher_list = [1, 0], mbedtls_cipher_info_get_name = (\<lambda>_. ''NOT''),
     mbedtls_md_list = [1, 0], mbedtls_md_get_name = (\<lambda>_. ''PAD''),
     mbedtls_cipher_info_from_string = (\<lambda>n. if n = ''NOT'' then Some 1 else None),
     mbedtls_cipher_info_get_key_bitlen = (\<lambda>_. 128), mbedtls_mode_is_gcm = (\<lambda>_. False),
     mbedtls_cipher_get_block_size = (\<lambda>_. 1), mbedtls_cipher_init = (True, [], []),
     mbedtls_cipher_setup = (\<lambda>c i. Some c), mbedtls_cipher_setkey = (\<lambda>(e, k, v) k1 n e1. Some (e1, k1, v)),
     mbedtls_cipher_set_iv = (\<lambda>(e, k, v) v1. Some (e, k, v1)), mbedtls_cipher_reset = Some,
     mbedtls_cipher_update = (\<lambda>c d. Some (map toggle d, c)), mbedtls_cipher_finish = (\<lambda>c. Some ([], c)),
     MBEDTLS_MD_MAX_SIZE = 32, mbedtls_md_info_from_string = (\<lambda>n. if n = ''PAD'' then Some 1 else None),
     mbedtls_md_get_size = (\<lambda>_. 16), mbedtls_md_init = ([], []), mbedtls_md_setup = (\<lambda>m i h. Some m),
     mbedtls_md_starts = (\<lambda>m. Some ([], [])), mbedtls_md_update = (\<lambda>(k, x) d. Some (k, x @ d)),
     mbedtls_md_finish = (\<lambda>(k, x). Some (pad16 x, ([], []))), mbedtls_md_hmac_starts = (\<lambda>m k. Some (k, [])),
     mbedtls_md_hmac_update = (\<lambda>(k, x) d. Some (k, x @ d)),
     mbedtls_md_hmac_finish = (\<lambda>(k, x). Some (pad16 (x @ k), ([], [])))\<rparr>"

definition sample_fs :: "char list \<Rightarrow> fs" where
  "sample_fs p = \<lparr>dir = (\<lambda>n. if n = ''a'' then Some 0 else None), inodes = (\<lambda>_. p), next_ino = 1,
     readable = (\<lambda>_. True), writable = (\<lambda>_. True), io = (\<lambda>_. 2000), nio = 0\<rparr>"

lemma toggle_toggle: "toggle (toggle c) = c"
  using code_range [of c] by (simp add: toggle_def code_chr)

lemma sample_cipher:
  "cipher_documented sample_lib 1 (\<lambda>k iv x. map toggle x) (\<lambda>c. True) (\<lambda>c e k iv x y. c = (e, k, iv) \<and> y = map toggle x)"
  by (auto simp: cipher_documented_def sample_lib_def toggle_toggle comp_def)

lemma sample_md:
  "md_documented sample_lib 1 pad16 (\<lambda>k x. pad16 (x @ k)) (\<lambda>m. True) (\<lambda>m x. snd m = x) (\<lambda>m k x. m = (k, x))"
  by (auto simp: md_documented_def sample_lib_def pad16_def)

lemma sample_arguments: "arguments sample_lib 1 1 (sample_fs p) ''a'' ''b'' ''NOT'' ''PAD'' 0"
  by (auto simp: arguments_def sample_fs_def sample_lib_def fs_ok_def io_good_def)

lemma sample_key: "key_of (sample_fs p) ''k'' = Inr ''k''"
  by (simp add: key_of_def sample_fs_def fopen_rb_def)

theorem decrypt_restores_file_witness:
  "\<exists>s1 s2. crypt_main sample_lib 200 [''c'', ''0'', ''a'', ''b'', ''NOT'', ''PAD'', ''k''] (\<lambda>_. NUL) (sample_fs ''text'') = Inr (0, s1) \<and>
    crypt_main sample_lib 200 [''c'', ''1'', ''b'', ''d'', ''NOT'', ''PAD'', ''k''] (\<lambda>_. NUL) (disk s1) = Inr (0, s2) \<and>
    content (disk s2) ''d'' = Some ''text'' \<and> content (disk s2) ''a'' = Some ''text''"
proof -
  have "(mbedtls_cipher_info_get_key_bitlen sample_lib 1 + 7) div 8 \<le> max 32 (mbedtls_md_get_size sample_lib 1)"
    "readable (sample_fs ''text'') ''b'' \<and> writable (sample_fs ''text'') ''d''" "distinct [''a'', ''b'', ''d'', ''k'']"
    "\<And>k iv x. mbedtls_mode_is_gcm sample_lib 1 \<or>
       mbedtls_cipher_get_block_size sample_lib 1 dvd length ((\<lambda>k iv x. map toggle x) k iv x)"
    "\<And>k iv x. length ((\<lambda>k iv x. map toggle x) k iv x) \<le> length x + 16" "content (sample_fs ''text'') ''a'' = Some ''text''"
    by (simp_all add: sample_lib_def sample_fs_def content_def)
  then show ?thesis
    using decrypt_restores_file [OF sample_cipher sample_md sample_arguments [of "''text''"] _ _ sample_key, of "''d''" "''text''" 200]
    by simp
qed

end
