(* ===== verification/Crypt_Safety.thy ===== *)
theory Crypt_Safety
  imports Crypt_Main
begin

text \<open>
  Error paths of \<open>mbedtls/crypt_and_hash/main.cpp\<close>: files of 4 GiB and more overrun the buffer,
  a file is accepted only with a valid keyed hash, and every exit wipes the secrets and closes
  the files.
\<close>

subsection \<open>Large files\<close>

text \<open>
  C35. Encrypting a file of at least 4 GiB stores behind the end of the 1024 byte buffer: the
  length of the chunk is computed with the size of the file cut to 32 bits, and once the
  offset is behind that value almost 4 GiB are read at once.
\<close>

theorem large_file_overruns_buffer:
  assumes "cipher_documented lib ci E fresh streaming" "md_documented lib mi H HM idle hashing macing"
    and "arguments lib ci mi w a b cn mn i" "key_of w k = Inr K" "k \<noteq> b"
    and "(mbedtls_cipher_info_get_key_bitlen lib ci + 7) div 8 \<le> max 32 (mbedtls_md_get_size lib mi)"
    and "4294967296 \<le> length (inodes w i)" "4294967296 < fuel"
  shows "crypt_main lib fuel [prog, ''0'', a, b, cn, mn, k] junk w = Inl BadAccess"
proof -
  have cs: "\<exists>c. mbedtls_cipher_setup lib (mbedtls_cipher_init lib) ci = Some c \<and> fresh c"
    using assms(1) by (simp add: cipher_documented_def)
  obtain j w1 s where b: "body lib fuel (start lib [prog, ''0'', a, b, cn, mn, k] junk w) = encrypt lib fuel (int (length (inodes w i))) s"
    "prepared lib ci mi fresh idle K w1 i j s" "inodes w1 i = inodes w i"
    using body_prefix [OF cs assms(2-5), of "''0''" fuel prog junk] unfolding mode_texts by auto
  have "4294967296 \<le> length (inodes w1 i)" using b(3) assms(7) by simp
  from encrypt_overflows [OF assms(1,2) b(2) assms(6) this assms(8)] show ?thesis
    using b(1,3) by (simp add: crypt_main_def)
qed

theorem large_file_overruns_buffer_witness:
  "crypt_main sample_lib 4294967297 [''c'', ''0'', ''a'', ''b'', ''NOT'', ''PAD'', ''k''] (\<lambda>_. NUL)
     (sample_fs (replicate 4294967296 NUL)) = Inl BadAccess"
  by (rule large_file_overruns_buffer [OF sample_cipher sample_md sample_arguments sample_key])
    (simp_all add: sample_lib_def sample_fs_def)

subsection \<open>Authentication\<close>

definition reading where
  \<comment> \<open>the program has read the first \<open>p\<close> bytes of the file \<open>i\<close>, which it does not change\<close>
  "reading lib mi w i j p s \<longleftrightarrow>
     (\<exists>v n. disk s = w\<lparr>inodes := (inodes w)(j := v), nio := n\<rparr>) \<and> i \<noteq> j \<and> fin s = Some (i, p) \<and>
     (\<exists>q. fout s = Some (j, q)) \<and> md_info s = mi \<and> length (digest s) = MBEDTLS_MD_MAX_SIZE lib \<and>
     length (buffer s) = 1024"

lemma read_in_reads:
  assumes "read_in n s = Inr s'" "reading lib mi w i j p s"
  shows "reading lib mi w i j (p + n) s' \<and> take n (buffer s') = take n (drop p (inodes w i)) \<and>
    length (take n (drop p (inodes w i))) = n \<and> digest s' = digest s \<and> md_ctx s' = md_ctx s \<and> IV s' = IV s \<and>
    key s' = key s \<and> keylen s' = keylen s \<and> cipher_info s' = cipher_info s"
proof -
  obtain v m where d: "disk s = w\<lparr>inodes := (inodes w)(j := v), nio := m\<rparr>" "fin s = Some (i, p)" "i \<noteq> j"
    using assms(2) by (auto simp: reading_def)
  let ?x = "take (min n (nat (io w m))) (drop p (inodes w i))"
  obtain b where b: "write_bytes (buffer s) 0 ?x = Inr b" "length ?x = n"
    "s' = s\<lparr>buffer := b, fin := Some (i, p + n), disk := (disk s)\<lparr>nio := Suc m\<rparr>\<rparr>"
    using assms(1) d by (auto simp: read_in_def fread_def Let_def rbind_eq_Inr)
  have x: "?x = take n (drop p (inodes w i))" using b(2) by (metis length_take min.commute min.left_idem take_take)
  have le: "n \<le> length (buffer s)" "b = ?x @ drop n (buffer s)"
    using b(1,2) by (auto simp: write_bytes_def split: if_splits)
  have "take n b = take n (drop p (inodes w i))" unfolding le(2) using b(2) x by simp
  moreover have "length b = length (buffer s)" using write_bytes_length [OF b(1)] .
  ultimately show ?thesis
    using b(2,3) x d assms(2) by (auto simp: reading_def)
qed

lemma write_out_reads:
  "write_out d s = Inr s' \<Longrightarrow> reading lib mi w i j p s \<Longrightarrow> reading lib mi w i j p s' \<and> md_ctx s' = md_ctx s"
  by (auto simp: write_out_def fwrite_def Let_def reading_def) blast

lemma on_md_eq_Inr: "on_md r s = Inr s' \<longleftrightarrow> (\<exists>m. r = Some m \<and> s' = s\<lparr>md_ctx := m\<rparr>)"
  by (auto simp: on_md_def rbind_eq_Inr need_eq_Inr)

lemma on_cipher_eq_Inr: "on_cipher r s = Inr s' \<longleftrightarrow> (\<exists>c. r = Some c \<and> s' = s\<lparr>cipher_ctx := c\<rparr>)"
  by (auto simp: on_cipher_def rbind_eq_Inr need_eq_Inr)

lemma to_output_eq_Inr:
  "to_output r s = Inr (n, s') \<Longrightarrow> \<exists>b c. s' = s\<lparr>outbuf := b, cipher_ctx := c\<rparr>"
  by (auto simp: to_output_def rbind_eq_Inr need_eq_Inr)

lemma decrypt_chunk_reads:
  assumes md: "md_documented lib mi H HM idle hashing macing" and c: "decrypt_chunk lib n s = Inr s'"
    and r: "reading lib mi w i j p s" and m: "macing (md_ctx s) hk x"
  shows "reading lib mi w i j (p + n) s' \<and> macing (md_ctx s') hk (x @ take n (drop p (inodes w i))) \<and>
    length (take n (drop p (inodes w i))) = n \<and> cipher_info s' = cipher_info s"
proof -
  let ?d = "take n (drop p (inodes w i))"
  obtain s1 m1 k s3 where st: "read_in n s = Inr s1" "mbedtls_md_hmac_update lib (md_ctx s1) (take n (buffer s1)) = Some m1"
    "to_output (mbedtls_cipher_update lib (cipher_ctx s1) (take n (buffer s1))) (s1\<lparr>md_ctx := m1\<rparr>) = Inr (k, s3)"
    "write_out (take k (outbuf s3)) s3 = Inr s'"
    using c by (fastforce simp: decrypt_chunk_def rbind_eq_Inr on_md_eq_Inr)
  have r1: "reading lib mi w i j (p + n) s1" "take n (buffer s1) = ?d" "length ?d = n"
    "md_ctx s1 = md_ctx s" "cipher_info s1 = cipher_info s"
    using read_in_reads [OF st(1) r] by auto
  have m1: "macing m1 hk (x @ ?d)" using md m st(2) r1(2,4) unfolding md_documented_def by (metis option.inject)
  obtain b cc where s3: "s3 = s1\<lparr>md_ctx := m1, outbuf := b, cipher_ctx := cc\<rparr>"
    using to_output_eq_Inr [OF st(3)] by auto
  have r3: "reading lib mi w i j (p + n) s3" using r1(1) unfolding s3 by (simp add: reading_def)
  have "cipher_info s' = cipher_info s3" using st(4) by (auto simp: write_out_def Let_def split: prod.splits)
  then show ?thesis using write_out_reads [OF st(4) r3] r1(3,5) m1 s3 by simp
qed

lemma decrypt_loop_reads:
  assumes md: "md_documented lib mi H HM idle hashing macing"
    and bs: "0 < mbedtls_cipher_get_block_size lib ci" and n: "int n < 4294967296"
    and c: "decrypt_loop lib fuel (int n) 0 s = Inr s'" "cipher_info s = ci"
    and r: "reading lib mi w i j 16 s" "macing (md_ctx s) hk []" and len: "16 + n \<le> length (inodes w i)"
  shows "reading lib mi w i j (16 + n) s' \<and> macing (md_ctx s') hk (take n (drop 16 (inodes w i)))"
proof -
  let ?bs = "int (mbedtls_cipher_get_block_size lib ci)" and ?F = "drop 16 (inodes w i)"
  have u: "u32 (int n) = int n" using n by (intro u32_id) simp_all
  have "reading lib mi w i j (16 + n) s' \<and> macing (md_ctx s') hk (take n ?F)"
    if "decrypt_loop lib fuel (int n) offset s = Inr s'" "cipher_info s = ci" "0 \<le> offset"
      "reading lib mi w i j (16 + min n (nat offset)) s" "macing (md_ctx s) hk (take (min n (nat offset)) ?F)"
    for offset s
    using that
  proof (induction fuel arbitrary: offset s)
    case (Suc fuel)
    show ?case
    proof (cases "offset < int n")
      case False
      then have "min n (nat offset) = n" "s' = s" using Suc(2) by auto
      then show ?thesis using Suc(5,6) by simp
    next
      case True
      let ?k = "nat (chunk_len (int n) offset ?bs)"
      have k: "?k = nat (min ?bs (int n - offset))" using chunk_len_eq [of offset "int n" ?bs] Suc(4) True bs u by simp
      obtain s1 where s1: "decrypt_chunk lib ?k s = Inr s1" "decrypt_loop lib fuel (int n) (offset + ?bs) s1 = Inr s'"
        using Suc(2,3) True by (auto simp: Let_def rbind_eq_Inr)
      have o: "min n (nat offset) = nat offset" using True by simp
      have step: "reading lib mi w i j (16 + nat offset + ?k) s1"
        "macing (md_ctx s1) hk (take (nat offset) ?F @ take ?k (drop (16 + nat offset) (inodes w i)))" "cipher_info s1 = ci"
        using decrypt_chunk_reads [OF md s1(1) Suc(5,6)] Suc(3) unfolding o by auto
      have e: "nat offset + ?k = min n (nat (offset + ?bs))" unfolding k using Suc(4) True by (auto simp: min_def)
      have "take (nat offset) ?F @ take ?k (drop (16 + nat offset) (inodes w i)) = take (nat offset + ?k) ?F"
        by (simp add: take_add drop_drop add.commute)
      then show ?thesis
        using Suc(1) [OF s1(2) step(3)] step(1,2) Suc(4) unfolding e by (simp add: add.assoc e)
    qed
  qed simp
  from this [OF c] r show ?thesis by simp
qed

lemma start_cipher_macs:
  assumes md: "md_documented lib mi H HM idle hashing macing" and c: "start_cipher lib enc s = Inr s'"
    and s: "idle (md_ctx s)" "reading lib mi w i j p s"
  shows "reading lib mi w i j p s' \<and> macing (md_ctx s') (take 32 (digest s)) [] \<and> cipher_info s' = cipher_info s"
proof -
  obtain c1 c2 c3 d m where st: "read_bytes (digest s) 0 32 = Inr d"
    "mbedtls_md_hmac_starts lib (md_ctx s) d = Some m" "s' = s\<lparr>cipher_ctx := c3, md_ctx := m\<rparr>"
    using c by (auto simp: start_cipher_def Let_def rbind_eq_Inr on_cipher_eq_Inr on_md_eq_Inr)
  have "d = take 32 (digest s)" using st(1) by (simp add: read_bytes_def split: if_splits)
  moreover have "macing m d []" using md s(1) st(2) unfolding md_documented_def by (metis option.inject)
  ultimately show ?thesis using st(3) s(2) by (simp add: reading_def)
qed

lemma verify_mac_checks:
  assumes md: "md_documented lib mi H HM idle hashing macing" and v: "verify_mac lib s = Inr s'"
    and s: "macing (md_ctx s) hk x" "reading lib mi w i j p s"
  shows "HM hk x = take (mbedtls_md_get_size lib mi) (drop p (inodes w i))"
proof -
  let ?n = "mbedtls_md_get_size lib mi" and ?M = "HM hk x"
  have mi: "md_info s = mi" "length (digest s) = MBEDTLS_MD_MAX_SIZE lib" using s(2) by (simp_all add: reading_def)
  have l: "length ?M = ?n" "?n \<le> length (digest s)" using md mi(2) by (simp_all add: md_documented_def)
  obtain m where m: "mbedtls_md_hmac_finish lib (md_ctx s) = Some (?M, m)" using md s(1) unfolding md_documented_def by metis
  let ?s = "s\<lparr>digest := ?M @ drop ?n (digest s), md_ctx := m\<rparr>"
  obtain s1 a b where st: "read_in ?n ?s = Inr s1" "read_bytes (digest s1) 0 (int ?n) = Inr a"
    "read_bytes (buffer s1) 0 (int ?n) = Inr b" "diff_bytes a b = 0"
    using v m l by (auto simp: verify_mac_def Let_def mi(1) to_digest_Some rbind_eq_Inr)
  have "reading lib mi w i j p ?s" using s(2) l by (simp add: reading_def)
  from read_in_reads [OF st(1) this] have r: "take ?n (buffer s1) = take ?n (drop p (inodes w i))"
    "digest s1 = ?M @ drop ?n (digest s)" by simp_all
  have "a = ?M" using st(2) l unfolding r(2) by (simp add: read_bytes_def split: if_splits)
  moreover have "b = take ?n (drop p (inodes w i))" "length b = ?n"
    using st(3) r(1) by (auto simp: read_bytes_def split: if_splits)
  ultimately show ?thesis using st(4) diff_bytes_zero [of a b] l by simp
qed

lemma decrypt_authentic:
  assumes md: "md_documented lib mi H HM idle hashing macing" and p: "prepared lib ci mi fresh idle K w i j s"
    and d: "decrypt lib fuel (int (length (inodes w i))) s = Inr s'" and n: "length (inodes w i) < 4294967296"
  shows "\<exists>iv C. inodes w i = iv @ C @ HM (take 32 (kdf lib mi H K iv)) C \<and> length iv = 16"
proof -
  let ?F = "inodes w i" and ?n = "mbedtls_md_get_size lib mi"
  let ?iv = "take 16 ?F" let ?c = "length ?F - (16 + ?n)" let ?C = "take ?c (drop 16 ?F)"
  have p': "fresh (cipher_ctx s)" "idle (md_ctx s)" "cipher_info s = ci" "md_info s = mi" "length (IV s) = 16"
    "keylen s \<le> length (key s)" "take (keylen s) (key s) = K" using p by (simp_all add: prepared_def)
  have r: "reading lib mi w i j 0 s" using p by (auto simp: prepared_def reading_def disk_is_def)
  obtain x where x: "check_size lib (int (length ?F)) s = Inr x" using d by (auto simp: decrypt_def rbind_eq_Inr)
  then have c: "16 + ?n \<le> length ?F" "0 < mbedtls_cipher_get_block_size lib ci" "x = (int ?c, s)"
    using p'(3,4) by (auto simp: check_size_def Let_def rbind_eq_Inr of_nat_diff)
  obtain s1 where c2: "read_iv s = Inr s1"
    and d1: "rbind (rbind (derive_key lib s1) (start_cipher lib False)) (\<lambda>s. rbind (decrypt_loop lib fuel (int ?c) 0 s) (decrypt_tail lib)) = Inr s'"
    using d unfolding decrypt_def x c(3) by (auto simp: rbind_eq_Inr [of "read_iv s"] rbind_assoc)
  obtain s0 where s0: "read_in 16 s = Inr s0" "s1 = s0\<lparr>IV := take 16 (buffer s0) @ drop (length (take 16 (buffer s0))) (IV s0)\<rparr>"
    using c2 by (auto simp: read_iv_def rbind_eq_Inr write_bytes_def split: if_splits)
  have r0: "reading lib mi w i j 16 s0" "take 16 (buffer s0) = ?iv" "length ?iv = 16" "IV s0 = IV s" "key s0 = key s"
    "keylen s0 = keylen s" "md_ctx s0 = md_ctx s" "cipher_info s0 = ci"
    using read_in_reads [OF s0(1) r] p'(3) by auto
  have s1: "IV s1 = ?iv" "reading lib mi w i j 16 s1" "idle (md_ctx s1)" "keylen s1 \<le> length (key s1)"
    "take (keylen s1) (key s1) = K" "length (digest s1) = MBEDTLS_MD_MAX_SIZE lib" "length (IV s1) = 16" "cipher_info s1 = ci"
    using r0 p' s0(2) by (simp_all add: reading_def)
  let ?d = "derived H K ?iv (drop 32 (digest s1))"
  obtain m1 where m1: "derive_key lib s1 = Inr (s1\<lparr>digest := ?d, md_ctx := m1\<rparr>)" "idle m1"
    using derive_key_runs [OF md s1(3,6,4,7)] unfolding s1(1,5) by blast
  let ?s = "s1\<lparr>digest := ?d, md_ctx := m1\<rparr>"
  obtain s2 s3 s4 where st: "start_cipher lib False ?s = Inr s2" "decrypt_loop lib fuel (int ?c) 0 s2 = Inr s3"
    "verify_mac lib s3 = Inr s4"
    using d1 m1(1) by (auto simp: rbind_eq_Inr decrypt_tail_def)
  have ld: "length ?d = MBEDTLS_MD_MAX_SIZE lib"
  proof -
    have "\<And>x. length (H x) = ?n" "?n \<le> MBEDTLS_MD_MAX_SIZE lib" "32 \<le> MBEDTLS_MD_MAX_SIZE lib" using md by (simp_all add: md_documented_def)
    then show ?thesis unfolding derived_def using hash_steps_agree [of H ?n, OF _ refl refl] s1(6) r0(3) by simp
  qed
  have "idle (md_ctx ?s)" "reading lib mi w i j 16 ?s" using m1(2) s1(2) ld by (simp_all add: reading_def)
  note k = start_cipher_macs [OF md st(1) this]
  have h: "take 32 ?d = take 32 (kdf lib mi H K ?iv)" using s1(6) by (intro take_kdf [OF md _ r0(3)]) simp_all
  have k2: "int ?c < 4294967296" "cipher_info s2 = ci" "reading lib mi w i j 16 s2"
    "macing (md_ctx s2) (take 32 (kdf lib mi H K ?iv)) []" "16 + ?c \<le> length ?F" using n c(1) k s1(8) h by simp_all
  have "reading lib mi w i j (16 + ?c) s3 \<and> macing (md_ctx s3) (take 32 (kdf lib mi H K ?iv)) ?C"
    by (rule decrypt_loop_reads [OF md c(2) k2(1) st(2) k2(2-5)])
  then have "HM (take 32 (kdf lib mi H K ?iv)) ?C = take ?n (drop (16 + ?c) ?F)"
    using verify_mac_checks [OF md st(3)] by blast
  moreover have "?F = ?iv @ ?C @ take ?n (drop (16 + ?c) ?F)"
  proof -
    have "take ?n (drop (16 + ?c) ?F) = drop (16 + ?c) ?F" using c(1) by simp
    then show ?thesis by (metis append_take_drop_id drop_drop add.commute)
  qed
  ultimately show ?thesis using r0(3) by (intro exI [of _ ?iv] exI [of _ ?C]) simp
qed

text \<open>
  C3. The program accepts a file only with a valid keyed hash: when decryption exits with
  success, the input is a vector, a ciphertext and the hash of that ciphertext under the key
  derived from the secret and the vector, whatever the cipher does.
\<close>

theorem decrypt_accepts_only_authentic:
  assumes "md_documented lib mi H HM idle hashing macing" "arguments lib ci mi w a b cn mn i"
    and "mbedtls_cipher_setup lib (mbedtls_cipher_init lib) ci \<noteq> None" "key_of w k = Inr K" "k \<noteq> b"
    and "content w a = Some F" "length F < 4294967296"
    and "crypt_main lib fuel [prog, ''1'', a, b, cn, mn, k] junk w = Inr (0, s)"
  shows "\<exists>iv C. F = iv @ C @ HM (take 32 (kdf lib mi H K iv)) C \<and> length iv = 16"
proof -
  have cs: "\<exists>c. mbedtls_cipher_setup lib (mbedtls_cipher_init lib) ci = Some c \<and> True" using assms(3) by simp
  have F: "inodes w i = F" using assms(2,6) by (simp add: arguments_def content_def)
  have m1: "atoi ''1'' \<noteq> MODE_ENCRYPT" by (simp add: mode_texts MODE_ENCRYPT_def MODE_DECRYPT_def)
  obtain j w1 s1 where b: "body lib fuel (start lib [prog, ''1'', a, b, cn, mn, k] junk w) = decrypt lib fuel (int (length F)) s1"
    "prepared lib ci mi (\<lambda>c. True) idle K w1 i j s1" "inodes w1 i = F"
    using body_prefix [OF cs assms(1,2,4,5), of "''1''" fuel prog junk] m1 unfolding mode_texts F by auto
  obtain s2 where "decrypt lib fuel (int (length F)) s1 = Inr s2"
    using assms(8) b(1) by (auto simp: crypt_main_def split: sum.splits leave.splits)
  then show ?thesis using decrypt_authentic [OF assms(1) b(2)] assms(7) unfolding b(3) by blast
qed

text \<open>The file that the sample library makes of the text \<open>text\<close>.\<close>

definition sample_iv :: "char list" where
  "sample_iv = replicate 16 (CHR ''v'')"

definition sample_sealed :: "char list" where
  "sample_sealed = sealed sample_lib 1 1 pad16 (\<lambda>k x. pad16 (x @ k)) (\<lambda>k iv x. map toggle x) ''k'' sample_iv ''text''"

lemma sample_decrypts:
  "\<exists>s. crypt_main sample_lib 200 [''c'', ''1'', ''a'', ''b'', ''NOT'', ''PAD'', ''k''] (\<lambda>_. NUL) (sample_fs sample_sealed) = Inr (0, s)"
proof -
  let ?w = "sample_fs sample_sealed"
  have cs: "\<exists>c. mbedtls_cipher_setup sample_lib (mbedtls_cipher_init sample_lib) 1 = Some c \<and> True" by (auto simp: sample_lib_def)
  have kb: "(mbedtls_cipher_info_get_key_bitlen sample_lib 1 + 7) div 8 \<le> max 32 (mbedtls_md_get_size sample_lib 1)"
    by (simp add: sample_lib_def)
  have i: "inodes ?w 0 = sample_sealed" by (simp add: sample_fs_def)
  have m1: "atoi ''1'' \<noteq> MODE_ENCRYPT" by (simp add: mode_texts MODE_ENCRYPT_def MODE_DECRYPT_def)
  obtain j w1 s1 where b: "body sample_lib 200 (start sample_lib [''c'', ''1'', ''a'', ''b'', ''NOT'', ''PAD'', ''k''] (\<lambda>_. NUL) ?w)
      = decrypt sample_lib 200 (int (length sample_sealed)) s1"
    "prepared sample_lib 1 1 (\<lambda>c. True) (\<lambda>m. True) ''k'' w1 0 j s1" "inodes w1 0 = sample_sealed"
    using body_prefix [OF cs sample_md sample_arguments sample_key, of "''1''" 200 "''c''" "\<lambda>_. NUL" sample_sealed] m1
    unfolding mode_texts i by auto
  have l: "length sample_sealed < 200"
    by (simp add: sample_sealed_def sealed_def Let_def sample_iv_def pad16_def)
  have f: "length (inodes w1 0) < 4294967296" "length (inodes w1 0) < 200" using l unfolding b(3) by linarith+
  have iv: "length sample_iv = 16" by (simp add: sample_iv_def)
  have bl: "mbedtls_mode_is_gcm sample_lib 1 \<or> mbedtls_cipher_get_block_size sample_lib 1 dvd n" for n
    by (simp add: sample_lib_def)
  have "\<exists>s'. decrypt sample_lib 200 (int (length (inodes w1 0))) s1 = Inr s' \<and> disk_is w1 j ''text'' s'"
    by (rule decrypt_runs [OF sample_cipher sample_md b(2) kb b(3) [unfolded sample_sealed_def] iv bl f])
  then show ?thesis using b(1,3) crypt_main_success by metis
qed

theorem decrypt_accepts_only_authentic_witness:
  "\<exists>s iv C. crypt_main sample_lib 200 [''c'', ''1'', ''a'', ''b'', ''NOT'', ''PAD'', ''k''] (\<lambda>_. NUL) (sample_fs sample_sealed) = Inr (0, s) \<and>
     sample_sealed = iv @ C @ pad16 (C @ take 32 (kdf sample_lib 1 pad16 ''k'' iv)) \<and> length iv = 16"
proof -
  obtain s where s: "crypt_main sample_lib 200 [''c'', ''1'', ''a'', ''b'', ''NOT'', ''PAD'', ''k''] (\<lambda>_. NUL) (sample_fs sample_sealed) = Inr (0, s)"
    using sample_decrypts by blast
  have "mbedtls_cipher_setup sample_lib (mbedtls_cipher_init sample_lib) 1 \<noteq> None" "content (sample_fs sample_sealed) ''a'' = Some sample_sealed"
    "length sample_sealed < 4294967296"
    by (simp_all add: sample_lib_def content_def sample_fs_def sample_sealed_def sealed_def Let_def sample_iv_def pad16_def)
  then show ?thesis
    using decrypt_accepts_only_authentic [OF sample_md sample_arguments _ sample_key _ _ _ s] s by blast
qed

subsection \<open>Every exit wipes the secrets\<close>

definition post :: "('s \<Rightarrow> bool) \<Rightarrow> ('a \<Rightarrow> bool) \<Rightarrow> 's leave + 'a \<Rightarrow> bool" where
  \<comment> \<open>\<open>P\<close> holds where the program jumps to its exit and \<open>Q\<close> where it goes on\<close>
  "post P Q r = (case r of Inl (Fault e) \<Rightarrow> True | Inl (GotoExit s) \<Rightarrow> P s | Inr x \<Rightarrow> Q x)"

lemma post_Inr [simp]: "post P Q (Inr x) = Q x"
  by (simp add: post_def)

lemma post_bind: "post P Q m \<Longrightarrow> (\<And>x. Q x \<Longrightarrow> post P R (f x)) \<Longrightarrow> post P R (rbind m f)"
  by (cases m) (auto simp: post_def split: leave.splits)

definition booked :: "char list list \<Rightarrow> nat \<Rightarrow> ('c, 'm) proc \<Rightarrow> bool" where
  \<comment> \<open>between the opening of the files and the exit\<close>
  "booked args N s \<longleftrightarrow> argv s = args \<and> length (digest s) = N \<and> fin s \<noteq> None \<and> fout s \<noteq> None \<and> nopen s = 2"

definition accounted :: "char list list \<Rightarrow> nat \<Rightarrow> ('c, 'm) proc \<Rightarrow> bool" where
  "accounted args N s \<longleftrightarrow> argv s = args \<and> length (digest s) = N \<and>
     nopen s = (if fin s \<noteq> None then 1 else 0) + (if fout s \<noteq> None then 1 else 0)"

lemma guard_keeps: "booked args N s \<Longrightarrow> post (booked args N) (booked args N) (guard b m s)"
  and need_keeps: "booked args N s \<Longrightarrow> post (booked args N) (\<lambda>x. True) (need r m s)"
  and mem_keeps: "post (booked args N) (\<lambda>x. r' = Inr x) (mem r')"
  by (auto simp: guard_def need_def fail_def say_def post_def booked_def mem_def split: option.splits sum.splits)

lemma on_md_keeps: "booked args N s \<Longrightarrow> post (booked args N) (booked args N) (on_md r s)"
  and on_cipher_keeps: "booked args N s \<Longrightarrow> post (booked args N) (booked args N) (on_cipher r' s)"
  unfolding on_md_def on_cipher_def
  by (rule post_bind [OF need_keeps], assumption, simp add: booked_def)+

lemma to_digest_keeps: "booked args N s \<Longrightarrow> post (booked args N) (booked args N) (to_digest r s)"
  unfolding to_digest_def
  by (rule post_bind [OF need_keeps], assumption, clarify, rule post_bind [OF mem_keeps])
    (auto simp: booked_def dest: write_bytes_length)

lemma to_output_keeps: "booked args N s \<Longrightarrow> post (booked args N) (\<lambda>(n, s). booked args N s) (to_output r s)"
  unfolding to_output_def
  by (rule post_bind [OF need_keeps], assumption, clarify, rule post_bind [OF mem_keeps])
    (auto simp: booked_def)

lemma read_in_keeps: "booked args N s \<Longrightarrow> post (booked args N) (booked args N) (read_in n s)"
  unfolding read_in_def Let_def
  by (clarsimp split: prod.split, rule post_bind [OF mem_keeps], rule guard_keeps) (simp add: booked_def)

lemma write_out_keeps: "booked args N s \<Longrightarrow> post (booked args N) (booked args N) (write_out d s)"
  unfolding write_out_def Let_def by (clarsimp split: prod.split, rule guard_keeps) (simp add: booked_def)

lemmas keep_binds = post_bind [OF on_md_keeps] post_bind [OF on_cipher_keeps] post_bind [OF to_digest_keeps]
  post_bind [OF to_output_keeps] post_bind [OF read_in_keeps] post_bind [OF write_out_keeps]
  post_bind [OF mem_keeps] post_bind [OF guard_keeps]

lemmas keep_ends = on_md_keeps to_digest_keeps read_in_keeps write_out_keeps guard_keeps

lemma hash_once_keeps: "booked args N s \<Longrightarrow> post (booked args N) (booked args N) (hash_once lib s)"
  unfolding hash_once_def by (intro keep_binds keep_ends) simp_all

lemma hash_rounds_keeps: "booked args N s \<Longrightarrow> post (booked args N) (booked args N) (hash_rounds lib n s)"
  by (induction n arbitrary: s) (auto intro: post_bind hash_once_keeps)

lemma derive_key_keeps: "booked args N s \<Longrightarrow> post (booked args N) (booked args N) (derive_key lib s)"
  unfolding derive_key_def
  by (intro keep_binds hash_rounds_keeps) (auto simp: booked_def dest!: write_bytes_length)

lemma start_cipher_keeps: "booked args N s \<Longrightarrow> post (booked args N) (booked args N) (start_cipher lib enc s)"
  unfolding start_cipher_def Let_def by (intro keep_binds keep_ends) simp_all

lemma make_iv_keeps: "booked args N s \<Longrightarrow> post (booked args N) (booked args N) (make_iv lib n s)"
  unfolding make_iv_def Let_def by (intro keep_binds keep_ends) (simp_all add: booked_def)

lemma chunk_keeps:
  "booked args N s \<Longrightarrow> post (booked args N) (booked args N) (encrypt_chunk lib n s)"
  "booked args N s \<Longrightarrow> post (booked args N) (booked args N) (decrypt_chunk lib n s)"
  unfolding encrypt_chunk_def decrypt_chunk_def
  by (intro keep_binds keep_ends; (simp_all add: case_prod_beta)?; intro keep_binds keep_ends; simp)+

lemma loop_keeps:
  "booked args N s \<Longrightarrow> post (booked args N) (booked args N) (encrypt_loop lib k n off s)"
  "booked args N s \<Longrightarrow> post (booked args N) (booked args N) (decrypt_loop lib k n off s)"
  by (induction k arbitrary: off s) (auto simp: Let_def post_def [of _ _ "Inl (Fault _)"] intro: post_bind chunk_keeps)

lemma tail_keeps:
  "booked args N s \<Longrightarrow> post (booked args N) (booked args N) (encrypt_tail lib s)"
  "booked args N s \<Longrightarrow> post (booked args N) (booked args N) (decrypt_tail lib s)"
proof -
  have v: "booked args N s \<Longrightarrow> post (booked args N) (booked args N) (verify_mac lib s)" for s
    unfolding verify_mac_def Let_def by (intro keep_binds keep_ends) simp_all
  show "booked args N s \<Longrightarrow> post (booked args N) (booked args N) (encrypt_tail lib s)"
    unfolding encrypt_tail_def
    by (intro keep_binds; (simp_all add: case_prod_beta)?; intro keep_binds keep_ends; simp)
  show "booked args N s \<Longrightarrow> post (booked args N) (booked args N) (decrypt_tail lib s)"
    unfolding decrypt_tail_def
    by (rule post_bind [OF v], assumption, rule post_bind [OF to_output_keeps], assumption)
      (auto intro: write_out_keeps)
qed

lemma encrypt_keeps: "booked args N s \<Longrightarrow> post (booked args N) (booked args N) (encrypt lib fuel n s)"
  unfolding encrypt_def
  by (intro post_bind [OF make_iv_keeps] post_bind [OF derive_key_keeps] post_bind [OF start_cipher_keeps]
      post_bind [OF loop_keeps(1)] tail_keeps)

lemma decrypt_keeps: "booked args N s \<Longrightarrow> post (booked args N) (booked args N) (decrypt lib fuel n s)"
proof -
  assume b: "booked args N s"
  have c: "post (booked args N) (\<lambda>(n, s). booked args N s) (check_size lib n s)"
    unfolding check_size_def Let_def using b by (intro keep_binds) simp_all
  have i: "post (booked args N) (booked args N) (read_iv s)" if "booked args N s" for s
    unfolding read_iv_def using that by (intro keep_binds) (simp_all add: booked_def)
  show ?thesis
    unfolding decrypt_def
    by (rule post_bind [OF c], clarify)
      (intro post_bind [OF i] post_bind [OF derive_key_keeps] post_bind [OF start_cipher_keeps]
        post_bind [OF loop_keeps(2)] tail_keeps)
qed

lemma setup_keeps:
  assumes b: "booked args N s"
  shows "post (booked args N) (booked args N) (setup_library lib s)"
    and "post (booked args N) (booked args N) (read_key s)"
    and "post (booked args N) (\<lambda>(n, s). booked args N s) (file_size s)"
proof -
  show "post (booked args N) (booked args N) (setup_library lib s)"
    unfolding setup_library_def Let_def using b
    by (intro post_bind [OF need_keeps]) (simp_all add: booked_def)
  show "post (booked args N) (booked args N) (read_key s)"
    unfolding read_key_def Let_def using b
    by (auto split: option.splits prod.splits intro!: post_bind [OF mem_keeps] simp: booked_def)
  show "post (booked args N) (\<lambda>(n, s). booked args N s) (file_size s)"
    unfolding file_size_def Let_def seek_ok_def using b
    by (auto simp: guard_def fail_def say_def post_def booked_def)
qed

lemma body_keeps:
  assumes "accounted args N s" "fin s = None" "fout s = None"
  shows "post (accounted args N) (accounted args N) (body lib fuel s)"
proof -
  have weak: "post (accounted args N) (accounted args N) r" if "post (booked args N) (booked args N) r" for r
    using that by (auto simp: post_def booked_def accounted_def split: sum.splits leave.splits)
  have o: "post (accounted args N) (\<lambda>(m, s). booked args N s) (open_files lib s)"
    using assms
    by (auto simp: open_files_def usage_def guard_def need_def fail_def say_def Let_def post_def accounted_def booked_def
        split: option.splits)
  show ?thesis
    unfolding body_def
  proof (rule post_bind [OF o], clarify, rule weak)
    fix m and s :: "('a, 'b) proc"
    assume "booked args N s"
    then show "post (booked args N) (booked args N)
      (rbind (setup_library lib s) (\<lambda>s. rbind (read_key s) (\<lambda>s. rbind (file_size s) (\<lambda>(n, s).
        rbind (if m = MODE_ENCRYPT then encrypt lib fuel n s else Inr s) (\<lambda>s.
        if m = MODE_DECRYPT then decrypt lib fuel n s else Inr s)))))"
      by (intro post_bind [OF setup_keeps(1)] post_bind [OF setup_keeps(2)] post_bind [OF setup_keeps(3)])
        (auto intro!: post_bind [OF encrypt_keeps] decrypt_keeps)
  qed
qed

text \<open>
  C18. However the program ends, by success, by a wrong command line or by an error of the
  library or of a file, it has closed every file it opened and overwritten with zeros every
  command line argument, the vector, the key, the digest and both buffers.
\<close>

theorem exit_wipes_secrets:
  assumes "crypt_main lib fuel args junk w = Inr (ec, s)"
  shows "nopen s = 0 \<and> argv s = map (\<lambda>a. replicate (length a) NUL) args \<and>
    digest s = replicate (MBEDTLS_MD_MAX_SIZE lib) NUL \<and> IV s = replicate 16 NUL \<and> key s = replicate 512 NUL \<and>
    buffer s = replicate 1024 NUL \<and> outbuf s = replicate 1024 NUL \<and> (ec = 0 \<or> ec = 1)"
proof -
  let ?s = "start lib args junk w" and ?N = "MBEDTLS_MD_MAX_SIZE lib"
  have "accounted args ?N ?s" "fin ?s = None" "fout ?s = None" by (simp_all add: accounted_def start_def)
  from body_keeps [OF this, of lib fuel]
  obtain t where "accounted args ?N t" "s = clean_up t" "ec = 0 \<or> ec = 1"
    using assms by (auto simp: crypt_main_def post_def split: sum.splits leave.splits)
  then show ?thesis by (auto simp: accounted_def clean_up_def Let_def)
qed

theorem exit_wipes_secrets_witness:
  "\<exists>s. crypt_main sample_lib 200 [''c'', ''x''] (\<lambda>_. NUL) (sample_fs []) = Inr (1, s) \<and> nopen s = 0 \<and>
    argv s = [[NUL], [NUL]]"
proof -
  have "\<exists>s. crypt_main sample_lib 200 [''c'', ''x''] (\<lambda>_. NUL) (sample_fs []) = Inr (1, s)"
    by (simp add: crypt_main_def body_def open_files_def start_def)
  then obtain s where s: "crypt_main sample_lib 200 [''c'', ''x''] (\<lambda>_. NUL) (sample_fs []) = Inr (1, s)" by blast
  show ?thesis using exit_wipes_secrets [OF s] s by simp
qed

end
