(* ===== verification/Zmalloc_Proc.thy ===== *)
theory Zmalloc_Proc
  imports Zmalloc
begin

text \<open>
  The readers of the proc file system in \<open>zmalloc.c\<close> (Linux configuration:
  \<open>HAVE_PROC_STAT\<close> and \<open>HAVE_PROC_SMAPS\<close>) and \<open>zlibc_free\<close>. The kernel's files are arguments:
  \<open>None\<close> is a file that cannot be opened. What \<open>read\<close> does not fill of the buffer of
  \<open>zmalloc_get_rss\<close> is the arbitrary \<open>junk\<close>, and a search that leaves the buffer is \<open>BadAccess\<close>.
\<close>

definition zlibc_free :: "ptr \<Rightarrow> zheap \<Rightarrow> zheap" where
  "zlibc_free p z = libc_free p z"

subsection \<open>Resident memory\<close>

definition strchr_in :: "char list \<Rightarrow> nat \<Rightarrow> char \<Rightarrow> nat option res" where
  \<comment> \<open>\<open>strchr(b + p, c)\<close> in the array \<open>b\<close>\<close>
  "strchr_in b p c =
     (let t = drop p b; k = takeWhile (\<lambda>x. x \<noteq> c \<and> x \<noteq> NUL) t in
      if length k = length t then Inl BadAccess
      else if t ! length k = c then Inr (Some (p + length k)) else Inr None)"

fun skip_fields :: "char list \<Rightarrow> nat \<Rightarrow> nat \<Rightarrow> nat option res" where
  \<comment> \<open>\<open>while(p && count--)\<close>\<close>
  "skip_fields b 0 p = Inr (Some p)"
| "skip_fields b (Suc count) p =
     rbind (strchr_in b p (CHR '' '')) (\<lambda>r.
     case r of None \<Rightarrow> Inr None | Some i \<Rightarrow> skip_fields b count (i + 1))"

definition zmalloc_get_rss :: "int \<Rightarrow> (nat \<Rightarrow> char) \<Rightarrow> char list option \<Rightarrow> int res" where
  \<comment> \<open>\<open>stat\<close>: the contents of \<open>/proc/<pid>/stat\<close>, at most 4096 bytes of which are read\<close>
  "zmalloc_get_rss page junk stat =
     (case stat of
        None \<Rightarrow> Inr 0
      | Some t \<Rightarrow>
          if t = [] then Inr 0 else
          let d = take 4096 t; b = d @ map junk [length d..<4096] in
          rbind (skip_fields b 23 0) (\<lambda>r.
          case r of
            None \<Rightarrow> Inr 0
          | Some p \<Rightarrow>
              rbind (strchr_in b p (CHR '' '')) (\<lambda>r.
              case r of
                None \<Rightarrow> Inr 0
              | Some x \<Rightarrow>
                  rbind (poke b (int x) NUL) (\<lambda>b1.
                  let rss = u64 (strtol10 (drop p b1)) in
                  Inr (u64 (rss * u64 page))))))"

lemma strchr_in_hit:
  "c \<notin> set t \<Longrightarrow> NUL \<notin> set t \<Longrightarrow> strchr_in (pre @ t @ c # rest) (length pre) c = Inr (Some (length pre + length t))"
proof -
  assume "c \<notin> set t" "NUL \<notin> set t"
  then have "takeWhile (\<lambda>x. x \<noteq> c \<and> x \<noteq> NUL) (t @ c # rest) = t"
    by (simp add: takeWhile_append2 takeWhile_append) (auto simp: takeWhile_eq_all_conv)
  then show ?thesis by (simp add: strchr_in_def Let_def)
qed

definition spaced :: "char list list \<Rightarrow> char list" where
  \<comment> \<open>fields, each with a space behind it\<close>
  "spaced fs = concat (map (\<lambda>f. f @ '' '') fs)"

lemma spaced_simps [simp]:
  "spaced [] = []" "spaced (f # fs) = f @ CHR '' '' # spaced fs" "spaced (fs @ gs) = spaced fs @ spaced gs"
  by (simp_all add: spaced_def)

definition plain :: "char list \<Rightarrow> bool" where
  "plain f \<longleftrightarrow> CHR '' '' \<notin> set f \<and> NUL \<notin> set f"

lemma skip_fields_spaced:
  "list_all plain fs \<Longrightarrow>
     skip_fields (pre @ spaced fs @ rest) (length fs) (length pre) = Inr (Some (length pre + length (spaced fs)))"
proof (induction fs arbitrary: pre)
  case (Cons f fs)
  have "strchr_in (pre @ f @ CHR '' '' # (spaced fs @ rest)) (length pre) (CHR '' '') = Inr (Some (length pre + length f))"
    using Cons(2) by (intro strchr_in_hit) (simp_all add: plain_def)
  moreover have "skip_fields ((pre @ f @ '' '') @ spaced fs @ rest) (length fs) (length (pre @ f @ '' ''))
      = Inr (Some (length (pre @ f @ '' '') + length (spaced fs)))"
    using Cons(2) by (intro Cons(1)) simp
  ultimately show ?case by simp
qed simp

text \<open>
  \<open>zmalloc_get_rss\<close> returns the number in the 24th field of the \<open>stat\<close> file times the page
  size, for fields separated by single spaces, and stays inside of its buffer.
\<close>

theorem zmalloc_get_rss_reads_field_24:
  assumes "length fs = 23" "list_all plain fs" "n \<noteq> []" "list_all isdigit n" "dec_value n < 9223372036854775808"
    and "length (spaced fs @ n) < 4096"
  shows "zmalloc_get_rss page junk (Some (spaced fs @ n @ CHR '' '' # tail)) = Inr (u64 (dec_value n * page))"
proof -
  let ?d = "take 4096 (spaced fs @ n @ CHR '' '' # tail)"
  obtain rest where b: "?d @ map junk [length ?d..<4096] = spaced fs @ n @ CHR '' '' # rest"
  proof
    let ?k = "4096 - length (spaced fs @ n) - 1"
    have "4096 = length (spaced fs @ n @ '' '') + ?k" using assms(6) by simp
    then have "?d = spaced fs @ n @ CHR '' '' # take ?k tail"
      by (metis append.assoc append_Cons append_Nil take_append take_all_iff add_diff_cancel_left' le_add1)
    then show "?d @ map junk [length ?d..<4096] = spaced fs @ n @ CHR '' '' # (take ?k tail @ map junk [length ?d..<4096])"
      by simp
  qed
  have n: "plain n" using assms(4) by (auto simp: plain_def list_all_iff isdigit_def code_def)
  have s: "skip_fields (spaced fs @ n @ CHR '' '' # rest) 23 0 = Inr (Some (length (spaced fs)))"
    using skip_fields_spaced [OF assms(2), of "[]" "n @ CHR '' '' # rest"] assms(1) by simp
  have x: "strchr_in (spaced fs @ n @ CHR '' '' # rest) (length (spaced fs)) (CHR '' '') = Inr (Some (length (spaced fs) + length n))"
    using n by (intro strchr_in_hit) (simp_all add: plain_def)
  have p: "poke (spaced fs @ n @ CHR '' '' # rest) (int (length (spaced fs) + length n)) NUL = Inr (spaced fs @ n @ NUL # rest)"
    using poke_append [of "spaced fs @ n" "CHR '' ''" rest NUL] by simp
  have "strtol10 (n @ NUL # rest) = strtol10 n"
    by (simp add: strtol10_def cstr_append_NUL_same)
  also have "\<dots> = dec_value n" using strtol10_digits [OF assms(3-5), of "[]" "[]"] by simp
  finally have v: "strtol10 (n @ NUL # rest) = dec_value n" .
  have "spaced fs @ n @ CHR '' '' # tail \<noteq> []" by simp
  then have "zmalloc_get_rss page junk (Some (spaced fs @ n @ CHR '' '' # tail)) = Inr (u64 (u64 (dec_value n) * u64 page))"
    unfolding zmalloc_get_rss_def option.case Let_def b s using x p v by simp
  then show ?thesis by (simp add: u64_def mod_simps)
qed

theorem zmalloc_get_rss_reads_field_24_witness:
  "zmalloc_get_rss 4096 (\<lambda>_. NUL) (Some (spaced (replicate 23 ''1'') @ ''25 9 7'')) = Inr 102400"
proof -
  have "dec_value ''25'' = 25" "length (spaced (replicate 23 ''1'') @ ''25'') < 4096" by code_simp+
  then show ?thesis
    using zmalloc_get_rss_reads_field_24 [of "replicate 23 ''1''" "''25''" 4096 "\<lambda>_. NUL" "''9 7''"]
    by (simp add: plain_def isdigit_def code_def list_all_iff u64_def)
qed

subsection \<open>Private dirty memory\<close>

abbreviation newline :: char where
  "newline \<equiv> CHR 0x0A"

definition fgets_line :: "char list \<Rightarrow> char list" where
  \<comment> \<open>what \<open>fgets(line, 1024, fp)\<close> reads of the rest \<open>t\<close> of the file\<close>
  "fgets_line t =
     (let k = takeWhile (\<lambda>c. c \<noteq> newline) t in
      take 1023 (if length k < length t then k @ [newline] else k))"

definition line_dirty :: "char list \<Rightarrow> int \<Rightarrow> int res" where
  \<comment> \<open>the body of the loop: \<open>pd += strtol(line+14,NULL,10) * 1024\<close>\<close>
  "line_dirty l pd =
     (if take 14 l = ''Private_Dirty:'' \<and> CHR ''k'' \<in> set l
      then rbind (c64 (strtol10 (drop 14 (takeWhile (\<lambda>c. c \<noteq> CHR ''k'') l)) * 1024)) (\<lambda>v. Inr (u64 (pd + v)))
      else Inr pd)"

lemma fgets_line_not_Nil: "t \<noteq> [] \<Longrightarrow> fgets_line t \<noteq> []"
  by (cases t) (auto simp: fgets_line_def Let_def)

function dirty_loop :: "char list \<Rightarrow> int \<Rightarrow> int res" where
  "dirty_loop t pd =
     (if t = [] then Inr pd
      else rbind (line_dirty (fgets_line t) pd) (\<lambda>pd1. dirty_loop (drop (length (fgets_line t)) t) pd1))"
  by pat_completeness auto

termination dirty_loop
  by (relation "measure (\<lambda>(t, pd). length t)") (auto simp: fgets_line_not_Nil)

declare dirty_loop.simps [simp del]

definition zmalloc_get_private_dirty :: "char list option \<Rightarrow> int res" where
  "zmalloc_get_private_dirty smaps = (case smaps of None \<Rightarrow> Inr 0 | Some t \<Rightarrow> dirty_loop t 0)"

datatype smaps_line = OtherLine "char list" | DirtyLine nat "char list"

fun line_text :: "smaps_line \<Rightarrow> char list" where
  "line_text (OtherLine t) = t @ [newline]"
| "line_text (DirtyLine n d) = ''Private_Dirty:'' @ replicate n (CHR '' '') @ d @ '' kB'' @ [newline]"

fun line_ok :: "smaps_line \<Rightarrow> bool" where
  "line_ok (OtherLine t) \<longleftrightarrow> newline \<notin> set t \<and> length t < 1022 \<and> take 14 t \<noteq> ''Private_Dirty:''"
| "line_ok (DirtyLine n d) \<longleftrightarrow> d \<noteq> [] \<and> list_all isdigit d \<and> n + length d < 1000 \<and> dec_value d < 9007199254740992"

fun line_kb :: "smaps_line \<Rightarrow> int" where
  "line_kb (OtherLine t) = 0"
| "line_kb (DirtyLine n d) = dec_value d"

lemma fgets_line_newline:
  "newline \<notin> set k \<Longrightarrow> length k < 1022 \<Longrightarrow> fgets_line (k @ newline # rest) = k @ [newline]"
  by (simp add: fgets_line_def Let_def takeWhile_append2 takeWhile_append)

lemma line_step:
  assumes "line_ok x" "u64 pd = pd"
  shows "fgets_line (line_text x @ rest) = line_text x \<and>
    line_dirty (line_text x) pd = Inr (u64 (pd + line_kb x * 1024))"
proof (cases x)
  case (OtherLine t)
  have "take 14 (t @ [newline]) \<noteq> ''Private_Dirty:''"
  proof
    assume a: "take 14 (t @ [newline]) = ''Private_Dirty:''"
    then have "newline \<notin> set (take 14 (t @ [newline]))" by simp
    then have "14 \<le> length t" by (cases "14 \<le> length t") auto
    then show False using a assms OtherLine by simp
  qed
  then show ?thesis
    using assms OtherLine fgets_line_newline [of t rest] by (simp add: line_dirty_def)
next
  case (DirtyLine n d)
  let ?k = "''Private_Dirty:'' @ replicate n (CHR '' '') @ d @ '' kB''"
  have ok: "d \<noteq> []" "list_all isdigit d" "n + length d < 1000" "dec_value d < 9007199254740992"
    using assms DirtyLine by simp_all
  have nd: "isdigit c \<Longrightarrow> c \<noteq> newline \<and> c \<noteq> CHR ''k''" for c by (auto simp: isdigit_def code_def)
  have "newline \<notin> set ?k" using ok(2) nd by (auto simp: list_all_iff)
  moreover have "length ?k < 1022" using ok(3) by simp
  ultimately have f: "fgets_line (line_text x @ rest) = line_text x" using DirtyLine fgets_line_newline [of ?k rest] by simp
  have "takeWhile (\<lambda>c. c \<noteq> CHR ''k'') (?k @ [newline]) = ''Private_Dirty:'' @ replicate n (CHR '' '') @ d @ '' ''"
    using ok(2) nd by (simp add: takeWhile_append list_all_iff)
  moreover have "strtol10 (replicate n (CHR '' '') @ d @ '' '') = dec_value d"
    using ok by (intro strtol10_digits) (auto simp: list_all_iff isspace_def isdigit_def code_def)
  moreover have "c64 (dec_value d * 1024) = Inr (dec_value d * 1024)"
    using ok(4) dec_value_nonneg [OF ok(2)] by (intro c64_id) simp_all
  ultimately show ?thesis using f DirtyLine by (simp add: line_dirty_def)
qed

lemma line_text_not_Nil [simp]: "line_text x \<noteq> []"
  by (cases x) simp_all

text \<open>
  \<open>zmalloc_get_private_dirty\<close> adds up the lines of \<open>smaps\<close> that begin with
  \<open>Private_Dirty:\<close>, in bytes, and ignores every other line.
\<close>

theorem private_dirty_sums_lines:
  assumes "list_all line_ok ls"
  shows "zmalloc_get_private_dirty (Some (concat (map line_text ls))) = Inr (u64 (1024 * sum_list (map line_kb ls)))"
proof -
  have "dirty_loop (concat (map line_text ls)) pd = Inr (u64 (pd + 1024 * sum_list (map line_kb ls)))"
    if "u64 pd = pd" for pd
    using assms that
  proof (induction ls arbitrary: pd)
    case (Cons x ls)
    let ?t = "line_text x @ concat (map line_text ls)" and ?pd = "u64 (pd + line_kb x * 1024)"
    have s: "fgets_line ?t = line_text x" "line_dirty (line_text x) pd = Inr ?pd"
      using line_step [of x pd "concat (map line_text ls)"] Cons(2,3) by simp_all
    have "dirty_loop ?t pd = dirty_loop (concat (map line_text ls)) ?pd"
      by (simp add: dirty_loop.simps [of ?t pd] s)
    also have "\<dots> = Inr (u64 (?pd + 1024 * sum_list (map line_kb ls)))"
      using Cons(2) by (intro Cons(1)) (simp_all add: u64_def)
    finally show ?case by (simp add: algebra_simps)
  qed (simp add: dirty_loop.simps)
  from this [of 0] show ?thesis by (simp add: zmalloc_get_private_dirty_def u64_def)
qed

theorem private_dirty_sums_lines_witness:
  "zmalloc_get_private_dirty (Some (concat (map line_text [DirtyLine 2 ''12'', OtherLine ''Swap: 1 kB'', DirtyLine 1 ''4'']))) = Inr 16384"
proof -
  have "dec_value ''12'' = 12" "dec_value ''4'' = 4" by code_simp+
  then show ?thesis
    using private_dirty_sums_lines [of "[DirtyLine 2 ''12'', OtherLine ''Swap: 1 kB'', DirtyLine 1 ''4'']"]
    by (simp add: isdigit_def code_def u64_def)
qed

end
