(* ===== verification/Endianconv.thy ===== *)
theory Endianconv
  imports Prelude
begin

text \<open>
  Byte order conversion, \<open>endianconv.c\<close> and \<open>endianconv.h\<close>: in-place reversal of two, four and
  eight bytes, the same for integers by way of their bytes in memory, and the macros that
  depend on the byte order of the host. The parameter \<open>le\<close> says whether the host is little
  endian (\<open>BYTE_ORDER == LITTLE_ENDIAN\<close>).
\<close>

subsection \<open>Reversal in memory\<close>

definition exchange :: "int \<Rightarrow> int \<Rightarrow> char list \<Rightarrow> char list res" where
  \<comment> \<open>\<open>t = x[i]; x[i] = x[j]; x[j] = t;\<close>\<close>
  "exchange i j x =
     rbind (peek x i) (\<lambda>t. rbind (peek x j) (\<lambda>c. rbind (poke x i c) (\<lambda>x1. poke x1 j t)))"

definition memrev16 :: "char list \<Rightarrow> char list res" where
  "memrev16 x = exchange 0 1 x"

definition memrev32 :: "char list \<Rightarrow> char list res" where
  "memrev32 x = rbind (exchange 0 3 x) (exchange 1 2)"

definition memrev64 :: "char list \<Rightarrow> char list res" where
  "memrev64 x =
     rbind (exchange 0 7 x) (\<lambda>x. rbind (exchange 1 6 x) (\<lambda>x. rbind (exchange 2 5 x) (exchange 3 4)))"

subsection \<open>Integers and their bytes\<close>

definition digits :: "nat \<Rightarrow> nat \<Rightarrow> char list" where
  \<comment> \<open>the last \<open>k\<close> digits of \<open>n\<close> to the base 256, the least significant first\<close>
  "digits k n = map (\<lambda>i. char_of (n div 256 ^ i)) [0..<k]"

definition undigits :: "char list \<Rightarrow> nat" where
  "undigits bs = foldr (\<lambda>c n. of_char c + 256 * n) bs 0"

definition word_bytes :: "bool \<Rightarrow> 'a::len word \<Rightarrow> char list" where
  \<comment> \<open>the bytes of an integer of a multiple of eight bits in the memory of the host\<close>
  "word_bytes le v = (if le then digits (LENGTH('a) div 8) (unat v) else rev (digits (LENGTH('a) div 8) (unat v)))"

definition bytes_word :: "bool \<Rightarrow> char list \<Rightarrow> 'a::len word" where
  "bytes_word le bs = word_of_nat (undigits (if le then bs else rev bs))"

definition intrev16 :: "bool \<Rightarrow> 16 word \<Rightarrow> 16 word res" where
  "intrev16 le v = rbind (memrev16 (word_bytes le v)) (\<lambda>b. Inr (bytes_word le b))"

definition intrev32 :: "bool \<Rightarrow> 32 word \<Rightarrow> 32 word res" where
  "intrev32 le v = rbind (memrev32 (word_bytes le v)) (\<lambda>b. Inr (bytes_word le b))"

definition intrev64 :: "bool \<Rightarrow> 64 word \<Rightarrow> 64 word res" where
  "intrev64 le v = rbind (memrev64 (word_bytes le v)) (\<lambda>b. Inr (bytes_word le b))"

subsection \<open>The macros\<close>

definition memrev16ifbe :: "bool \<Rightarrow> char list \<Rightarrow> char list res" where
  "memrev16ifbe le p = (if le then Inr p else memrev16 p)"

definition memrev32ifbe :: "bool \<Rightarrow> char list \<Rightarrow> char list res" where
  "memrev32ifbe le p = (if le then Inr p else memrev32 p)"

definition memrev64ifbe :: "bool \<Rightarrow> char list \<Rightarrow> char list res" where
  "memrev64ifbe le p = (if le then Inr p else memrev64 p)"

definition intrev16ifbe :: "bool \<Rightarrow> 16 word \<Rightarrow> 16 word res" where
  "intrev16ifbe le v = (if le then Inr v else intrev16 le v)"

definition intrev32ifbe :: "bool \<Rightarrow> 32 word \<Rightarrow> 32 word res" where
  "intrev32ifbe le v = (if le then Inr v else intrev32 le v)"

definition intrev64ifbe :: "bool \<Rightarrow> 64 word \<Rightarrow> 64 word res" where
  "intrev64ifbe le v = (if le then Inr v else intrev64 le v)"

definition htonu64 :: "bool \<Rightarrow> 64 word \<Rightarrow> 64 word res" where
  "htonu64 le v = (if \<not> le then Inr v else intrev64 le v)"

definition ntohu64 :: "bool \<Rightarrow> 64 word \<Rightarrow> 64 word res" where
  "ntohu64 le v = (if \<not> le then Inr v else intrev64 le v)"

subsection \<open>Reversal reverses\<close>

lemma memrev16_rev: "length x = 2 \<Longrightarrow> memrev16 (x @ rest) = Inr (rev x @ rest)"
  and memrev32_rev: "length y = 4 \<Longrightarrow> memrev32 (y @ rest) = Inr (rev y @ rest)"
  and memrev64_rev: "length z = 8 \<Longrightarrow> memrev64 (z @ rest) = Inr (rev z @ rest)"
  by (auto simp: numeral_eq_Suc length_Suc_conv memrev16_def memrev32_def memrev64_def exchange_def peek_def poke_def)

subsection \<open>Integers are their bytes\<close>

lemma digits_Suc: "digits (Suc k) n = char_of n # digits k (n div 256)"
  by (simp add: digits_def upt_conv_Cons map_Suc_upt [symmetric] div_mult2_eq del: upt_Suc map_Suc_upt)

lemma length_digits [simp]: "length (digits k n) = k"
  by (simp add: digits_def)

lemma undigits_digits: "undigits (digits k n) = n mod 256 ^ k"
proof (induction k arbitrary: n)
  case (Suc k)
  have "undigits (digits (Suc k) n) = n mod 256 + 256 * (n div 256 mod 256 ^ k)"
    using Suc [of "n div 256"] by (simp add: digits_Suc undigits_def)
  then show ?case by (simp add: mod_mult2_eq)
qed (simp add: digits_def undigits_def)

lemma digits_undigits: "digits (length bs) (undigits bs) = bs"
proof (induction bs)
  case (Cons c bs)
  have l: "(of_char c :: nat) < 256" by (rule nat_of_char_less_256)
  have u: "undigits (c # bs) = of_char c + 256 * undigits bs" by (simp add: undigits_def)
  have "char_of (undigits (c # bs)) = c"
    unfolding u by (metis char_of_mod_256 mod_mult_self2 char_of_char)
  moreover have "undigits (c # bs) div 256 = undigits bs" unfolding u using l by simp
  ultimately show ?case using Cons by (simp add: digits_Suc)
qed (simp add: digits_def)

lemma undigits_less: "undigits bs < 256 ^ length bs"
  using undigits_digits [of "length bs" "undigits bs"] digits_undigits [of bs]
  by (metis mod_less_divisor zero_less_power zero_less_numeral)

lemma word_bytes_rev: "word_bytes (\<not> le) v = rev (word_bytes le v)"
  by (simp add: word_bytes_def)

lemma bytes_word_rev: "bytes_word (\<not> le) (rev b) = bytes_word le b"
  by (simp add: bytes_word_def)

locale byte_reversal =
  fixes n :: nat
    and rv :: "char list \<Rightarrow> char list res"
    and intrev :: "bool \<Rightarrow> 'a::len word \<Rightarrow> 'a word res"
  assumes size: "LENGTH('a) = 8 * n"
    and rv_rev: "length x = n \<Longrightarrow> rv x = Inr (rev x)"
    and intrev_bytes: "intrev le v = rbind (rv (word_bytes le v)) (\<lambda>b. Inr (bytes_word le b))"
begin

lemma length_word_bytes: "length (word_bytes le (v :: 'a word)) = n"
  by (simp add: word_bytes_def size)

lemma bytes_word_bytes: "bytes_word le (word_bytes le v) = (v :: 'a word)"
proof -
  have "unat v < 2 ^ (8 * n)" using unsigned_less [of v] by (simp add: size)
  then have "unat v < 256 ^ n" by (simp add: power_mult)
  then show ?thesis by (simp add: bytes_word_def word_bytes_def undigits_digits size)
qed

lemma word_bytes_word:
  assumes "length b = n"
  shows "word_bytes le (bytes_word le b :: 'a word) = b"
proof -
  let ?b = "if le then b else rev b"
  have "undigits ?b < 2 ^ LENGTH('a)"
    using undigits_less [of ?b] assms by (simp add: size power_mult split: if_splits)
  then have "unat (bytes_word le b :: 'a word) = undigits ?b"
    unfolding bytes_word_def by (simp add: unat_of_nat take_bit_nat_eq_self)
  then show ?thesis
    using digits_undigits [of ?b] assms by (cases le) (simp_all add: word_bytes_def size)
qed

lemma intrev_eq: "intrev le v = Inr (bytes_word (\<not> le) (word_bytes le v))"
  by (simp add: intrev_bytes rv_rev [OF length_word_bytes] bytes_word_def)

lemma bytes_of_intrev: "intrev le v = Inr u \<Longrightarrow> word_bytes le u = rev (word_bytes le v)"
proof -
  assume "intrev le v = Inr u"
  then have "u = bytes_word (\<not> le) (word_bytes le v)" by (simp add: intrev_eq)
  then have "word_bytes (\<not> le) u = word_bytes le v" using word_bytes_word [of "word_bytes le v" "\<not> le"] by (simp add: length_word_bytes)
  then show ?thesis using word_bytes_rev [of le u] by (metis rev_rev_ident)
qed

lemma intrev_involution: "rbind (intrev le v) (intrev le) = Inr v"
proof -
  obtain u where u: "intrev le v = Inr u" by (simp add: intrev_eq)
  have "intrev le u = Inr (bytes_word (\<not> le) (rev (word_bytes le v)))" using bytes_of_intrev [OF u] by (simp add: intrev_eq)
  also have "\<dots> = Inr v" by (simp add: bytes_word_rev bytes_word_bytes)
  finally show ?thesis using u by simp
qed

lemma intrev_same_on_every_host: "intrev le v = intrev le' v"
proof -
  have "bytes_word False (word_bytes True v) = (bytes_word True (word_bytes False v) :: 'a word)"
    by (simp add: bytes_word_def word_bytes_def)
  then show ?thesis by (cases le; cases le') (simp_all add: intrev_eq)
qed

end

interpretation rev16: byte_reversal 2 memrev16 intrev16
  by unfold_locales (use memrev16_rev [of _ "[]"] in \<open>simp_all add: intrev16_def\<close>)

interpretation rev32: byte_reversal 4 memrev32 intrev32
  by unfold_locales (use memrev32_rev [of _ "[]"] in \<open>simp_all add: intrev32_def\<close>)

interpretation rev64: byte_reversal 8 memrev64 intrev64
  by unfold_locales (use memrev64_rev [of _ "[]"] in \<open>simp_all add: intrev64_def\<close>)

text \<open>
  C36. \<open>htonu64\<close> gives an integer whose bytes in memory are those of the argument with the most
  significant first, on a little endian and on a big endian host, and \<open>ntohu64\<close> gives the
  argument back.
\<close>

theorem network_byte_order:
  "\<exists>u. htonu64 le v = Inr u \<and> word_bytes le u = rev (digits 8 (unat v)) \<and> ntohu64 le u = Inr v"
proof (cases le)
  case True
  obtain u where u: "intrev64 True v = Inr u" by (simp add: rev64.intrev_eq)
  then show ?thesis
    using True rev64.bytes_of_intrev [OF u] rev64.intrev_involution [of True v]
    by (simp add: htonu64_def ntohu64_def word_bytes_def)
qed (simp add: htonu64_def ntohu64_def word_bytes_def)

lemma intrev_on_every_host:
  "intrev16 le a = intrev16 True a" "intrev32 le b = intrev32 True b" "intrev64 le c = intrev64 True c"
  by (rule rev16.intrev_same_on_every_host rev32.intrev_same_on_every_host rev64.intrev_same_on_every_host)+

end
