(* ===== verification/Primes.thy ===== *)
theory Primes
  imports Prelude
begin

text \<open>
  Number functions of the unit-testing samples: \<open>googletest/gtest/sample1.cc\<close> (factorial and a
  primality test) and \<open>googletest/gtest/prime_tables.h\<close> (two implementations of the interface
  \<open>PrimeTable\<close>, one that computes and one with a sieve). Every sum and product of the type
  \<open>int\<close> goes through \<open>c32\<close>, so that an overflow is the outcome \<open>SignedOverflow\<close>.
\<close>

subsection \<open>\<open>sample1.cc\<close>\<close>

function fact_loop :: "int \<Rightarrow> int \<Rightarrow> int \<Rightarrow> int res" where
  \<comment> \<open>\<open>for (int i = 1; i <= n; i++) result *= i;\<close>\<close>
  "fact_loop n i result =
     (if i \<le> n then rbind (c32 (result * i)) (\<lambda>r. rbind (c32 (i + 1)) (\<lambda>j. fact_loop n j r)) else Inr result)"
  by pat_completeness auto

termination fact_loop
  by (relation "measure (\<lambda>(n, i, result). nat (n + 1 - i))") (auto simp: c32_def split: if_splits)

definition Factorial :: "int \<Rightarrow> int res" where
  "Factorial n = fact_loop n 1 1"

function prime_loop :: "int \<Rightarrow> int \<Rightarrow> bool res" where
  \<comment> \<open>\<open>for (int i = 3; ; i += 2)\<close>, with \<open>3 \<le> i\<close>\<close>
  "prime_loop n i =
     (if i < 1 \<or> i > n div i then Inr True
      else if n mod i = 0 then Inr False
      else rbind (c32 (i + 2)) (\<lambda>j. prime_loop n j))"
  by pat_completeness auto

termination prime_loop
proof (relation "measure (\<lambda>(n, i). nat (n + 1 - i))")
  fix n i x :: int
  assume a: "\<not> (i < 1 \<or> i > n div i)" "c32 (i + 2) = Inr x"
  have "i \<le> n div i * i" using a(1) mult_mono [of 1 "n div i" i i] by simp
  also have "\<dots> \<le> n" using a(1) div_mult_mod_eq [of n i] pos_mod_sign [of i n] by linarith
  finally show "((n, x), (n, i)) \<in> measure (\<lambda>(n, i). nat (n + 1 - i))"
    using a(2) by (auto simp: c32_def split: if_splits)
qed simp

declare fact_loop.simps [simp del] prime_loop.simps [simp del]

definition IsPrime :: "int \<Rightarrow> bool res" where
  "IsPrime n =
     (if n \<le> 1 then Inr False
      else if n mod 2 = 0 then Inr (n = 2)
      else prime_loop n 3)"

subsection \<open>\<open>OnTheFlyPrimeTable\<close>\<close>

function fly_loop :: "int \<Rightarrow> int \<Rightarrow> bool res" where
  \<comment> \<open>\<open>for (int i = 2; i*i <= n; i++)\<close>\<close>
  "fly_loop n i =
     rbind (c32 (i * i)) (\<lambda>s.
     if s \<le> n then
       if n mod i = 0 then Inr False else rbind (c32 (i + 1)) (\<lambda>j. fly_loop n j)
     else Inr True)"
  by pat_completeness auto

termination fly_loop
  by (relation "measure (\<lambda>(n, i). nat (2147483648 - i))") (auto simp: c32_def split: if_splits)

definition fly_IsPrime :: "int \<Rightarrow> bool res" where
  "fly_IsPrime n = (if n \<le> 1 then Inr False else fly_loop n 2)"

function fly_next :: "int \<Rightarrow> int res" where
  \<comment> \<open>\<open>for (int n = p + 1; n > 0; n++)\<close>\<close>
  "fly_next n =
     (if n > 0 then rbind (fly_IsPrime n) (\<lambda>b. if b then Inr n else rbind (c32 (n + 1)) (\<lambda>m. fly_next m))
      else Inr (- 1))"
  by pat_completeness auto

termination fly_next
  by (relation "measure (\<lambda>n. nat (2147483648 - n))") (auto simp: c32_def split: if_splits)

definition fly_GetNextPrime :: "int \<Rightarrow> int res" where
  "fly_GetNextPrime p = rbind (c32 (p + 1)) (\<lambda>n. fly_next n)"

subsection \<open>\<open>PreCalculatedPrimeTable\<close>\<close>

definition aget :: "bool list \<Rightarrow> int \<Rightarrow> bool res" where
  "aget a i = (if 0 \<le> i \<and> i < int (length a) then Inr (a ! nat i) else Inl BadAccess)"

definition aset :: "bool list \<Rightarrow> int \<Rightarrow> bool \<Rightarrow> bool list res" where
  "aset a i v = (if 0 \<le> i \<and> i < int (length a) then Inr (a[nat i := v]) else Inl BadAccess)"

function mark_loop :: "int \<Rightarrow> int \<Rightarrow> int \<Rightarrow> bool list \<Rightarrow> bool list res" where
  \<comment> \<open>\<open>for (int j = 2*i; j <= max; j += i)\<close>, with \<open>2 \<le> i\<close>\<close>
  "mark_loop mx i j a =
     (if i < 1 then Inr a
      else if j \<le> mx then rbind (aset a j False) (\<lambda>a. rbind (c32 (j + i)) (\<lambda>k. mark_loop mx i k a))
      else Inr a)"
  by pat_completeness auto

termination mark_loop
  by (relation "measure (\<lambda>(mx, i, j, a). nat (mx + 1 - j))") (auto simp: c32_def split: if_splits)

function sieve_loop :: "int \<Rightarrow> int \<Rightarrow> bool list \<Rightarrow> bool list res" where
  \<comment> \<open>\<open>for (int i = 2; i <= max; i++)\<close>\<close>
  "sieve_loop mx i a =
     (if i \<le> mx then
        rbind (aget a i) (\<lambda>b.
        rbind (if \<not> b then Inr a else rbind (c32 (2 * i)) (\<lambda>j. mark_loop mx i j a)) (\<lambda>a.
        rbind (c32 (i + 1)) (\<lambda>k. sieve_loop mx k a)))
      else Inr a)"
  by pat_completeness auto

termination sieve_loop
  by (relation "measure (\<lambda>(mx, i, a). nat (mx + 1 - i))") (auto simp: c32_def split: if_splits)

declare fly_loop.simps [simp del] fly_next.simps [simp del] mark_loop.simps [simp del] sieve_loop.simps [simp del]

definition CalculatePrimesUpTo :: "int \<Rightarrow> bool list \<Rightarrow> bool list res" where
  "CalculatePrimesUpTo mx a =
     rbind (aset (map (\<lambda>_. True) a) 1 False) (\<lambda>a. rbind (aset a 0 False) (\<lambda>a. sieve_loop mx 2 a))"

definition PreCalculatedPrimeTable :: "int \<Rightarrow> (nat \<Rightarrow> bool) \<Rightarrow> bool list res" where
  \<comment> \<open>the constructor; an array of negative size is \<open>std::bad_array_new_length\<close>\<close>
  "PreCalculatedPrimeTable mx junk =
     rbind (c32 (mx + 1)) (\<lambda>sz.
     if sz < 0 then Inl (OutOfMemory 0) else CalculatePrimesUpTo mx (map junk [0..<nat sz]))"

definition tab_IsPrime :: "bool list \<Rightarrow> int \<Rightarrow> bool res" where
  "tab_IsPrime a n = (if 0 \<le> n \<and> n < int (length a) then aget a n else Inr False)"

function tab_next :: "bool list \<Rightarrow> int \<Rightarrow> int res" where
  \<comment> \<open>\<open>for (int n = p + 1; n < is_prime_size_; n++)\<close>\<close>
  "tab_next a n =
     (if n < int (length a) then
        rbind (aget a n) (\<lambda>b. if b then Inr n else rbind (c32 (n + 1)) (\<lambda>m. tab_next a m))
      else Inr (- 1))"
  by pat_completeness auto

termination tab_next
  by (relation "measure (\<lambda>(a, n). nat (int (length a) + 1 - n))") (auto simp: c32_def split: if_splits)

declare tab_next.simps [simp del]

definition tab_GetNextPrime :: "bool list \<Rightarrow> int \<Rightarrow> int res" where
  "tab_GetNextPrime a p = rbind (c32 (p + 1)) (\<lambda>n. tab_next a n)"

subsection \<open>Prime numbers\<close>

definition prime_number :: "int \<Rightarrow> bool" where
  "prime_number n \<longleftrightarrow> 2 \<le> n \<and> (\<forall>d. 2 \<le> d \<longrightarrow> d dvd n \<longrightarrow> d = n)"

lemma composite_divisor:
  assumes "2 \<le> n" "\<not> prime_number n"
  shows "\<exists>d. 2 \<le> d \<and> d * d \<le> n \<and> d dvd n"
proof -
  obtain d where d: "2 \<le> d" "d dvd n" "d \<noteq> n" using assms by (auto simp: prime_number_def)
  then obtain e where e: "n = d * e" by (auto elim: dvdE)
  have "0 < e" using assms(1) d(1) e by (metis mult_nonneg_nonpos not_le order_trans zero_le_numeral less_le_trans zero_less_numeral linorder_not_less)
  moreover have "e \<noteq> 1" using d(3) e by auto
  ultimately have e2: "2 \<le> e" by simp
  show ?thesis
  proof (cases "d \<le> e")
    case True
    then show ?thesis using d e mult_left_mono [of d e d] by (intro exI [of _ d]) auto
  next
    case False
    then show ?thesis using e2 e mult_right_mono [of e d e] by (intro exI [of _ e]) auto
  qed
qed

lemma no_divisor_prime:
  assumes "2 \<le> n" "\<And>d. 2 \<le> d \<Longrightarrow> d * d \<le> n \<Longrightarrow> \<not> d dvd n"
  shows "prime_number n"
  using composite_divisor [OF assms(1)] assms(2) by blast

lemma divisor_not_prime: "2 \<le> d \<Longrightarrow> d dvd n \<Longrightarrow> d < n \<Longrightarrow> \<not> prime_number n"
  by (auto simp: prime_number_def)

lemma square_bound:
  assumes "i * i \<le> n" "n < 2147483648" "0 \<le> i"
  shows "i \<le> (46340 :: int)"
proof (rule ccontr)
  assume "\<not> ?thesis"
  then have "46341 * 46341 \<le> i * i" using assms(3) by (intro mult_mono) simp_all
  then show False using assms by simp
qed

lemma le_div_square: "0 < i \<Longrightarrow> i \<le> n div i \<longleftrightarrow> i * i \<le> (n :: int)"
proof
  assume i: "0 < i" "i \<le> n div i"
  then have "i * i \<le> n div i * i" by (intro mult_right_mono) simp_all
  also have "\<dots> \<le> n" using i div_mult_mod_eq [of n i] pos_mod_sign [of i n] by linarith
  finally show "i * i \<le> n" .
next
  assume "0 < i" "i * i \<le> n"
  then show "i \<le> n div i" using zdiv_mono1 [of "i * i" n i] by simp
qed

lemma prime_loop_decides:
  assumes "3 \<le> i" "\<not> 2 dvd i" "\<not> 2 dvd n" "2 \<le> n" "n < 2147483648" "\<And>d. 2 \<le> d \<Longrightarrow> d < i \<Longrightarrow> \<not> d dvd n"
  shows "prime_loop n i = Inr (prime_number n)"
  using assms
proof (induction n i rule: prime_loop.induct)
  case (1 n i)
  consider "n < i * i" | "i * i \<le> n" "i dvd n" | "i * i \<le> n" "\<not> i dvd n" by linarith
  then show ?case
  proof cases
    case 1
    have "prime_number n"
    proof (rule no_divisor_prime [OF \<open>2 \<le> n\<close>])
      fix d assume "2 \<le> d" "d * d \<le> n"
      then have "d < i" using 1 mult_mono [of i d i d] \<open>3 \<le> i\<close> by (cases "d < i") auto
      then show "\<not> d dvd n" using \<open>2 \<le> d\<close> \<open>\<And>d. 2 \<le> d \<Longrightarrow> d < i \<Longrightarrow> \<not> d dvd n\<close> by blast
    qed
    then show ?thesis using 1 \<open>3 \<le> i\<close> le_div_square [of i n] by (simp add: prime_loop.simps [of n i])
  next
    case 2
    have "i * 2 \<le> i * i" using \<open>3 \<le> i\<close> by (intro mult_left_mono) simp_all
    then have "i < n" using 2(1) \<open>3 \<le> i\<close> by linarith
    then have "\<not> prime_number n" using 2(2) \<open>3 \<le> i\<close> by (intro divisor_not_prime [of i]) simp_all
    then show ?thesis using 2 \<open>3 \<le> i\<close> le_div_square [of i n] by (simp add: prime_loop.simps [of n i] mod_eq_0_iff_dvd)
  next
    case 3
    have c: "c32 (i + 2) = Inr (i + 2)" using square_bound [OF 3(1)] 1(2,6) by (intro c32_id) simp_all
    have "\<not> d dvd n" if "2 \<le> d" "d < i + 2" for d
    proof -
      have "2 dvd i + 1" using \<open>\<not> 2 dvd i\<close> by simp
      then have "\<not> i + 1 dvd n" using \<open>\<not> 2 dvd n\<close> dvd_trans by blast
      moreover have "d < i \<or> d = i \<or> d = i + 1" using that(2) by linarith
      ultimately show ?thesis using that(1) 3(2) 1(7) by blast
    qed
    then have "prime_loop n (i + 2) = Inr (prime_number n)"
      using 1(1) [OF _ _ c] 3 1(2-6) le_div_square [of i n] by (auto simp: mod_eq_0_iff_dvd)
    then show ?thesis using 3 c \<open>3 \<le> i\<close> le_div_square [of i n] by (simp add: prime_loop.simps [of n i] mod_eq_0_iff_dvd)
  qed
qed

lemma IsPrime_decides:
  assumes "n < 2147483648"
  shows "IsPrime n = Inr (prime_number n)"
proof -
  consider "n \<le> 1" | "1 < n" "2 dvd n" | "1 < n" "\<not> 2 dvd n" by linarith
  then show ?thesis
  proof cases
    case 2
    then have "prime_number n \<longleftrightarrow> n = 2"
      using divisor_not_prime [of 2 n] by (auto simp: prime_number_def dest: zdvd_imp_le)
    then show ?thesis using 2 by (auto simp: IsPrime_def mod_eq_0_iff_dvd)
  next
    case 3
    have "\<not> d dvd n" if "2 \<le> d" "d < 3" for d
    proof -
      have "d = 2" using that by simp
      then show ?thesis using 3 by simp
    qed
    then have "prime_loop n 3 = Inr (prime_number n)" using 3 assms by (intro prime_loop_decides) simp_all
    then show ?thesis using 3 by (simp add: IsPrime_def mod_eq_0_iff_dvd)
  qed (simp add: IsPrime_def prime_number_def)
qed

lemma fly_loop_decides:
  assumes "2 \<le> i" "2 \<le> n" "n < 2147483648" "i = 2 \<or> (i - 1) * (i - 1) \<le> n" "\<And>d. 2 \<le> d \<Longrightarrow> d < i \<Longrightarrow> \<not> d dvd n"
  shows "fly_loop n i = (if \<not> prime_number n then Inr False else if n < 2147395600 then Inr True else Inl SignedOverflow)"
  using assms
proof (induction n i rule: fly_loop.induct)
  case (1 n i)
  have le: "i \<le> 46341" using square_bound [of "i - 1" n] 1(2,4,5) by auto
  show ?case
  proof (cases "i \<le> 46340")
    case False
    then have i: "i = 46341" using le by simp
    have "prime_number n"
    proof (rule no_divisor_prime [OF \<open>2 \<le> n\<close>])
      fix d assume "2 \<le> d" "d * d \<le> n"
      then show "\<not> d dvd n" using square_bound [of d n] 1(4) i 1(6) [of d] by simp
    qed
    moreover have "\<not> n < 2147395600" using 1(5) i by simp
    ultimately show ?thesis using i by (simp add: fly_loop.simps [of n 46341] c32_def)
  next
    case True
    have "i * i \<le> 46340 * 46340" using True 1(2) by (intro mult_mono) simp_all
    then have c: "c32 (i * i) = Inr (i * i)" using order.trans [of "- 2147483648" 0 "i * i"]
      by (intro c32_id) simp_all
    have c1: "c32 (i + 1) = Inr (i + 1)" using True 1(2) by (intro c32_id) simp_all
    consider "n < i * i" | "i * i \<le> n" "i dvd n" | "i * i \<le> n" "\<not> i dvd n" by linarith
    then show ?thesis
    proof cases
      case 1
      have "prime_number n"
      proof (rule no_divisor_prime [OF \<open>2 \<le> n\<close>])
        fix d assume d: "2 \<le> d" "d * d \<le> n"
        then have "d < i" using 1 mult_mono [of i d i d] \<open>2 \<le> i\<close> by (cases "d < i") auto
        then show "\<not> d dvd n" using d \<open>\<And>d. 2 \<le> d \<Longrightarrow> d < i \<Longrightarrow> \<not> d dvd n\<close> by blast
      qed
      moreover have "n < 2147395600" using 1 \<open>i * i \<le> 46340 * 46340\<close> by simp
      ultimately show ?thesis using 1 c by (simp add: fly_loop.simps [of n i])
    next
      case 2
      have "i * 2 \<le> i * i" using \<open>2 \<le> i\<close> by (intro mult_left_mono) simp_all
      then have "i < n" using 2(1) \<open>2 \<le> i\<close> by linarith
      then have "\<not> prime_number n" using 2(2) \<open>2 \<le> i\<close> by (intro divisor_not_prime [of i]) simp_all
      then show ?thesis using 2 c by (simp add: fly_loop.simps [of n i] mod_eq_0_iff_dvd)
    next
      case 3
      have "\<not> d dvd n" if "2 \<le> d" "d < i + 1" for d
        using that 3(2) 1(6) [of d] by (cases "d = i") auto
      then have "fly_loop n (i + 1) = (if \<not> prime_number n then Inr False else if n < 2147395600 then Inr True else Inl SignedOverflow)"
        using 1(1) [OF c 3(1) _ c1] 3 1(2-4) by (simp add: mod_eq_0_iff_dvd)
      then show ?thesis using 3 c c1 by (simp add: fly_loop.simps [of n i] mod_eq_0_iff_dvd)
    qed
  qed
qed

lemma fly_IsPrime_decides:
  assumes "n < 2147483648"
  shows "fly_IsPrime n = (if \<not> prime_number n then Inr False else if n < 2147395600 then Inr True else Inl SignedOverflow)"
proof (cases "n \<le> 1")
  case False
  then show ?thesis using fly_loop_decides [of 2 n] assms by (simp add: fly_IsPrime_def)
qed (simp add: fly_IsPrime_def prime_number_def)

text \<open>
  The primality test of \<open>sample1.cc\<close> decides primality for every \<open>int\<close>. The test of
  \<open>OnTheFlyPrimeTable\<close> agrees with it below 46340 squared; above, \<open>i*i\<close> leaves the type
  exactly for the primes.
\<close>

theorem primality_tests_decide:
  assumes "- 2147483648 \<le> n" "n < 2147483648"
  shows "IsPrime n = Inr (prime_number n) \<and>
    fly_IsPrime n = (if n < 2147395600 \<or> \<not> prime_number n then IsPrime n else Inl SignedOverflow)"
  using assms by (simp add: IsPrime_decides fly_IsPrime_decides)

lemma prime_97: "prime_number 97"
proof -
  have "IsPrime 97 = Inr True" by code_simp
  then show ?thesis using IsPrime_decides [of 97] by simp
qed

theorem primality_tests_decide_witness:
  "IsPrime 97 = Inr True \<and> fly_IsPrime 97 = Inr True"
  using primality_tests_decide [of 97] prime_97 by simp

subsection \<open>The sieve\<close>

lemma mark_loop_marks:
  assumes "0 \<le> j" "2 \<le> i" "i \<le> mx" "mx < 1073741824" "int (length a) = mx + 1"
  shows "\<exists>b. mark_loop mx i j a = Inr b \<and> length b = length a \<and>
    (\<forall>n<length a. b ! n \<longleftrightarrow> a ! n \<and> \<not> (j \<le> int n \<and> i dvd int n - j))"
  using assms
proof (induction mx i j a rule: mark_loop.induct)
  case (1 mx i j a)
  show ?case
  proof (cases "j \<le> mx")
    case False
    then show ?thesis using 1(3,6) by (simp add: mark_loop.simps [of mx i j a])
  next
    case True
    let ?a = "a[nat j := False]"
    have s: "aset a j False = Inr ?a" using True 1(2,6) by (simp add: aset_def)
    have c: "c32 (j + i) = Inr (j + i)" using True 1(2-5) by (intro c32_id) simp_all
    obtain b where b: "mark_loop mx i (j + i) ?a = Inr b" "length b = length ?a"
      "\<forall>n<length ?a. b ! n \<longleftrightarrow> ?a ! n \<and> \<not> (j + i \<le> int n \<and> i dvd int n - (j + i))"
      using 1(1) [OF _ True s c] 1(2-6) by auto
    have "b ! n \<longleftrightarrow> a ! n \<and> \<not> (j \<le> int n \<and> i dvd int n - j)" if "n < length a" for n
    proof -
      have d: "i dvd int n - (j + i) \<longleftrightarrow> i dvd int n - j"
        using dvd_diff_right_iff [of i i "int n - j"] dvd_minus_iff by (metis diff_diff_eq dvd_refl dvd_diff_left_iff)
      have z: "j \<le> int n \<Longrightarrow> int n < j + i \<Longrightarrow> i dvd int n - j \<Longrightarrow> int n = j"
        using zdvd_imp_le [of i "int n - j"] by force
      have "n = nat j \<longleftrightarrow> int n = j" using 1(2) by auto
      then show ?thesis using b(3) that d z 1(3) by (cases "n = nat j") auto
    qed
    then show ?thesis using b 1(3) s c True by (simp add: mark_loop.simps [of mx i j a])
  qed
qed

lemma sieve_loop_sieves:
  assumes "2 \<le> i" "mx < 1073741824" "int (length a) = mx + 1"
    and "\<forall>n<length a. a ! n \<longleftrightarrow> 2 \<le> n \<and> (\<forall>d. 2 \<le> d \<longrightarrow> d < i \<longrightarrow> d dvd int n \<longrightarrow> d = int n)"
  shows "\<exists>b. sieve_loop mx i a = Inr b \<and> length b = length a \<and> (\<forall>n<length a. b ! n \<longleftrightarrow> prime_number (int n))"
  using assms
proof (induction mx i a rule: sieve_loop.induct)
  case (1 mx i a)
  show ?case
  proof (cases "i \<le> mx")
    case False
    have "a ! n \<longleftrightarrow> prime_number (int n)" if "n < length a" for n
    proof -
      have "d < i" if "2 \<le> d" "d dvd int n" "2 \<le> n" for d
        using zdvd_imp_le [of d "int n"] that \<open>n < length a\<close> False 1(4) by auto
      then show ?thesis using 1(5) that by (auto simp: prime_number_def)
    qed
    then show ?thesis using False by (simp add: sieve_loop.simps [of mx i a])
  next
    case True
    have g: "aget a i = Inr (a ! nat i)" using True 1(2,4) by (simp add: aget_def)
    have c: "c32 (2 * i) = Inr (2 * i)" "c32 (i + 1) = Inr (i + 1)" using True 1(2,3) by (auto intro!: c32_id)
    define m where "m = (if \<not> a ! nat i then Inr a else rbind (c32 (2 * i)) (\<lambda>j. mark_loop mx i j a))"
    obtain b where b: "m = Inr b" "length b = length a"
      "\<forall>n<length a. b ! n \<longleftrightarrow> a ! n \<and> \<not> (a ! nat i \<and> 2 * i \<le> int n \<and> i dvd int n)"
    proof (cases "a ! nat i")
      case i: True
      obtain b where "mark_loop mx i (2 * i) a = Inr b" "length b = length a"
        "\<forall>n<length a. b ! n \<longleftrightarrow> a ! n \<and> \<not> (2 * i \<le> int n \<and> i dvd int n - 2 * i)"
        using mark_loop_marks [of "2 * i" i mx a] True 1(2-4) by auto
      moreover have "i dvd int n - 2 * i \<longleftrightarrow> i dvd int n" for n by (simp add: dvd_diff_left_iff)
      ultimately show ?thesis using that [of b] i c(1) by (simp add: m_def)
    qed (use that [of a] in \<open>simp add: m_def\<close>)
    have inv: "b ! n \<longleftrightarrow> 2 \<le> n \<and> (\<forall>d. 2 \<le> d \<longrightarrow> d < i + 1 \<longrightarrow> d dvd int n \<longrightarrow> d = int n)" if n: "n < length b" for n
    proof -
      have an: "a ! n \<longleftrightarrow> 2 \<le> n \<and> (\<forall>d. 2 \<le> d \<longrightarrow> d < i \<longrightarrow> d dvd int n \<longrightarrow> d = int n)" using 1(5) n b(2) by simp
      have up: "i dvd int n \<Longrightarrow> 2 \<le> n \<Longrightarrow> int n = i \<or> 2 * i \<le> int n"
      proof -
        assume "i dvd int n" "2 \<le> n"
        then obtain k where k: "int n = i * k" by (auto elim: dvdE)
        have "0 < i * k" using k \<open>2 \<le> n\<close> by linarith
        then have "0 < k" using 1(2) by (simp add: zero_less_mult_iff)
        then have "k = 1 \<or> 2 \<le> k" by linarith
        then show ?thesis using k 1(2) mult_left_mono [of 2 k i] by auto
      qed
      have comp: "\<not> a ! nat i \<Longrightarrow> i dvd int n \<Longrightarrow> a ! n \<Longrightarrow> i = int n"
      proof -
        assume ni: "\<not> a ! nat i" and "i dvd int n" and "a ! n"
        have "\<not> (\<forall>d. 2 \<le> d \<longrightarrow> d < i \<longrightarrow> d dvd i \<longrightarrow> d = i)" using ni 1(2,4,5) True by auto
        then obtain d where "2 \<le> d" "d < i" "d dvd i" by auto
        then show ?thesis using an \<open>a ! n\<close> \<open>i dvd int n\<close> dvd_trans [of d i "int n"] zdvd_imp_le [of i "int n"] by force
      qed
      have step: "(\<forall>d. 2 \<le> d \<longrightarrow> d < i + 1 \<longrightarrow> d dvd int n \<longrightarrow> d = int n) \<longleftrightarrow>
          (\<forall>d. 2 \<le> d \<longrightarrow> d < i \<longrightarrow> d dvd int n \<longrightarrow> d = int n) \<and> (i dvd int n \<longrightarrow> i = int n)"
        using 1(2) by (auto simp: zless_add1_eq)
      have "b ! n \<longleftrightarrow> a ! n \<and> \<not> (a ! nat i \<and> 2 * i \<le> int n \<and> i dvd int n)" using b(2,3) n by simp
      then show ?thesis unfolding step using an up comp 1(2) by auto
    qed
    have "\<exists>x. sieve_loop mx (i + 1) b = Inr x \<and> length x = length b \<and> (\<forall>n<length b. x ! n \<longleftrightarrow> prime_number (int n))"
      using inv 1(2-4) b(2) by (intro 1(1) [OF True g _ c(2)]) (use b(1) in \<open>simp_all add: m_def\<close>)
    then show ?thesis using True g b(1,2) c(2) by (simp add: sieve_loop.simps [of mx i a] m_def)
  qed
qed

lemma sieve_correct:
  assumes "1 \<le> mx" "mx < 1073741824"
  shows "\<exists>t. PreCalculatedPrimeTable mx junk = Inr t \<and> int (length t) = mx + 1 \<and>
    (\<forall>n<length t. t ! n \<longleftrightarrow> prime_number (int n))"
proof -
  let ?a = "((replicate (nat (mx + 1)) True)[1 := False])[0 := False]"
  have l: "int (length ?a) = mx + 1" using assms(1) by simp
  have "?a ! n \<longleftrightarrow> 2 \<le> n \<and> (\<forall>d. 2 \<le> d \<longrightarrow> d < 2 \<longrightarrow> d dvd int n \<longrightarrow> d = int n)" if "n < length ?a" for n
    using that by (cases "n = 0"; cases "n = 1") (auto simp: nth_list_update)
  then obtain t where t: "sieve_loop mx 2 ?a = Inr t" "length t = length ?a" "\<forall>n<length ?a. t ! n \<longleftrightarrow> prime_number (int n)"
    using sieve_loop_sieves [of 2 mx ?a] assms(2) l by blast
  have "c32 (mx + 1) = Inr (mx + 1)" using assms by (intro c32_id) simp_all
  then have "PreCalculatedPrimeTable mx junk = sieve_loop mx 2 ?a"
    using assms(1) by (simp add: PreCalculatedPrimeTable_def CalculatePrimesUpTo_def aset_def map_replicate_const comp_def)
  then show ?thesis using t l by simp
qed

lemma tab_next_finds:
  assumes "int (length t) \<le> 1073741824" "\<forall>n<length t. t ! n \<longleftrightarrow> prime_number (int n)" "0 \<le> n" "n \<le> int (length t)"
  shows "\<exists>q. tab_next t n = Inr q \<and>
    (if q = - 1 then \<forall>r. n \<le> r \<longrightarrow> r < int (length t) \<longrightarrow> \<not> prime_number r
     else n \<le> q \<and> q < int (length t) \<and> prime_number q \<and> (\<forall>r. n \<le> r \<longrightarrow> r < q \<longrightarrow> \<not> prime_number r))"
  using assms
proof (induction t n rule: tab_next.induct)
  case (1 t n)
  show ?case
  proof (cases "n < int (length t)")
    case False
    then show ?thesis by (simp add: tab_next.simps [of t n])
  next
    case True
    have g: "aget t n = Inr (prime_number n)" using 1(3,4) True by (simp add: aget_def)
    show ?thesis
    proof (cases "prime_number n")
      case p: True
      then show ?thesis using True g 1(4) by (simp add: tab_next.simps [of t n])
    next
      case p: False
      have c: "c32 (n + 1) = Inr (n + 1)" using True 1(2,4) by (intro c32_id) simp_all
      obtain q where q: "tab_next t (n + 1) = Inr q"
        "if q = - 1 then \<forall>r. n + 1 \<le> r \<longrightarrow> r < int (length t) \<longrightarrow> \<not> prime_number r
         else n + 1 \<le> q \<and> q < int (length t) \<and> prime_number q \<and> (\<forall>r. n + 1 \<le> r \<longrightarrow> r < q \<longrightarrow> \<not> prime_number r)"
        using 1(1) [OF True g _ c] p 1(2-4) True by auto
      have n1: "n + 1 \<le> r" if "n \<le> r" "prime_number r" for r using that p by (cases "n = r") auto
      have "tab_next t n = Inr q" using q(1) p True g c by (simp add: tab_next.simps [of t n])
      moreover have "if q = - 1 then \<forall>r. n \<le> r \<longrightarrow> r < int (length t) \<longrightarrow> \<not> prime_number r
         else n \<le> q \<and> q < int (length t) \<and> prime_number q \<and> (\<forall>r. n \<le> r \<longrightarrow> r < q \<longrightarrow> \<not> prime_number r)"
        using q(2) n1 by (cases "q = - 1") (simp_all, blast+)
      ultimately show ?thesis by blast
    qed
  qed
qed

lemma fly_next_finds:
  assumes "prime_number q" "q < 2147395600" "1 \<le> n" "n \<le> q" "\<And>r. n \<le> r \<Longrightarrow> r < q \<Longrightarrow> \<not> prime_number r"
  shows "fly_next n = Inr q"
  using assms(3-5)
proof (induction n rule: fly_next.induct)
  case (1 n)
  have f: "fly_IsPrime n = Inr (prime_number n)" using 1(3) assms(2) by (simp add: fly_IsPrime_decides)
  show ?case
  proof (cases "n = q")
    case True
    then have "fly_IsPrime n = Inr True" using f assms(1) by simp
    then show ?thesis using True 1(2) fly_next.simps [of n] by simp
  next
    case False
    then have np: "\<not> prime_number n" using 1(3,4) by auto
    have c: "c32 (n + 1) = Inr (n + 1)" using 1(2,3) assms(2) by (intro c32_id) simp_all
    have "fly_next (n + 1) = Inr q" using 1(1) [OF _ f _ c] 1(2-4) np False by auto
    then show ?thesis using f np c 1(2) by (simp add: fly_next.simps [of n])
  qed
qed

subsection \<open>The interface\<close>

locale prime_table =
  fixes isp :: "int \<Rightarrow> bool res" and nxt :: "int \<Rightarrow> int res" and cap :: int
  assumes isp_decides: "n \<le> cap \<Longrightarrow> isp n = Inr (prime_number n)"
    and nxt_finds: "0 \<le> p \<Longrightarrow> p < r \<Longrightarrow> r \<le> cap \<Longrightarrow> prime_number r \<Longrightarrow>
      (\<And>x. p < x \<Longrightarrow> x < r \<Longrightarrow> \<not> prime_number x) \<Longrightarrow> nxt p = Inr r"
begin

lemma least_prime_above:
  assumes "0 \<le> p" "p < r" "r \<le> cap" "prime_number r"
  shows "\<exists>q. nxt p = Inr q \<and> isp q = Inr True \<and> p < q \<and> q \<le> r \<and> (\<forall>x. p < x \<longrightarrow> x < q \<longrightarrow> isp x = Inr False)"
  using assms(2-4)
proof (induction "nat (r - p)" arbitrary: r rule: less_induct)
  case less
  show ?case
  proof (cases "\<exists>x. p < x \<and> x < r \<and> prime_number x")
    case True
    then obtain x where x: "p < x" "x < r" "prime_number x" by blast
    then obtain q where "nxt p = Inr q" "isp q = Inr True" "p < q" "q \<le> x" "\<forall>y. p < y \<longrightarrow> y < q \<longrightarrow> isp y = Inr False"
      using less(1) [of x] less(3) by auto
    then show ?thesis using x(2) by (intro exI [of _ q]) auto
  next
    case False
    then show ?thesis using nxt_finds [OF assms(1) less(2,3,4)] less(2-4) isp_decides by auto
  qed
qed

end

definition clamp :: "int \<Rightarrow> int" where
  "clamp mx = max 1 (min mx 1073741823)"

definition table_of :: "int \<Rightarrow> bool list" where
  "table_of mx = (case PreCalculatedPrimeTable (clamp mx) (\<lambda>_. False) of Inr t \<Rightarrow> t | Inl e \<Rightarrow> [])"

lemma table_of_sieve:
  "int (length (table_of mx)) = clamp mx + 1" "\<forall>n<length (table_of mx). table_of mx ! n \<longleftrightarrow> prime_number (int n)"
proof -
  have "1 \<le> clamp mx" "clamp mx < 1073741824" by (auto simp: clamp_def)
  then show "int (length (table_of mx)) = clamp mx + 1" "\<forall>n<length (table_of mx). table_of mx ! n \<longleftrightarrow> prime_number (int n)"
    using sieve_correct [of "clamp mx" "\<lambda>_. False"] by (auto simp: table_of_def)
qed

lemma tab_GetNextPrime_finds:
  assumes "int (length t) \<le> 1073741824" "\<forall>n<length t. t ! n \<longleftrightarrow> prime_number (int n)"
    and "0 \<le> p" "p < r" "r < int (length t)" "prime_number r" "\<And>x. p < x \<Longrightarrow> x < r \<Longrightarrow> \<not> prime_number x"
  shows "tab_GetNextPrime t p = Inr r"
proof -
  have c: "c32 (p + 1) = Inr (p + 1)" using assms by (intro c32_id) simp_all
  obtain q where q: "tab_next t (p + 1) = Inr q"
    "if q = - 1 then \<forall>r. p + 1 \<le> r \<longrightarrow> r < int (length t) \<longrightarrow> \<not> prime_number r
     else p + 1 \<le> q \<and> q < int (length t) \<and> prime_number q \<and> (\<forall>r. p + 1 \<le> r \<longrightarrow> r < q \<longrightarrow> \<not> prime_number r)"
    using tab_next_finds [OF assms(1,2), of "p + 1"] assms(3-5) by auto
  have "q \<noteq> - 1" using q(2) assms(4-6) by auto
  then have "q = r" using q(2) assms(4-7) by (cases q r rule: linorder_cases) auto
  then show ?thesis using c q(1) by (simp add: tab_GetNextPrime_def)
qed

interpretation fly: prime_table fly_IsPrime fly_GetNextPrime 2147395599
proof
  fix n :: int
  assume "n \<le> 2147395599"
  then show "fly_IsPrime n = Inr (prime_number n)" by (simp add: fly_IsPrime_decides)
next
  fix p r :: int
  assume "0 \<le> p" "p < r" "r \<le> 2147395599" "prime_number r" and no: "\<And>x. p < x \<Longrightarrow> x < r \<Longrightarrow> \<not> prime_number x"
  then show "fly_GetNextPrime p = Inr r" using fly_next_finds [of r "p + 1"] c32_id [of "p + 1"] by (simp add: fly_GetNextPrime_def)
qed

interpretation tab: prime_table "tab_IsPrime (table_of mx)" "tab_GetNextPrime (table_of mx)" "clamp mx" for mx
proof
  fix n :: int
  assume "n \<le> clamp mx"
  then show "tab_IsPrime (table_of mx) n = Inr (prime_number n)"
    using table_of_sieve [of mx] by (auto simp: tab_IsPrime_def aget_def prime_number_def)
next
  fix p r :: int
  assume a: "0 \<le> p" "p < r" "r \<le> clamp mx" "prime_number r" and no: "\<And>x. p < x \<Longrightarrow> x < r \<Longrightarrow> \<not> prime_number x"
  have "int (length (table_of mx)) \<le> 1073741824" unfolding table_of_sieve(1) by (simp add: clamp_def)
  then show "tab_GetNextPrime (table_of mx) p = Inr r"
    using a no table_of_sieve by (intro tab_GetNextPrime_finds) auto
qed

text \<open>
  C22. The table with the sieve and the table that computes implement the same interface: the
  constructor succeeds without leaving its array or its integers for every size from 1 up to
  one below two to the thirtieth, both tables give the same answer for every number of the
  table, and the same next prime whenever the table holds one.
\<close>

theorem prime_tables_agree:
  assumes "1 \<le> mx" "mx < 1073741824"
  shows "\<exists>t. PreCalculatedPrimeTable mx junk = Inr t \<and> (\<forall>n\<le>mx. tab_IsPrime t n = fly_IsPrime n) \<and>
    (\<forall>p r. 0 \<le> p \<longrightarrow> p < r \<longrightarrow> r \<le> mx \<longrightarrow> prime_number r \<longrightarrow> tab_GetNextPrime t p = fly_GetNextPrime p)"
proof -
  obtain t where t: "PreCalculatedPrimeTable mx junk = Inr t" "int (length t) = mx + 1"
    "\<forall>n<length t. t ! n \<longleftrightarrow> prime_number (int n)"
    using sieve_correct [OF assms] by blast
  have "tab_IsPrime t n = fly_IsPrime n" if "n \<le> mx" for n
    using t(2,3) that assms(2) fly.isp_decides [of n] by (auto simp: tab_IsPrime_def aget_def prime_number_def)
  moreover have "tab_GetNextPrime t p = fly_GetNextPrime p" if p: "0 \<le> p" "p < r" "r \<le> mx" "prime_number r" for p r
  proof -
    obtain q where q: "fly_GetNextPrime p = Inr q" "fly_IsPrime q = Inr True" "p < q" "q \<le> r"
      "\<forall>x. p < x \<longrightarrow> x < q \<longrightarrow> fly_IsPrime x = Inr False"
      using fly.least_prime_above [OF p(1,2) _ p(4)] p(3) assms(2) by auto
    have "prime_number q" "\<And>x. p < x \<Longrightarrow> x < q \<Longrightarrow> \<not> prime_number x"
      using q(2-5) p(3) assms(2) fly.isp_decides by auto
    then have "tab_GetNextPrime t p = Inr q"
      using t(2,3) p q(3,4) assms(2) by (intro tab_GetNextPrime_finds) auto
    then show ?thesis using q(1) by simp
  qed
  ultimately show ?thesis using t(1) by blast
qed

theorem prime_tables_agree_witness:
  "\<exists>t. PreCalculatedPrimeTable 100 (\<lambda>_. True) = Inr t \<and> tab_IsPrime t 91 = fly_IsPrime 91 \<and>
    tab_GetNextPrime t 90 = fly_GetNextPrime 90"
proof -
  obtain t where t: "PreCalculatedPrimeTable 100 (\<lambda>_. True) = Inr t" "\<forall>n\<le>100. tab_IsPrime t n = fly_IsPrime n"
    "\<forall>p r. 0 \<le> p \<longrightarrow> p < r \<longrightarrow> r \<le> 100 \<longrightarrow> prime_number r \<longrightarrow> tab_GetNextPrime t p = fly_GetNextPrime p"
    using prime_tables_agree [of 100 "\<lambda>_. True"] by auto
  then show ?thesis using t(3) [rule_format, of 90 97] prime_97 by (intro exI [of _ t]) simp
qed

text \<open>
  Outside of the range of the interface the tables differ and go wrong: a table for the maximum
  0 has one entry, and the constructor clears the second; the next prime of a number below -1
  is read before the start of the array, while the other implementation answers -1 although
  2 is the smallest prime above it.
\<close>

theorem prime_tables_edge_cases:
  assumes "- 2147483648 \<le> p" "p < - 1"
  shows "PreCalculatedPrimeTable 0 junk = Inl BadAccess \<and> tab_GetNextPrime t p = Inl BadAccess \<and>
    fly_GetNextPrime p = Inr (- 1)"
proof -
  have "c32 (p + 1) = Inr (p + 1)" using assms by (intro c32_id) simp_all
  then show ?thesis
    using assms by (simp add: PreCalculatedPrimeTable_def CalculatePrimesUpTo_def c32_def aset_def aget_def
        tab_GetNextPrime_def tab_next.simps [of t "p + 1"] fly_GetNextPrime_def fly_next.simps [of "p + 1"])
qed

theorem prime_tables_edge_cases_witness:
  "PreCalculatedPrimeTable 0 (\<lambda>_. True) = Inl BadAccess \<and> tab_GetNextPrime [False, False, True] (- 5) = Inl BadAccess \<and>
    fly_GetNextPrime (- 5) = Inr (- 1)"
  by (rule prime_tables_edge_cases) simp_all

subsection \<open>Factorial\<close>

lemma fact_loop_product:
  "1 \<le> i \<Longrightarrow> 0 \<le> k \<Longrightarrow> r * (\<Prod>j\<in>{i..<i + int k}. j) < 2147483648 \<Longrightarrow> 1 \<le> r \<Longrightarrow> i + int k < 2147483648 \<Longrightarrow>
     fact_loop (i + int k - 1) i r = Inr (r * (\<Prod>j\<in>{i..<i + int k}. j))"
proof (induction k arbitrary: i r)
  case 0
  then show ?case by (simp add: fact_loop.simps)
next
  case (Suc k)
  have split: "(\<Prod>j\<in>{i..<i + int (Suc k)}. j) = i * (\<Prod>j\<in>{i + 1..<i + 1 + int k}. j)"
  proof -
    have "{i..<i + int (Suc k)} = insert i {i + 1..<i + 1 + int k}" by auto
    then show ?thesis by simp
  qed
  have pos: "1 \<le> (\<Prod>j\<in>{i + 1..<i + 1 + int k}. j)" using Suc(2) by (intro prod_ge_1) auto
  have ri: "1 \<le> r * i" using Suc(2,5) mult_mono [of 1 r 1 i] by simp
  have le: "r * i * 1 \<le> r * i * (\<Prod>j\<in>{i + 1..<i + 1 + int k}. j)" using pos ri by (intro mult_left_mono) linarith+
  have b: "r * i < 2147483648" using le Suc(4) [unfolded split] by (simp add: mult.assoc)
  have c: "c32 (r * i) = Inr (r * i)" "c32 (i + 1) = Inr (i + 1)"
    using b ri Suc(2,6) by (auto intro!: c32_id)
  have "fact_loop (i + 1 + int k - 1) (i + 1) (r * i) = Inr (r * i * (\<Prod>j\<in>{i + 1..<i + 1 + int k}. j))"
    using Suc(2,3,6) Suc(4) [unfolded split] ri by (intro Suc(1)) (simp_all add: mult.assoc)
  then show ?case unfolding split using c by (simp add: fact_loop.simps [of "i + int k" i r] mult.assoc add.assoc)
qed

lemma Factorial_product:
  assumes "n \<le> 12"
  shows "Factorial n = Inr (\<Prod>j\<in>{1..n}. j)"
proof (cases "n < 1")
  case True
  then show ?thesis by (simp add: Factorial_def fact_loop.simps)
next
  case False
  have "(\<Prod>j\<in>{1..<1 + int (nat n)}. j) \<le> (\<Prod>j\<in>{1..<13}. j)"
    using assms False by (intro prod_mono2) auto
  also have "(\<Prod>j\<in>{1..<13 :: int}. j) = 479001600" by code_simp
  finally show ?thesis
    using fact_loop_product [of 1 "nat n" 1] False assms atLeastLessThanPlusOne_atLeastAtMost_int [of 1 n]
    by (simp add: Factorial_def add.commute)
qed

end
