(* ===== verification/Sample_Queue.thy ===== *)
theory Sample_Queue
  imports Prelude
begin

text \<open>
  The classes of the unit-testing samples: the queue template of
  \<open>googletest/gtest/sample3-inl.h\<close>, a singly linked list with a pointer to its last node, the
  string class of \<open>sample2.h\<close> and \<open>sample2.cc\<close>, and the counter of \<open>sample4.h\<close> and \<open>sample4.cc\<close>.
  Nodes and strings live in a heap of cells; a pointer is the number of its cell, never used
  twice, and 0 is \<open>NULL\<close>. An access to a cell that is not there is \<open>BadAccess\<close>.
\<close>

subsection \<open>Heaps of cells\<close>

record 'a cells =
  cell :: "nat \<Rightarrow> 'a option"
  last_id :: nat

definition new_cell :: "'a \<Rightarrow> 'a cells \<Rightarrow> nat \<times> 'a cells" where
  "new_cell x h = (Suc (last_id h), h\<lparr>cell := (cell h)(Suc (last_id h) := Some x), last_id := Suc (last_id h)\<rparr>)"

definition get_cell :: "nat \<Rightarrow> 'a cells \<Rightarrow> 'a res" where
  "get_cell p h = (case cell h p of None \<Rightarrow> Inl BadAccess | Some x \<Rightarrow> if p = 0 then Inl BadAccess else Inr x)"

definition put_cell :: "nat \<Rightarrow> 'a \<Rightarrow> 'a cells \<Rightarrow> 'a cells res" where
  "put_cell p x h = rbind (get_cell p h) (\<lambda>_. Inr (h\<lparr>cell := (cell h)(p := Some x)\<rparr>))"

definition delete_cell :: "nat \<Rightarrow> 'a cells \<Rightarrow> 'a cells res" where
  "delete_cell p h = (if p = 0 then Inr h else rbind (get_cell p h) (\<lambda>_. Inr (h\<lparr>cell := (cell h)(p := None)\<rparr>)))"

definition cells_ok :: "'a cells \<Rightarrow> bool" where
  "cells_ok h \<longleftrightarrow> (\<forall>p x. cell h p = Some x \<longrightarrow> 0 < p \<and> p \<le> last_id h)"

subsection \<open>\<open>Queue\<close>\<close>

record 'e QueueNode =
  q_element :: 'e
  q_next :: nat

type_synonym 'e qheap = "'e QueueNode cells"

record Queue =
  q_head :: nat
  q_last :: nat
  q_size :: "64 word"

definition Queue_new :: Queue where
  "Queue_new = \<lparr>q_head = 0, q_last = 0, q_size = 0\<rparr>"

definition QueueNode_new :: "'e \<Rightarrow> 'e qheap \<Rightarrow> nat \<times> 'e qheap" where
  "QueueNode_new e h = new_cell \<lparr>q_element = e, q_next = 0\<rparr> h"

fun clear_loop :: "nat \<Rightarrow> nat \<Rightarrow> nat \<Rightarrow> 'e qheap \<Rightarrow> 'e qheap res" where
  \<comment> \<open>the \<open>for (; ;)\<close> of \<open>Clear\<close>\<close>
  "clear_loop 0 node nxt h = Inl NoFuel"
| "clear_loop (Suc k) node nxt h =
     rbind (delete_cell node h) (\<lambda>h1.
     if nxt = 0 then Inr h1
     else rbind (get_cell nxt h1) (\<lambda>n. clear_loop k nxt (q_next n) h1))"

definition Clear :: "nat \<Rightarrow> Queue \<Rightarrow> 'e qheap \<Rightarrow> (Queue \<times> 'e qheap) res" where
  "Clear fuel q h =
     (if q_size q > 0 then
        rbind (get_cell (q_head q) h) (\<lambda>n.
        rbind (clear_loop fuel (q_head q) (q_next n) h) (\<lambda>h1.
        Inr (q\<lparr>q_head := 0, q_last := 0, q_size := 0\<rparr>, h1)))
      else Inr (q, h))"

definition Queue_delete :: "nat \<Rightarrow> Queue \<Rightarrow> 'e qheap \<Rightarrow> 'e qheap res" where
  \<comment> \<open>the destructor\<close>
  "Queue_delete fuel q h = rbind (Clear fuel q h) (\<lambda>(q1, h1). Inr h1)"

definition Size :: "Queue \<Rightarrow> 64 word" where "Size q = q_size q"
definition Head :: "Queue \<Rightarrow> nat" where "Head q = q_head q"
definition Last :: "Queue \<Rightarrow> nat" where "Last q = q_last q"

definition Enqueue :: "'e \<Rightarrow> Queue \<Rightarrow> 'e qheap \<Rightarrow> (Queue \<times> 'e qheap) res" where
  "Enqueue e q h =
     (let (new_node, h1) = QueueNode_new e h in
      if q_size q = 0 then Inr (q\<lparr>q_head := new_node, q_last := new_node, q_size := 1\<rparr>, h1)
      else
        rbind (get_cell (q_last q) h1) (\<lambda>n.
        rbind (put_cell (q_last q) (n\<lparr>q_next := new_node\<rparr>) h1) (\<lambda>h2.
        Inr (q\<lparr>q_last := new_node, q_size := q_size q + 1\<rparr>, h2))))"

definition Dequeue :: "Queue \<Rightarrow> 'e qheap \<Rightarrow> ('e option \<times> Queue \<times> 'e qheap) res" where
  \<comment> \<open>the element is copied to an object of its own: the result is its value\<close>
  "Dequeue q h =
     (if q_size q = 0 then Inr (None, q, h) else
      let old_head = q_head q in
      rbind (get_cell old_head h) (\<lambda>n.
      let q1 = q\<lparr>q_head := q_next n, q_size := q_size q - 1\<rparr>;
          q2 = (if q_size q1 = 0 then q1\<lparr>q_last := 0\<rparr> else q1) in
      rbind (get_cell old_head h) (\<lambda>n.
      rbind (delete_cell old_head h) (\<lambda>h1.
      Inr (Some (q_element n), q2, h1)))))"

fun map_nodes :: "('e \<Rightarrow> 'e) \<Rightarrow> nat \<Rightarrow> nat \<Rightarrow> Queue \<Rightarrow> 'e qheap \<Rightarrow> (Queue \<times> 'e qheap) res" where
  "map_nodes f 0 node q h = Inl NoFuel"
| "map_nodes f (Suc k) node q h =
     (if node = 0 then Inr (q, h) else
      rbind (get_cell node h) (\<lambda>n.
      rbind (Enqueue (f (q_element n)) q h) (\<lambda>(q1, h1).
      rbind (get_cell node h1) (\<lambda>n. map_nodes f k (q_next n) q1 h1))))"

definition Map :: "('e \<Rightarrow> 'e) \<Rightarrow> nat \<Rightarrow> Queue \<Rightarrow> 'e qheap \<Rightarrow> (Queue \<times> 'e qheap) res" where
  "Map f fuel q h = map_nodes f fuel (q_head q) Queue_new h"

subsection \<open>The list of a queue\<close>

fun path :: "(nat \<Rightarrow> 'e QueueNode option) \<Rightarrow> nat \<Rightarrow> (nat \<times> 'e) list \<Rightarrow> nat \<Rightarrow> bool" where
  \<comment> \<open>the nodes on the way from \<open>p\<close> to \<open>q\<close>\<close>
  "path c p [] q \<longleftrightarrow> p = q"
| "path c p ((a, x) # ns) q \<longleftrightarrow> p = a \<and> a \<noteq> 0 \<and> (\<exists>n. c a = Some n \<and> q_element n = x \<and> path c (q_next n) ns q)"

definition queue_rep :: "Queue \<Rightarrow> 'e qheap \<Rightarrow> (nat \<times> 'e) list \<Rightarrow> bool" where
  "queue_rep q h ns \<longleftrightarrow> path (cell h) (q_head q) ns 0 \<and> distinct (map fst ns) \<and>
     q_last q = (if ns = [] then 0 else fst (last ns)) \<and> unat (q_size q) = length ns \<and> cells_ok h"

lemma path_append: "path c p (xs @ ys) q \<longleftrightarrow> (\<exists>r. path c p xs r \<and> path c r ys q)"
  by (induction c p xs q rule: path.induct) auto

lemma path_upd: "a \<notin> fst ` set ns \<Longrightarrow> path (c(a := v)) p ns q \<longleftrightarrow> path c p ns q"
  by (induction c p ns q rule: path.induct) auto

lemma path_cells: "path c p ns q \<Longrightarrow> a \<in> fst ` set ns \<Longrightarrow> a \<noteq> 0 \<and> c a \<noteq> None"
  by (induction c p ns q rule: path.induct) auto

lemma size_zero: "queue_rep q h ns \<Longrightarrow> q_size q = 0 \<longleftrightarrow> ns = []"
  by (auto simp: queue_rep_def unat_eq_0)

lemma Queue_new_rep: "cells_ok h \<Longrightarrow> queue_rep Queue_new h []"
  by (simp add: queue_rep_def Queue_new_def)

lemma fresh_id: "cells_ok h \<Longrightarrow> path (cell h) p ns q \<Longrightarrow> Suc (last_id h) \<notin> fst ` set ns"
  using path_cells by (fastforce simp: cells_ok_def)

lemma Enqueue_rep:
  assumes r: "queue_rep q h ns" and l: "length ns + 1 < 18446744073709551616"
  shows "\<exists>q' h'. Enqueue e q h = Inr (q', h') \<and> queue_rep q' h' (ns @ [(Suc (last_id h), e)]) \<and>
    last_id h' = Suc (last_id h) \<and> (\<forall>p. p \<noteq> Suc (last_id h) \<longrightarrow> p \<notin> fst ` set ns \<longrightarrow> cell h' p = cell h p)"
proof (cases "ns = []")
  case True
  then show ?thesis
    using r size_zero [OF r]
    by (auto simp: Enqueue_def QueueNode_new_def new_cell_def Let_def queue_rep_def cells_ok_def)
next
  case False
  then obtain ms a x where ns: "ns = ms @ [(a, x)]" by (metis prod.exhaust rev_exhaust)
  let ?n = "Suc (last_id h)"
  have p: "path (cell h) (q_head q) ms a" "a \<noteq> 0" "\<exists>n. cell h a = Some n \<and> q_element n = x \<and> q_next n = 0"
    and q: "q_last q = a" "distinct (map fst ns)" "cells_ok h" "unat (q_size q) = length ns"
    using r by (auto simp: queue_rep_def ns path_append)
  then obtain n where n: "cell h a = Some n" "q_element n = x" "q_next n = 0" by blast
  have fr: "?n \<notin> fst ` set ns" using fresh_id r by (fastforce simp: queue_rep_def)
  have "q_size q \<noteq> 0" using size_zero [OF r] False by simp
  moreover have "unat (q_size q + 1) = Suc (length ns)"
    using q(4) l by (simp add: unat_add_lem [THEN iffD1])
  moreover have "path ((cell h)(?n := Some \<lparr>q_element = e, q_next = 0\<rparr>, a := Some (n\<lparr>q_next := ?n\<rparr>))) (q_head q) (ns @ [(?n, e)]) 0"
    using p(1,2) n fr q(2) unfolding ns by (auto simp: path_append path_upd)
  ultimately show ?thesis
    using n p(2) q fr ns
    by (auto simp: Enqueue_def QueueNode_new_def new_cell_def get_cell_def put_cell_def Let_def queue_rep_def cells_ok_def)
qed

lemma Dequeue_empty: "queue_rep q h [] \<Longrightarrow> Dequeue q h = Inr (None, q, h)"
  using size_zero [of q h "[]"] by (simp add: Dequeue_def)

lemma Dequeue_rep:
  assumes r: "queue_rep q h ((a, x) # ns)"
  shows "\<exists>q' h'. Dequeue q h = Inr (Some x, q', h') \<and> queue_rep q' h' ns \<and>
    cell h' = (cell h)(a := None) \<and> last_id h' = last_id h"
proof -
  obtain n where n: "cell h a = Some n" "q_element n = x" "path (cell h) (q_next n) ns 0" "q_head q = a" "a \<noteq> 0"
    using r by (auto simp: queue_rep_def)
  have s: "unat (q_size q) = Suc (length ns)" "a \<notin> fst ` set ns" "distinct (map fst ns)" "cells_ok h"
    "q_last q = fst (last ((a, x) # ns))"
    using r by (auto simp: queue_rep_def)
  have nz: "q_size q \<noteq> 0" using s(1) by auto
  have u: "unat (q_size q - 1) = length ns" using s(1) nz unat_minus_one [of "q_size q"] by simp
  then have z: "q_size q - 1 = 0 \<longleftrightarrow> ns = []" by (metis length_0_conv unat_0 unat_eq_0)
  show ?thesis
    using n s u z nz
    by (auto simp: Dequeue_def get_cell_def delete_cell_def Let_def queue_rep_def path_upd cells_ok_def)
qed

lemma clear_loop_frees:
  assumes "path c a ((a, x) # ns) 0" "cell h = c" "distinct (a # map fst ns)" "c a = Some n" "length ns < k"
  shows "\<exists>h'. clear_loop k a (q_next n) h = Inr h' \<and> last_id h' = last_id h \<and>
    (\<forall>p. cell h' p = (if p \<in> fst ` set ((a, x) # ns) then None else cell h p))"
  using assms
proof (induction k arbitrary: a x ns n h c)
  case (Suc k)
  let ?h = "h\<lparr>cell := (cell h)(a := None)\<rparr>"
  have a: "a \<noteq> 0" "cell h a = Some n" "path (cell h) (q_next n) ns 0" using Suc(2,3,5) by auto
  have d: "delete_cell a h = Inr ?h" using a by (simp add: delete_cell_def get_cell_def)
  show ?case
  proof (cases ns)
    case Nil
    then show ?thesis using a d by simp
  next
    case (Cons b ms)
    obtain p y where b: "b = (p, y)" by (cases b)
    have p: "q_next n = p" "p \<noteq> 0" "p \<noteq> a" using a(3) Suc(4) Cons b by auto
    obtain m where m: "cell h p = Some m" "path (cell h) p ((p, y) # ms) 0" using a(3) Cons b by auto
    have "path (cell ?h) p ((p, y) # ms) 0" using m(2) Suc(4) Cons b by (simp add: path_upd del: path.simps)
    moreover have "distinct (p # map fst ms)" "cell ?h p = Some m" "length ms < k" using Suc(4,6) Cons b p m by auto
    ultimately obtain h' where h': "clear_loop k p (q_next m) ?h = Inr h'" "last_id h' = last_id ?h"
      "\<forall>r. cell h' r = (if r \<in> fst ` set ((p, y) # ms) then None else cell ?h r)"
      using Suc(1) [of "cell ?h" p y ms ?h m] by blast
    have "get_cell p ?h = Inr m" using m(1) p by (simp add: get_cell_def)
    then show ?thesis using h' d p Cons b by (intro exI [of _ h']) auto
  qed
qed simp

lemma Clear_frees:
  assumes r: "queue_rep q h ns" and k: "length ns < k"
  shows "\<exists>q' h'. Clear k q h = Inr (q', h') \<and> queue_rep q' h' [] \<and>
    (\<forall>p. cell h' p = (if p \<in> fst ` set ns then None else cell h p))"
proof (cases ns)
  case Nil
  then show ?thesis using r size_zero [OF r] by (auto simp: Clear_def)
next
  case (Cons b ms)
  obtain a x where b: "b = (a, x)" by (cases b)
  obtain n where n: "cell h a = Some n" "q_head q = a" "a \<noteq> 0" using r Cons b by (auto simp: queue_rep_def)
  have p: "path (cell h) a ((a, x) # ms) 0" "distinct (a # map fst ms)" "cells_ok h"
    using r Cons b n(2) by (auto simp: queue_rep_def)
  obtain h' where h': "clear_loop k a (q_next n) h = Inr h'" "last_id h' = last_id h"
    "\<forall>p. cell h' p = (if p \<in> fst ` set ((a, x) # ms) then None else cell h p)"
    using clear_loop_frees [OF p(1) refl p(2) n(1), of k] k Cons by auto
  have "cells_ok h'" using p(3) h'(2,3) unfolding cells_ok_def by (metis option.distinct(1))
  moreover have "q_size q > 0" using size_zero [OF r] Cons by (simp add: word_gt_0)
  ultimately show ?thesis
    using n h' Cons b by (auto simp: Clear_def get_cell_def queue_rep_def)
qed

subsection \<open>First in, first out\<close>

datatype 'e queue_op = Enq 'e | Deq

fun list_run :: "'e queue_op list \<Rightarrow> 'e list \<Rightarrow> 'e option list \<times> 'e list" where
  \<comment> \<open>the answers of the operations on a list, and the list they leave\<close>
  "list_run [] xs = ([], xs)"
| "list_run (Enq e # ops) xs = list_run ops (xs @ [e])"
| "list_run (Deq # ops) [] = (let (rs, ys) = list_run ops [] in (None # rs, ys))"
| "list_run (Deq # ops) (x # xs) = (let (rs, ys) = list_run ops xs in (Some x # rs, ys))"

fun queue_run ::
  "('e \<Rightarrow> 'q \<Rightarrow> 'h \<Rightarrow> ('q \<times> 'h) res) \<Rightarrow> ('q \<Rightarrow> 'h \<Rightarrow> ('e option \<times> 'q \<times> 'h) res) \<Rightarrow>
   'e queue_op list \<Rightarrow> 'q \<Rightarrow> 'h \<Rightarrow> ('e option list \<times> 'q \<times> 'h) res"
where
  "queue_run enq deq [] q h = Inr ([], q, h)"
| "queue_run enq deq (Enq e # ops) q h = rbind (enq e q h) (\<lambda>(q1, h1). queue_run enq deq ops q1 h1)"
| "queue_run enq deq (Deq # ops) q h =
     rbind (deq q h) (\<lambda>(r, q1, h1). rbind (queue_run enq deq ops q1 h1) (\<lambda>(rs, q2, h2). Inr (r # rs, q2, h2)))"

locale fifo =
  fixes enq :: "'e \<Rightarrow> 'q \<Rightarrow> 'h \<Rightarrow> ('q \<times> 'h) res"
    and deq :: "'q \<Rightarrow> 'h \<Rightarrow> ('e option \<times> 'q \<times> 'h) res"
    and rep :: "'q \<Rightarrow> 'h \<Rightarrow> 'e list \<Rightarrow> bool"
    and room :: nat
  assumes enq_appends: "rep q h xs \<Longrightarrow> length xs < room \<Longrightarrow> \<exists>q' h'. enq e q h = Inr (q', h') \<and> rep q' h' (xs @ [e])"
    and deq_nothing: "rep q h [] \<Longrightarrow> deq q h = Inr (None, q, h)"
    and deq_first: "rep q h (x # xs) \<Longrightarrow> \<exists>q' h'. deq q h = Inr (Some x, q', h') \<and> rep q' h' xs"
begin

lemma run_simulates:
  assumes "rep q h xs" "length xs + length ops \<le> room"
  shows "\<exists>q' h'. queue_run enq deq ops q h = Inr (fst (list_run ops xs), q', h') \<and> rep q' h' (snd (list_run ops xs))"
  using assms
proof (induction ops xs arbitrary: q h rule: list_run.induct)
  case (2 e ops xs)
  then obtain q1 h1 where "enq e q h = Inr (q1, h1)" "rep q1 h1 (xs @ [e])" using enq_appends [of q h xs e] by auto
  then show ?case using 2(1) [of q1 h1] 2(3) by auto
next
  case (3 ops)
  have "length [] + length ops \<le> room" using 3(3) by simp
  then obtain q2 h2 where "queue_run enq deq ops q h = Inr (fst (list_run ops []), q2, h2)" "rep q2 h2 (snd (list_run ops []))"
    using 3(1) [OF 3(2)] by blast
  then show ?case using deq_nothing [OF 3(2)] by (auto simp: Let_def split: prod.splits)
next
  case (4 ops x xs)
  obtain q1 h1 where d: "deq q h = Inr (Some x, q1, h1)" "rep q1 h1 xs" using deq_first [OF 4(2)] by blast
  then obtain q2 h2 where "queue_run enq deq ops q1 h1 = Inr (fst (list_run ops xs), q2, h2)" "rep q2 h2 (snd (list_run ops xs))"
    using 4(1) [of q1 h1] 4(3) by auto
  then show ?case using d by (auto simp: Let_def split: prod.splits)
qed simp

end

definition owned :: "'e qheap \<Rightarrow> Queue \<Rightarrow> 'e qheap \<Rightarrow> 'e list \<Rightarrow> bool" where
  \<comment> \<open>the heap is \<open>h0\<close> and the nodes of the queue\<close>
  "owned h0 q h xs \<longleftrightarrow> cells_ok h0 \<and> last_id h0 \<le> last_id h \<and>
     (\<exists>ns. queue_rep q h ns \<and> map snd ns = xs \<and>
       (\<forall>p. if p \<in> fst ` set ns then cell h0 p = None else cell h p = cell h0 p))"

interpretation linked: fifo Enqueue Dequeue "owned h0" 18446744073709551615 for h0
proof
  fix q h and xs :: "'a list" and e
  assume o: "owned h0 q h xs" "length xs < 18446744073709551615"
  then obtain ns where ns: "queue_rep q h ns" "map snd ns = xs"
    "\<forall>p. if p \<in> fst ` set ns then cell h0 p = None else cell h p = cell h0 p" by (auto simp: owned_def)
  let ?n = "Suc (last_id h)"
  have "length ns + 1 < 18446744073709551616" using o(2) ns(2) by auto
  then obtain q' h' where e: "Enqueue e q h = Inr (q', h')" "queue_rep q' h' (ns @ [(?n, e)])" "last_id h' = ?n"
    "\<forall>p. p \<noteq> ?n \<longrightarrow> p \<notin> fst ` set ns \<longrightarrow> cell h' p = cell h p"
    using Enqueue_rep [OF ns(1)] by blast
  have "cell h0 ?n = None" using o(1) by (cases "cell h0 ?n") (auto simp: owned_def cells_ok_def)
  then have "owned h0 q' h' (xs @ [e])"
    unfolding owned_def using o(1) e(2-4) ns(2,3)
    by (intro conjI exI [of _ "ns @ [(?n, e)]"]) (auto simp: owned_def)
  then show "\<exists>q' h'. Enqueue e q h = Inr (q', h') \<and> owned h0 q' h' (xs @ [e])" using e(1) by blast
next
  fix q and h :: "'a qheap"
  assume "owned h0 q h []"
  then show "Dequeue q h = Inr (None, q, h)" using Dequeue_empty [of q h] by (auto simp: owned_def)
next
  fix q h x and xs :: "'a list"
  assume o: "owned h0 q h (x # xs)"
  then obtain a ns where ns: "queue_rep q h ((a, x) # ns)" "map snd ns = xs"
    "\<forall>p. if p \<in> fst ` set ((a, x) # ns) then cell h0 p = None else cell h p = cell h0 p"
    by (auto simp: owned_def map_eq_Cons_conv)
  then obtain q' h' where d: "Dequeue q h = Inr (Some x, q', h')" "queue_rep q' h' ns" "cell h' = (cell h)(a := None)"
    "last_id h' = last_id h"
    using Dequeue_rep [OF ns(1)] by blast
  have "a \<notin> fst ` set ns" using ns(1) by (auto simp: queue_rep_def)
  then have "owned h0 q' h' xs"
    unfolding owned_def using o d(2-4) ns(2,3) by (intro conjI exI [of _ ns]) (auto simp: owned_def)
  then show "\<exists>q' h'. Dequeue q h = Inr (Some x, q', h') \<and> owned h0 q' h' xs" using d(1) by blast
qed

lemma length_list_run: "length (snd (list_run ops xs)) \<le> length xs + length ops"
  by (induction ops xs rule: list_run.induct) (auto simp: Let_def split: prod.splits)

text \<open>
  C21. Every sequence of \<open>Enqueue\<close> and \<open>Dequeue\<close> on a new queue gives the answers of a list that is
  extended at its end and shortened at its front; no operation follows a dangling pointer,
  and \<open>Clear\<close> afterwards frees the nodes that are left, so that the heap is as it was before.
\<close>

theorem Queue_refines_list:
  assumes "cells_ok h" "length ops < 18446744073709551615" "length ops < fuel"
  shows "\<exists>q1 h1 q2 h2. queue_run Enqueue Dequeue ops Queue_new h = Inr (fst (list_run ops []), q1, h1) \<and>
    unat (Size q1) = length (snd (list_run ops [])) \<and>
    Clear fuel q1 h1 = Inr (q2, h2) \<and> Size q2 = 0 \<and> cell h2 = cell h"
proof -
  have "owned h Queue_new h []" using assms(1) Queue_new_rep [of h] by (auto simp: owned_def)
  then obtain q1 h1 where r: "queue_run Enqueue Dequeue ops Queue_new h = Inr (fst (list_run ops []), q1, h1)"
    "owned h q1 h1 (snd (list_run ops []))"
    using linked.run_simulates [of h Queue_new h "[]" ops] assms(2) by auto
  then obtain ns where ns: "queue_rep q1 h1 ns" "map snd ns = snd (list_run ops [])"
    "\<forall>p. if p \<in> fst ` set ns then cell h p = None else cell h1 p = cell h p" by (auto simp: owned_def)
  have l: "length ns = length (snd (list_run ops []))" using arg_cong [OF ns(2), of length] by simp
  then have "length ns < fuel" using length_list_run [of ops "[]"] assms(3) by simp
  then obtain q2 h2 where c: "Clear fuel q1 h1 = Inr (q2, h2)" "queue_rep q2 h2 []"
    "\<forall>p. cell h2 p = (if p \<in> fst ` set ns then None else cell h1 p)"
    using Clear_frees [OF ns(1)] by blast
  have "cell h2 p = cell h p" for p using c(3) ns(3) by (metis (full_types))
  then have "cell h2 = cell h" by blast
  moreover have "Size q2 = 0" using size_zero [OF c(2)] by (simp add: Size_def)
  moreover have "unat (Size q1) = length ns" using ns(1) by (simp add: queue_rep_def Size_def)
  ultimately show ?thesis using r(1) c(1) l by metis
qed

definition no_cells :: "'a cells" where
  "no_cells = \<lparr>cell = (\<lambda>_. None), last_id = 0\<rparr>"

theorem Queue_refines_list_witness:
  "\<exists>q1 h1 q2 h2. queue_run Enqueue Dequeue [Enq ''a'', Enq ''b'', Deq, Deq, Deq] Queue_new no_cells
      = Inr ([Some ''a'', Some ''b'', None], q1, h1) \<and> Clear 6 q1 h1 = Inr (q2, h2) \<and> cell h2 = cell no_cells"
proof -
  have "cells_ok (no_cells :: char list qheap)" by (simp add: cells_ok_def no_cells_def)
  from Queue_refines_list [OF this, of "[Enq ''a'', Enq ''b'', Deq, Deq, Deq]" 6] show ?thesis by auto
qed

subsection \<open>\<open>Map\<close>\<close>

text \<open>
  \<open>Map\<close> leaves the queue alone and makes a new queue with the images of its elements.
\<close>

lemma map_nodes_maps:
  assumes "path (cell h) p ns 0" "queue_rep q h ms" "fst ` set ns \<inter> fst ` set ms = {}"
    and "length ns < k" "length ms + length ns < 18446744073709551615"
  shows "\<exists>q' h' ms'. map_nodes f k p q h = Inr (q', h') \<and> queue_rep q' h' (ms @ ms') \<and>
    map snd ms' = map (f \<circ> snd) ns \<and> last_id h \<le> last_id h' \<and>
    (\<forall>a. a \<notin> fst ` set ms \<longrightarrow> a \<le> last_id h \<longrightarrow> cell h' a = cell h a)"
  using assms
proof (induction k arbitrary: p ns q h ms)
  case (Suc k)
  show ?case
  proof (cases ns)
    case Nil
    then show ?thesis using Suc(2,3) by auto
  next
    case (Cons b rest)
    obtain a x where b: "b = (a, x)" by (cases b)
    obtain n where n: "p = a" "a \<noteq> 0" "cell h a = Some n" "q_element n = x" "path (cell h) (q_next n) rest 0"
      using Suc(2) Cons b by auto
    let ?i = "Suc (last_id h)"
    have ok: "cells_ok h" using Suc(3) by (simp add: queue_rep_def)
    obtain q1 h1 where e: "Enqueue (f x) q h = Inr (q1, h1)" "queue_rep q1 h1 (ms @ [(?i, f x)])" "last_id h1 = ?i"
      "\<forall>r. r \<noteq> ?i \<longrightarrow> r \<notin> fst ` set ms \<longrightarrow> cell h1 r = cell h r"
      using Enqueue_rep [OF Suc(3), of "f x"] Suc(6) Cons by fastforce
    have nm: "r \<in> fst ` set ns \<Longrightarrow> r \<noteq> ?i \<and> r \<notin> fst ` set ms" for r
      using fresh_id [OF ok Suc(2)] Suc(4) by blast
    have keep: "path (cell h1) r zs 0 \<longleftrightarrow> path (cell h) r zs 0" if "fst ` set zs \<subseteq> fst ` set ns" for r zs
      using that
    proof (induction zs arbitrary: r)
      case (Cons z zs)
      then have "cell h1 (fst z) = cell h (fst z)" using e(4) nm [of "fst z"] by auto
      then show ?case using Cons by (cases z) auto
    qed simp
    have a1: "cell h1 a = Some n" using e(4) nm [of a] n(3) Cons b by auto
    have "path (cell h1) (q_next n) rest 0" using keep [of rest "q_next n"] n(5) Cons by auto
    moreover have "fst ` set rest \<inter> fst ` set (ms @ [(?i, f x)]) = {}" using nm Cons by auto
    ultimately obtain q2 h2 ms' where s: "map_nodes f k (q_next n) q1 h1 = Inr (q2, h2)"
      "queue_rep q2 h2 ((ms @ [(?i, f x)]) @ ms')" "map snd ms' = map (f \<circ> snd) rest" "last_id h1 \<le> last_id h2"
      "\<forall>r. r \<notin> fst ` set (ms @ [(?i, f x)]) \<longrightarrow> r \<le> last_id h1 \<longrightarrow> cell h2 r = cell h1 r"
      using Suc(1) [of h1 "q_next n" rest q1 "ms @ [(?i, f x)]"] e(2) Suc(5,6) Cons by auto
    have "map_nodes f (Suc k) p q h = Inr (q2, h2)"
      using n e(1) a1 s(1) by (simp add: get_cell_def)
    moreover have "cell h2 r = cell h r" if "r \<notin> fst ` set ms" "r \<le> last_id h" for r using s(5) e(3,4) that by auto
    ultimately show ?thesis
      using s(2-4) e(3) Cons b by (intro exI [of _ q2] exI [of _ h2] exI [of _ "(?i, f x) # ms'"]) auto
  qed
qed simp

theorem Map_maps:
  assumes r: "queue_rep q h ns" and "length ns < fuel" "length ns < 18446744073709551615"
  shows "\<exists>q' h' ms. Map f fuel q h = Inr (q', h') \<and> queue_rep q' h' ms \<and> map snd ms = map (f \<circ> snd) ns \<and>
    queue_rep q h' ns"
proof -
  have p: "path (cell h) (q_head q) ns 0" "cells_ok h" using r by (simp_all add: queue_rep_def)
  obtain q' h' ms where m: "Map f fuel q h = Inr (q', h')" "queue_rep q' h' ms" "map snd ms = map (f \<circ> snd) ns"
    "\<forall>a. a \<le> last_id h \<longrightarrow> cell h' a = cell h a"
    using map_nodes_maps [OF p(1) Queue_new_rep [OF p(2)], of fuel f] assms(2,3) by (auto simp: Map_def)
  have "a \<le> last_id h" if "a \<in> fst ` set ns" for a
    using path_cells [OF p(1) that] p(2) by (auto simp: cells_ok_def)
  then have "path (cell h') b zs 0 \<longleftrightarrow> path (cell h) b zs 0" if "fst ` set zs \<subseteq> fst ` set ns" for b zs
    using that m(4)
  proof (induction zs arbitrary: b)
    case (Cons z zs)
    then show ?case by (cases z) auto
  qed simp
  then have "queue_rep q h' ns" using r m(2) by (auto simp: queue_rep_def)
  then show ?thesis using m(1-3) by blast
qed

subsection \<open>\<open>MyString\<close>\<close>

text \<open>
  A string object is its member \<open>c_string_\<close>, a pointer to a cell with an array of characters;
  the argument of a member function is such a pointer too, possibly the same one.
\<close>

definition CloneCString :: "nat \<Rightarrow> char list cells \<Rightarrow> (nat \<times> char list cells) res" where
  "CloneCString a h =
     (if a = 0 then Inr (0, h) else
      rbind (get_cell a h) (\<lambda>t.
      if NUL \<notin> set t then Inl BadAccess else
      let len = length (cstr t) in
      rbind (read_bytes t 0 (int len + 1)) (\<lambda>d. Inr (new_cell d h))))"

definition MyString_Set :: "nat \<Rightarrow> nat \<Rightarrow> char list cells \<Rightarrow> (nat \<times> char list cells) res" where
  "MyString_Set c a h =
     rbind (CloneCString a h) (\<lambda>(temp, h1).
     rbind (delete_cell c h1) (\<lambda>h2. Inr (temp, h2)))"

definition MyString_null :: nat where
  "MyString_null = 0"

definition MyString_new :: "nat \<Rightarrow> char list cells \<Rightarrow> (nat \<times> char list cells) res" where
  \<comment> \<open>the constructor from a C string\<close>
  "MyString_new a h = MyString_Set 0 a h"

definition MyString_copy :: "nat \<Rightarrow> char list cells \<Rightarrow> (nat \<times> char list cells) res" where
  "MyString_copy c h = MyString_Set 0 c h"

definition MyString_delete :: "nat \<Rightarrow> char list cells \<Rightarrow> char list cells res" where
  "MyString_delete c h = delete_cell c h"

definition MyString_Length :: "nat \<Rightarrow> char list cells \<Rightarrow> int res" where
  "MyString_Length c h =
     (if c = 0 then Inr 0 else
      rbind (get_cell c h) (\<lambda>t. if NUL \<notin> set t then Inl BadAccess else Inr (strlen t)))"

definition holds :: "nat \<Rightarrow> char list \<Rightarrow> char list cells \<Rightarrow> bool" where
  \<comment> \<open>the pointer leads to the C string \<open>s\<close>\<close>
  "holds p s h \<longleftrightarrow> p \<noteq> 0 \<and> (\<exists>t. cell h p = Some t \<and> NUL \<in> set t \<and> cstr t = s)"

lemma take_cstr_NUL: "NUL \<in> set t \<Longrightarrow> take (length (cstr t) + 1) t = cstr t @ [NUL] \<and> length (cstr t) + 1 \<le> length t"
proof -
  assume "NUL \<in> set t"
  then obtain xs ys where t: "t = xs @ NUL # ys" "NUL \<notin> set xs" by (metis split_list_first)
  then show ?thesis using cstr_append_NUL [of xs ys] by simp
qed

lemma CloneCString_clones:
  assumes "holds a s h"
  shows "CloneCString a h = Inr (new_cell (s @ [NUL]) h)"
proof -
  obtain t where t: "a \<noteq> 0" "cell h a = Some t" "NUL \<in> set t" "cstr t = s" using assms by (auto simp: holds_def)
  have "read_bytes t 0 (int (length (cstr t)) + 1) = Inr (cstr t @ [NUL])"
    using take_cstr_NUL [OF t(3)] by (simp add: read_bytes_def nat_add_distrib)
  then show ?thesis using t by (simp add: CloneCString_def get_cell_def Let_def)
qed

text \<open>
  \<open>Set\<close> gives the string object a copy of its own of the argument and frees the old one, also
  when the argument is the object's own string; every other cell stays as it was.
\<close>

theorem MyString_Set_copies:
  assumes "cells_ok h" "holds a s h" "c = 0 \<or> holds c old h"
  shows "\<exists>c' h'. MyString_Set c a h = Inr (c', h') \<and> holds c' s h' \<and> MyString_Length c' h' = Inr (int (length s)) \<and>
    cell h c' = None \<and> (c \<noteq> 0 \<longrightarrow> cell h' c = None) \<and> (\<forall>p. p \<noteq> c \<longrightarrow> p \<noteq> c' \<longrightarrow> cell h' p = cell h p)"
proof -
  let ?n = "Suc (last_id h)" and ?h = "snd (new_cell (s @ [NUL]) h)"
  have fr: "cell h ?n = None" using assms(1) by (cases "cell h ?n") (auto simp: cells_ok_def)
  have nn: "NUL \<notin> set s" using assms(2) by (auto simp: holds_def)
  have c: "c = 0 \<or> c \<noteq> ?n \<and> cell h c \<noteq> None" using assms(3) fr by (auto simp: holds_def)
  have "MyString_Set c a h = Inr (?n, if c = 0 then ?h else ?h\<lparr>cell := (cell ?h)(c := None)\<rparr>)"
    using CloneCString_clones [OF assms(2)] c
    by (auto simp: MyString_Set_def new_cell_def delete_cell_def get_cell_def split: option.splits)
  moreover have "cstr (s @ [NUL]) = s" using cstr_append_NUL [OF nn, of "[]"] .
  ultimately show ?thesis
    using c fr by (auto simp: holds_def new_cell_def MyString_Length_def get_cell_def strlen_def)
qed

definition two_strings :: "char list cells" where
  "two_strings = \<lparr>cell = [1 \<mapsto> ''ab'' @ [NUL]], last_id = 1\<rparr>"

theorem MyString_Set_copies_witness:
  "\<exists>c' h'. MyString_Set 1 1 two_strings = Inr (c', h') \<and> holds c' ''ab'' h' \<and> cell h' 1 = None"
proof -
  have "cells_ok two_strings" by (simp add: cells_ok_def two_strings_def)
  moreover have h: "holds 1 ''ab'' two_strings" by (simp add: holds_def two_strings_def cstr_def)
  ultimately show ?thesis using MyString_Set_copies [of two_strings 1 "''ab''" 1 "''ab''"] by auto
qed

subsection \<open>\<open>Counter\<close>\<close>

definition Counter_new :: int where
  "Counter_new = 0"

definition Increment :: "int \<Rightarrow> (int \<times> int) res" where
  \<comment> \<open>\<open>return counter_++\<close>: the result and the new value\<close>
  "Increment counter = rbind (c32 (counter + 1)) (\<lambda>c. Inr (counter, c))"

fun increments :: "nat \<Rightarrow> int \<Rightarrow> (int list \<times> int) res" where
  "increments 0 c = Inr ([], c)"
| "increments (Suc k) c = rbind (Increment c) (\<lambda>(r, c1). rbind (increments k c1) (\<lambda>(rs, c2). Inr (r # rs, c2)))"

lemma Counter_counts:
  "0 \<le> c \<Longrightarrow> c + int k < 2147483648 \<Longrightarrow> increments k c = Inr (map (\<lambda>i. c + int i) [0..<k], c + int k)"
proof (induction k arbitrary: c)
  case (Suc k)
  have "c32 (c + 1) = Inr (c + 1)" using Suc(2,3) by (intro c32_id) simp_all
  moreover have "map (\<lambda>i. c + int i) [0..<Suc k] = c # map (\<lambda>i. c + 1 + int i) [0..<k]"
    by (simp add: upt_conv_Cons map_Suc_upt [symmetric] del: upt_Suc map_Suc_upt)
  ultimately show ?case using Suc(1) [of "c + 1"] Suc(2,3) by (simp add: Increment_def add.assoc del: upt_Suc)
qed simp

lemma Counter_overflows: "Increment 2147483647 = Inl SignedOverflow"
  by (simp add: Increment_def c32_def)

end
