(* ===== verification/Epoll_Server.thy ===== *)
theory Epoll_Server
  imports Prelude
begin

text \<open>
  The epoll demonstration server \<open>epoll/server.c\<close>. The state \<open>srv\<close> holds the open descriptors,
  the interest set of the epoll instance and the record \<open>acts\<close> of what the program did, in
  order (the program has one epoll instance, so \<open>epollfd\<close> is not an argument); \<open>answers\<close> are the kernel's answers to the system calls and \<open>polls\<close> those of
  \<open>epoll_wait\<close>. A descriptor that is not open answers \<open>EBADF\<close>.
\<close>

subsection \<open>The kernel\<close>

record kans =
  k_ret :: int
  k_errno :: int
  k_data :: "char list option"

datatype act =
    SetFl int int
  | EpollAdd int int
  | Accepted int
  | Received int "char list"
  | RecvFailed int int
  | Closed int
  | ClosedBadly int
  | Bound int "char list" int
  | Listening int int
  | PrintOnce
  | PrintContent int "char list"
  | PrintLater
  | PrintElse
  | PrintUsage
  | PrintEpollFailure

record srv =
  fds :: "int list"
  interest :: "int \<Rightarrow> int option"
  answers :: "nat \<Rightarrow> kans"
  ncall :: nat
  polls :: "nat \<Rightarrow> (int \<times> int) list option"
  npoll :: nat
  acts :: "act list"

definition EPOLLIN :: int where "EPOLLIN = 1"
definition EPOLLET :: int where "EPOLLET = 2147483648"
definition O_NONBLOCK :: int where "O_NONBLOCK = 2048"
definition EBADF :: int where "EBADF = 9"
definition EAGAIN :: int where "EAGAIN = 11"
definition EWOULDBLOCK :: int where "EWOULDBLOCK = 11"

definition MAX_EVENT_NUMBER :: nat where "MAX_EVENT_NUMBER = 1024"
definition BUFFER_SIZE :: int where "BUFFER_SIZE = 10"

definition act :: "act \<Rightarrow> srv \<Rightarrow> srv" where
  "act a s = s\<lparr>acts := acts s @ [a]\<rparr>"

definition ask :: "srv \<Rightarrow> kans \<times> srv" where
  "ask s = (answers s (ncall s), s\<lparr>ncall := Suc (ncall s)\<rparr>)"

definition sys_recv :: "int \<Rightarrow> nat \<Rightarrow> srv \<Rightarrow> (int + char list) \<times> srv" where
  \<comment> \<open>at most \<open>n\<close> bytes, none at the end of the stream, or the error number\<close>
  "sys_recv fd n s =
     (if fd \<notin> set (fds s) then (Inl EBADF, act (RecvFailed fd EBADF) s) else
      let (a, s1) = ask s in
      case k_data a of
        None \<Rightarrow> (Inl (k_errno a), act (RecvFailed fd (k_errno a)) s1)
      | Some d \<Rightarrow> (Inr (take n d), act (Received fd (take n d)) s1))"

definition sys_close :: "int \<Rightarrow> srv \<Rightarrow> srv" where
  "sys_close fd s =
     (if fd \<in> set (fds s)
      then act (Closed fd) (s\<lparr>fds := removeAll fd (fds s), interest := (interest s)(fd := None)\<rparr>)
      else act (ClosedBadly fd) s)"

definition sys_accept :: "int \<Rightarrow> srv \<Rightarrow> int \<times> srv" where
  "sys_accept listenfd s =
     (let (a, s1) = ask s; fd = k_ret a in
      if fd < 0 then (- 1, s1) else (fd, act (Accepted fd) (s1\<lparr>fds := fd # fds s1\<rparr>)))"

subsection \<open>\<open>server.c\<close>\<close>

definition setnonblocking :: "int \<Rightarrow> srv \<Rightarrow> int \<times> srv" where
  "setnonblocking fd s =
     (let (a, s1) = ask s; old_option = (if fd \<in> set (fds s) then k_ret a else - 1);
          new_option = old_option OR O_NONBLOCK in
      (old_option, if fd \<in> set (fds s1) then act (SetFl fd new_option) s1 else s1))"

definition addfd :: "int \<Rightarrow> int \<Rightarrow> srv \<Rightarrow> srv" where
  \<comment> \<open>the result of \<open>epoll_ctl\<close> is not looked at\<close>
  "addfd fd enable_et s =
     (let ev = (if enable_et \<noteq> 0 then EPOLLIN OR EPOLLET else EPOLLIN);
          (a, s1) = ask s;
          s2 = (if fd \<in> set (fds s1) \<and> k_ret a = 0
                then act (EpollAdd fd ev) (s1\<lparr>interest := (interest s1)(fd := Some ev)\<rparr>) else s1) in
      snd (setnonblocking fd s2))"

definition received :: "char list \<Rightarrow> char list res" where
  \<comment> \<open>\<open>buf\<close> behind \<open>memset\<close> and \<open>recv\<close>\<close>
  "received d = write_bytes (replicate (nat BUFFER_SIZE) NUL) 0 d"

definition print_content :: "char list \<Rightarrow> srv \<Rightarrow> srv res" where
  \<comment> \<open>\<open>printf("get %d bytes of content:%s\\n", ret, buf)\<close>\<close>
  "print_content d s = rbind (received d) (\<lambda>buf.
     if NUL \<notin> set buf then Inl BadAccess else Inr (act (PrintContent (int (length d)) (cstr buf)) s))"

definition new_connection :: "int \<Rightarrow> int \<Rightarrow> srv \<Rightarrow> srv" where
  "new_connection listenfd enable_et s = (let (connfd, s1) = sys_accept listenfd s in addfd connfd enable_et s1)"

fun lt :: "(int \<times> int) list \<Rightarrow> int \<Rightarrow> srv \<Rightarrow> srv res" where
  "lt [] listenfd s = Inr s"
| "lt ((sockfd, ev) # events) listenfd s =
     (if sockfd = listenfd then lt events listenfd (new_connection listenfd 0 s)
      else if ev AND EPOLLIN \<noteq> 0 then
        let (r, s1) = sys_recv sockfd (nat (BUFFER_SIZE - 1)) (act PrintOnce s) in
        case r of
          Inl e \<Rightarrow> lt events listenfd (sys_close sockfd s1)
        | Inr d \<Rightarrow>
            if d = [] then lt events listenfd (sys_close sockfd s1)
            else rbind (print_content d s1) (\<lambda>s2. lt events listenfd s2)
      else lt events listenfd (act PrintElse s))"

fun et_read :: "nat \<Rightarrow> int \<Rightarrow> srv \<Rightarrow> srv res" where
  \<comment> \<open>the \<open>while(1)\<close> of \<open>et\<close>: at the end of the stream the socket is closed and the loop goes on\<close>
  "et_read 0 sockfd s = Inl NoFuel"
| "et_read (Suc k) sockfd s =
     (let (r, s1) = sys_recv sockfd (nat (BUFFER_SIZE - 1)) s in
      case r of
        Inl e \<Rightarrow> if e = EAGAIN \<or> e = EWOULDBLOCK then Inr (act PrintLater s1) else Inr (sys_close sockfd s1)
      | Inr d \<Rightarrow>
          if d = [] then et_read k sockfd (sys_close sockfd s1)
          else rbind (print_content d s1) (\<lambda>s2. et_read k sockfd s2))"

fun et :: "nat \<Rightarrow> (int \<times> int) list \<Rightarrow> int \<Rightarrow> srv \<Rightarrow> srv res" where
  "et fuel [] listenfd s = Inr s"
| "et fuel ((sockfd, ev) # events) listenfd s =
     (if sockfd = listenfd then et fuel events listenfd (new_connection listenfd 1 s)
      else if ev AND EPOLLIN \<noteq> 0 then
        rbind (et_read fuel sockfd (act PrintOnce s)) (\<lambda>s1. et fuel events listenfd s1)
      else et fuel events listenfd (act PrintElse s))"

fun serve :: "nat \<Rightarrow> nat \<Rightarrow> int \<Rightarrow> int \<Rightarrow> srv \<Rightarrow> srv res" where
  \<comment> \<open>the \<open>while( 1 )\<close> of \<open>main\<close>\<close>
  "serve fuel 0 isEt listenfd s = Inl NoFuel"
| "serve fuel (Suc k) isEt listenfd s =
     (let s1 = s\<lparr>npoll := Suc (npoll s)\<rparr> in
      case polls s (npoll s) of
        None \<Rightarrow> Inr (act PrintEpollFailure s1)
      | Some evs \<Rightarrow>
          rbind (if isEt \<noteq> 0 then et fuel (take MAX_EVENT_NUMBER evs) listenfd s1
                 else lt (take MAX_EVENT_NUMBER evs) listenfd s1) (\<lambda>s2.
          serve fuel k isEt listenfd s2))"

definition epoll_main :: "nat \<Rightarrow> nat \<Rightarrow> char list list \<Rightarrow> srv \<Rightarrow> (int \<times> srv) res" where
  "epoll_main fuel rounds argv s =
     (if length argv \<le> 2 then Inr (1, act PrintUsage s) else
      let ip = argv ! 1; port = s32 (strtol10 (argv ! 2));
          isEt = (if length argv = 4 then s32 (strtol10 (argv ! 3)) else 0);
          (a, s1) = ask s; listenfd = k_ret a in
      if \<not> listenfd \<ge> 0 then Inl AssertFailure else
      let s2 = s1\<lparr>fds := listenfd # fds s1\<rparr>; (a, s3) = ask s2 in
      if k_ret a = - 1 then Inl AssertFailure else
      let (a, s4) = ask (act (Bound listenfd ip (port mod 65536)) s3) in
      if k_ret a = - 1 then Inl AssertFailure else
      let (a, s5) = ask (act (Listening listenfd 5) s4); epollfd = k_ret a in
      if epollfd = - 1 then Inl AssertFailure else
      let s6 = addfd listenfd 1 (s5\<lparr>fds := epollfd # fds s5\<rparr>) in
      rbind (serve fuel rounds isEt listenfd s6) (\<lambda>s7. Inr (0, sys_close listenfd s7)))"

subsection \<open>The buffer\<close>

lemma print_content_runs:
  assumes "length d \<le> 9"
  shows "print_content d s = Inr (act (PrintContent (int (length d)) (cstr d)) s)"
proof -
  have "received d = Inr (d @ replicate (10 - length d) NUL)"
    using assms by (simp add: received_def write_bytes_def BUFFER_SIZE_def)
  moreover obtain n where n: "10 - length d = Suc n" using assms by (cases "10 - length d") auto
  ultimately show ?thesis
    using cstr_append_NUL_same [of d "replicate n NUL"] by (simp add: print_content_def n)
qed

lemma sys_recv_length: "sys_recv fd n s = (Inr d, s') \<Longrightarrow> length d \<le> n"
  by (auto simp: sys_recv_def ask_def Let_def split: if_splits option.splits)

definition harmless :: "srv res \<Rightarrow> bool" where
  "harmless r \<longleftrightarrow> (\<forall>e. r = Inl e \<longrightarrow> e = NoFuel)"

lemma harmless_bind: "harmless m \<Longrightarrow> (\<And>x. m = Inr x \<Longrightarrow> harmless (f x)) \<Longrightarrow> harmless (rbind m f)"
  by (cases m) (auto simp: harmless_def)

lemma lt_harmless: "harmless (lt evs listenfd s)"
proof (induction evs listenfd s rule: lt.induct)
  case (2 sockfd ev events listenfd s)
  obtain r s1 where r: "sys_recv sockfd (nat (BUFFER_SIZE - 1)) (act PrintOnce s) = (r, s1)" by fastforce
  have "length d \<le> 9" if "r = Inr d" for d using sys_recv_length r that by (force simp: BUFFER_SIZE_def)
  then show ?case using 2 r by (auto simp: Let_def print_content_runs split: sum.split)
qed (simp add: harmless_def)

lemma et_read_harmless: "harmless (et_read k sockfd s)"
proof (induction k arbitrary: s)
  case (Suc k)
  obtain r s1 where r: "sys_recv sockfd (nat (BUFFER_SIZE - 1)) s = (r, s1)" by fastforce
  have "length d \<le> 9" if "r = Inr d" for d using sys_recv_length r that by (force simp: BUFFER_SIZE_def)
  then show ?case using Suc r by (auto simp: Let_def print_content_runs harmless_def split: sum.split)
qed (simp add: harmless_def)

lemma et_harmless: "harmless (et fuel evs listenfd s)"
  by (induction fuel evs listenfd s rule: et.induct) (auto intro: harmless_bind et_read_harmless simp: harmless_def [of "Inr _"])

lemma serve_harmless: "harmless (serve fuel k isEt listenfd s)"
  by (induction k arbitrary: s)
    (auto simp: Let_def harmless_def [of "Inr _"] harmless_def [of "Inl _"] split: option.split intro!: harmless_bind et_harmless lt_harmless)

text \<open>
  Whatever the peers send, the server stays inside of its buffers and prints only terminated
  text: it stops early only for a failed \<open>assert\<close> of its set-up, and otherwise runs on or
  returns.
\<close>

theorem server_memory_safe:
  assumes "epoll_main fuel rounds argv s = Inl e"
  shows "e = NoFuel \<or> e = AssertFailure"
proof -
  have "rbind (serve fuel rounds isEt listenfd s6) (\<lambda>s7. Inr (0, sys_close listenfd s7)) = Inl e \<Longrightarrow> e = NoFuel"
    for isEt listenfd s6
    using serve_harmless [of fuel rounds isEt listenfd s6]
    by (cases "serve fuel rounds isEt listenfd s6") (auto simp: harmless_def)
  then show ?thesis
    using assms by (auto simp: epoll_main_def Let_def split: if_splits prod.splits)
qed

definition refusing :: srv where
  "refusing = \<lparr>fds = [], interest = (\<lambda>_. None), answers = (\<lambda>_. \<lparr>k_ret = - 1, k_errno = 24, k_data = None\<rparr>), ncall = 0,
     polls = (\<lambda>_. None), npoll = 0, acts = []\<rparr>"

theorem server_memory_safe_witness:
  "\<exists>e. epoll_main 1 1 [''server'', ''::'', ''80''] refusing = Inl e \<and> (e = NoFuel \<or> e = AssertFailure)"
proof -
  have e: "epoll_main 1 1 [''server'', ''::'', ''80''] refusing = Inl AssertFailure"
    by (simp add: epoll_main_def refusing_def ask_def Let_def)
  show ?thesis using server_memory_safe [OF e] e by blast
qed

subsection \<open>Edge-triggered reading\<close>

definition printed :: "int \<Rightarrow> char list list \<Rightarrow> act list" where
  "printed fd ds = concat (map (\<lambda>d. [Received fd d, PrintContent (int (length d)) (cstr d)]) ds)"

lemma et_read_chunks:
  assumes "sockfd \<in> set (fds s)" "\<forall>j<length ds. k_data (answers s (ncall s + j)) = Some (ds ! j)"
    and "\<forall>d\<in>set ds. d \<noteq> [] \<and> length d \<le> 9"
  shows "et_read (length ds + k) sockfd s
    = et_read k sockfd (s\<lparr>ncall := ncall s + length ds, acts := acts s @ printed sockfd ds\<rparr>)"
  using assms
proof (induction ds arbitrary: s)
  case (Cons d ds)
  let ?s = "s\<lparr>ncall := Suc (ncall s), acts := acts s @ [Received sockfd d, PrintContent (int (length d)) (cstr d)]\<rparr>"
  have d: "k_data (answers s (ncall s)) = Some d" "d \<noteq> []" "length d \<le> 9" using Cons(3) [rule_format, of 0] Cons(4) by auto
  have "sys_recv sockfd (nat (BUFFER_SIZE - 1)) s = (Inr d, act (Received sockfd d) (s\<lparr>ncall := Suc (ncall s)\<rparr>))"
    using Cons(2) d by (simp add: sys_recv_def ask_def Let_def BUFFER_SIZE_def)
  then have "et_read (Suc (length ds + k)) sockfd s = et_read (length ds + k) sockfd ?s"
    using d by (simp add: print_content_runs act_def)
  also have "\<dots> = et_read k sockfd (?s\<lparr>ncall := ncall ?s + length ds, acts := acts ?s @ printed sockfd ds\<rparr>)"
    using Cons(2,4) Cons(3) [rule_format, of "Suc _"] by (intro Cons(1)) auto
  finally show ?case by (simp add: printed_def)
qed (simp add: printed_def)

text \<open>
  C37. On an edge-triggered event the server reads until the kernel has no more bytes: it prints
  every chunk in order, keeps the socket open and waits for the next event. When the peer has
  closed the connection it closes the socket but reads on, from a descriptor that is closed,
  and closes it a second time.
\<close>

theorem et_reads_until_empty:
  assumes "sockfd \<in> set (fds s)" "\<forall>j<length ds. k_data (answers s (ncall s + j)) = Some (ds ! j)"
    and "\<forall>d\<in>set ds. d \<noteq> [] \<and> length d \<le> 9" "length ds + 1 < fuel"
    and "answers s (ncall s + length ds) = \<lparr>k_ret = r, k_errno = EAGAIN, k_data = None\<rparr> \<or>
      k_data (answers s (ncall s + length ds)) = Some []"
  shows "\<exists>s'. et_read fuel sockfd s = Inr s' \<and> acts s' = acts s @ printed sockfd ds @
    (if k_data (answers s (ncall s + length ds)) = None then [RecvFailed sockfd EAGAIN, PrintLater]
     else [Received sockfd [], Closed sockfd, RecvFailed sockfd EBADF, ClosedBadly sockfd])"
proof -
  let ?s = "s\<lparr>ncall := ncall s + length ds, acts := acts s @ printed sockfd ds\<rparr>"
  obtain k where k: "fuel = length ds + Suc (Suc k)" using assms(4) by (metis add_Suc_right less_iff_Suc_add add.right_neutral One_nat_def add_Suc)
  have e: "et_read fuel sockfd s = et_read (Suc (Suc k)) sockfd ?s" unfolding k by (rule et_read_chunks [OF assms(1-3)])
  show ?thesis
  proof (cases "k_data (answers s (ncall s + length ds))")
    case None
    then have "answers s (ncall s + length ds) = \<lparr>k_ret = r, k_errno = EAGAIN, k_data = None\<rparr>" using assms(5) by simp
    then show ?thesis unfolding e using assms(1) None by (simp add: sys_recv_def ask_def act_def Let_def)
  next
    case (Some d)
    then have "d = []" using assms(5) by auto
    then show ?thesis
      unfolding e using assms(1) Some
      by (simp add: sys_recv_def ask_def act_def Let_def sys_close_def EBADF_def EAGAIN_def EWOULDBLOCK_def)
  qed
qed

definition talking :: srv where
  "talking = refusing\<lparr>fds := [7], answers := (\<lambda>i. \<lparr>k_ret = 0, k_errno = EAGAIN,
     k_data = (if i = 0 then Some ''hello'' else if i = 1 then Some ''you'' else Some [])\<rparr>)\<rparr>"

theorem et_reads_until_empty_witness:
  "\<exists>s'. et_read 9 7 talking = Inr s' \<and> acts s' = printed 7 [''hello'', ''you''] @
     [Received 7 [], Closed 7, RecvFailed 7 EBADF, ClosedBadly 7]"
proof -
  have "\<forall>j<length [''hello'', ''you'']. k_data (answers talking (ncall talking + j)) = Some ([''hello'', ''you''] ! j)"
    by (simp add: talking_def refusing_def All_less_Suc numeral_2_eq_2)
  then show ?thesis
    using et_reads_until_empty [of 7 talking "[''hello'', ''you'']" 9 0] by (simp add: talking_def refusing_def)
qed

end
