(* ===== verification/Monitor.thy ===== *)
theory Monitor
  imports Main
begin

text \<open>
  Objects shared by threads. A thread moves one statement at a time and any thread may be
  the next to move, so that an object is a step relation and its behaviour is what holds
  in every reachable state.

  \<^item> \<open>invariant_of\<close>: what holds at the start and is kept by every step holds in every
    reachable state.
  \<^item> \<open>atomic_object\<close>: every operation has one step at which it takes effect, as its
    sequential specification \<open>spec\<close> says, and returns what it then has in its hands. The
    history of the results is then explained by running the operations one after the
    other.
  \<^item> \<open>progressing\<close>: the steps that finish the calls under way decrease a measure and are
    possible until the object is at rest.
  \<^item> \<open>simulation\<close>: every step of one object is a step of another, or none, under an
    abstraction function.
\<close>

inductive reach :: "('s \<Rightarrow> 's \<Rightarrow> bool) \<Rightarrow> 's \<Rightarrow> 's \<Rightarrow> bool" for step init where
  start: "reach step init init"
| step: "reach step init s \<Longrightarrow> step s s' \<Longrightarrow> reach step init s'"

primrec run_steps :: "('t \<Rightarrow> 'c \<Rightarrow> 's \<Rightarrow> 's option) \<Rightarrow> ('t \<times> 'c) list \<Rightarrow> 's \<Rightarrow> 's option" where
  \<comment> \<open>the steps of a schedule: which thread moves, and what the code leaves open\<close>
  "run_steps next [] s = Some s"
| "run_steps next (tc # sched) s = Option.bind (next (fst tc) (snd tc) s) (run_steps next sched)"

lemma run_reach:
  assumes "run_steps next sched s = Some s'" "reach step init s" "\<And>t c s s'. next t c s = Some s' \<Longrightarrow> step s s'"
  shows "reach step init s'"
  using assms(1,2)
proof (induction sched arbitrary: s)
  case (Cons tc sched)
  then obtain s1 where "next (fst tc) (snd tc) s = Some s1" "run_steps next sched s1 = Some s'"
    by (auto split: bind_splits)
  then show ?case using Cons(1,3) assms(3) by (blast intro: reach.step)
qed simp

primrec replay :: "('o \<Rightarrow> 'q \<Rightarrow> 'q option) \<Rightarrow> 'o list \<Rightarrow> 'q \<Rightarrow> 'q option" where
  "replay spec [] q = Some q"
| "replay spec (x # xs) q = Option.bind (spec x q) (replay spec xs)"

lemma replay_append: "replay spec (xs @ ys) q = Option.bind (replay spec xs q) (replay spec ys)"
  by (induction xs arbitrary: q) (auto split: bind_splits)

lemma sum_list_update:
  fixes f :: "'a \<Rightarrow> nat"
  shows "t < length xs \<Longrightarrow> sum_list (map f (xs[t := p])) + f (xs ! t) = sum_list (map f xs) + f p"
proof (induction xs arbitrary: t)
  case (Cons x xs)
  then show ?case by (cases t) auto
qed simp

lemma list_ex_update: "list_ex P (xs[t := p]) \<Longrightarrow> \<not> P p \<Longrightarrow> list_ex P xs"
  by (auto simp: list_ex_iff dest: set_update_subset_insert [THEN subsetD])

locale invariant_of =
  fixes init :: 's and step :: "'s \<Rightarrow> 's \<Rightarrow> bool" and inv :: "'s \<Rightarrow> bool"
  assumes inv_init: "inv init"
    and inv_step: "inv s \<Longrightarrow> step s s' \<Longrightarrow> inv s'"
begin

lemma reach_inv: "reach step init s \<Longrightarrow> inv s"
  by (induction rule: reach.induct) (auto intro: inv_init inv_step)

lemma reach_induct_inv:
  assumes "reach step init s" "P init"
    and "\<And>s s'. inv s \<Longrightarrow> step s s' \<Longrightarrow> P s \<Longrightarrow> P s'"
  shows "P s"
  using assms(1)
proof (induction rule: reach.induct)
  case (step s s')
  then show ?case using assms(3) reach_inv by blast
qed (rule assms(2))

end

locale atomic_object = invariant_of init step inv
  for init :: 's and step and inv +
  fixes spec :: "'o \<Rightarrow> 'q \<Rightarrow> 'q option" and content :: "'s \<Rightarrow> 'q"
    and hist :: "'s \<Rightarrow> 'o list" and pending :: "'s \<Rightarrow> 'o option"
  assumes fresh: "hist init = []" "pending init = None"
    and effect: "inv s \<Longrightarrow> step s s' \<Longrightarrow>
      hist s' = hist s \<and> content s' = content s \<and> pending s' = pending s
      \<or> (\<exists>x. hist s' = hist s \<and> pending s = None \<and> pending s' = Some x \<and> spec x (content s) = Some (content s'))
      \<or> (\<exists>x. hist s' = hist s @ [x] \<and> content s' = content s \<and> pending s = Some x \<and> pending s' = None)"
begin

lemma explained:
  assumes "reach step init s"
  shows "replay spec (hist s @ (case pending s of None \<Rightarrow> [] | Some x \<Rightarrow> [x])) (content init) = Some (content s)"
proof (rule reach_induct_inv [OF assms])
  fix s s'
  assume "inv s" "step s s'"
    and "replay spec (hist s @ (case pending s of None \<Rightarrow> [] | Some x \<Rightarrow> [x])) (content init) = Some (content s)"
  then show "replay spec (hist s' @ (case pending s' of None \<Rightarrow> [] | Some x \<Rightarrow> [x])) (content init) = Some (content s')"
    using effect [of s s'] by (auto simp: replay_append split: option.splits bind_splits)
qed (simp add: fresh)

end

locale progressing =
  fixes inv :: "'s \<Rightarrow> bool" and work :: "'s \<Rightarrow> 's \<Rightarrow> bool" and effort :: "'s \<Rightarrow> nat" and at_rest :: "'s \<Rightarrow> bool"
  assumes work_keeps: "inv s \<Longrightarrow> work s s' \<Longrightarrow> inv s'"
    and work_shrinks: "inv s \<Longrightarrow> work s s' \<Longrightarrow> effort s' < effort s"
    and not_stuck: "inv s \<Longrightarrow> at_rest s \<or> (\<exists>s'. work s s')"
begin

lemma work_inv: "work\<^sup>*\<^sup>* s s' \<Longrightarrow> inv s \<Longrightarrow> inv s'"
  by (induction rule: rtranclp_induct) (auto intro: work_keeps)

lemma work_bounded: "(work ^^ k) s s' \<Longrightarrow> inv s \<Longrightarrow> k + effort s' \<le> effort s"
proof (induction k arbitrary: s')
  case (Suc k)
  then obtain t where t: "(work ^^ k) s t" "work t s'" by auto
  then have "inv t" using Suc(3) work_inv by (meson relpowp_imp_rtranclp)
  then show ?case using Suc(1) [OF t(1) Suc(3)] work_shrinks t(2) by fastforce
qed simp

lemma comes_to_rest: "inv s \<Longrightarrow> \<exists>s'. work\<^sup>*\<^sup>* s s' \<and> at_rest s'"
proof (induction "effort s" arbitrary: s rule: less_induct)
  case less
  show ?case
  proof (cases "at_rest s")
    case False
    then obtain t where t: "work s t" using not_stuck less(2) by blast
    then obtain s' where "work\<^sup>*\<^sup>* t s'" "at_rest s'"
      using less work_shrinks work_keeps by blast
    then show ?thesis using t by (meson converse_rtranclp_into_rtranclp)
  qed blast
qed

end

locale simulation = invariant_of cinit cstep cinv
  for cinit :: 'c and cstep and cinv +
  fixes ainit :: 'a and astep :: "'a \<Rightarrow> 'a \<Rightarrow> bool" and abs :: "'c \<Rightarrow> 'a"
  assumes abs_init: "abs cinit = ainit"
    and abs_step: "cinv s \<Longrightarrow> cstep s s' \<Longrightarrow> abs s' = abs s \<or> astep (abs s) (abs s')"
begin

lemma reach_abs:
  assumes "reach cstep cinit s"
  shows "reach astep ainit (abs s)"
proof (rule reach_induct_inv [OF assms])
  fix s s'
  assume "cinv s" "cstep s s'" "reach astep ainit (abs s)"
  then show "reach astep ainit (abs s')" using abs_step by (metis reach.step)
qed (simp add: abs_init reach.start)

end

end
