(* ===== verification/Ts_Queue.thy ===== *)
theory Ts_Queue
  imports Monitor
begin

text \<open>
  The thread-safe queue \<open>threadsafe_queue\<close> of
  \<open>C++11/Cpp-Concurrency-in-Action/chap6/threadsafe_queue.h\<close>. Threads call its members in
  any order; each thread is at one statement (\<open>pc\<close>) of the member it is in, and a step is
  one statement of one thread. The mutex is its holder, the condition variable is the set
  of the threads that are \<open>Asleep\<close>. \<open>rets\<close> are the results of the calls in the order in
  which they gave the mutex back. \<open>choice\<close> is what the code does not determine: the next
  call of a thread, the thread that \<open>notify_one\<close> wakes, a wake-up without a notification,
  and an allocation that fails. \<open>broken\<close> records a call of \<open>front\<close> or \<open>pop\<close> on an empty
  queue, which C++ leaves undefined.
\<close>

subsection \<open>Threads, mutex and condition variable\<close>

datatype mode = ByRef | ByPtr

datatype 'v out = Pushed 'v | Got 'v | Nothing | IsEmpty bool | Threw

datatype 'v pc =
    Idle
  | Push_lock 'v | Push_store 'v | Push_notify 'v
  | Wait_lock mode | Wait_test mode | Asleep mode | Wait_take mode | Wait_remove 'v
  | Try_lock | Try_test | Try_take | Try_remove 'v
  | Empty_lock | Empty_test
  | Unlock "'v out"

datatype 'v choice =
    Call_push 'v | Call_wait_and_pop mode | Call_try_pop | Call_empty
  | Go | Wake nat | Spurious | Fail

record 'v tsq =
  m_queue :: "'v list"
  m_mutex :: "nat option"
  pcs :: "'v pc list"
  rets :: "(nat \<times> 'v out) list"
  wait_threw :: bool
  broken :: bool

definition threadsafe_queue :: "nat \<Rightarrow> 'v tsq" where
  \<comment> \<open>a new queue, known to \<open>n\<close> threads\<close>
  "threadsafe_queue n = \<lparr>m_queue = [], m_mutex = None, pcs = replicate n Idle, rets = [], wait_threw = False, broken = False\<rparr>"

definition goto :: "nat \<Rightarrow> 'v pc \<Rightarrow> 'v tsq \<Rightarrow> 'v tsq" where
  "goto t p s = s\<lparr>pcs := (pcs s)[t := p]\<rparr>"

definition acquire :: "nat \<Rightarrow> 'v pc \<Rightarrow> 'v tsq \<Rightarrow> 'v tsq option" where
  "acquire t p s = (if m_mutex s = None then Some (goto t p (s\<lparr>m_mutex := Some t\<rparr>)) else None)"

definition release :: "nat \<Rightarrow> 'v out \<Rightarrow> 'v tsq \<Rightarrow> 'v tsq" where
  "release t x s = goto t Idle (s\<lparr>m_mutex := None, rets := rets s @ [(t, x)]\<rparr>)"

fun asleep :: "'v pc \<Rightarrow> bool" where
  "asleep (Asleep md) = True"
| "asleep p = False"

fun woken :: "'v pc \<Rightarrow> 'v pc" where
  "woken (Asleep md) = Wait_lock md"
| "woken p = p"

definition wake :: "nat \<Rightarrow> 'v tsq \<Rightarrow> 'v tsq option" where
  "wake w s = (if w < length (pcs s) \<and> asleep (pcs s ! w) then Some (goto w (woken (pcs s ! w)) s) else None)"

definition notify_one :: "'v choice \<Rightarrow> 'v tsq \<Rightarrow> 'v tsq option" where
  "notify_one c s = (case c of
     Wake w \<Rightarrow> wake w s
   | _ \<Rightarrow> if list_ex asleep (pcs s) then None else Some s)"

definition take_front :: "nat \<Rightarrow> ('v \<Rightarrow> 'v pc) \<Rightarrow> 'v tsq \<Rightarrow> 'v tsq" where
  \<comment> \<open>\<open>m_queue.front()\<close>\<close>
  "take_front t p s = (case m_queue s of [] \<Rightarrow> s\<lparr>broken := True\<rparr> | v # q \<Rightarrow> goto t (p v) s)"

definition remove_front :: "nat \<Rightarrow> 'v \<Rightarrow> 'v tsq \<Rightarrow> 'v tsq" where
  \<comment> \<open>\<open>m_queue.pop()\<close>, before the value is returned\<close>
  "remove_front t v s = (case m_queue s of
     [] \<Rightarrow> s\<lparr>broken := True\<rparr> | u # q \<Rightarrow> goto t (Unlock (Got v)) (s\<lparr>m_queue := q\<rparr>))"

subsection \<open>The members\<close>

fun push :: "nat \<Rightarrow> 'v choice \<Rightarrow> 'v pc \<Rightarrow> 'v tsq \<Rightarrow> 'v tsq option" where
  "push t c (Push_lock v) s = acquire t (Push_store v) s"
| "push t Fail (Push_store v) s = Some (goto t (Unlock Threw) s)"
| "push t c (Push_store v) s = Some (goto t (Push_notify v) (s\<lparr>m_queue := m_queue s @ [v]\<rparr>))"
| "push t c (Push_notify v) s = map_option (goto t (Unlock (Pushed v))) (notify_one c s)"
| "push t c p s = None"

fun wait_and_pop :: "nat \<Rightarrow> 'v choice \<Rightarrow> 'v pc \<Rightarrow> 'v tsq \<Rightarrow> 'v tsq option" where
  "wait_and_pop t c (Wait_lock md) s = acquire t (Wait_test md) s"
| "wait_and_pop t c (Wait_test md) s =
     Some (if m_queue s = [] then goto t (Asleep md) (s\<lparr>m_mutex := None\<rparr>) else goto t (Wait_take md) s)"
| "wait_and_pop t Spurious (Asleep md) s = wake t s"
| "wait_and_pop t Fail (Wait_take ByPtr) s = Some (goto t (Unlock Threw) (s\<lparr>wait_threw := True\<rparr>))"
| "wait_and_pop t c (Wait_take md) s = Some (take_front t Wait_remove s)"
| "wait_and_pop t c (Wait_remove v) s = Some (remove_front t v s)"
| "wait_and_pop t c p s = None"

fun try_pop :: "nat \<Rightarrow> 'v choice \<Rightarrow> 'v pc \<Rightarrow> 'v tsq \<Rightarrow> 'v tsq option" where
  "try_pop t c Try_lock s = acquire t Try_test s"
| "try_pop t c Try_test s = Some (goto t (if m_queue s = [] then Unlock Nothing else Try_take) s)"
| "try_pop t Fail Try_take s = Some (goto t (Unlock Threw) s)"
| "try_pop t c Try_take s = Some (take_front t Try_remove s)"
| "try_pop t c (Try_remove v) s = Some (remove_front t v s)"
| "try_pop t c p s = None"

fun empty :: "nat \<Rightarrow> 'v pc \<Rightarrow> 'v tsq \<Rightarrow> 'v tsq option" where
  "empty t Empty_lock s = acquire t Empty_test s"
| "empty t Empty_test s = Some (goto t (Unlock (IsEmpty (m_queue s = []))) s)"
| "empty t p s = None"

fun call :: "nat \<Rightarrow> 'v choice \<Rightarrow> 'v tsq \<Rightarrow> 'v tsq option" where
  "call t (Call_push v) s = Some (goto t (Push_lock v) s)"
| "call t (Call_wait_and_pop md) s = Some (goto t (Wait_lock md) s)"
| "call t Call_try_pop s = Some (goto t Try_lock s)"
| "call t Call_empty s = Some (goto t Empty_lock s)"
| "call t c s = None"

definition tsq_next :: "nat \<Rightarrow> 'v choice \<Rightarrow> 'v tsq \<Rightarrow> 'v tsq option" where
  "tsq_next t c s =
     (if \<not> t < length (pcs s) then None else
      case pcs s ! t of
        Idle \<Rightarrow> call t c s
      | Unlock x \<Rightarrow> Some (release t x s)
      | Push_lock v \<Rightarrow> push t c (pcs s ! t) s
      | Push_store v \<Rightarrow> push t c (pcs s ! t) s
      | Push_notify v \<Rightarrow> push t c (pcs s ! t) s
      | Wait_lock md \<Rightarrow> wait_and_pop t c (pcs s ! t) s
      | Wait_test md \<Rightarrow> wait_and_pop t c (pcs s ! t) s
      | Asleep md \<Rightarrow> wait_and_pop t c (pcs s ! t) s
      | Wait_take md \<Rightarrow> wait_and_pop t c (pcs s ! t) s
      | Wait_remove v \<Rightarrow> wait_and_pop t c (pcs s ! t) s
      | Try_lock \<Rightarrow> try_pop t c (pcs s ! t) s
      | Try_test \<Rightarrow> try_pop t c (pcs s ! t) s
      | Try_take \<Rightarrow> try_pop t c (pcs s ! t) s
      | Try_remove v \<Rightarrow> try_pop t c (pcs s ! t) s
      | Empty_lock \<Rightarrow> empty t (pcs s ! t) s
      | Empty_test \<Rightarrow> empty t (pcs s ! t) s)"

definition tsq_step :: "'v tsq \<Rightarrow> 'v tsq \<Rightarrow> bool" where
  "tsq_step s s' \<longleftrightarrow> (\<exists>t c. tsq_next t c s = Some s')"

lemma tsq_run_reach: "run_steps tsq_next sched s = Some s' \<Longrightarrow> reach tsq_step i s \<Longrightarrow> reach tsq_step i s'"
  by (rule run_reach) (auto simp: tsq_step_def)

subsection \<open>The steps of a thread\<close>

fun critical :: "'v pc \<Rightarrow> bool" where
  \<comment> \<open>the statements that run with the mutex held\<close>
  "critical Idle = False"
| "critical (Push_lock v) = False"
| "critical (Wait_lock md) = False"
| "critical (Asleep md) = False"
| "critical Try_lock = False"
| "critical Empty_lock = False"
| "critical p = True"

fun sees :: "'v list \<Rightarrow> 'v pc \<Rightarrow> bool" where
  \<comment> \<open>what a thread knows of the queue at a statement\<close>
  "sees q (Wait_take md) \<longleftrightarrow> q \<noteq> []"
| "sees q Try_take \<longleftrightarrow> q \<noteq> []"
| "sees q (Wait_remove v) \<longleftrightarrow> q \<noteq> [] \<and> hd q = v"
| "sees q (Try_remove v) \<longleftrightarrow> q \<noteq> [] \<and> hd q = v"
| "sees q p \<longleftrightarrow> True"

definition tsq_inv :: "'v tsq \<Rightarrow> bool" where
  "tsq_inv s \<longleftrightarrow> \<not> broken s
     \<and> (\<forall>t<length (pcs s). critical (pcs s ! t) \<longleftrightarrow> m_mutex s = Some t)
     \<and> (\<forall>t. m_mutex s = Some t \<longrightarrow> t < length (pcs s))
     \<and> (\<forall>t<length (pcs s). sees (m_queue s) (pcs s ! t))"

lemma not_critical_sees: "\<not> critical p \<Longrightarrow> sees q p"
  by (cases p) auto

lemma woken_facts [simp]: "asleep p \<Longrightarrow> critical p = False" "asleep p \<Longrightarrow> critical (woken p) = False" "sees q (woken p) = sees q p"
  by (cases p; simp)+

lemma goto_fields [simp]:
  "m_queue (goto t p s) = m_queue s" "m_mutex (goto t p s) = m_mutex s" "rets (goto t p s) = rets s"
  "pcs (goto t p s) = (pcs s)[t := p]" "wait_threw (goto t p s) = wait_threw s" "broken (goto t p s) = broken s"
  by (simp_all add: goto_def)

lemma tsq_inv_ghosts [simp]: "tsq_inv (s\<lparr>rets := r\<rparr>) = tsq_inv s" "tsq_inv (s\<lparr>wait_threw := b\<rparr>) = tsq_inv s"
  by (simp_all add: tsq_inv_def)

lemma inv_others:
  assumes "tsq_inv s" "t < length (pcs s)" "critical (pcs s ! t)" "u < length (pcs s)" "u \<noteq> t"
  shows "\<not> critical (pcs s ! u)"
  using assms by (auto simp: tsq_inv_def)

lemma inv_stay:
  assumes "tsq_inv s" "t < length (pcs s)" "critical p = critical (pcs s ! t)" "sees (m_queue s) p"
  shows "tsq_inv (goto t p s)"
  using assms by (auto simp: tsq_inv_def nth_list_update)

lemma inv_queue:
  assumes "tsq_inv s" "t < length (pcs s)" "critical (pcs s ! t)" "critical p" "sees q p"
  shows "tsq_inv (goto t p (s\<lparr>m_queue := q\<rparr>))"
  using assms inv_others [OF assms(1-3)] by (auto simp: tsq_inv_def nth_list_update intro!: not_critical_sees)

lemma inv_acquire:
  assumes "tsq_inv s" "t < length (pcs s)" "acquire t p s = Some s'" "critical p" "sees (m_queue s) p"
  shows "tsq_inv s'"
  using assms by (auto simp: tsq_inv_def acquire_def nth_list_update split: if_splits)

lemma inv_unlock:
  assumes "tsq_inv s" "t < length (pcs s)" "critical (pcs s ! t)" "\<not> critical p"
  shows "tsq_inv (goto t p (s\<lparr>m_mutex := None, rets := r\<rparr>))" "tsq_inv (goto t p (s\<lparr>m_mutex := None\<rparr>))"
  using assms not_critical_sees by (auto simp: tsq_inv_def nth_list_update)

lemma inv_wake: "tsq_inv s \<Longrightarrow> wake w s = Some s' \<Longrightarrow> tsq_inv s'"
  by (auto simp: wake_def intro!: inv_stay not_critical_sees split: if_splits)

lemma inv_notify:
  assumes "tsq_inv s" "notify_one c s = Some s'"
  shows "tsq_inv s'"
  using assms inv_wake by (auto simp: notify_one_def split: choice.splits if_splits)

lemma notify_keeps:
  assumes "notify_one c s = Some s'"
  shows "m_queue s' = m_queue s" "rets s' = rets s" "length (pcs s') = length (pcs s)" "m_mutex s' = m_mutex s"
    "wait_threw s' = wait_threw s" "\<not> asleep (pcs s ! t) \<Longrightarrow> pcs s' ! t = pcs s ! t"
  using assms by (auto simp: notify_one_def wake_def nth_list_update split: choice.splits if_splits)

lemma push_inv:
  assumes "tsq_inv s" "t < length (pcs s)" "push t c (pcs s ! t) s = Some s'"
  shows "tsq_inv s'"
proof (cases "pcs s ! t")
  case (Push_notify v)
  then obtain s1 where s1: "notify_one c s = Some s1" "s' = goto t (Unlock (Pushed v)) s1"
    using assms(3) by auto
  then show ?thesis
    using notify_keeps [OF s1(1)] inv_notify [OF assms(1) s1(1)] assms(2) Push_notify by (auto intro!: inv_stay)
next
  case (Push_store v)
  then show ?thesis using assms by (cases c) (auto intro: inv_stay inv_queue)
qed (use assms in \<open>auto intro: inv_acquire\<close>)

lemma wait_and_pop_inv:
  assumes "tsq_inv s" "t < length (pcs s)" "wait_and_pop t c (pcs s ! t) s = Some s'"
  shows "tsq_inv s'"
proof -
  have s: "sees (m_queue s) (pcs s ! t)" using assms(1,2) by (simp add: tsq_inv_def)
  show ?thesis
  proof (cases "pcs s ! t")
    case (Wait_take md)
    then show ?thesis
      using assms s by (cases md; cases c) (auto simp: take_front_def intro!: inv_stay split: list.splits)
  next
    case (Wait_remove v)
    then show ?thesis using assms s by (auto simp: remove_front_def intro!: inv_queue split: list.splits)
  next
    case (Asleep md)
    then show ?thesis using assms inv_wake by (cases c) auto
  qed (use assms in \<open>auto intro: inv_acquire inv_unlock inv_stay split: if_splits\<close>)
qed

lemma try_pop_inv:
  assumes "tsq_inv s" "t < length (pcs s)" "try_pop t c (pcs s ! t) s = Some s'"
  shows "tsq_inv s'"
proof -
  have s: "sees (m_queue s) (pcs s ! t)" using assms(1,2) by (simp add: tsq_inv_def)
  show ?thesis
  proof (cases "pcs s ! t")
    case Try_take
    then show ?thesis using assms s by (cases c) (auto simp: take_front_def intro!: inv_stay split: list.splits)
  next
    case (Try_remove v)
    then show ?thesis using assms s by (auto simp: remove_front_def intro!: inv_queue split: list.splits)
  qed (use assms in \<open>auto intro: inv_acquire inv_stay\<close>)
qed

lemma empty_inv:
  assumes "tsq_inv s" "t < length (pcs s)" "empty t (pcs s ! t) s = Some s'"
  shows "tsq_inv s'"
  using assms by (cases "pcs s ! t") (auto intro: inv_acquire inv_stay)

lemma call_inv:
  assumes "tsq_inv s" "t < length (pcs s)" "pcs s ! t = Idle" "call t c s = Some s'"
  shows "tsq_inv s'"
  using assms by (cases c) (auto intro!: inv_stay)

lemma tsq_next_inv:
  assumes "tsq_inv s" "tsq_next t c s = Some s'"
  shows "tsq_inv s'"
proof -
  have t: "t < length (pcs s)" using assms(2) by (auto simp: tsq_next_def split: if_splits)
  show ?thesis
    using assms t push_inv [OF assms(1) t] wait_and_pop_inv [OF assms(1) t] try_pop_inv [OF assms(1) t]
      empty_inv [OF assms(1) t] call_inv [OF assms(1) t] inv_unlock [OF assms(1) t]
    by (cases "pcs s ! t") (auto simp: tsq_next_def release_def)
qed

subsection \<open>Every call takes effect at once\<close>

fun queue_spec :: "'v out \<Rightarrow> 'v list \<Rightarrow> 'v list option" where
  \<comment> \<open>the members on a plain queue, one after the other\<close>
  "queue_spec (Pushed v) q = Some (q @ [v])"
| "queue_spec (Got v) q = (case q of [] \<Rightarrow> None | u # r \<Rightarrow> if u = v then Some r else None)"
| "queue_spec Nothing q = (if q = [] then Some q else None)"
| "queue_spec (IsEmpty b) q = (if b = (q = []) then Some q else None)"
| "queue_spec Threw q = Some q"

fun in_hand :: "'v pc \<Rightarrow> 'v out option" where
  "in_hand (Push_notify v) = Some (Pushed v)"
| "in_hand (Unlock x) = Some x"
| "in_hand p = None"

definition tsq_hist :: "'v tsq \<Rightarrow> 'v out list" where
  "tsq_hist s = map snd (rets s)"

definition tsq_pending :: "'v tsq \<Rightarrow> 'v out option" where
  "tsq_pending s = (case m_mutex s of None \<Rightarrow> None | Some t \<Rightarrow> in_hand (pcs s ! t))"

lemma pending_holder:
  "tsq_inv s \<Longrightarrow> t < length (pcs s) \<Longrightarrow> critical (pcs s ! t) \<Longrightarrow> m_mutex s = Some t \<and> tsq_pending s = in_hand (pcs s ! t)"
  by (auto simp: tsq_inv_def tsq_pending_def)

lemma pending_outside:
  "tsq_inv s \<Longrightarrow> t < length (pcs s) \<Longrightarrow> \<not> critical (pcs s ! t) \<Longrightarrow> tsq_pending (goto t p s) = tsq_pending s"
  by (auto simp: tsq_inv_def tsq_pending_def nth_list_update split: option.split)

definition tsq_effect :: "'v tsq \<Rightarrow> 'v tsq \<Rightarrow> bool" where
  "tsq_effect s s' \<longleftrightarrow>
     tsq_hist s' = tsq_hist s \<and> m_queue s' = m_queue s \<and> tsq_pending s' = tsq_pending s
     \<or> (\<exists>x. tsq_hist s' = tsq_hist s \<and> tsq_pending s = None \<and> tsq_pending s' = Some x \<and> queue_spec x (m_queue s) = Some (m_queue s'))
     \<or> (\<exists>x. tsq_hist s' = tsq_hist s @ [x] \<and> m_queue s' = m_queue s \<and> tsq_pending s = Some x \<and> tsq_pending s' = None)"

lemma acquire_effect:
  assumes "acquire t p s = Some s'" "t < length (pcs s)" "in_hand p = None"
  shows "tsq_effect s s'"
  using assms by (auto simp: tsq_effect_def acquire_def tsq_hist_def tsq_pending_def split: if_splits)

lemma wake_effect:
  assumes "tsq_inv s" "wake w s = Some s'"
  shows "tsq_effect s s' \<and> tsq_pending s' = tsq_pending s"
  using assms by (auto simp: wake_def tsq_effect_def tsq_hist_def pending_outside split: if_splits)

lemma notify_effect:
  assumes "tsq_inv s" "notify_one c s = Some s'"
  shows "tsq_pending s' = tsq_pending s"
  using assms wake_effect by (auto simp: notify_one_def split: choice.splits if_splits)

lemma push_effect:
  assumes "tsq_inv s" "t < length (pcs s)" "push t c (pcs s ! t) s = Some s'"
  shows "tsq_effect s s'"
proof (cases "pcs s ! t")
  case (Push_notify v)
  then obtain s1 where s1: "notify_one c s = Some s1" "s' = goto t (Unlock (Pushed v)) s1"
    using assms(3) by auto
  have h: "m_mutex s = Some t" "tsq_pending s = Some (Pushed v)"
    using pending_holder [OF assms(1,2)] Push_notify by auto
  have "tsq_pending s' = Some (Pushed v)"
    using notify_keeps(3,4) [OF s1(1)] h assms(2) by (simp add: s1(2) tsq_pending_def)
  then show ?thesis using h notify_keeps [OF s1(1)] by (simp add: tsq_effect_def tsq_hist_def s1(2))
next
  case (Push_store v)
  then show ?thesis
    using assms pending_holder [OF assms(1,2)]
    by (cases c) (auto simp: tsq_effect_def tsq_hist_def tsq_pending_def)
qed (use assms in \<open>auto intro: acquire_effect\<close>)

lemma front_effects:
  assumes "tsq_inv s" "t < length (pcs s)" "critical (pcs s ! t)" "in_hand (pcs s ! t) = None" "m_queue s \<noteq> []"
  shows "(\<And>v. in_hand (p v) = None) \<Longrightarrow> tsq_effect s (take_front t p s)"
    and "hd (m_queue s) = v \<Longrightarrow> tsq_effect s (remove_front t v s)"
    and "tsq_effect s (goto t (Unlock Threw) s)" "tsq_effect s (goto t (Unlock Threw) (s\<lparr>wait_threw := True\<rparr>))"
  using assms pending_holder [OF assms(1-3)]
  by (auto simp: tsq_effect_def tsq_hist_def tsq_pending_def take_front_def remove_front_def split: list.splits)

lemma wait_and_pop_effect:
  assumes "tsq_inv s" "t < length (pcs s)" "wait_and_pop t c (pcs s ! t) s = Some s'"
  shows "tsq_effect s s'"
proof -
  have s: "sees (m_queue s) (pcs s ! t)" using assms(1,2) by (simp add: tsq_inv_def)
  note f = front_effects [OF assms(1,2)]
  show ?thesis
  proof (cases "pcs s ! t")
    case (Wait_take md)
    then show ?thesis using assms s f by (cases md; cases c) auto
  next
    case (Wait_remove v)
    then show ?thesis using assms s f by auto
  next
    case (Wait_test md)
    then show ?thesis
      using assms pending_holder [OF assms(1,2)]
      by (cases "m_queue s = []") (auto simp: tsq_effect_def tsq_hist_def tsq_pending_def)
  next
    case (Asleep md)
    then show ?thesis using assms wake_effect by (cases c) auto
  qed (use assms in \<open>auto intro: acquire_effect\<close>)
qed

lemma try_pop_effect:
  assumes "tsq_inv s" "t < length (pcs s)" "try_pop t c (pcs s ! t) s = Some s'"
  shows "tsq_effect s s'"
proof -
  have s: "sees (m_queue s) (pcs s ! t)" using assms(1,2) by (simp add: tsq_inv_def)
  note f = front_effects [OF assms(1,2)]
  show ?thesis
  proof (cases "pcs s ! t")
    case Try_take
    then show ?thesis using assms s f by (cases c) auto
  next
    case (Try_remove v)
    then show ?thesis using assms s f by auto
  next
    case Try_test
    then show ?thesis
      using assms pending_holder [OF assms(1,2)] by (auto simp: tsq_effect_def tsq_hist_def tsq_pending_def)
  qed (use assms in \<open>auto intro: acquire_effect\<close>)
qed

lemma empty_effect:
  assumes "tsq_inv s" "t < length (pcs s)" "empty t (pcs s ! t) s = Some s'"
  shows "tsq_effect s s'"
proof (cases "pcs s ! t")
  case Empty_test
  then show ?thesis
    using assms pending_holder [OF assms(1,2)] by (auto simp: tsq_effect_def tsq_hist_def tsq_pending_def)
qed (use assms in \<open>auto intro: acquire_effect\<close>)

lemma call_effect:
  assumes "tsq_inv s" "t < length (pcs s)" "pcs s ! t = Idle" "call t c s = Some s'"
  shows "tsq_effect s s'"
  using assms pending_outside [OF assms(1,2)] by (cases c) (auto simp: tsq_effect_def tsq_hist_def)

lemma tsq_next_effect:
  assumes "tsq_inv s" "tsq_next t c s = Some s'"
  shows "tsq_effect s s'"
proof -
  have t: "t < length (pcs s)" using assms(2) by (auto simp: tsq_next_def split: if_splits)
  have "tsq_effect s (release t x s)" if "pcs s ! t = Unlock x" for x
    using that pending_holder [OF assms(1) t] by (simp add: tsq_effect_def release_def tsq_hist_def tsq_pending_def)
  then show ?thesis
    using assms t push_effect [OF assms(1) t] wait_and_pop_effect [OF assms(1) t] try_pop_effect [OF assms(1) t]
      empty_effect [OF assms(1) t] call_effect [OF assms(1) t]
    by (cases "pcs s ! t") (auto simp: tsq_next_def)
qed

interpretation tq: atomic_object "threadsafe_queue n" tsq_step tsq_inv queue_spec m_queue tsq_hist tsq_pending for n
proof
  show "tsq_inv (threadsafe_queue n)" by (simp add: tsq_inv_def threadsafe_queue_def)
qed (auto simp: tsq_step_def threadsafe_queue_def tsq_hist_def tsq_pending_def
  dest: tsq_next_inv tsq_next_effect [unfolded tsq_effect_def tsq_hist_def tsq_pending_def])

text \<open>
  C4. The queue is linearizable, and no member reads from an empty queue: in every state that any
  number of threads can reach, the results returned so far, in the order in which the calls
  gave the mutex back, are those of the same calls run one after the other on a plain queue
  that started empty, and whenever the mutex is free that queue holds what \<open>m_queue\<close> holds.
  At most one thread is inside of the critical sections.
\<close>

theorem tsq_linearizable:
  assumes "reach tsq_step (threadsafe_queue n) s"
  shows "\<not> broken s
    \<and> replay queue_spec (map snd (rets s) @ (case tsq_pending s of None \<Rightarrow> [] | Some x \<Rightarrow> [x])) [] = Some (m_queue s)
    \<and> (m_mutex s = None \<longrightarrow> replay queue_spec (map snd (rets s)) [] = Some (m_queue s))
    \<and> (\<forall>t u. t < length (pcs s) \<and> u < length (pcs s) \<and> critical (pcs s ! t) \<and> critical (pcs s ! u) \<longrightarrow> t = u)"
proof -
  have "replay queue_spec (map snd (rets s) @ (case tsq_pending s of None \<Rightarrow> [] | Some x \<Rightarrow> [x])) [] = Some (m_queue s)"
    using tq.explained [OF assms] by (simp add: tsq_hist_def threadsafe_queue_def)
  moreover have "m_mutex s = None \<Longrightarrow> tsq_pending s = None" by (simp add: tsq_pending_def)
  ultimately show ?thesis using tq.reach_inv [OF assms] by (auto simp: tsq_inv_def)
qed

definition hand_over :: "(nat \<times> nat choice) list" where
  \<comment> \<open>thread 0 waits, thread 1 pushes 7 and wakes it\<close>
  "hand_over = [(0, Call_wait_and_pop ByRef), (0, Go), (0, Go), (1, Call_push 7), (1, Go), (1, Go), (1, Wake 0), (1, Go),
     (0, Go), (0, Go), (0, Go), (0, Go), (0, Go)]"

theorem tsq_linearizable_witness:
  "\<exists>s. run_steps tsq_next hand_over (threadsafe_queue 2) = Some s \<and> rets s = [(1, Pushed 7), (0, Got 7)]
     \<and> replay queue_spec (map snd (rets s)) [] = Some (m_queue s)"
proof -
  have "map_option (\<lambda>s. (rets s, m_mutex s)) (run_steps tsq_next hand_over (threadsafe_queue 2)) = Some ([(1, Pushed 7), (0, Got 7)], None)"
    by code_simp
  then obtain s where s: "run_steps tsq_next hand_over (threadsafe_queue 2) = Some s" "rets s = [(1, Pushed 7), (0, Got 7)]" "m_mutex s = None"
    by auto
  have "reach tsq_step (threadsafe_queue 2) s" by (rule tsq_run_reach [OF s(1) reach.start])
  from tsq_linearizable [OF this] s show ?thesis by blast
qed

subsection \<open>Sleeping threads\<close>

fun serving :: "'v pc \<Rightarrow> nat" where
  \<comment> \<open>the threads that are about to take a value, or to wake one that will\<close>
  "serving (Push_notify v) = 1"
| "serving (Wait_lock md) = 1"
| "serving (Wait_test md) = 1"
| "serving (Wait_take md) = 1"
| "serving (Wait_remove v) = 1"
| "serving p = 0"

definition attended :: "'v tsq \<Rightarrow> bool" where
  "attended s \<longleftrightarrow> wait_threw s \<or> \<not> list_ex asleep (pcs s)
     \<or> length (m_queue s) \<le> sum_list (map serving (pcs s))"

lemma attended_goto:
  assumes "attended s" "t < length (pcs s)" "\<not> asleep p" "length q + serving (pcs s ! t) \<le> length (m_queue s) + serving p"
  shows "attended (goto t p (s\<lparr>m_queue := q, m_mutex := h, rets := r\<rparr>))"
  using assms sum_list_update [OF assms(2), of serving p]
  by (auto simp: attended_def dest: list_ex_update)

lemma attended_stay:
  assumes "attended s" "t < length (pcs s)" "\<not> asleep p" "serving (pcs s ! t) \<le> serving p"
  shows "attended (goto t p s)" "attended (goto t p (s\<lparr>m_mutex := h\<rparr>))" "attended (goto t p (s\<lparr>m_mutex := h, rets := r\<rparr>))"
  using attended_goto [OF assms(1-3), where q = "m_queue s" and h = "m_mutex s" and r = "rets s"]
    attended_goto [OF assms(1-3), where q = "m_queue s" and h = h and r = "rets s"]
    attended_goto [OF assms(1-3), where q = "m_queue s" and h = h and r = r] assms(4) by simp_all

lemma attended_queue:
  assumes "attended s" "t < length (pcs s)" "\<not> asleep p" "length q + serving (pcs s ! t) \<le> length (m_queue s) + serving p"
  shows "attended (goto t p (s\<lparr>m_queue := q\<rparr>))"
  using attended_goto [OF assms, where h = "m_mutex s" and r = "rets s"] by simp

lemma attended_acquire:
  "attended s \<Longrightarrow> t < length (pcs s) \<Longrightarrow> acquire t p s = Some s' \<Longrightarrow> \<not> asleep p \<Longrightarrow> serving (pcs s ! t) \<le> serving p \<Longrightarrow> attended s'"
  by (auto simp: acquire_def intro: attended_stay split: if_splits)

lemma woken_serving [simp]: "asleep p \<Longrightarrow> serving p = 0" "asleep p \<Longrightarrow> serving (woken p) = 1" "asleep (woken p) = False"
  by (cases p; simp)+

lemma notify_serving:
  assumes "notify_one c s = Some s'" "list_ex asleep (pcs s')"
  shows "list_ex asleep (pcs s) \<and> sum_list (map serving (pcs s')) = Suc (sum_list (map serving (pcs s)))"
proof -
  have "wake w s = Some s' \<Longrightarrow> ?thesis" for w
    using assms(2) sum_list_update [of w "pcs s" serving "woken (pcs s ! w)"]
      list_ex_update [of asleep "pcs s" w "woken (pcs s ! w)"]
    by (auto simp: wake_def split: if_splits)
  then show ?thesis using assms by (auto simp: notify_one_def split: choice.splits if_splits)
qed

lemma push_attended:
  assumes "attended s" "t < length (pcs s)" "push t c (pcs s ! t) s = Some s'"
  shows "attended s'"
proof (cases "pcs s ! t")
  case (Push_notify v)
  then obtain s1 where s1: "notify_one c s = Some s1" "s' = goto t (Unlock (Pushed v)) s1"
    using assms(3) by auto
  have t: "pcs s1 ! t = Push_notify v" "t < length (pcs s1)"
    using notify_keeps(3,6) [OF s1(1)] Push_notify assms(2) by auto
  show ?thesis
    using assms(1) notify_keeps [OF s1(1)] notify_serving [OF s1(1)] sum_list_update [OF t(2), of serving "Unlock (Pushed v)"]
    by (auto simp: attended_def s1(2) t dest: list_ex_update)
next
  case (Push_store v)
  then show ?thesis using assms by (cases c) (auto intro: attended_stay attended_queue)
qed (use assms in \<open>auto intro: attended_acquire\<close>)

lemma wait_and_pop_attended:
  assumes "tsq_inv s" "attended s" "t < length (pcs s)" "wait_and_pop t c (pcs s ! t) s = Some s'"
  shows "attended s'"
proof -
  have s: "sees (m_queue s) (pcs s ! t)" using assms(1,3) by (simp add: tsq_inv_def)
  show ?thesis
  proof (cases "pcs s ! t")
    case (Wait_take md)
    have "attended (goto t p (s\<lparr>wait_threw := True\<rparr>))" for p by (simp add: attended_def)
    then show ?thesis
      using assms s Wait_take by (cases md; cases c) (auto simp: take_front_def intro: attended_stay split: list.splits)
  next
    case (Wait_remove v)
    then show ?thesis using assms s by (auto simp: remove_front_def intro!: attended_queue split: list.splits)
  next
    case (Wait_test md)
    then show ?thesis
      using assms attended_stay(1) [OF assms(2,3), of "Wait_take md"]
      by (cases "m_queue s = []") (auto simp: attended_def [of "goto t (Asleep md) _"])
  next
    case (Asleep md)
    then show ?thesis using assms by (cases c) (auto simp: wake_def intro: attended_stay split: if_splits)
  qed (use assms in \<open>auto intro: attended_acquire\<close>)
qed

lemma try_pop_attended:
  assumes "tsq_inv s" "attended s" "t < length (pcs s)" "try_pop t c (pcs s ! t) s = Some s'"
  shows "attended s'"
proof -
  have s: "sees (m_queue s) (pcs s ! t)" using assms(1,3) by (simp add: tsq_inv_def)
  show ?thesis
  proof (cases "pcs s ! t")
    case Try_take
    then show ?thesis
      using assms s by (cases c) (auto simp: take_front_def intro: attended_stay split: list.splits)
  next
    case (Try_remove v)
    then show ?thesis using assms s by (auto simp: remove_front_def intro!: attended_queue split: list.splits)
  qed (use assms in \<open>auto intro!: attended_stay(1) intro: attended_acquire split: if_splits\<close>)
qed

lemma tsq_next_attended:
  assumes "tsq_inv s" "attended s" "tsq_next t c s = Some s'"
  shows "attended s'"
proof -
  have t: "t < length (pcs s)" using assms(3) by (auto simp: tsq_next_def split: if_splits)
  have "empty t (pcs s ! t) s = Some s' \<Longrightarrow> attended s'"
    using assms t by (cases "pcs s ! t") (auto intro: attended_acquire attended_stay)
  moreover have "call t c s = Some s' \<Longrightarrow> pcs s ! t = Idle \<Longrightarrow> attended s'"
    using assms t by (cases c) (auto intro: attended_stay)
  ultimately show ?thesis
    using assms t push_attended [OF assms(2) t] wait_and_pop_attended [OF assms(1,2) t] try_pop_attended [OF assms(1,2) t]
    by (cases "pcs s ! t") (auto simp: tsq_next_def release_def intro!: attended_stay)
qed

interpretation ta: invariant_of "threadsafe_queue n" tsq_step "\<lambda>s. tsq_inv s \<and> attended s" for n
proof
  show "tsq_inv (threadsafe_queue n) \<and> attended (threadsafe_queue n :: 'v tsq)"
    using tq.inv_init by (auto simp: attended_def threadsafe_queue_def)
qed (auto simp: tsq_step_def intro: tsq_next_inv tsq_next_attended)

fun resting :: "'v pc \<Rightarrow> bool" where
  "resting Idle = True"
| "resting (Asleep md) = True"
| "resting p = False"

definition tsq_work :: "'v tsq \<Rightarrow> 'v tsq \<Rightarrow> bool" where
  \<comment> \<open>steps of the calls under way: no new call, no wake-up without a notification\<close>
  "tsq_work s s' \<longleftrightarrow> (\<exists>t c. t < length (pcs s) \<and> \<not> resting (pcs s ! t) \<and> tsq_next t c s = Some s')"

fun remaining :: "'v pc \<Rightarrow> nat" where
  "remaining Idle = 0"
| "remaining (Asleep md) = 0"
| "remaining (Unlock x) = 1"
| "remaining (Wait_remove v) = 2"
| "remaining (Try_remove v) = 2"
| "remaining Empty_test = 2"
| "remaining (Wait_take md) = 3"
| "remaining Try_take = 3"
| "remaining Empty_lock = 3"
| "remaining (Wait_test md) = 4"
| "remaining Try_test = 4"
| "remaining (Wait_lock md) = 5"
| "remaining Try_lock = 5"
| "remaining (Push_notify v) = 7"
| "remaining (Push_store v) = 8"
| "remaining (Push_lock v) = 9"

definition tsq_effort :: "'v tsq \<Rightarrow> nat" where
  "tsq_effort s = sum_list (map remaining (pcs s))"

lemma effort_goto:
  assumes "t < length (pcs s)" "remaining p < remaining (pcs s ! t)"
  shows "sum_list (map remaining ((pcs s)[t := p])) < sum_list (map remaining (pcs s))"
  using sum_list_update [OF assms(1), of remaining p] assms(2) by linarith

lemma sleeper_remaining [simp]: "asleep p \<Longrightarrow> remaining p = 0" "asleep p \<Longrightarrow> remaining (woken p) = 5"
  by (cases p; simp)+

lemma notify_effort:
  assumes "notify_one c s = Some s'"
  shows "sum_list (map remaining (pcs s')) \<le> sum_list (map remaining (pcs s)) + 5"
proof -
  have "wake w s = Some s' \<Longrightarrow> ?thesis" for w
    using sum_list_update [of w "pcs s" remaining "woken (pcs s ! w)"] by (auto simp: wake_def split: if_splits)
  then show ?thesis using assms by (auto simp: notify_one_def split: choice.splits if_splits)
qed

lemma notify_then_unlock_effort:
  assumes "notify_one c s = Some s1" "t < length (pcs s)" "pcs s ! t = Push_notify v"
  shows "sum_list (map remaining ((pcs s1)[t := Unlock x])) < sum_list (map remaining (pcs s))"
proof -
  have "pcs s1 ! t = Push_notify v" "t < length (pcs s1)" using notify_keeps(3,6) [OF assms(1)] assms(2,3) by auto
  then show ?thesis using sum_list_update [of t "pcs s1" remaining "Unlock x"] notify_effort [OF assms(1)] by simp
qed

lemma tsq_work_shrinks:
  assumes "tsq_inv s" "tsq_work s s'"
  shows "tsq_effort s' < tsq_effort s"
proof -
  obtain t c where t: "t < length (pcs s)" "\<not> resting (pcs s ! t)" "tsq_next t c s = Some s'"
    using assms(2) by (auto simp: tsq_work_def)
  have s: "sees (m_queue s) (pcs s ! t)" using assms(1) t(1) by (simp add: tsq_inv_def)
  show ?thesis
  proof (cases "pcs s ! t")
    case (Push_notify v)
    then show ?thesis using t notify_then_unlock_effort by (fastforce simp: tsq_next_def tsq_effort_def)
  next
    case (Push_store v)
    then show ?thesis using t by (cases c) (auto simp: tsq_next_def tsq_effort_def intro!: effort_goto)
  next
    case (Wait_take md)
    then show ?thesis
      using t s by (cases md; cases c) (auto simp: tsq_next_def tsq_effort_def take_front_def intro!: effort_goto split: list.splits)
  next
    case Try_take
    then show ?thesis
      using t s by (cases c) (auto simp: tsq_next_def tsq_effort_def take_front_def intro!: effort_goto split: list.splits)
  qed (use t s in \<open>auto simp: tsq_next_def tsq_effort_def acquire_def release_def remove_front_def intro!: effort_goto split: if_splits list.splits\<close>)
qed

lemma notify_possible: "\<exists>c s'. notify_one c s = Some s'"
proof (cases "list_ex asleep (pcs s)")
  case True
  then obtain w where "w < length (pcs s)" "asleep (pcs s ! w)" by (auto simp: list_ex_length)
  then have "notify_one (Wake w) s = Some (goto w (woken (pcs s ! w)) s)" by (simp add: notify_one_def wake_def)
  then show ?thesis by blast
next
  case False
  then have "notify_one Go s = Some s" by (simp add: notify_one_def)
  then show ?thesis by blast
qed

lemma holder_moves:
  assumes "t < length (pcs s)" "critical (pcs s ! t)"
  shows "\<exists>c s'. tsq_next t c s = Some s'"
proof (cases "pcs s ! t")
  case (Push_notify v)
  obtain c s1 where "notify_one c s = Some s1" using notify_possible by blast
  then have "tsq_next t c s = Some (goto t (Unlock (Pushed v)) s1)" using Push_notify assms(1) by (simp add: tsq_next_def)
  then show ?thesis by blast
next
  case (Wait_take md)
  then show ?thesis using assms by (intro exI [of _ Go]) (cases md; simp add: tsq_next_def)
qed (use assms in \<open>auto simp: tsq_next_def intro!: exI [of _ Go]\<close>)

lemma tsq_not_stuck:
  assumes "tsq_inv s"
  shows "list_all resting (pcs s) \<or> (\<exists>s'. tsq_work s s')"
proof (cases "m_mutex s")
  case (Some h)
  then have h: "h < length (pcs s)" "critical (pcs s ! h)" using assms by (auto simp: tsq_inv_def)
  then have "\<not> resting (pcs s ! h)" by (cases "pcs s ! h") auto
  then show ?thesis using holder_moves [OF h] h(1) by (auto simp: tsq_work_def)
next
  case None
  have "\<exists>s'. tsq_next t Go s = Some s'" if "t < length (pcs s)" "\<not> resting (pcs s ! t)" for t
  proof -
    have "\<not> critical (pcs s ! t)" using assms that(1) None by (auto simp: tsq_inv_def)
    then show ?thesis using that None by (cases "pcs s ! t") (auto simp: tsq_next_def acquire_def)
  qed
  then show ?thesis by (fastforce simp: list_all_length tsq_work_def)
qed

interpretation tp: progressing "\<lambda>s. tsq_inv s \<and> attended s" tsq_work tsq_effort "\<lambda>s. list_all resting (pcs s)"
proof unfold_locales
  fix s s' :: "'v tsq"
  show "tsq_inv s \<and> attended s \<Longrightarrow> tsq_work s s' \<Longrightarrow> tsq_inv s' \<and> attended s'"
    by (auto simp: tsq_work_def intro: tsq_next_inv tsq_next_attended)
  show "tsq_inv s \<and> attended s \<Longrightarrow> tsq_work s s' \<Longrightarrow> tsq_effort s' < tsq_effort s" using tsq_work_shrinks by blast
  show "tsq_inv s \<and> attended s \<Longrightarrow> list_all resting (pcs s) \<or> (\<exists>s'. tsq_work s s')" using tsq_not_stuck by blast
qed

lemma tsq_next_threads: "tsq_next t c s = Some s' \<Longrightarrow> length (pcs s') = length (pcs s)"
proof -
  assume n: "tsq_next t c s = Some s'"
  have "push t c p s = Some s' \<Longrightarrow> length (pcs s') = length (pcs s)" for p
    using notify_keeps(3) by (cases p; cases c) (fastforce simp: acquire_def split: if_splits)+
  moreover have "wait_and_pop t c p s = Some s' \<Longrightarrow> length (pcs s') = length (pcs s)" for p
    by (induction t c p s rule: wait_and_pop.induct)
      (auto simp: acquire_def wake_def take_front_def remove_front_def split: if_splits list.splits)
  moreover have "try_pop t c p s = Some s' \<Longrightarrow> length (pcs s') = length (pcs s)" for p
    by (induction t c p s rule: try_pop.induct)
      (auto simp: acquire_def take_front_def remove_front_def split: if_splits list.splits)
  moreover have "empty t p s = Some s' \<Longrightarrow> length (pcs s') = length (pcs s)" for p
    by (cases p) (auto simp: acquire_def split: if_splits)
  moreover have "call t c s = Some s' \<Longrightarrow> length (pcs s') = length (pcs s)" by (cases c) auto
  ultimately show ?thesis
    using n by (auto simp: tsq_next_def release_def simp del: push.simps wait_and_pop.simps try_pop.simps empty.simps call.simps
      split: if_splits pc.splits)
qed

lemma reach_threads:
  assumes "reach tsq_step (threadsafe_queue n) s"
  shows "length (pcs s) = n"
  using assms by (induction rule: reach.induct) (auto simp: threadsafe_queue_def tsq_step_def dest: tsq_next_threads)

lemma tsq_effort_bound: "tsq_effort s \<le> 9 * length (pcs s)"
proof -
  have "remaining p \<le> 9" for p :: "'v pc" by (cases p) auto
  then have "sum_list (map remaining ps) \<le> 9 * length ps" for ps :: "'v pc list"
    by (induction ps) (auto intro: add_le_mono)
  then show ?thesis by (simp add: tsq_effort_def)
qed

lemma resting_serves_none: "list_all resting ps \<Longrightarrow> sum_list (map serving ps) = 0"
proof (induction ps)
  case (Cons p ps)
  then show ?case by (cases p) auto
qed simp

text \<open>
  C11. Calls complete: whatever the schedule, the calls under way come to an end after at most nine
  statements per thread. When none can move any more, every thread has returned or sleeps in
  \<open>wait_and_pop\<close>, and if no \<open>wait_and_pop\<close> was left by an exception then a thread sleeps only
  while the queue is empty: no wake-up is lost.
\<close>

theorem tsq_calls_complete:
  assumes "reach tsq_step (threadsafe_queue n) s"
  shows "(\<forall>k s'. (tsq_work ^^ k) s s' \<longrightarrow> k \<le> 9 * n)
    \<and> (\<forall>s'. tsq_work\<^sup>*\<^sup>* s s' \<and> \<not> (\<exists>s''. tsq_work s' s'') \<longrightarrow>
      list_all resting (pcs s') \<and> (list_ex asleep (pcs s') \<longrightarrow> wait_threw s' \<or> m_queue s' = []))"
proof -
  have i: "tsq_inv s \<and> attended s" by (rule ta.reach_inv [OF assms])
  have "k \<le> 9 * n" if "(tsq_work ^^ k) s s'" for k s'
    using tp.work_bounded [OF that i] tsq_effort_bound [of s] reach_threads [OF assms] by simp
  moreover have "list_all resting (pcs s') \<and> (list_ex asleep (pcs s') \<longrightarrow> wait_threw s' \<or> m_queue s' = [])"
    if "tsq_work\<^sup>*\<^sup>* s s'" "\<not> (\<exists>s''. tsq_work s' s'')" for s'
  proof -
    have i': "tsq_inv s' \<and> attended s'" by (rule tp.work_inv [OF that(1) i])
    then have "list_all resting (pcs s')" using tp.not_stuck that(2) by blast
    then show ?thesis using i' resting_serves_none by (fastforce simp: attended_def)
  qed
  ultimately show ?thesis by blast
qed

lemma resting_no_work: "list_all resting (pcs s) \<Longrightarrow> \<not> tsq_work s s'"
  by (auto simp: tsq_work_def list_all_length)

definition one_waits :: "(nat \<times> nat choice) list" where
  "one_waits = [(0, Call_wait_and_pop ByRef), (0, Go), (0, Go)]"

theorem tsq_calls_complete_witness:
  "\<exists>s. run_steps tsq_next one_waits (threadsafe_queue 1) = Some s \<and> list_ex asleep (pcs s) \<and> m_queue s = []"
proof -
  have "map_option (\<lambda>s. (pcs s, wait_threw s)) (run_steps tsq_next one_waits (threadsafe_queue 1)) = Some ([Asleep ByRef], False)"
    by code_simp
  then obtain s where s: "run_steps tsq_next one_waits (threadsafe_queue 1) = Some s" "pcs s = [Asleep ByRef]" "\<not> wait_threw s" by auto
  have r: "reach tsq_step (threadsafe_queue 1) s" by (rule tsq_run_reach [OF s(1) reach.start])
  have "\<not> (\<exists>s''. tsq_work s s'')" using resting_no_work [of s] s(2) by simp
  then have "list_ex asleep (pcs s) \<longrightarrow> wait_threw s \<or> m_queue s = []" using tsq_calls_complete [OF r] by blast
  then show ?thesis using s by simp
qed

definition strand :: "(nat \<times> nat choice) list" where
  \<comment> \<open>threads 0 and 1 wait, thread 2 pushes 7 and wakes thread 0, whose allocation fails\<close>
  "strand = [(0, Call_wait_and_pop ByPtr), (0, Go), (0, Go), (1, Call_wait_and_pop ByRef), (1, Go), (1, Go),
     (2, Call_push 7), (2, Go), (2, Go), (2, Wake 0), (2, Go), (0, Go), (0, Go), (0, Fail), (0, Go)]"

text \<open>
  The exception in the hypothesis of the previous property matters: when \<open>make_shared\<close> fails
  in the thread that \<open>notify_one\<close> woke, the value stays in the queue and a second thread
  sleeps on although it could take it, and nothing that is under way will wake it.
\<close>

theorem throwing_pop_strands_sleeper:
  "\<exists>s. run_steps tsq_next strand (threadsafe_queue 3) = Some s \<and> reach tsq_step (threadsafe_queue 3) s
     \<and> m_queue s = [7] \<and> pcs s = [Idle, Asleep ByRef, Idle] \<and> rets s = [(2, Pushed 7), (0, Threw)]
     \<and> \<not> (\<exists>s'. tsq_work s s')"
proof -
  have "map_option (\<lambda>s. (m_queue s, pcs s, rets s)) (run_steps tsq_next strand (threadsafe_queue 3))
      = Some ([7], [Idle, Asleep ByRef, Idle], [(2, Pushed 7), (0, Threw)])" by code_simp
  then obtain s where s: "run_steps tsq_next strand (threadsafe_queue 3) = Some s" "m_queue s = [7]"
    "pcs s = [Idle, Asleep ByRef, Idle]" "rets s = [(2, Pushed 7), (0, Threw)]" by auto
  have "reach tsq_step (threadsafe_queue 3) s" by (rule tsq_run_reach [OF s(1) reach.start])
  then show ?thesis using s resting_no_work [of s] by auto
qed

end
