(* ===== verification/Ts_Queue_Ptr.thy ===== *)
theory Ts_Queue_Ptr
  imports Ts_Queue
begin

text \<open>
  The second queue, \<open>thread_safe_queue\<close> of
  \<open>C++11/Cpp-Concurrency-in-Action/chap6/thread_safe_queue.h\<close>. It holds pointers: \<open>push\<close>
  allocates the cell before it takes the mutex, so that no member allocates while it takes a
  value out. \<open>cells\<close> are the values of the cells allocated so far and a pointer is the number
  of its cell; what a move leaves behind in a cell is not modelled. The queue is shown to
  refine \<open>threadsafe_queue\<close> with every pointer replaced by its value and no exception in
  \<open>wait_and_pop\<close>.
\<close>

datatype p_out = P_pushed nat | P_got nat | P_nothing | P_is_empty bool | P_threw

datatype 'v p_pc =
    P_idle
  | PPush_alloc 'v | PPush_lock nat | PPush_store nat | PPush_notify nat
  | PWait_lock mode | PWait_test mode | PAsleep mode | PWait_take mode | PWait_remove nat
  | PTry_lock mode | PTry_test mode | PTry_take mode | PTry_remove nat
  | PEmpty_lock | PEmpty_test
  | P_unlock p_out

record 'v psq =
  p_queue :: "nat list"
  p_mutex :: "nat option"
  cells :: "'v list"
  p_pcs :: "'v p_pc list"
  p_rets :: "(nat \<times> p_out) list"
  p_broken :: bool

definition thread_safe_queue :: "nat \<Rightarrow> 'v psq" where
  "thread_safe_queue n = \<lparr>p_queue = [], p_mutex = None, cells = [], p_pcs = replicate n P_idle, p_rets = [], p_broken = False\<rparr>"

datatype 'v p_choice =
    PCall_push 'v | PCall_wait_and_pop mode | PCall_try_pop mode | PCall_empty
  | P_go | P_wake nat | P_spurious | P_fail

definition p_goto :: "nat \<Rightarrow> 'v p_pc \<Rightarrow> 'v psq \<Rightarrow> 'v psq" where
  "p_goto t p s = s\<lparr>p_pcs := (p_pcs s)[t := p]\<rparr>"

definition p_acquire :: "nat \<Rightarrow> 'v p_pc \<Rightarrow> 'v psq \<Rightarrow> 'v psq option" where
  "p_acquire t p s = (if p_mutex s = None then Some (p_goto t p (s\<lparr>p_mutex := Some t\<rparr>)) else None)"

definition p_release :: "nat \<Rightarrow> p_out \<Rightarrow> 'v psq \<Rightarrow> 'v psq" where
  "p_release t x s = p_goto t P_idle (s\<lparr>p_mutex := None, p_rets := p_rets s @ [(t, x)]\<rparr>)"

fun p_asleep :: "'v p_pc \<Rightarrow> bool" where
  "p_asleep (PAsleep md) = True"
| "p_asleep p = False"

fun p_woken :: "'v p_pc \<Rightarrow> 'v p_pc" where
  "p_woken (PAsleep md) = PWait_lock md"
| "p_woken p = p"

definition p_wake_up :: "nat \<Rightarrow> 'v psq \<Rightarrow> 'v psq option" where
  "p_wake_up w s = (if w < length (p_pcs s) \<and> p_asleep (p_pcs s ! w) then Some (p_goto w (p_woken (p_pcs s ! w)) s) else None)"

definition p_notify_one :: "'v p_choice \<Rightarrow> 'v psq \<Rightarrow> 'v psq option" where
  "p_notify_one c s = (case c of
     P_wake w \<Rightarrow> p_wake_up w s
   | _ \<Rightarrow> if list_ex p_asleep (p_pcs s) then None else Some s)"

definition p_take_front :: "nat \<Rightarrow> (nat \<Rightarrow> 'v p_pc) \<Rightarrow> 'v psq \<Rightarrow> 'v psq" where
  "p_take_front t p s = (case p_queue s of [] \<Rightarrow> s\<lparr>p_broken := True\<rparr> | v # q \<Rightarrow> p_goto t (p v) s)"

definition p_remove_front :: "nat \<Rightarrow> nat \<Rightarrow> 'v psq \<Rightarrow> 'v psq" where
  "p_remove_front t v s = (case p_queue s of
     [] \<Rightarrow> s\<lparr>p_broken := True\<rparr> | u # q \<Rightarrow> p_goto t (P_unlock (P_got v)) (s\<lparr>p_queue := q\<rparr>))"

fun p_push :: "nat \<Rightarrow> 'v p_choice \<Rightarrow> 'v p_pc \<Rightarrow> 'v psq \<Rightarrow> 'v psq option" where
  \<comment> \<open>when \<open>make_shared\<close> fails the exception leaves \<open>push\<close> before the mutex is taken\<close>
  "p_push t c (PPush_alloc v) s =
     Some (if c = P_fail then p_goto t P_idle s
       else p_goto t (PPush_lock (length (cells s))) (s\<lparr>cells := cells s @ [v]\<rparr>))"
| "p_push t c (PPush_lock p) s = p_acquire t (PPush_store p) s"
| "p_push t c (PPush_store p) s =
     Some (if c = P_fail then p_goto t (P_unlock P_threw) s
       else p_goto t (PPush_notify p) (s\<lparr>p_queue := p_queue s @ [p]\<rparr>))"
| "p_push t c (PPush_notify p) s = map_option (p_goto t (P_unlock (P_pushed p))) (p_notify_one c s)"
| "p_push t c pc s = None"

fun p_wait_and_pop :: "nat \<Rightarrow> 'v p_choice \<Rightarrow> 'v p_pc \<Rightarrow> 'v psq \<Rightarrow> 'v psq option" where
  "p_wait_and_pop t c (PWait_lock md) s = p_acquire t (PWait_test md) s"
| "p_wait_and_pop t c (PWait_test md) s =
     Some (if p_queue s = [] then p_goto t (PAsleep md) (s\<lparr>p_mutex := None\<rparr>) else p_goto t (PWait_take md) s)"
| "p_wait_and_pop t c (PAsleep md) s = (if c = P_spurious then p_wake_up t s else None)"
| "p_wait_and_pop t c (PWait_take md) s = Some (p_take_front t PWait_remove s)"
| "p_wait_and_pop t c (PWait_remove p) s = Some (p_remove_front t p s)"
| "p_wait_and_pop t c pc s = None"

fun p_try_pop :: "nat \<Rightarrow> 'v p_pc \<Rightarrow> 'v psq \<Rightarrow> 'v psq option" where
  "p_try_pop t (PTry_lock md) s = p_acquire t (PTry_test md) s"
| "p_try_pop t (PTry_test md) s = Some (p_goto t (if p_queue s = [] then P_unlock P_nothing else PTry_take md) s)"
| "p_try_pop t (PTry_take md) s = Some (p_take_front t PTry_remove s)"
| "p_try_pop t (PTry_remove p) s = Some (p_remove_front t p s)"
| "p_try_pop t pc s = None"

fun p_empty :: "nat \<Rightarrow> 'v p_pc \<Rightarrow> 'v psq \<Rightarrow> 'v psq option" where
  "p_empty t PEmpty_lock s = p_acquire t PEmpty_test s"
| "p_empty t PEmpty_test s = Some (p_goto t (P_unlock (P_is_empty (p_queue s = []))) s)"
| "p_empty t pc s = None"

fun p_call :: "nat \<Rightarrow> 'v p_choice \<Rightarrow> 'v psq \<Rightarrow> 'v psq option" where
  "p_call t (PCall_push v) s = Some (p_goto t (PPush_alloc v) s)"
| "p_call t (PCall_wait_and_pop md) s = Some (p_goto t (PWait_lock md) s)"
| "p_call t (PCall_try_pop md) s = Some (p_goto t (PTry_lock md) s)"
| "p_call t PCall_empty s = Some (p_goto t PEmpty_lock s)"
| "p_call t c s = None"

definition psq_next :: "nat \<Rightarrow> 'v p_choice \<Rightarrow> 'v psq \<Rightarrow> 'v psq option" where
  "psq_next t c s =
     (if \<not> t < length (p_pcs s) then None else
      case p_pcs s ! t of
        P_idle \<Rightarrow> p_call t c s
      | P_unlock x \<Rightarrow> Some (p_release t x s)
      | PPush_alloc v \<Rightarrow> p_push t c (p_pcs s ! t) s
      | PPush_lock p \<Rightarrow> p_push t c (p_pcs s ! t) s
      | PPush_store p \<Rightarrow> p_push t c (p_pcs s ! t) s
      | PPush_notify p \<Rightarrow> p_push t c (p_pcs s ! t) s
      | PWait_lock md \<Rightarrow> p_wait_and_pop t c (p_pcs s ! t) s
      | PWait_test md \<Rightarrow> p_wait_and_pop t c (p_pcs s ! t) s
      | PAsleep md \<Rightarrow> p_wait_and_pop t c (p_pcs s ! t) s
      | PWait_take md \<Rightarrow> p_wait_and_pop t c (p_pcs s ! t) s
      | PWait_remove p \<Rightarrow> p_wait_and_pop t c (p_pcs s ! t) s
      | PTry_lock md \<Rightarrow> p_try_pop t (p_pcs s ! t) s
      | PTry_test md \<Rightarrow> p_try_pop t (p_pcs s ! t) s
      | PTry_take md \<Rightarrow> p_try_pop t (p_pcs s ! t) s
      | PTry_remove p \<Rightarrow> p_try_pop t (p_pcs s ! t) s
      | PEmpty_lock \<Rightarrow> p_empty t (p_pcs s ! t) s
      | PEmpty_test \<Rightarrow> p_empty t (p_pcs s ! t) s)"

definition psq_step :: "'v psq \<Rightarrow> 'v psq \<Rightarrow> bool" where
  "psq_step s s' \<longleftrightarrow> (\<exists>t c. psq_next t c s = Some s')"

subsection \<open>The values behind the pointers\<close>

fun out_of :: "'v list \<Rightarrow> p_out \<Rightarrow> 'v out" where
  "out_of cs (P_pushed p) = Pushed (cs ! p)"
| "out_of cs (P_got p) = Got (cs ! p)"
| "out_of cs P_nothing = Nothing"
| "out_of cs (P_is_empty b) = IsEmpty b"
| "out_of cs P_threw = Threw"

fun pc_of :: "'v list \<Rightarrow> 'v p_pc \<Rightarrow> 'v pc" where
  "pc_of cs P_idle = Idle"
| "pc_of cs (PPush_alloc v) = Idle"
| "pc_of cs (PPush_lock p) = Push_lock (cs ! p)"
| "pc_of cs (PPush_store p) = Push_store (cs ! p)"
| "pc_of cs (PPush_notify p) = Push_notify (cs ! p)"
| "pc_of cs (PWait_lock md) = Wait_lock md"
| "pc_of cs (PWait_test md) = Wait_test md"
| "pc_of cs (PAsleep md) = Asleep md"
| "pc_of cs (PWait_take md) = Wait_take md"
| "pc_of cs (PWait_remove p) = Wait_remove (cs ! p)"
| "pc_of cs (PTry_lock md) = Try_lock"
| "pc_of cs (PTry_test md) = Try_test"
| "pc_of cs (PTry_take md) = Try_take"
| "pc_of cs (PTry_remove p) = Try_remove (cs ! p)"
| "pc_of cs PEmpty_lock = Empty_lock"
| "pc_of cs PEmpty_test = Empty_test"
| "pc_of cs (P_unlock x) = Unlock (out_of cs x)"

definition tsq_of :: "'v psq \<Rightarrow> 'v tsq" where
  "tsq_of s = \<lparr>m_queue = map ((!) (cells s)) (p_queue s), m_mutex = p_mutex s, pcs = map (pc_of (cells s)) (p_pcs s),
     rets = map (map_prod id (out_of (cells s))) (p_rets s), wait_threw = False, broken = p_broken s\<rparr>"

fun out_ptrs :: "p_out \<Rightarrow> nat list" where
  "out_ptrs (P_pushed p) = [p]"
| "out_ptrs (P_got p) = [p]"
| "out_ptrs x = []"

fun pc_ptrs :: "'v p_pc \<Rightarrow> nat list" where
  "pc_ptrs (PPush_lock p) = [p]"
| "pc_ptrs (PPush_store p) = [p]"
| "pc_ptrs (PPush_notify p) = [p]"
| "pc_ptrs (PWait_remove p) = [p]"
| "pc_ptrs (PTry_remove p) = [p]"
| "pc_ptrs (P_unlock x) = out_ptrs x"
| "pc_ptrs p = []"

definition allocated :: "'v psq \<Rightarrow> bool" where
  "allocated s \<longleftrightarrow> (\<forall>p\<in>set (p_queue s). p < length (cells s))
     \<and> (\<forall>pc\<in>set (p_pcs s). \<forall>p\<in>set (pc_ptrs pc). p < length (cells s))
     \<and> (\<forall>r\<in>set (p_rets s). \<forall>p\<in>set (out_ptrs (snd r)). p < length (cells s))"

lemma pc_of_more: "(\<forall>p\<in>set (pc_ptrs pc). p < length cs) \<Longrightarrow> pc_of (cs @ [v]) pc = pc_of cs pc"
  and out_of_more: "(\<forall>p\<in>set (out_ptrs x). p < length cs) \<Longrightarrow> out_of (cs @ [v]) x = out_of cs x"
proof -
  show o: "(\<forall>p\<in>set (out_ptrs x). p < length cs) \<Longrightarrow> out_of (cs @ [v]) x = out_of cs x" for x
    by (cases x) (auto simp: nth_append)
  show "(\<forall>p\<in>set (pc_ptrs pc). p < length cs) \<Longrightarrow> pc_of (cs @ [v]) pc = pc_of cs pc"
    by (cases pc) (auto simp: nth_append o)
qed

lemma tsq_of_goto [simp]:
  "tsq_of (p_goto t p s) = goto t (pc_of (cells s) p) (tsq_of s)"
  by (simp add: tsq_of_def p_goto_def goto_def map_update)

lemma tsq_of_fields [simp]:
  "m_mutex (tsq_of s) = p_mutex s" "length (pcs (tsq_of s)) = length (p_pcs s)" "broken (tsq_of s) = p_broken s"
  "m_queue (tsq_of s) = map ((!) (cells s)) (p_queue s)" "wait_threw (tsq_of s) = False"
  "t < length (p_pcs s) \<Longrightarrow> pcs (tsq_of s) ! t = pc_of (cells s) (p_pcs s ! t)"
  "tsq_of (s\<lparr>p_mutex := h\<rparr>) = (tsq_of s)\<lparr>m_mutex := h\<rparr>"
  "tsq_of (s\<lparr>p_queue := q\<rparr>) = (tsq_of s)\<lparr>m_queue := map ((!) (cells s)) q\<rparr>"
  "tsq_of (s\<lparr>p_broken := b\<rparr>) = (tsq_of s)\<lparr>broken := b\<rparr>"
  by (simp_all add: tsq_of_def)

lemma p_asleep_pc_of [simp]: "asleep (pc_of cs p) = p_asleep p" "pc_of cs (p_woken p) = woken (pc_of cs p)"
  by (cases p; simp)+

lemma tsq_of_more:
  assumes "allocated s"
  shows "tsq_of (s\<lparr>cells := cells s @ [v]\<rparr>) = tsq_of s"
proof -
  have "map_prod id (out_of (cells s @ [v])) r = map_prod id (out_of (cells s)) r" if "r \<in> set (p_rets s)" for r
  proof (cases r)
    case (Pair u x)
    then have "\<forall>p\<in>set (out_ptrs x). p < length (cells s)" using that assms by (fastforce simp: allocated_def)
    then show ?thesis using Pair out_of_more by simp
  qed
  moreover have "pc_of (cells s @ [v]) pc = pc_of (cells s) pc" if "pc \<in> set (p_pcs s)" for pc
    using that assms by (intro pc_of_more) (auto simp: allocated_def)
  moreover have "(cells s @ [v]) ! p = cells s ! p" if "p \<in> set (p_queue s)" for p
    using that assms by (simp add: allocated_def nth_append)
  ultimately show ?thesis by (simp add: tsq_of_def)
qed

lemma p_goto_fields [simp]:
  "p_queue (p_goto t p s) = p_queue s" "p_mutex (p_goto t p s) = p_mutex s" "p_rets (p_goto t p s) = p_rets s"
  "p_pcs (p_goto t p s) = (p_pcs s)[t := p]" "cells (p_goto t p s) = cells s" "p_broken (p_goto t p s) = p_broken s"
  by (simp_all add: p_goto_def)

lemma allocated_goto:
  assumes "allocated s" "\<forall>p\<in>set (pc_ptrs pc). p < length (cells s)"
  shows "allocated (p_goto t pc s)"
  using assms by (auto simp: allocated_def dest!: set_update_subset_insert [THEN subsetD])

lemma allocated_fields:
  "allocated (s\<lparr>p_mutex := h\<rparr>) = allocated s" "allocated (s\<lparr>p_broken := b\<rparr>) = allocated s"
  "allocated s \<Longrightarrow> set q \<subseteq> {..<length (cells s)} \<Longrightarrow> allocated (s\<lparr>p_queue := q\<rparr>)"
  "allocated s \<Longrightarrow> \<forall>p\<in>set (out_ptrs x). p < length (cells s) \<Longrightarrow> allocated (s\<lparr>p_mutex := h, p_rets := p_rets s @ [(t, x)]\<rparr>)"
  "allocated s \<Longrightarrow> allocated (s\<lparr>cells := cells s @ [v]\<rparr>)"
  by (auto simp: allocated_def less_Suc_eq)

lemma allocated_at:
  assumes "allocated s" "t < length (p_pcs s)"
  shows "\<forall>p\<in>set (pc_ptrs (p_pcs s ! t)). p < length (cells s)"
  using assms nth_mem [OF assms(2)] by (fastforce simp: allocated_def)

lemma allocated_queue: "allocated s \<Longrightarrow> set (p_queue s) \<subseteq> {..<length (cells s)}"
  by (auto simp: allocated_def)

lemma acquire_simulates:
  assumes "p_acquire t p s = Some s'" "p' = pc_of (cells s) p"
  shows "acquire t p' (tsq_of s) = Some (tsq_of s')"
  using assms by (auto simp: p_acquire_def acquire_def split: if_splits)

lemma release_simulates: "tsq_of (p_release t x s) = release t (out_of (cells s) x) (tsq_of s)"
  by (simp add: p_release_def release_def tsq_of_def p_goto_def goto_def map_update)

lemma wake_simulates: "p_wake_up w s = Some s' \<Longrightarrow> wake w (tsq_of s) = Some (tsq_of s') \<and> cells s' = cells s"
  by (auto simp: p_wake_up_def wake_def split: if_splits)

lemma notify_simulates:
  assumes "p_notify_one c s = Some s'"
  shows "\<exists>c'. notify_one c' (tsq_of s) = Some (tsq_of s')" "cells s' = cells s"
proof -
  have "list_ex asleep (pcs (tsq_of s)) = list_ex p_asleep (p_pcs s)" by (simp add: tsq_of_def list_ex_iff)
  then have "s' = s \<and> notify_one Go (tsq_of s) = Some (tsq_of s') \<or> (\<exists>w. p_wake_up w s = Some s')"
    using assms by (auto simp: p_notify_one_def notify_one_def split: p_choice.splits if_splits)
  moreover have "wake w (tsq_of s) = Some (tsq_of s') \<Longrightarrow> notify_one (Wake w) (tsq_of s) = Some (tsq_of s')" for w
    by (simp add: notify_one_def)
  ultimately show "\<exists>c'. notify_one c' (tsq_of s) = Some (tsq_of s')" "cells s' = cells s" using wake_simulates by blast+
qed

lemma take_front_simulates:
  assumes "\<And>v. pc_of (cells s) (p v) = p' (cells s ! v)"
  shows "tsq_of (p_take_front t p s) = take_front t p' (tsq_of s)"
  using assms by (simp add: p_take_front_def take_front_def split: list.split)

lemma remove_front_simulates: "tsq_of (p_remove_front t v s) = remove_front t (cells s ! v) (tsq_of s)"
  by (simp add: p_remove_front_def remove_front_def split: list.split)

definition simulated :: "nat \<Rightarrow> 'v psq \<Rightarrow> 'v psq \<Rightarrow> bool" where
  "simulated t s s' \<longleftrightarrow> tsq_of s' = tsq_of s \<or> (\<exists>c'. tsq_next t c' (tsq_of s) = Some (tsq_of s'))"

lemma simulatedI: "tsq_next t c' (tsq_of s) = Some (tsq_of s') \<Longrightarrow> simulated t s s'"
  by (auto simp: simulated_def)

lemma p_push_simulates:
  assumes "allocated s" "t < length (p_pcs s)" "p_push t c (p_pcs s ! t) s = Some s'"
  shows "simulated t s s'"
proof (cases "p_pcs s ! t")
  case (PPush_alloc v)
  show ?thesis
  proof (cases "c = P_fail")
    case True
    then have "tsq_of s' = goto t Idle (tsq_of s)" using assms PPush_alloc by auto
    also have "\<dots> = tsq_of s" using PPush_alloc assms(2) by (simp add: goto_def tsq_of_def list_update_same_conv)
    finally show ?thesis by (simp add: simulated_def)
  next
    case False
    then have "tsq_of s' = goto t (Push_lock v) (tsq_of s)"
      using assms PPush_alloc tsq_of_more [OF assms(1)] by auto
    then have "tsq_next t (Call_push v) (tsq_of s) = Some (tsq_of s')" using PPush_alloc assms(2) by (simp add: tsq_next_def)
    then show ?thesis by (rule simulatedI)
  qed
next
  case (PPush_lock p)
  then show ?thesis
    using assms by (intro simulatedI [of t Go]) (auto simp: tsq_next_def intro: acquire_simulates)
next
  case (PPush_store p)
  then show ?thesis
    using assms by (intro simulatedI [of t "if c = P_fail then Fail else Go"]) (auto simp: tsq_next_def)
next
  case (PPush_notify p)
  then obtain s1 where s1: "p_notify_one c s = Some s1" "s' = p_goto t (P_unlock (P_pushed p)) s1" using assms(3) by auto
  obtain c' where "notify_one c' (tsq_of s) = Some (tsq_of s1)" using notify_simulates(1) [OF s1(1)] by blast
  then show ?thesis
    using PPush_notify assms(2) s1(2) notify_simulates(2) [OF s1(1)]
    by (intro simulatedI [of t c']) (simp add: tsq_next_def)
qed (use assms(3) in auto)

lemma p_wait_and_pop_simulates:
  assumes "t < length (p_pcs s)" "p_wait_and_pop t c (p_pcs s ! t) s = Some s'"
  shows "simulated t s s'"
proof (cases "p_pcs s ! t")
  case (PWait_lock md)
  then show ?thesis
    using assms by (intro simulatedI [of t Go]) (auto simp: tsq_next_def intro: acquire_simulates)
next
  case (PAsleep md)
  then show ?thesis
    using assms wake_simulates [of t s s'] by (intro simulatedI [of t Spurious]) (simp add: tsq_next_def split: if_splits)
next
  case (PWait_take md)
  have "tsq_of (p_take_front t PWait_remove s) = take_front t Wait_remove (tsq_of s)" by (rule take_front_simulates) simp
  then show ?thesis
    using assms PWait_take by (intro simulatedI [of t Go]) (cases md; simp add: tsq_next_def)
qed (use assms in \<open>auto simp: tsq_next_def remove_front_simulates intro!: simulatedI [of t Go]\<close>)

lemma p_try_pop_simulates:
  assumes "t < length (p_pcs s)" "p_try_pop t (p_pcs s ! t) s = Some s'"
  shows "simulated t s s'"
proof (cases "p_pcs s ! t")
  case (PTry_lock md)
  then show ?thesis
    using assms by (intro simulatedI [of t Go]) (auto simp: tsq_next_def intro: acquire_simulates)
next
  case (PTry_take md)
  have "tsq_of (p_take_front t PTry_remove s) = take_front t Try_remove (tsq_of s)" by (rule take_front_simulates) simp
  then show ?thesis using assms PTry_take by (intro simulatedI [of t Go]) (simp add: tsq_next_def)
qed (use assms in \<open>auto simp: tsq_next_def remove_front_simulates intro!: simulatedI [of t Go]\<close>)

lemma p_empty_simulates:
  assumes "t < length (p_pcs s)" "p_empty t (p_pcs s ! t) s = Some s'"
  shows "simulated t s s'"
proof (cases "p_pcs s ! t")
  case PEmpty_lock
  then show ?thesis
    using assms by (intro simulatedI [of t Go]) (auto simp: tsq_next_def intro: acquire_simulates)
qed (use assms in \<open>auto simp: tsq_next_def intro!: simulatedI [of t Go]\<close>)

lemma p_call_simulates:
  assumes "t < length (p_pcs s)" "p_pcs s ! t = P_idle" "p_call t c s = Some s'"
  shows "simulated t s s'"
proof (cases c)
  case (PCall_push v)
  then have "tsq_of s' = goto t Idle (tsq_of s)" using assms(3) by auto
  also have "\<dots> = tsq_of s" using assms(1,2) by (simp add: goto_def tsq_of_def list_update_same_conv)
  finally show ?thesis by (simp add: simulated_def)
next
  case (PCall_wait_and_pop md)
  then show ?thesis using assms by (intro simulatedI [of t "Call_wait_and_pop md"]) (auto simp: tsq_next_def)
next
  case (PCall_try_pop md)
  then show ?thesis using assms by (intro simulatedI [of t Call_try_pop]) (auto simp: tsq_next_def)
next
  case PCall_empty
  then show ?thesis using assms by (intro simulatedI [of t Call_empty]) (auto simp: tsq_next_def)
qed (use assms(3) in auto)

lemma psq_next_simulates:
  assumes "allocated s" "psq_next t c s = Some s'"
  shows "simulated t s s'"
proof -
  have t: "t < length (p_pcs s)" using assms(2) by (auto simp: psq_next_def split: if_splits)
  have "simulated t s (p_release t x s)" if "p_pcs s ! t = P_unlock x" for x
    using that t by (intro simulatedI [of t Go]) (simp add: tsq_next_def release_simulates)
  then show ?thesis
    using assms t p_push_simulates [OF assms(1) t] p_wait_and_pop_simulates [OF t] p_try_pop_simulates [OF t]
      p_empty_simulates [OF t] p_call_simulates [OF t]
    by (cases "p_pcs s ! t")
      (auto simp: psq_next_def simp del: p_push.simps p_wait_and_pop.simps p_try_pop.simps p_empty.simps p_call.simps)
qed

subsection \<open>Every pointer is allocated\<close>

lemma p_acquire_allocated:
  "allocated s \<Longrightarrow> p_acquire t p s = Some s' \<Longrightarrow> \<forall>q\<in>set (pc_ptrs p). q < length (cells s) \<Longrightarrow> allocated s'"
  by (auto simp: p_acquire_def allocated_fields intro!: allocated_goto split: if_splits)

lemma p_woken_ptrs [simp]: "pc_ptrs (p_woken p) = pc_ptrs p"
  by (cases p) auto

lemma p_wake_allocated: "allocated s \<Longrightarrow> p_wake_up w s = Some s' \<Longrightarrow> allocated s'"
  by (auto simp: p_wake_up_def dest: allocated_at intro!: allocated_goto split: if_splits)

lemma p_notify_allocated: "allocated s \<Longrightarrow> p_notify_one c s = Some s' \<Longrightarrow> allocated s'"
  by (auto simp: p_notify_one_def intro: p_wake_allocated split: p_choice.splits if_splits)

lemma p_front_allocated:
  assumes "allocated s"
  shows "(\<And>v. pc_ptrs (p v) = [v]) \<Longrightarrow> allocated (p_take_front t p s)"
    and "v < length (cells s) \<Longrightarrow> allocated (p_remove_front t v s)"
  using assms allocated_queue [OF assms]
  by (auto simp: p_take_front_def p_remove_front_def allocated_fields intro!: allocated_goto split: list.split)

lemma psq_next_allocated:
  assumes "allocated s" "psq_next t c s = Some s'"
  shows "allocated s'"
proof -
  have t: "t < length (p_pcs s)" using assms(2) by (auto simp: psq_next_def split: if_splits)
  note a = allocated_at [OF assms(1) t] and q = allocated_queue [OF assms(1)]
  show ?thesis
  proof (cases "p_pcs s ! t")
    case P_idle
    then show ?thesis using assms t by (cases c) (auto simp: psq_next_def intro!: allocated_goto)
  next
    case (PPush_alloc v)
    then show ?thesis
      using assms t by (auto simp: psq_next_def intro!: allocated_goto allocated_fields(5) split: if_splits)
  next
    case (PPush_store p)
    then show ?thesis
      using assms t a q by (auto simp: psq_next_def intro!: allocated_goto allocated_fields(3) split: if_splits)
  next
    case (PPush_notify p)
    then obtain s1 where s1: "p_notify_one c s = Some s1" "s' = p_goto t (P_unlock (P_pushed p)) s1"
      using assms t by (auto simp: psq_next_def)
    then show ?thesis
      using p_notify_allocated [OF assms(1) s1(1)] notify_simulates(2) [OF s1(1)] a PPush_notify
      by (auto intro!: allocated_goto)
  next
    case (P_unlock x)
    then show ?thesis
      using assms t a by (auto simp: psq_next_def p_release_def intro!: allocated_goto allocated_fields(4))
  qed (use assms t a in \<open>auto simp: psq_next_def allocated_fields p_front_allocated intro: p_acquire_allocated p_wake_allocated
    intro!: allocated_goto split: if_splits\<close>)
qed

interpretation ps: simulation "thread_safe_queue n" psq_step allocated "threadsafe_queue n" tsq_step tsq_of for n
proof
  fix s s' :: "'v psq"
  show "allocated (thread_safe_queue n :: 'v psq)" by (auto simp: allocated_def thread_safe_queue_def)
  show "tsq_of (thread_safe_queue n) = (threadsafe_queue n :: 'v tsq)"
    by (simp add: tsq_of_def thread_safe_queue_def threadsafe_queue_def)
  show "allocated s \<Longrightarrow> psq_step s s' \<Longrightarrow> allocated s'" by (auto simp: psq_step_def intro: psq_next_allocated)
  show "allocated s \<Longrightarrow> psq_step s s' \<Longrightarrow> tsq_of s' = tsq_of s \<or> tsq_step (tsq_of s) (tsq_of s')"
    by (auto simp: psq_step_def tsq_step_def simulated_def dest: psq_next_simulates)
qed

fun p_resting :: "'v p_pc \<Rightarrow> bool" where
  "p_resting P_idle = True"
| "p_resting (PAsleep md) = True"
| "p_resting p = False"

lemma p_resting_pc_of: "p_resting p \<Longrightarrow> resting (pc_of cs p)"
  by (cases p) auto

text \<open>
  C20. The queue of pointers is the queue of values: whatever its threads do, the state with every
  pointer replaced by its value is one that \<open>threadsafe_queue\<close> reaches, so its calls are
  linearizable; no member reads from an empty queue; and once the calls under way are done a
  thread sleeps only while the queue is empty, also when allocations have failed.
\<close>

theorem psq_refines_tsq:
  assumes "reach psq_step (thread_safe_queue n) s"
  shows "reach tsq_step (threadsafe_queue n) (tsq_of s) \<and> \<not> p_broken s
    \<and> (p_mutex s = None \<longrightarrow> replay queue_spec (map (out_of (cells s) \<circ> snd) (p_rets s)) [] = Some (map ((!) (cells s)) (p_queue s)))
    \<and> (list_all p_resting (p_pcs s) \<and> list_ex p_asleep (p_pcs s) \<longrightarrow> p_queue s = [])"
proof -
  have r: "reach tsq_step (threadsafe_queue n) (tsq_of s)" by (rule ps.reach_abs [OF assms])
  have i: "tsq_inv (tsq_of s) \<and> attended (tsq_of s)" by (rule ta.reach_inv [OF r])
  have "list_all resting (pcs (tsq_of s))" if "list_all p_resting (p_pcs s)"
    using that by (simp add: tsq_of_def list_all_iff p_resting_pc_of)
  then have "list_all p_resting (p_pcs s) \<Longrightarrow> length (p_queue s) \<le> sum_list (map serving (pcs (tsq_of s))) \<Longrightarrow> p_queue s = []"
    using resting_serves_none by fastforce
  moreover have "list_ex asleep (pcs (tsq_of s)) = list_ex p_asleep (p_pcs s)" by (simp add: tsq_of_def list_ex_iff)
  ultimately have "list_all p_resting (p_pcs s) \<and> list_ex p_asleep (p_pcs s) \<longrightarrow> p_queue s = []"
    using i by (auto simp: attended_def)
  moreover have "p_mutex s = None \<Longrightarrow> tsq_pending (tsq_of s) = None" by (simp add: tsq_pending_def)
  then have "p_mutex s = None \<longrightarrow> replay queue_spec (map (out_of (cells s) \<circ> snd) (p_rets s)) [] = Some (map ((!) (cells s)) (p_queue s))"
    using tq.explained [OF r] by (auto simp: tsq_hist_def threadsafe_queue_def tsq_of_def comp_def)
  ultimately show ?thesis using r i by (auto simp: tsq_inv_def)
qed

lemma psq_run_reach: "run_steps psq_next sched s = Some s' \<Longrightarrow> reach psq_step i s \<Longrightarrow> reach psq_step i s'"
  by (rule run_reach) (auto simp: psq_step_def)

definition served :: "(nat \<times> nat p_choice) list" where
  \<comment> \<open>threads 0 and 1 wait; a push of 6 fails to allocate, a push of 7 is taken by thread 0\<close>
  "served = [(0, PCall_wait_and_pop ByPtr), (0, P_go), (0, P_go), (1, PCall_wait_and_pop ByRef), (1, P_go), (1, P_go),
     (2, PCall_push 6), (2, P_fail), (2, PCall_push 7), (2, P_go), (2, P_go), (2, P_go), (2, P_wake 0), (2, P_go),
     (0, P_go), (0, P_go), (0, P_go), (0, P_go), (0, P_go)]"

theorem psq_refines_tsq_witness:
  "\<exists>s. run_steps psq_next served (thread_safe_queue 3) = Some s \<and> list_ex p_asleep (p_pcs s)
     \<and> reach tsq_step (threadsafe_queue 3) (tsq_of s) \<and> p_queue s = []"
proof -
  have "map_option (\<lambda>s. (p_pcs s, p_rets s)) (run_steps psq_next served (thread_safe_queue 3))
      = Some ([P_idle, PAsleep ByRef, P_idle], [(2, P_pushed 0), (0, P_got 0)])" by code_simp
  then obtain s where s: "run_steps psq_next served (thread_safe_queue 3) = Some s" "p_pcs s = [P_idle, PAsleep ByRef, P_idle]" by auto
  have "reach psq_step (thread_safe_queue 3) s" by (rule psq_run_reach [OF s(1) reach.start])
  from psq_refines_tsq [OF this] show ?thesis using s by auto
qed

end
