(* ===== verification/Ts_Stack.thy ===== *)
theory Ts_Stack
  imports Monitor
begin

text \<open>
  The thread-safe stack \<open>threadsafe_stack\<close> of
  \<open>C++11/Cpp-Concurrency-in-Action/chap6/threadsafe_stack.h\<close>, in the style of \<open>Ts_Queue\<close>: a
  step is one statement of one thread. \<open>m_data\<close> has the top of the stack first. A pop of an
  empty stack throws \<open>empty_stack\<close>, and every allocation under the mutex may fail. The copy
  constructor locks the stack it copies and makes a second one with the same values, which
  is its result.
\<close>

datatype how = Into_ref | As_ptr

datatype 'v s_out = S_pushed 'v | S_popped 'v | S_empty_stack | S_is_empty bool | S_copied "'v list" | S_threw

datatype 'v s_pc =
    S_idle
  | SPush_lock 'v | SPush_store 'v
  | SPop_lock how | SPop_test how | SPop_take how | SPop_remove 'v
  | SEmpty_lock | SEmpty_test
  | SCopy_lock | SCopy_read
  | S_unlock "'v s_out"

datatype 'v s_choice = SCall_push 'v | SCall_pop how | SCall_empty | SCall_copy | S_go | S_fail

record 'v tss =
  m_data :: "'v list"
  s_mutex :: "nat option"
  s_pcs :: "'v s_pc list"
  s_rets :: "(nat \<times> 'v s_out) list"
  s_broken :: bool

definition threadsafe_stack :: "nat \<Rightarrow> 'v tss" where
  "threadsafe_stack n = \<lparr>m_data = [], s_mutex = None, s_pcs = replicate n S_idle, s_rets = [], s_broken = False\<rparr>"

definition s_goto :: "nat \<Rightarrow> 'v s_pc \<Rightarrow> 'v tss \<Rightarrow> 'v tss" where
  "s_goto t p s = s\<lparr>s_pcs := (s_pcs s)[t := p]\<rparr>"

definition s_acquire :: "nat \<Rightarrow> 'v s_pc \<Rightarrow> 'v tss \<Rightarrow> 'v tss option" where
  "s_acquire t p s = (if s_mutex s = None then Some (s_goto t p (s\<lparr>s_mutex := Some t\<rparr>)) else None)"

definition s_release :: "nat \<Rightarrow> 'v s_out \<Rightarrow> 'v tss \<Rightarrow> 'v tss" where
  "s_release t x s = s_goto t S_idle (s\<lparr>s_mutex := None, s_rets := s_rets s @ [(t, x)]\<rparr>)"

fun s_push :: "nat \<Rightarrow> 'v s_choice \<Rightarrow> 'v s_pc \<Rightarrow> 'v tss \<Rightarrow> 'v tss option" where
  "s_push t c (SPush_lock v) s = s_acquire t (SPush_store v) s"
| "s_push t c (SPush_store v) s =
     Some (if c = S_fail then s_goto t (S_unlock S_threw) s else s_goto t (S_unlock (S_pushed v)) (s\<lparr>m_data := v # m_data s\<rparr>))"
| "s_push t c p s = None"

fun s_pop :: "nat \<Rightarrow> 'v s_choice \<Rightarrow> 'v s_pc \<Rightarrow> 'v tss \<Rightarrow> 'v tss option" where
  "s_pop t c (SPop_lock md) s = s_acquire t (SPop_test md) s"
| "s_pop t c (SPop_test md) s = Some (s_goto t (if m_data s = [] then S_unlock S_empty_stack else SPop_take md) s)"
| "s_pop t c (SPop_take md) s =
     Some (if md = As_ptr \<and> c = S_fail then s_goto t (S_unlock S_threw) s
       else case m_data s of [] \<Rightarrow> s\<lparr>s_broken := True\<rparr> | v # d \<Rightarrow> s_goto t (SPop_remove v) s)"
| "s_pop t c (SPop_remove v) s =
     Some (case m_data s of [] \<Rightarrow> s\<lparr>s_broken := True\<rparr> | u # d \<Rightarrow> s_goto t (S_unlock (S_popped v)) (s\<lparr>m_data := d\<rparr>))"
| "s_pop t c p s = None"

fun s_empty :: "nat \<Rightarrow> 'v s_pc \<Rightarrow> 'v tss \<Rightarrow> 'v tss option" where
  "s_empty t SEmpty_lock s = s_acquire t SEmpty_test s"
| "s_empty t SEmpty_test s = Some (s_goto t (S_unlock (S_is_empty (m_data s = []))) s)"
| "s_empty t p s = None"

fun s_copy :: "nat \<Rightarrow> 'v s_choice \<Rightarrow> 'v s_pc \<Rightarrow> 'v tss \<Rightarrow> 'v tss option" where
  "s_copy t c SCopy_lock s = s_acquire t SCopy_read s"
| "s_copy t c SCopy_read s = Some (s_goto t (S_unlock (if c = S_fail then S_threw else S_copied (m_data s))) s)"
| "s_copy t c p s = None"

fun s_call :: "nat \<Rightarrow> 'v s_choice \<Rightarrow> 'v tss \<Rightarrow> 'v tss option" where
  "s_call t (SCall_push v) s = Some (s_goto t (SPush_lock v) s)"
| "s_call t (SCall_pop md) s = Some (s_goto t (SPop_lock md) s)"
| "s_call t SCall_empty s = Some (s_goto t SEmpty_lock s)"
| "s_call t SCall_copy s = Some (s_goto t SCopy_lock s)"
| "s_call t c s = None"

definition tss_next :: "nat \<Rightarrow> 'v s_choice \<Rightarrow> 'v tss \<Rightarrow> 'v tss option" where
  "tss_next t c s =
     (if \<not> t < length (s_pcs s) then None else
      case s_pcs s ! t of
        S_idle \<Rightarrow> s_call t c s
      | S_unlock x \<Rightarrow> Some (s_release t x s)
      | SPush_lock v \<Rightarrow> s_push t c (s_pcs s ! t) s
      | SPush_store v \<Rightarrow> s_push t c (s_pcs s ! t) s
      | SPop_lock md \<Rightarrow> s_pop t c (s_pcs s ! t) s
      | SPop_test md \<Rightarrow> s_pop t c (s_pcs s ! t) s
      | SPop_take md \<Rightarrow> s_pop t c (s_pcs s ! t) s
      | SPop_remove v \<Rightarrow> s_pop t c (s_pcs s ! t) s
      | SEmpty_lock \<Rightarrow> s_empty t (s_pcs s ! t) s
      | SEmpty_test \<Rightarrow> s_empty t (s_pcs s ! t) s
      | SCopy_lock \<Rightarrow> s_copy t c (s_pcs s ! t) s
      | SCopy_read \<Rightarrow> s_copy t c (s_pcs s ! t) s)"

definition tss_step :: "'v tss \<Rightarrow> 'v tss \<Rightarrow> bool" where
  "tss_step s s' \<longleftrightarrow> (\<exists>t c. tss_next t c s = Some s')"

subsection \<open>The mutex\<close>

fun s_critical :: "'v s_pc \<Rightarrow> bool" where
  "s_critical S_idle = False"
| "s_critical (SPush_lock v) = False"
| "s_critical (SPop_lock md) = False"
| "s_critical SEmpty_lock = False"
| "s_critical SCopy_lock = False"
| "s_critical p = True"

fun s_sees :: "'v list \<Rightarrow> 'v s_pc \<Rightarrow> bool" where
  "s_sees d (SPop_take md) \<longleftrightarrow> d \<noteq> []"
| "s_sees d (SPop_remove v) \<longleftrightarrow> d \<noteq> [] \<and> hd d = v"
| "s_sees d p \<longleftrightarrow> True"

definition tss_inv :: "'v tss \<Rightarrow> bool" where
  "tss_inv s \<longleftrightarrow> \<not> s_broken s
     \<and> (\<forall>t<length (s_pcs s). s_critical (s_pcs s ! t) \<longleftrightarrow> s_mutex s = Some t)
     \<and> (\<forall>t. s_mutex s = Some t \<longrightarrow> t < length (s_pcs s))
     \<and> (\<forall>t<length (s_pcs s). s_sees (m_data s) (s_pcs s ! t))"

lemma not_s_critical_sees: "\<not> s_critical p \<Longrightarrow> s_sees d p"
  by (cases p) auto

lemma s_goto_fields [simp]:
  "m_data (s_goto t p s) = m_data s" "s_mutex (s_goto t p s) = s_mutex s" "s_rets (s_goto t p s) = s_rets s"
  "s_pcs (s_goto t p s) = (s_pcs s)[t := p]" "s_broken (s_goto t p s) = s_broken s"
  by (simp_all add: s_goto_def)

lemma s_inv_stay:
  assumes "tss_inv s" "t < length (s_pcs s)" "s_critical p = s_critical (s_pcs s ! t)" "s_sees (m_data s) p"
  shows "tss_inv (s_goto t p s)"
  using assms by (auto simp: tss_inv_def nth_list_update)

lemma s_inv_data:
  assumes "tss_inv s" "t < length (s_pcs s)" "s_critical (s_pcs s ! t)" "s_critical p" "s_sees d p"
  shows "tss_inv (s_goto t p (s\<lparr>m_data := d\<rparr>))"
proof -
  have "\<not> s_critical (s_pcs s ! u)" if "u < length (s_pcs s)" "u \<noteq> t" for u using that assms by (auto simp: tss_inv_def)
  then show ?thesis using assms by (auto simp: tss_inv_def nth_list_update intro!: not_s_critical_sees)
qed

lemma s_inv_acquire:
  assumes "tss_inv s" "t < length (s_pcs s)" "s_acquire t p s = Some s'" "s_critical p" "s_sees (m_data s) p"
  shows "tss_inv s'"
  using assms by (auto simp: tss_inv_def s_acquire_def nth_list_update split: if_splits)

lemma tss_next_inv:
  assumes "tss_inv s" "tss_next t c s = Some s'"
  shows "tss_inv s'"
proof -
  have t: "t < length (s_pcs s)" using assms(2) by (auto simp: tss_next_def split: if_splits)
  have s: "s_sees (m_data s) (s_pcs s ! t)" using assms(1) t by (simp add: tss_inv_def)
  show ?thesis
  proof (cases "s_pcs s ! t")
    case S_idle
    then show ?thesis using assms t by (cases c) (auto simp: tss_next_def intro!: s_inv_stay)
  next
    case (SPush_store v)
    then show ?thesis using assms t s_inv_data [OF assms(1) t] s_inv_stay [OF assms(1) t]
      by (cases "c = S_fail") (auto simp: tss_next_def)
  next
    case (SPop_take md)
    then show ?thesis using assms t s by (auto simp: tss_next_def intro!: s_inv_stay split: list.splits if_splits)
  next
    case (SPop_remove v)
    then show ?thesis using assms t s by (auto simp: tss_next_def intro!: s_inv_data split: list.splits)
  next
    case (S_unlock x)
    then have "s_mutex s = Some t" using assms(1) t by (auto simp: tss_inv_def)
    then show ?thesis
      using S_unlock assms t by (auto simp: tss_next_def s_release_def tss_inv_def nth_list_update split: if_splits)
  qed (use assms t in \<open>auto simp: tss_next_def intro: s_inv_acquire s_inv_stay\<close>)
qed

subsection \<open>Every call takes effect at once\<close>

fun stack_spec :: "'v s_out \<Rightarrow> 'v list \<Rightarrow> 'v list option" where
  "stack_spec (S_pushed v) d = Some (v # d)"
| "stack_spec (S_popped v) d = (case d of [] \<Rightarrow> None | u # r \<Rightarrow> if u = v then Some r else None)"
| "stack_spec S_empty_stack d = (if d = [] then Some d else None)"
| "stack_spec (S_is_empty b) d = (if b = (d = []) then Some d else None)"
| "stack_spec (S_copied e) d = (if e = d then Some d else None)"
| "stack_spec S_threw d = Some d"

fun s_in_hand :: "'v s_pc \<Rightarrow> 'v s_out option" where
  "s_in_hand (S_unlock x) = Some x"
| "s_in_hand p = None"

definition tss_hist :: "'v tss \<Rightarrow> 'v s_out list" where
  "tss_hist s = map snd (s_rets s)"

definition tss_pending :: "'v tss \<Rightarrow> 'v s_out option" where
  "tss_pending s = (case s_mutex s of None \<Rightarrow> None | Some t \<Rightarrow> s_in_hand (s_pcs s ! t))"

definition tss_effect :: "'v tss \<Rightarrow> 'v tss \<Rightarrow> bool" where
  "tss_effect s s' \<longleftrightarrow>
     tss_hist s' = tss_hist s \<and> m_data s' = m_data s \<and> tss_pending s' = tss_pending s
     \<or> (\<exists>x. tss_hist s' = tss_hist s \<and> tss_pending s = None \<and> tss_pending s' = Some x \<and> stack_spec x (m_data s) = Some (m_data s'))
     \<or> (\<exists>x. tss_hist s' = tss_hist s @ [x] \<and> m_data s' = m_data s \<and> tss_pending s = Some x \<and> tss_pending s' = None)"

lemmas tss_effects = tss_effect_def tss_hist_def tss_pending_def

lemma s_acquire_effect:
  assumes "s_acquire t p s = Some s'" "t < length (s_pcs s)" "s_in_hand p = None"
  shows "tss_effect s s'"
  using assms by (auto simp: s_acquire_def tss_effects split: if_splits)

lemma tss_next_effect:
  assumes "tss_inv s" "tss_next t c s = Some s'"
  shows "tss_effect s s'"
proof -
  have t: "t < length (s_pcs s)" using assms(2) by (auto simp: tss_next_def split: if_splits)
  have s: "s_sees (m_data s) (s_pcs s ! t)" and h: "s_critical (s_pcs s ! t) \<longleftrightarrow> s_mutex s = Some t"
    using assms(1) t by (simp_all add: tss_inv_def)
  show ?thesis
  proof (cases "s_pcs s ! t")
    case S_idle
    then have "tss_pending (s_goto t p s) = tss_pending s" for p
      using h by (auto simp: tss_pending_def split: option.split)
    then show ?thesis using assms t S_idle by (cases c) (auto simp: tss_next_def tss_effect_def tss_hist_def)
  next
    case (SPop_take md)
    then show ?thesis using assms t s h by (auto simp: tss_next_def tss_effects split: list.splits if_splits)
  next
    case (SPop_remove v)
    then show ?thesis using assms t s h by (auto simp: tss_next_def tss_effects split: list.splits)
  next
    case (SPop_test md)
    then show ?thesis using assms t h by (cases "m_data s = []") (auto simp: tss_next_def tss_effects)
  next
    case (SPush_store v)
    then show ?thesis using assms t h by (cases "c = S_fail") (auto simp: tss_next_def tss_effects)
  next
    case SEmpty_test
    then show ?thesis using assms t h by (auto simp: tss_next_def tss_effects)
  next
    case SCopy_read
    then show ?thesis using assms t h by (cases "c = S_fail") (auto simp: tss_next_def tss_effects)
  next
    case (S_unlock x)
    then show ?thesis using assms t h by (auto simp: tss_next_def s_release_def tss_effects)
  qed (use assms t in \<open>auto simp: tss_next_def intro: s_acquire_effect\<close>)
qed

interpretation st: atomic_object "threadsafe_stack n" tss_step tss_inv stack_spec m_data tss_hist tss_pending for n
proof
  show "tss_inv (threadsafe_stack n)" by (simp add: tss_inv_def threadsafe_stack_def)
qed (auto simp: tss_step_def threadsafe_stack_def tss_hist_def tss_pending_def
  dest: tss_next_inv tss_next_effect [unfolded tss_effects])

subsection \<open>Progress\<close>

definition tss_work :: "'v tss \<Rightarrow> 'v tss \<Rightarrow> bool" where
  "tss_work s s' \<longleftrightarrow> (\<exists>t c. t < length (s_pcs s) \<and> s_pcs s ! t \<noteq> S_idle \<and> tss_next t c s = Some s')"

fun s_remaining :: "'v s_pc \<Rightarrow> nat" where
  "s_remaining S_idle = 0"
| "s_remaining (S_unlock x) = 1"
| "s_remaining (SPop_remove v) = 2"
| "s_remaining (SPop_take md) = 3"
| "s_remaining (SPop_test md) = 4"
| "s_remaining (SPush_store v) = 2"
| "s_remaining SEmpty_test = 2"
| "s_remaining SCopy_read = 2"
| "s_remaining p = 5"

definition tss_effort :: "'v tss \<Rightarrow> nat" where
  "tss_effort s = sum_list (map s_remaining (s_pcs s))"

lemma s_effort_goto:
  assumes "t < length (s_pcs s)" "s_remaining p < s_remaining (s_pcs s ! t)"
  shows "sum_list (map s_remaining ((s_pcs s)[t := p])) < sum_list (map s_remaining (s_pcs s))"
  using sum_list_update [OF assms(1), of s_remaining p] assms(2) by linarith

lemma tss_work_shrinks:
  assumes "tss_inv s" "tss_work s s'"
  shows "tss_effort s' < tss_effort s"
proof -
  obtain t c where t: "t < length (s_pcs s)" "s_pcs s ! t \<noteq> S_idle" "tss_next t c s = Some s'"
    using assms(2) by (auto simp: tss_work_def)
  have "s_sees (m_data s) (s_pcs s ! t)" using assms(1) t(1) by (simp add: tss_inv_def)
  then show ?thesis
    using t by (cases "s_pcs s ! t")
      (auto simp: tss_next_def tss_effort_def s_acquire_def s_release_def intro!: s_effort_goto split: if_splits list.splits)
qed

lemma tss_not_stuck:
  assumes "tss_inv s"
  shows "list_all (\<lambda>p. p = S_idle) (s_pcs s) \<or> (\<exists>s'. tss_work s s')"
proof (cases "s_mutex s")
  case (Some h)
  then have h: "h < length (s_pcs s)" "s_critical (s_pcs s ! h)" using assms by (auto simp: tss_inv_def)
  then have "\<exists>s'. tss_next h S_go s = Some s'" by (cases "s_pcs s ! h") (auto simp: tss_next_def)
  moreover have "s_pcs s ! h \<noteq> S_idle" using h(2) by auto
  ultimately show ?thesis using h(1) by (auto simp: tss_work_def)
next
  case None
  have "\<exists>s'. tss_next t S_go s = Some s'" if "t < length (s_pcs s)" "s_pcs s ! t \<noteq> S_idle" for t
  proof -
    have "\<not> s_critical (s_pcs s ! t)" using assms that(1) None by (auto simp: tss_inv_def)
    then show ?thesis using that None by (cases "s_pcs s ! t") (auto simp: tss_next_def s_acquire_def)
  qed
  then show ?thesis by (fastforce simp: list_all_length tss_work_def)
qed

interpretation sp: progressing tss_inv tss_work tss_effort "\<lambda>s. list_all (\<lambda>p. p = S_idle) (s_pcs s)"
proof unfold_locales
  fix s s' :: "'v tss"
  show "tss_inv s \<Longrightarrow> tss_work s s' \<Longrightarrow> tss_inv s'" by (auto simp: tss_work_def intro: tss_next_inv)
  show "tss_inv s \<Longrightarrow> tss_work s s' \<Longrightarrow> tss_effort s' < tss_effort s" by (rule tss_work_shrinks)
  show "tss_inv s \<Longrightarrow> list_all (\<lambda>p. p = S_idle) (s_pcs s) \<or> (\<exists>s'. tss_work s s')" by (rule tss_not_stuck)
qed

text \<open>
  C38. The stack is linearizable, exceptions included, and never blocks a call for good: whatever
  the threads do, the results returned so far are those of the same calls run one after the
  other on a plain stack, a pop throws \<open>empty_stack\<close> only when that stack is empty and never
  reads from an empty one, a copy holds exactly its values, and the calls under way can all
  be completed.
\<close>

theorem tss_linearizable:
  assumes "reach tss_step (threadsafe_stack n) s"
  shows "\<not> s_broken s
    \<and> (s_mutex s = None \<longrightarrow> replay stack_spec (map snd (s_rets s)) [] = Some (m_data s))
    \<and> (\<exists>s'. tss_work\<^sup>*\<^sup>* s s' \<and> list_all (\<lambda>p. p = S_idle) (s_pcs s'))"
proof -
  have i: "tss_inv s" by (rule st.reach_inv [OF assms])
  have "s_mutex s = None \<Longrightarrow> tss_pending s = None" by (simp add: tss_pending_def)
  then have "s_mutex s = None \<longrightarrow> replay stack_spec (map snd (s_rets s)) [] = Some (m_data s)"
    using st.explained [OF assms] by (auto simp: tss_hist_def threadsafe_stack_def)
  then show ?thesis using i sp.comes_to_rest [OF i] by (auto simp: tss_inv_def)
qed

lemma tss_run_reach: "run_steps tss_next sched s = Some s' \<Longrightarrow> reach tss_step i s \<Longrightarrow> reach tss_step i s'"
  by (rule run_reach) (auto simp: tss_step_def)

definition push_pop_pop :: "(nat \<times> nat s_choice) list" where
  "push_pop_pop = [(0, SCall_push 7), (1, SCall_pop As_ptr), (0, S_go), (0, S_go), (0, S_go), (1, S_go), (1, S_go), (1, S_go),
     (1, S_go), (0, SCall_pop Into_ref), (1, S_go), (0, S_go), (0, S_go), (0, S_go)]"

theorem tss_linearizable_witness:
  "\<exists>s. run_steps tss_next push_pop_pop (threadsafe_stack 2) = Some s \<and> s_rets s = [(0, S_pushed 7), (1, S_popped 7), (0, S_empty_stack)]
     \<and> replay stack_spec (map snd (s_rets s)) [] = Some (m_data s)"
proof -
  have "map_option (\<lambda>s. (s_rets s, s_mutex s)) (run_steps tss_next push_pop_pop (threadsafe_stack 2))
      = Some ([(0, S_pushed 7), (1, S_popped 7), (0, S_empty_stack)], None)" by code_simp
  then obtain s where s: "run_steps tss_next push_pop_pop (threadsafe_stack 2) = Some s"
    "s_rets s = [(0, S_pushed 7), (1, S_popped 7), (0, S_empty_stack)]" "s_mutex s = None" by auto
  have "reach tss_step (threadsafe_stack 2) s" by (rule tss_run_reach [OF s(1) reach.start])
  from tss_linearizable [OF this] s show ?thesis by blast
qed

end
