(* ===== verification/Cpp_Timer.thy ===== *)
theory Cpp_Timer
  imports Monitor
begin

text \<open>
  The interval timer of \<open>timer/timer.h\<close>. \<open>start\<close> spawns a detached thread that runs the task
  until \<open>_try_to_expire\<close> is set; \<open>stop\<close> sets it and waits on the condition variable until the
  thread has set \<open>_expired\<close>. Callers are the threads that call members of the timer, workers
  are the threads it spawned (of \<open>start\<close> and of \<open>startOnce\<close>), and a step is one statement of
  one of them. \<open>ran\<close> records which worker ran the task; what the task does is not modelled.
  The constructor of \<open>std::thread\<close> may throw, which \<open>spawn_failed\<close> records.
\<close>

datatype caller =
    C_idle
  | Start_test | Start_mark | Start_spawn
  | Stop_expired | Stop_trying | Stop_mark | Stop_lock | Stop_check | Stop_asleep | Stop_reset | Stop_unlock

datatype worker =
    W_test | W_sleep | W_task | W_lock | W_expire | W_notify | W_unlock
  | Once_sleep | Once_task
  | W_done

datatype who = Caller nat | Worker nat

datatype tm_choice = Call_start | Call_startOnce | Call_stop | Tm_go | Tm_wake nat | Tm_spurious | Tm_fail

record timer =
  expired :: bool
  try_to_expire :: bool
  tm_mutex :: "who option"
  callers :: "caller list"
  workers :: "worker list"
  ran :: "nat list"
  spawn_failed :: bool

definition Timer :: "nat \<Rightarrow> timer" where
  "Timer n = \<lparr>expired = True, try_to_expire = False, tm_mutex = None, callers = replicate n C_idle, workers = [], ran = [],
     spawn_failed = False\<rparr>"

definition Timer_copy :: "nat \<Rightarrow> timer \<Rightarrow> timer" where
  \<comment> \<open>the copy constructor copies the two flags\<close>
  "Timer_copy n s = (Timer n)\<lparr>expired := expired s, try_to_expire := try_to_expire s\<rparr>"

definition is_running :: "timer \<Rightarrow> bool" where
  "is_running s = (\<not> expired s)"

definition caller_to :: "nat \<Rightarrow> caller \<Rightarrow> timer \<Rightarrow> timer" where
  "caller_to i p s = s\<lparr>callers := (callers s)[i := p]\<rparr>"

definition worker_to :: "nat \<Rightarrow> worker \<Rightarrow> timer \<Rightarrow> timer" where
  "worker_to j p s = s\<lparr>workers := (workers s)[j := p]\<rparr>"

fun tm_call :: "nat \<Rightarrow> tm_choice \<Rightarrow> timer \<Rightarrow> timer option" where
  "tm_call i Call_start s = Some (caller_to i Start_test s)"
| "tm_call i Call_stop s = Some (caller_to i Stop_expired s)"
| "tm_call i Call_startOnce s = Some (s\<lparr>workers := workers s @ [Once_sleep]\<rparr>)"
| "tm_call i c s = None"

fun tm_start :: "nat \<Rightarrow> tm_choice \<Rightarrow> caller \<Rightarrow> timer \<Rightarrow> timer option" where
  "tm_start i c Start_test s = Some (caller_to i (if expired s = False then C_idle else Start_mark) s)"
| "tm_start i c Start_mark s = Some (caller_to i Start_spawn (s\<lparr>expired := False\<rparr>))"
| "tm_start i c Start_spawn s =
     Some (if c = Tm_fail then caller_to i C_idle (s\<lparr>spawn_failed := True\<rparr>)
       else caller_to i C_idle (s\<lparr>workers := workers s @ [W_test]\<rparr>))"
| "tm_start i c p s = None"

fun tm_stop :: "nat \<Rightarrow> tm_choice \<Rightarrow> caller \<Rightarrow> timer \<Rightarrow> timer option" where
  "tm_stop i c Stop_expired s = Some (caller_to i (if expired s then C_idle else Stop_trying) s)"
| "tm_stop i c Stop_trying s = Some (caller_to i (if try_to_expire s then C_idle else Stop_mark) s)"
| "tm_stop i c Stop_mark s = Some (caller_to i Stop_lock (s\<lparr>try_to_expire := True\<rparr>))"
| "tm_stop i c Stop_lock s =
     (if tm_mutex s = None then Some (caller_to i Stop_check (s\<lparr>tm_mutex := Some (Caller i)\<rparr>)) else None)"
| "tm_stop i c Stop_check s =
     Some (if expired s = True then caller_to i Stop_reset s else caller_to i Stop_asleep (s\<lparr>tm_mutex := None\<rparr>))"
| "tm_stop i c Stop_asleep s = (if c = Tm_spurious then Some (caller_to i Stop_lock s) else None)"
| "tm_stop i c Stop_reset s =
     Some (caller_to i Stop_unlock (if expired s = True then s\<lparr>try_to_expire := False\<rparr> else s))"
| "tm_stop i c Stop_unlock s = Some (caller_to i C_idle (s\<lparr>tm_mutex := None\<rparr>))"
| "tm_stop i c p s = None"

definition tm_notify :: "tm_choice \<Rightarrow> timer \<Rightarrow> timer option" where
  "tm_notify c s = (case c of
     Tm_wake i \<Rightarrow> if i < length (callers s) \<and> callers s ! i = Stop_asleep then Some (caller_to i Stop_lock s) else None
   | _ \<Rightarrow> if Stop_asleep \<in> set (callers s) then None else Some s)"

fun tm_worker :: "nat \<Rightarrow> tm_choice \<Rightarrow> worker \<Rightarrow> timer \<Rightarrow> timer option" where
  "tm_worker j c W_test s = Some (worker_to j (if \<not> try_to_expire s then W_sleep else W_lock) s)"
| "tm_worker j c W_sleep s = Some (worker_to j W_task s)"
| "tm_worker j c W_task s = Some (worker_to j W_test (s\<lparr>ran := ran s @ [j]\<rparr>))"
| "tm_worker j c W_lock s =
     (if tm_mutex s = None then Some (worker_to j W_expire (s\<lparr>tm_mutex := Some (Worker j)\<rparr>)) else None)"
| "tm_worker j c W_expire s = Some (worker_to j W_notify (s\<lparr>expired := True\<rparr>))"
| "tm_worker j c W_notify s = map_option (worker_to j W_unlock) (tm_notify c s)"
| "tm_worker j c W_unlock s = Some (worker_to j W_done (s\<lparr>tm_mutex := None\<rparr>))"
| "tm_worker j c Once_sleep s = Some (worker_to j Once_task s)"
| "tm_worker j c Once_task s = Some (worker_to j W_done (s\<lparr>ran := ran s @ [j]\<rparr>))"
| "tm_worker j c W_done s = None"

fun tm_next :: "who \<Rightarrow> tm_choice \<Rightarrow> timer \<Rightarrow> timer option" where
  "tm_next (Caller i) c s =
     (if \<not> i < length (callers s) then None
      else if callers s ! i = C_idle then tm_call i c s
      else if callers s ! i \<in> {Start_test, Start_mark, Start_spawn} then tm_start i c (callers s ! i) s
      else tm_stop i c (callers s ! i) s)"
| "tm_next (Worker j) c s = (if \<not> j < length (workers s) then None else tm_worker j c (workers s ! j) s)"

definition tm_step :: "timer \<Rightarrow> timer \<Rightarrow> bool" where
  "tm_step s s' \<longleftrightarrow> (\<exists>w c. tm_next w c s = Some s')"

lemma tm_run_reach: "run_steps tm_next sched s = Some s' \<Longrightarrow> reach tm_step i s \<Longrightarrow> reach tm_step i s'"
  by (rule run_reach) (auto simp: tm_step_def)

subsection \<open>One caller\<close>

definition looping :: "worker \<Rightarrow> bool" where
  "looping w \<longleftrightarrow> w \<notin> {Once_sleep, Once_task, W_done}"

definition none_loops :: "timer \<Rightarrow> bool" where
  "none_loops s \<longleftrightarrow> (\<forall>j<length (workers s). \<not> looping (workers s ! j))"

definition only_loops :: "nat \<Rightarrow> timer \<Rightarrow> bool" where
  "only_loops j s \<longleftrightarrow> j < length (workers s) \<and> looping (workers s ! j)
     \<and> (\<forall>k<length (workers s). k \<noteq> j \<longrightarrow> \<not> looping (workers s ! k))"

fun without_worker :: "caller \<Rightarrow> bool \<Rightarrow> bool \<Rightarrow> bool" where
  \<comment> \<open>the flags when no worker of \<open>start\<close> is alive\<close>
  "without_worker Start_spawn e t \<longleftrightarrow> \<not> e \<and> \<not> t"
| "without_worker Stop_lock e t \<longleftrightarrow> e \<and> t"
| "without_worker Stop_check e t \<longleftrightarrow> e \<and> t"
| "without_worker Stop_reset e t \<longleftrightarrow> e \<and> t"
| "without_worker Stop_trying e t \<longleftrightarrow> False"
| "without_worker Stop_mark e t \<longleftrightarrow> False"
| "without_worker Stop_asleep e t \<longleftrightarrow> False"
| "without_worker c e t \<longleftrightarrow> e \<and> \<not> t"

fun with_worker :: "caller \<Rightarrow> worker \<Rightarrow> bool \<Rightarrow> bool \<Rightarrow> bool" where
  \<comment> \<open>and when one is\<close>
  "with_worker Start_mark w e t \<longleftrightarrow> False"
| "with_worker Start_spawn w e t \<longleftrightarrow> False"
| "with_worker Stop_reset w e t \<longleftrightarrow> False"
| "with_worker Stop_unlock w e t \<longleftrightarrow> False"
| "with_worker Stop_lock w e t \<longleftrightarrow> t \<and> e = (w \<in> {W_notify, W_unlock})"
| "with_worker Stop_check w e t \<longleftrightarrow> t \<and> \<not> e \<and> w \<notin> {W_expire, W_notify, W_unlock}"
| "with_worker Stop_asleep w e t \<longleftrightarrow> t \<and> w \<noteq> W_unlock \<and> e = (w = W_notify)"
| "with_worker c w e t \<longleftrightarrow> \<not> e \<and> \<not> t \<and> w \<in> {W_test, W_sleep, W_task}"

definition tm_holder :: "caller \<Rightarrow> (nat \<times> worker) option \<Rightarrow> who option" where
  "tm_holder c jw = (if c \<in> {Stop_check, Stop_reset, Stop_unlock} then Some (Caller 0)
     else case jw of Some (j, w) \<Rightarrow> if w \<in> {W_expire, W_notify, W_unlock} then Some (Worker j) else None | None \<Rightarrow> None)"

definition tm_inv :: "timer \<Rightarrow> bool" where
  "tm_inv s \<longleftrightarrow> spawn_failed s \<or> (\<exists>c. callers s = [c] \<and>
     (none_loops s \<and> without_worker c (expired s) (try_to_expire s) \<and> tm_mutex s = tm_holder c None
      \<or> (\<exists>j. only_loops j s \<and> with_worker c (workers s ! j) (expired s) (try_to_expire s)
          \<and> tm_mutex s = tm_holder c (Some (j, workers s ! j)))))"

lemma tm_to_fields [simp]:
  "expired (caller_to i p s) = expired s" "try_to_expire (caller_to i p s) = try_to_expire s" "tm_mutex (caller_to i p s) = tm_mutex s"
  "callers (caller_to i p s) = (callers s)[i := p]" "workers (caller_to i p s) = workers s" "spawn_failed (caller_to i p s) = spawn_failed s"
  "expired (worker_to i w s) = expired s" "try_to_expire (worker_to i w s) = try_to_expire s" "tm_mutex (worker_to i w s) = tm_mutex s"
  "callers (worker_to i w s) = callers s" "workers (worker_to i w s) = (workers s)[i := w]" "spawn_failed (worker_to i w s) = spawn_failed s"
  "ran (caller_to i p s) = ran s" "ran (worker_to i w s) = ran s"
  by (simp_all add: caller_to_def worker_to_def)

lemma loops_append:
  "none_loops (s\<lparr>workers := workers s @ [w]\<rparr>) \<longleftrightarrow> none_loops s \<and> \<not> looping w"
  "\<not> looping w \<Longrightarrow> only_loops j s \<Longrightarrow> only_loops j (s\<lparr>workers := workers s @ [w]\<rparr>)"
  "looping w \<Longrightarrow> none_loops s \<Longrightarrow> only_loops (length (workers s)) (s\<lparr>workers := workers s @ [w]\<rparr>)"
  by (auto simp: none_loops_def only_loops_def nth_append less_Suc_eq)

lemma loops_fields [simp]:
  "none_loops (caller_to i p s) = none_loops s" "only_loops j (caller_to i p s) = only_loops j s"
  "none_loops (s\<lparr>expired := b\<rparr>) = none_loops s" "only_loops j (s\<lparr>expired := b\<rparr>) = only_loops j s"
  "none_loops (s\<lparr>try_to_expire := b\<rparr>) = none_loops s" "only_loops j (s\<lparr>try_to_expire := b\<rparr>) = only_loops j s"
  "none_loops (s\<lparr>tm_mutex := h\<rparr>) = none_loops s" "only_loops j (s\<lparr>tm_mutex := h\<rparr>) = only_loops j s"
  "none_loops (s\<lparr>ran := r\<rparr>) = none_loops s" "only_loops j (s\<lparr>ran := r\<rparr>) = only_loops j s"
  by (simp_all add: none_loops_def only_loops_def)

lemma tm_inv_failed: "spawn_failed s \<Longrightarrow> tm_inv s"
  by (simp add: tm_inv_def)

lemma tm_invN:
  "callers s = [c] \<Longrightarrow> none_loops s \<Longrightarrow> without_worker c (expired s) (try_to_expire s) \<Longrightarrow> tm_mutex s = tm_holder c None \<Longrightarrow> tm_inv s"
  by (auto simp: tm_inv_def)

lemma tm_invL:
  "callers s = [c] \<Longrightarrow> only_loops j s \<Longrightarrow> with_worker c (workers s ! j) (expired s) (try_to_expire s)
    \<Longrightarrow> tm_mutex s = tm_holder c (Some (j, workers s ! j)) \<Longrightarrow> tm_inv s"
  by (auto simp: tm_inv_def)

lemma spawn_failed_stays: "tm_next w c s = Some s' \<Longrightarrow> spawn_failed s \<Longrightarrow> spawn_failed s'"
proof (cases w)
  case (Caller i)
  assume "tm_next w c s = Some s'" "spawn_failed s"
  then show ?thesis using Caller by (cases "callers s ! i"; cases c) (auto split: if_splits)
next
  case (Worker j)
  assume "tm_next w c s = Some s'" "spawn_failed s"
  then show ?thesis
    using Worker by (cases "workers s ! j") (auto simp: tm_notify_def split: if_splits tm_choice.splits)
qed

lemma caller_step_none:
  assumes "callers s = [c]" "none_loops s" "without_worker c (expired s) (try_to_expire s)" "tm_mutex s = tm_holder c None"
    and "tm_next (Caller i) ch s = Some s'"
  shows "tm_inv s'"
proof -
  have i: "i = 0" "callers s ! i = c" using assms(1,5) by (auto split: if_splits)
  consider (idle) "c = C_idle" | (spawn) "c = Start_spawn" | (other) "c \<noteq> C_idle" "c \<noteq> Start_spawn" by blast
  then show ?thesis
  proof cases
    case idle
    then have "tm_call 0 ch s = Some s'" using assms(1,5) i by simp
    then show ?thesis
      using assms(1-4) idle by (cases ch) (auto intro!: tm_invN simp: tm_holder_def looping_def loops_append)
  next
    case spawn
    show ?thesis
    proof (cases "ch = Tm_fail")
      case True
      then show ?thesis using spawn assms(1,5) i by (auto intro: tm_inv_failed)
    next
      case False
      let ?s = "s\<lparr>workers := workers s @ [W_test]\<rparr>"
      have "s' = caller_to 0 C_idle ?s" using False spawn assms(1,5) i by auto
      moreover have "only_loops (length (workers s)) (caller_to 0 C_idle ?s)"
        using loops_append(3) [OF _ assms(2), of W_test] by (simp add: only_loops_def looping_def)
      ultimately show ?thesis
        using assms(1,3,4) spawn by (intro tm_invL [of _ C_idle "length (workers s)"]) (simp_all add: tm_holder_def)
    qed
  next
    case other
    have "workers s' = workers s" using other assms i by (cases c) (auto split: if_splits)
    then have "none_loops s'" using assms(2) by (simp add: none_loops_def)
    then show ?thesis using other assms i by (cases c) (auto intro!: tm_invN simp: tm_holder_def split: if_splits)
  qed
qed

lemma caller_step_live:
  assumes "callers s = [c]" "only_loops j s" "with_worker c (workers s ! j) (expired s) (try_to_expire s)"
    and "tm_mutex s = tm_holder c (Some (j, workers s ! j))" "tm_next (Caller i) ch s = Some s'"
  shows "tm_inv s'"
proof -
  have i: "i = 0" "callers s ! i = c" using assms(1,5) by (auto split: if_splits)
  show ?thesis
  proof (cases "c = C_idle")
    case True
    then have n: "tm_call 0 ch s = Some s'" using assms(1,5) i by simp
    show ?thesis
    proof (cases "ch = Call_startOnce")
      case True
      let ?s = "s\<lparr>workers := workers s @ [Once_sleep]\<rparr>"
      have "s' = ?s" using n True by simp
      moreover have "only_loops j ?s" using loops_append(2) assms(2) by (simp add: looping_def)
      moreover have "workers ?s ! j = workers s ! j" using assms(2) by (simp add: only_loops_def nth_append)
      ultimately show ?thesis using assms by (intro tm_invL [of _ c j]) auto
    next
      case False
      then show ?thesis
        using n assms(1-4) \<open>c = C_idle\<close>
        by (cases ch) (auto intro!: tm_invL simp: tm_holder_def)
    qed
  next
    case False
    then have "workers s' = workers s \<and> only_loops j s'" using assms i by (cases c) (auto simp: only_loops_def split: if_splits)
    then show ?thesis
      using False assms i by (cases c) (auto intro!: tm_invL [where j = j] simp: tm_holder_def split: if_splits)
  qed
qed

lemma once_step:
  assumes "\<not> looping (workers s ! k)" "tm_next (Worker k) ch s = Some s'"
  shows "\<exists>w. k < length (workers s) \<and> workers s' = (workers s)[k := w] \<and> \<not> looping w
    \<and> callers s' = callers s \<and> expired s' = expired s \<and> try_to_expire s' = try_to_expire s \<and> tm_mutex s' = tm_mutex s"
  using assms by (cases "workers s ! k") (auto simp: looping_def split: if_splits)

lemma loops_once:
  assumes "k < length (workers s)" "workers s' = (workers s)[k := w]" "\<not> looping w"
  shows "none_loops s \<Longrightarrow> none_loops s'"
    and "only_loops j s \<Longrightarrow> k \<noteq> j \<Longrightarrow> only_loops j s' \<and> workers s' ! j = workers s ! j"
  using assms by (auto simp: only_loops_def none_loops_def nth_list_update)

lemma worker_step_none:
  assumes "callers s = [c]" "none_loops s" "without_worker c (expired s) (try_to_expire s)" "tm_mutex s = tm_holder c None"
    and "tm_next (Worker k) ch s = Some s'"
  shows "tm_inv s'"
proof -
  have "k < length (workers s)" using assms(5) by (auto split: if_splits)
  then have "\<not> looping (workers s ! k)" using assms(2) by (simp add: none_loops_def)
  then obtain w where w: "k < length (workers s)" "workers s' = (workers s)[k := w]" "\<not> looping w"
    "callers s' = callers s" "expired s' = expired s" "try_to_expire s' = try_to_expire s" "tm_mutex s' = tm_mutex s"
    using once_step assms(5) by blast
  show ?thesis using w(4-) loops_once(1) [OF w(1-3) assms(2)] assms(1,3,4) by (intro tm_invN [of _ c]) simp_all
qed

lemma worker_step_other:
  assumes "callers s = [c]" "only_loops j s" "with_worker c (workers s ! j) (expired s) (try_to_expire s)"
    and "tm_mutex s = tm_holder c (Some (j, workers s ! j))" "tm_next (Worker k) ch s = Some s'" "k \<noteq> j"
  shows "tm_inv s'"
proof -
  have "k < length (workers s)" using assms(5) by (auto split: if_splits)
  then have "\<not> looping (workers s ! k)" using assms(2,6) by (simp add: only_loops_def)
  then obtain w where w: "k < length (workers s)" "workers s' = (workers s)[k := w]" "\<not> looping w"
    "callers s' = callers s" "expired s' = expired s" "try_to_expire s' = try_to_expire s" "tm_mutex s' = tm_mutex s"
    using once_step assms(5) by blast
  show ?thesis using w(4-) loops_once(2) [OF w(1-3) assms(2,6)] assms(1,3,4) by (intro tm_invL [of _ c j]) simp_all
qed

lemma loops_update:
  assumes "only_loops j s"
  shows "workers s' = (workers s)[j := w] \<Longrightarrow> looping w \<Longrightarrow> only_loops j s' \<and> workers s' ! j = w"
    and "workers s' = (workers s)[j := w] \<Longrightarrow> \<not> looping w \<Longrightarrow> none_loops s'"
  using assms by (auto simp: only_loops_def none_loops_def nth_list_update)

lemma worker_step_live:
  assumes "callers s = [c]" "only_loops j s" "with_worker c (workers s ! j) (expired s) (try_to_expire s)"
    and "tm_mutex s = tm_holder c (Some (j, workers s ! j))" "tm_next (Worker j) ch s = Some s'"
  shows "tm_inv s'"
proof -
  note l = loops_update [OF assms(2)]
  have j: "j < length (workers s)" "looping (workers s ! j)" using assms(2) by (auto simp: only_loops_def)
  show ?thesis
  proof (cases "workers s ! j")
    case W_unlock
    then have "s' = worker_to j W_done (s\<lparr>tm_mutex := None\<rparr>)" using assms(5) j by simp
    moreover have "c = Stop_lock" using assms(3) W_unlock by (cases c) auto
    ultimately show ?thesis using assms(1,3) W_unlock l(2) [of s' W_done] by (intro tm_invN [of _ c]) (auto simp: looping_def tm_holder_def)
  next
    case W_notify
    then obtain s1 where s1: "tm_notify ch s = Some s1" "s' = worker_to j W_unlock s1" using assms(5) j by auto
    then have f: "callers s1 = [Stop_lock]" "workers s1 = workers s" "expired s1 = expired s"
      "try_to_expire s1 = try_to_expire s" "tm_mutex s1 = tm_mutex s"
      using assms(1,3) W_notify by (cases c; auto simp: tm_notify_def split: tm_choice.splits if_splits)+
    then have "only_loops j s' \<and> workers s' ! j = W_unlock" using l(1) [of s' W_unlock] s1(2) by (simp add: looping_def)
    moreover have "c = Stop_lock \<or> c = Stop_asleep" using assms(3) W_notify by (cases c) auto
    ultimately show ?thesis
      using f s1(2) assms(3,4) W_notify by (intro tm_invL [of _ Stop_lock j]) (auto simp: tm_holder_def)
  next
    case W_test
    let ?w = "if \<not> try_to_expire s then W_sleep else W_lock"
    have "s' = worker_to j ?w s" using W_test assms(5) j by simp
    moreover have "with_worker c ?w (expired s) (try_to_expire s)" using assms(3) W_test by (cases c) auto
    moreover have "looping ?w" by (simp add: looping_def)
    ultimately show ?thesis
      using assms(1,4) W_test l(1) [of s' ?w] by (intro tm_invL [of _ c j]) (auto simp: tm_holder_def)
  next
    case W_lock
    then have "s' = worker_to j W_expire (s\<lparr>tm_mutex := Some (Worker j)\<rparr>)" "tm_mutex s = None"
      using assms(5) j by (auto split: if_splits)
    moreover from this(2) have "with_worker c W_expire (expired s) (try_to_expire s) \<and> c \<notin> {Stop_check, Stop_reset, Stop_unlock}"
      using assms(3,4) W_lock by (cases c) (auto simp: tm_holder_def)
    ultimately show ?thesis
      using assms(1) l(1) [of s' W_expire] by (intro tm_invL [of _ c j]) (auto simp: tm_holder_def looping_def)
  next
    case W_expire
    then have "s' = worker_to j W_notify (s\<lparr>expired := True\<rparr>)" using assms(5) j by simp
    moreover have "with_worker c W_notify True (try_to_expire s)" using assms(3) W_expire by (cases c) auto
    ultimately show ?thesis
      using assms(1,4) W_expire l(1) [of s' W_notify] by (intro tm_invL [of _ c j]) (auto simp: tm_holder_def looping_def)
  next
    case W_sleep
    then have "s' = worker_to j W_task s" using assms(5) j by simp
    moreover have "with_worker c W_task (expired s) (try_to_expire s)" using assms(3) W_sleep by (cases c) auto
    ultimately show ?thesis
      using assms(1,4) W_sleep l(1) [of s' W_task] by (intro tm_invL [of _ c j]) (auto simp: tm_holder_def looping_def)
  next
    case W_task
    then have "s' = worker_to j W_test (s\<lparr>ran := ran s @ [j]\<rparr>)" using assms(5) j by simp
    moreover have "with_worker c W_test (expired s) (try_to_expire s)" using assms(3) W_task by (cases c) auto
    ultimately show ?thesis
      using assms(1,4) W_task l(1) [of s' W_test] by (intro tm_invL [of _ c j]) (auto simp: tm_holder_def looping_def)
  qed (use j(2) in \<open>simp_all add: looping_def\<close>)
qed

lemma tm_next_inv:
  assumes "tm_inv s" "tm_next w ch s = Some s'"
  shows "tm_inv s'"
proof (cases "spawn_failed s")
  case True
  then show ?thesis using spawn_failed_stays assms(2) tm_inv_failed by blast
next
  case False
  then obtain c where c: "callers s = [c]"
    "none_loops s \<and> without_worker c (expired s) (try_to_expire s) \<and> tm_mutex s = tm_holder c None
      \<or> (\<exists>j. only_loops j s \<and> with_worker c (workers s ! j) (expired s) (try_to_expire s) \<and> tm_mutex s = tm_holder c (Some (j, workers s ! j)))"
    using assms(1) by (auto simp: tm_inv_def)
  show ?thesis
  proof (cases w)
    case (Caller i)
    then show ?thesis using c assms(2) caller_step_none caller_step_live by blast
  next
    case (Worker k)
    then show ?thesis using c assms(2) worker_step_none worker_step_other worker_step_live by (cases "\<exists>j. only_loops j s \<and> k = j") blast+
  qed
qed

interpretation t1: invariant_of "Timer 1" tm_step tm_inv
proof
  have "callers (Timer 1) = [C_idle]" by (simp add: Timer_def)
  then show "tm_inv (Timer 1)" by (rule tm_invN) (simp_all add: Timer_def none_loops_def tm_holder_def)
qed (auto simp: tm_step_def intro: tm_next_inv)

text \<open>
  C26. A timer that one thread controls has at most one worker: when the thread is not inside of a
  member, \<open>is_running\<close> tells exactly whether a worker is in its loop, so that after \<open>stop\<close> has
  returned the task is not run any more, and the timer can be started again. This holds unless
  the constructor of \<open>std::thread\<close> has thrown.
\<close>

theorem timer_one_worker:
  assumes "reach tm_step (Timer 1) s" "\<not> spawn_failed s"
  shows "(\<forall>j k. j < length (workers s) \<and> k < length (workers s) \<and> looping (workers s ! j) \<and> looping (workers s ! k) \<longrightarrow> j = k)
    \<and> (callers s = [C_idle] \<longrightarrow> \<not> try_to_expire s \<and> (is_running s \<longleftrightarrow> list_ex looping (workers s)))"
proof -
  have i: "tm_inv s" by (rule t1.reach_inv [OF assms(1)])
  then have "none_loops s \<or> (\<exists>j. only_loops j s)" using assms(2) by (auto simp: tm_inv_def)
  moreover have "none_loops s \<and> expired s \<and> \<not> try_to_expire s \<or> (\<exists>j. only_loops j s) \<and> \<not> expired s \<and> \<not> try_to_expire s"
    if "callers s = [C_idle]" using i that assms(2) by (auto simp: tm_inv_def)
  ultimately show ?thesis
    by (auto simp: is_running_def none_loops_def only_loops_def list_ex_length)
qed

definition start_stop :: "(who \<times> tm_choice) list" where
  "start_stop = [(Caller 0, Call_start), (Caller 0, Tm_go), (Caller 0, Tm_go), (Caller 0, Tm_go), (Worker 0, Tm_go), (Worker 0, Tm_go),
     (Caller 0, Call_stop), (Caller 0, Tm_go), (Caller 0, Tm_go), (Caller 0, Tm_go), (Caller 0, Tm_go), (Caller 0, Tm_go),
     (Worker 0, Tm_go), (Worker 0, Tm_go), (Worker 0, Tm_go), (Worker 0, Tm_go), (Worker 0, Tm_wake 0), (Worker 0, Tm_go),
     (Caller 0, Tm_go), (Caller 0, Tm_go), (Caller 0, Tm_go), (Caller 0, Tm_go)]"

theorem timer_one_worker_witness:
  "\<exists>s. run_steps tm_next start_stop (Timer 1) = Some s \<and> ran s = [0] \<and> workers s = [W_done] \<and> \<not> is_running s"
proof -
  have "map_option (\<lambda>s. (ran s, workers s, callers s, spawn_failed s)) (run_steps tm_next start_stop (Timer 1))
      = Some ([0], [W_done], [C_idle], False)" by code_simp
  then obtain s where s: "run_steps tm_next start_stop (Timer 1) = Some s" "ran s = [0]" "workers s = [W_done]" "callers s = [C_idle]"
    "\<not> spawn_failed s" by auto
  have "reach tm_step (Timer 1) s" by (rule tm_run_reach [OF s(1) reach.start])
  from timer_one_worker [OF this s(5)] have "is_running s \<longleftrightarrow> list_ex looping (workers s)" using s(4) by blast
  then show ?thesis using s by (simp add: looping_def)
qed

subsection \<open>Stopping\<close>

fun stop_left :: "caller \<Rightarrow> nat" where
  "stop_left Stop_unlock = 1"
| "stop_left Stop_reset = 2"
| "stop_left Stop_check = 3"
| "stop_left Stop_lock = 4"
| "stop_left c = 0"

fun worker_left :: "worker \<Rightarrow> nat" where
  "worker_left W_done = 0"
| "worker_left W_unlock = 1"
| "worker_left W_notify = 6"
| "worker_left W_expire = 7"
| "worker_left W_lock = 8"
| "worker_left W_test = 9"
| "worker_left W_task = 10"
| "worker_left W_sleep = 11"
| "worker_left Once_task = 1"
| "worker_left Once_sleep = 2"

definition tm_effort :: "timer \<Rightarrow> nat" where
  "tm_effort s = sum_list (map stop_left (callers s)) + sum_list (map worker_left (workers s))"

definition tm_work :: "timer \<Rightarrow> timer \<Rightarrow> bool" where
  \<comment> \<open>the steps of the caller in \<open>stop\<close>, but for a wake-up without a notification, and of the workers\<close>
  "tm_work s s' \<longleftrightarrow> callers s \<noteq> [C_idle] \<and>
     (callers s \<noteq> [Stop_asleep] \<and> (\<exists>c. tm_next (Caller 0) c s = Some s') \<or> (\<exists>j c. tm_next (Worker j) c s = Some s'))"

definition stopping :: "timer \<Rightarrow> bool" where
  "stopping s \<longleftrightarrow> tm_inv s \<and> \<not> spawn_failed s
     \<and> (\<exists>c. callers s = [c] \<and> c \<in> {Stop_lock, Stop_check, Stop_asleep, Stop_reset, Stop_unlock, C_idle} \<and> (c = C_idle \<longrightarrow> expired s))"

lemma stopping_flags:
  assumes "stopping s" "callers s \<noteq> [C_idle]"
  shows "try_to_expire s \<or> callers s = [Stop_unlock]"
  using assms by (auto simp: stopping_def tm_inv_def)

lemma worker_left_update:
  "j < length (workers s) \<Longrightarrow> worker_left w < worker_left (workers s ! j)
    \<Longrightarrow> sum_list (map worker_left ((workers s)[j := w])) < sum_list (map worker_left (workers s))"
  using sum_list_update [of j "workers s" worker_left w] by linarith

lemma notify_stop_left:
  assumes "tm_notify c s = Some s'" "callers s = [k]"
  shows "workers s' = workers s \<and> sum_list (map stop_left (callers s')) \<le> sum_list (map stop_left (callers s)) + 4
    \<and> expired s' = expired s \<and> spawn_failed s' = spawn_failed s \<and> (callers s' = [k] \<or> callers s' = [Stop_lock] \<and> k = Stop_asleep)"
  using assms by (auto simp: tm_notify_def split: tm_choice.splits if_splits)

lemma worker_work_shrinks:
  assumes "stopping s" "callers s \<noteq> [C_idle]" "tm_next (Worker j) c s = Some s'"
  shows "tm_effort s' < tm_effort s"
proof -
  obtain k where k: "callers s = [k]" using assms(1) by (auto simp: stopping_def)
  have j: "j < length (workers s)" using assms(3) by (auto split: if_splits)
  have t: "try_to_expire s" if "workers s ! j = W_test"
  proof (rule ccontr)
    assume "\<not> try_to_expire s"
    then have "callers s = [Stop_unlock]" using stopping_flags [OF assms(1,2)] by blast
    moreover have "looping (workers s ! j)" using that by (simp add: looping_def)
    ultimately show False using assms(1) j by (auto simp: stopping_def tm_inv_def none_loops_def)
  qed
  show ?thesis
  proof (cases "workers s ! j")
    case W_notify
    then obtain s1 where s1: "tm_notify c s = Some s1" "s' = worker_to j W_unlock s1" using assms(3) j by auto
    then show ?thesis
      using notify_stop_left [OF s1(1) k] sum_list_update [OF j, of worker_left W_unlock] W_notify by (simp add: tm_effort_def)
  qed (use assms(3) j t in \<open>auto simp: tm_effort_def intro!: worker_left_update split: if_splits\<close>)
qed

lemma caller_work_shrinks:
  assumes "stopping s" "callers s \<noteq> [C_idle]" "callers s \<noteq> [Stop_asleep]" "tm_next (Caller 0) c s = Some s'"
  shows "tm_effort s' < tm_effort s"
proof -
  obtain k where "callers s = [k]" "k \<in> {Stop_lock, Stop_check, Stop_reset, Stop_unlock}"
    using assms(1-3) by (auto simp: stopping_def)
  then show ?thesis using assms(4) by (auto simp: tm_effort_def split: if_splits)
qed

lemma stopping_keeps:
  assumes "stopping s" "tm_work s s'"
  shows "stopping s'"
proof -
  obtain w c where w: "tm_next w c s = Some s'" "callers s \<noteq> [C_idle]" "w = Caller 0 \<or> (\<exists>j. w = Worker j)"
    using assms(2) unfolding tm_work_def by blast
  have i: "tm_inv s'" using assms(1) w(1) tm_next_inv by (auto simp: stopping_def)
  obtain k where k: "callers s = [k]" "k \<in> {Stop_lock, Stop_check, Stop_asleep, Stop_reset, Stop_unlock}"
    using assms(1) w(2) by (auto simp: stopping_def)
  have e: "k = Stop_unlock \<Longrightarrow> expired s" using assms(1) k by (auto simp: stopping_def tm_inv_def)
  have f: "\<not> spawn_failed s" using assms(1) by (simp add: stopping_def)
  from w(3) show ?thesis
  proof
    assume "w = Caller 0"
    then show ?thesis using w(1) k e f i by (auto simp: stopping_def split: if_splits)
  next
    assume "\<exists>j. w = Worker j"
    then obtain j where j: "w = Worker j" "j < length (workers s)" using w(1) by (auto split: if_splits)
    have "callers s' = [k] \<or> callers s' = [Stop_lock]" "\<not> spawn_failed s'"
      using w(1) j k(1) f notify_stop_left [OF _ k(1)] by (cases "workers s ! j"; fastforce split: if_splits)+
    then show ?thesis using i k(2) by (auto simp: stopping_def)
  qed
qed

lemma stopping_not_stuck:
  assumes "stopping s"
  shows "callers s = [C_idle] \<or> (\<exists>s'. tm_work s s')"
proof (cases "callers s = [C_idle]")
  case False
  then obtain k where k: "callers s = [k]" "k \<in> {Stop_lock, Stop_check, Stop_asleep, Stop_reset, Stop_unlock}"
    using assms by (auto simp: stopping_def)
  show ?thesis
  proof (cases "k = Stop_asleep \<or> k = Stop_lock \<and> tm_mutex s \<noteq> None")
    case True
    then obtain j where j: "only_loops j s" "with_worker k (workers s ! j) (expired s) (try_to_expire s)"
      "tm_mutex s = tm_holder k (Some (j, workers s ! j))"
      using assms k by (auto simp: stopping_def tm_inv_def tm_holder_def)
    have l: "j < length (workers s)" "looping (workers s ! j)" using j(1) by (auto simp: only_loops_def)
    have "\<exists>c s'. tm_notify c s = Some s'"
    proof (cases "k = Stop_asleep")
      case True
      then have "tm_notify (Tm_wake 0) s = Some (caller_to 0 Stop_lock s)" using k(1) by (simp add: tm_notify_def)
      then show ?thesis by blast
    next
      case False
      then have "tm_notify Tm_go s = Some s" using k(1) by (simp add: tm_notify_def)
      then show ?thesis by blast
    qed
    then have "\<exists>c s'. tm_next (Worker j) c s = Some s'"
      using True j l by (cases "workers s ! j") (auto simp: looping_def tm_holder_def split: if_splits)
    then show ?thesis using False unfolding tm_work_def by blast
  next
    case False
    then have "\<exists>s'. tm_next (Caller 0) Tm_go s = Some s'" using k by auto
    moreover have "callers s \<noteq> [Stop_asleep]" "callers s \<noteq> [C_idle]" using False k by auto
    ultimately show ?thesis unfolding tm_work_def by blast
  qed
qed blast

interpretation tw: progressing stopping tm_work tm_effort "\<lambda>s. callers s = [C_idle]"
proof unfold_locales
  fix s s'
  show "stopping s \<Longrightarrow> tm_work s s' \<Longrightarrow> stopping s'" by (rule stopping_keeps)
  show "stopping s \<Longrightarrow> tm_work s s' \<Longrightarrow> tm_effort s' < tm_effort s"
    using worker_work_shrinks caller_work_shrinks unfolding tm_work_def by blast
  show "stopping s \<Longrightarrow> callers s = [C_idle] \<or> (\<exists>s'. tm_work s s')" by (rule stopping_not_stuck)
qed

lemma tm_effort_bound: "callers s = [k] \<Longrightarrow> tm_effort s \<le> 4 + 11 * length (workers s)"
proof -
  have "worker_left w \<le> 11" for w by (cases w) auto
  then have "sum_list (map worker_left ws) \<le> 11 * length ws" for ws by (induction ws) (auto intro: add_le_mono)
  moreover have "stop_left k \<le> 4" by (cases k) auto
  ultimately show "callers s = [k] \<Longrightarrow> tm_effort s \<le> 4 + 11 * length (workers s)" by (simp add: tm_effort_def add_le_mono)
qed

text \<open>
  C25. For a timer that one thread starts and stops, and as long as no creation of a worker has failed,
  \<open>stop\<close> returns: once it has set \<open>_try_to_expire\<close>, every schedule of the thread in \<open>stop\<close> and of
  the workers ends after at most four statements of \<open>stop\<close> and eleven of each worker, no wake-up
  is lost, and then \<open>stop\<close> has returned, the flags are reset and no worker is in its loop. (The
  thread must not be the worker itself: \<open>stop\<close> is not called from the task. With two controlling
  threads a worker can outlive \<open>stop\<close>: \<open>racing_starts_leave_worker\<close> below.)
\<close>

theorem stop_returns:
  assumes "reach tm_step (Timer 1) s" "\<not> spawn_failed s" "callers s = [Stop_lock]"
  shows "(\<forall>k s'. (tm_work ^^ k) s s' \<longrightarrow> k \<le> 4 + 11 * length (workers s))
    \<and> (\<forall>s'. tm_work\<^sup>*\<^sup>* s s' \<and> \<not> (\<exists>s''. tm_work s' s'') \<longrightarrow>
      callers s' = [C_idle] \<and> expired s' \<and> \<not> try_to_expire s' \<and> \<not> list_ex looping (workers s'))"
proof -
  have i: "stopping s" using t1.reach_inv [OF assms(1)] assms(2,3) by (simp add: stopping_def)
  have "k \<le> 4 + 11 * length (workers s)" if "(tm_work ^^ k) s s'" for k s'
    using tw.work_bounded [OF that i] tm_effort_bound [OF assms(3)] by simp
  moreover have "callers s' = [C_idle] \<and> expired s' \<and> \<not> try_to_expire s' \<and> \<not> list_ex looping (workers s')"
    if "tm_work\<^sup>*\<^sup>* s s'" "\<not> (\<exists>s''. tm_work s' s'')" for s'
  proof -
    have i': "stopping s'" by (rule tw.work_inv [OF that(1) i])
    then have "callers s' = [C_idle]" using tw.not_stuck that(2) by blast
    then show ?thesis using i' by (auto simp: stopping_def tm_inv_def none_loops_def list_ex_length)
  qed
  ultimately show ?thesis by blast
qed

theorem stop_returns_witness:
  "\<exists>s. run_steps tm_next (take 10 start_stop) (Timer 1) = Some s \<and> callers s = [Stop_lock] \<and> \<not> (tm_work ^^ 16) s s"
proof -
  have "map_option (\<lambda>s. (workers s, callers s, spawn_failed s)) (run_steps tm_next (take 10 start_stop) (Timer 1))
      = Some ([W_task], [Stop_lock], False)" by code_simp
  then obtain s where s: "run_steps tm_next (take 10 start_stop) (Timer 1) = Some s" "workers s = [W_task]" "callers s = [Stop_lock]"
    "\<not> spawn_failed s" by auto
  have "reach tm_step (Timer 1) s" by (rule tm_run_reach [OF s(1) reach.start])
  from stop_returns [OF this s(4,3)] have "\<not> (tm_work ^^ 16) s s" using s(2) by auto
  then show ?thesis using s by blast
qed

subsection \<open>Uses that go wrong\<close>

definition racing_starts :: "(who \<times> tm_choice) list" where
  \<comment> \<open>two threads test \<open>_expired\<close> before either clears it; then one of them stops the timer\<close>
  "racing_starts = [(Caller 0, Call_start), (Caller 1, Call_start), (Caller 0, Tm_go), (Caller 1, Tm_go),
     (Caller 0, Tm_go), (Caller 1, Tm_go), (Caller 0, Tm_go), (Caller 1, Tm_go), (Worker 0, Tm_go), (Worker 1, Tm_go),
     (Caller 0, Call_stop), (Caller 0, Tm_go), (Caller 0, Tm_go), (Caller 0, Tm_go),
     (Worker 0, Tm_go), (Worker 0, Tm_go), (Worker 0, Tm_go), (Worker 0, Tm_go), (Worker 0, Tm_go), (Worker 0, Tm_go), (Worker 0, Tm_go),
     (Caller 0, Tm_go), (Caller 0, Tm_go), (Caller 0, Tm_go), (Caller 0, Tm_go),
     (Worker 1, Tm_go), (Worker 1, Tm_go), (Worker 1, Tm_go), (Worker 1, Tm_go)]"

text \<open>
  The test and the store of \<open>_expired\<close> in \<open>start\<close> are two steps: two threads that start the
  timer at the same time get two workers, and \<open>stop\<close> ends only one of them. Afterwards
  \<open>is_running\<close> is false while the other worker goes on running the task.
\<close>

theorem racing_starts_leave_worker:
  "\<exists>s. run_steps tm_next racing_starts (Timer 2) = Some s \<and> reach tm_step (Timer 2) s
     \<and> callers s = [C_idle, C_idle] \<and> \<not> is_running s \<and> workers s = [W_done, W_task] \<and> ran s = [0, 1]"
proof -
  have "map_option (\<lambda>s. (callers s, expired s, workers s, ran s)) (run_steps tm_next racing_starts (Timer 2))
      = Some ([C_idle, C_idle], True, [W_done, W_task], [0, 1])" by code_simp
  then obtain s where s: "run_steps tm_next racing_starts (Timer 2) = Some s" "callers s = [C_idle, C_idle]" "expired s"
    "workers s = [W_done, W_task]" "ran s = [0, 1]" by auto
  have "reach tm_step (Timer 2) s" by (rule tm_run_reach [OF s(1) reach.start])
  then show ?thesis using s by (auto simp: is_running_def)
qed

definition abandoned :: "timer \<Rightarrow> bool" where
  "abandoned s \<longleftrightarrow> \<not> expired s \<and> list_all (\<lambda>w. \<not> looping w) (workers s) \<and> (\<exists>c. callers s = [c] \<and>
     (if try_to_expire s then c \<in> {Stop_lock, Stop_check, Stop_asleep} else c \<in> {C_idle, Start_test, Stop_expired, Stop_trying, Stop_mark}))"

lemma abandoned_step:
  assumes "abandoned s" "tm_next w c s = Some s'"
  shows "abandoned s'"
proof (cases w)
  case (Caller i)
  obtain k where k: "callers s = [k]" using assms(1) by (auto simp: abandoned_def)
  then have "i = 0" using assms(2) Caller by (auto split: if_splits)
  then show ?thesis
    using assms Caller k by (cases k; cases c) (auto simp: abandoned_def looping_def split: if_splits)
next
  case (Worker j)
  then have j: "j < length (workers s)" using assms(2) by (auto split: if_splits)
  then have "\<not> looping (workers s ! j)" using assms(1) by (simp add: abandoned_def list_all_length)
  then obtain v where v: "workers s' = (workers s)[j := v]" "\<not> looping v" "callers s' = callers s" "expired s' = expired s"
    "try_to_expire s' = try_to_expire s" using once_step assms(2) Worker by blast
  have "list_all (\<lambda>w. \<not> looping w) (workers s')"
    using assms(1) v(1,2) by (auto simp: abandoned_def list_all_iff dest: set_update_subset_insert [THEN subsetD])
  then show ?thesis using assms(1) v(3-) by (simp add: abandoned_def)
qed

interpretation tc: invariant_of "Timer_copy 1 ((Timer 1)\<lparr>expired := False\<rparr>)" tm_step abandoned
proof
  show "abandoned (Timer_copy 1 ((Timer 1)\<lparr>expired := False\<rparr>))" by (simp add: abandoned_def Timer_copy_def Timer_def)
qed (auto simp: tm_step_def intro: abandoned_step)

text \<open>
  A copy of a running timer cannot be stopped: the copy constructor copies the flags but there
  is no worker, so that \<open>_expired\<close> stays false for ever, \<open>start\<close> has no effect, and a call of
  \<open>stop\<close> (which the destructor makes) that has set \<open>_try_to_expire\<close> never returns.
\<close>

theorem copied_timer_never_stops:
  assumes "is_running r" "\<not> try_to_expire r" "reach tm_step (Timer_copy 1 r) s"
  shows "is_running s \<and> \<not> list_ex looping (workers s)
    \<and> (try_to_expire s \<longrightarrow> callers s \<in> {[Stop_lock], [Stop_check], [Stop_asleep]})"
proof -
  have "Timer_copy 1 r = Timer_copy 1 ((Timer 1)\<lparr>expired := False\<rparr>)"
    using assms(1,2) by (simp add: Timer_copy_def Timer_def is_running_def)
  then have "abandoned s" using tc.reach_inv assms(3) by simp
  then show ?thesis by (auto simp: abandoned_def is_running_def list_all_iff list_ex_iff split: if_splits)
qed

definition stop_copy :: "(who \<times> tm_choice) list" where
  "stop_copy = [(Caller 0, Call_stop), (Caller 0, Tm_go), (Caller 0, Tm_go), (Caller 0, Tm_go), (Caller 0, Tm_go), (Caller 0, Tm_go)]"

theorem copied_timer_never_stops_witness:
  "\<exists>r s. run_steps tm_next (take 4 start_stop) (Timer 1) = Some r \<and> run_steps tm_next stop_copy (Timer_copy 1 r) = Some s
     \<and> is_running s \<and> callers s = [Stop_asleep]"
proof -
  have "map_option (\<lambda>s. (expired s, try_to_expire s)) (run_steps tm_next (take 4 start_stop) (Timer 1)) = Some (False, False)"
    by code_simp
  then obtain r where r: "run_steps tm_next (take 4 start_stop) (Timer 1) = Some r" "is_running r" "\<not> try_to_expire r"
    by (auto simp: is_running_def)
  have "map_option callers (run_steps tm_next stop_copy (Timer_copy 1 ((Timer 1)\<lparr>expired := False\<rparr>))) = Some [Stop_asleep]"
    by code_simp
  moreover have "Timer_copy 1 r = Timer_copy 1 ((Timer 1)\<lparr>expired := False\<rparr>)"
    using r(2,3) by (simp add: Timer_copy_def Timer_def is_running_def)
  ultimately obtain s where s: "run_steps tm_next stop_copy (Timer_copy 1 r) = Some s" "callers s = [Stop_asleep]" by auto
  have "reach tm_step (Timer_copy 1 r) s" by (rule tm_run_reach [OF s(1) reach.start])
  from copied_timer_never_stops [OF r(2,3) this] show ?thesis using r s by blast
qed

end
