(* ===== verification/Encryptor.thy ===== *)
theory Encryptor
  imports Prelude
begin

text \<open>
  The class \<open>Encryptor\<close> of \<open>aes/encryptor.cpp\<close>: AES in CBC mode with PKCS#7 padding, on buffers
  of 1024 bytes, and the \<open>main\<close> of \<open>aes/main.cpp\<close>. The AES functions of Mbed TLS are not part of
  the repository: they are the parameter \<open>lib\<close>. A pointer argument is the list of the bytes that
  may be read through it. \<open>mem\<close> tells whether \<open>malloc\<close> succeeds.
\<close>

subsection \<open>The class\<close>

record 'a aes_lib =
  mbedtls_aes_init :: 'a
  mbedtls_aes_setkey_enc :: "'a \<Rightarrow> char list \<Rightarrow> int \<Rightarrow> int \<times> 'a"
  mbedtls_aes_setkey_dec :: "'a \<Rightarrow> char list \<Rightarrow> int \<Rightarrow> int \<times> 'a"
  mbedtls_aes_crypt_cbc :: "'a \<Rightarrow> bool \<Rightarrow> char list \<Rightarrow> char list \<Rightarrow> int \<times> char list \<times> char list"

record 'a encryptor =
  m_aescontext :: 'a
  m_encrypt :: bool
  m_original_iv :: "char list"
  m_operating_iv :: "char list"
  m_encryption_key :: "char list"

definition IV_SIZE :: nat where "IV_SIZE = 16"
definition ENCRYPTION_KEY_SIZE :: int where "ENCRYPTION_KEY_SIZE = 128"
definition ENCRYPTION_KEY_SIZE_IN_BYTES :: nat where "ENCRYPTION_KEY_SIZE_IN_BYTES = nat (ENCRYPTION_KEY_SIZE div 8)"

definition Encryptor :: "'a \<Rightarrow> char list \<Rightarrow> char list \<Rightarrow> 'a encryptor" where
  \<comment> \<open>the context, the operating vector and the key are not initialised: \<open>c\<close>, \<open>iv\<close> and \<open>k\<close>\<close>
  "Encryptor c iv k = \<lparr>m_aescontext = c, m_encrypt = True,
     m_original_iv = map chr [0xb2, 0x4b, 0xf2, 0xf7, 0x7a, 0xc5, 0xec, 0x0c, 0x5e, 0x1f, 0x4d, 0xc1, 0xae, 0x46, 0x5e, 0x75],
     m_operating_iv = iv, m_encryption_key = k\<rparr>"

definition initialize :: "'a aes_lib \<Rightarrow> bool \<Rightarrow> char list \<Rightarrow> 'a encryptor \<Rightarrow> (int \<times> 'a encryptor) res" where
  "initialize lib encrypt key e =
     rbind (read_bytes key 0 (int ENCRYPTION_KEY_SIZE_IN_BYTES)) (\<lambda>k.
     let (ret, c) = (if encrypt then mbedtls_aes_setkey_enc lib (mbedtls_aes_init lib) k ENCRYPTION_KEY_SIZE
                     else mbedtls_aes_setkey_dec lib (mbedtls_aes_init lib) k ENCRYPTION_KEY_SIZE);
         e1 = e\<lparr>m_aescontext := c, m_encrypt := encrypt, m_encryption_key := k\<rparr> in
     if ret \<noteq> 0 then Inr (ret, e1)
     else Inr (ret, e1\<lparr>m_operating_iv := take IV_SIZE (m_original_iv e)\<rparr>))"

definition strlen_buf :: "char list \<Rightarrow> int res" where
  \<comment> \<open>\<open>strlen\<close> on an array: it must find a terminator there\<close>
  "strlen_buf b = (if NUL \<in> set b then Inr (int (length (cstr b))) else Inl BadAccess)"

record enc_out =
  output_buf :: "char list option"
  out_data_len :: int
  leaked :: bool

definition no_out :: enc_out where
  "no_out = \<lparr>output_buf = None, out_data_len = 0, leaked = False\<rparr>"

definition encrypt_padded :: "'a aes_lib \<Rightarrow> char list \<Rightarrow> char list \<Rightarrow> int \<Rightarrow> 'a encryptor \<Rightarrow> (enc_out \<times> 'a encryptor) res" where
  \<comment> \<open>the branch that encrypts; \<open>input_str\<close> holds the \<open>size\<close> bytes of the input, and \<open>%s\<close> prints
      \<open>input_buf\<close> up to its terminator\<close>
  "encrypt_padded lib input_buf input_str sz e =
     (let pad = 16 - sz mod 16; enc_len = sz + pad in
      rbind (write_bytes input_str sz (replicate (nat pad) (chr pad))) (\<lambda>input_str.
      rbind (strlen_buf input_buf) (\<lambda>_.
      let (ret, iv, out) = mbedtls_aes_crypt_cbc lib (m_aescontext e) True (m_operating_iv e) (take (nat enc_len) input_str) in
      if ret \<noteq> 0 then Inr (no_out\<lparr>leaked := True\<rparr>, e\<lparr>m_operating_iv := iv\<rparr>)
      else rbind (write_bytes (replicate 1024 NUL) 0 out) (\<lambda>out_arr.
           rbind (read_bytes out_arr 0 enc_len) (\<lambda>d.
           rbind (write_bytes (replicate 1024 NUL) 0 d) (\<lambda>output_data.
           rbind (strlen_buf output_data) (\<lambda>_.
           Inr (\<lparr>output_buf = Some output_data, out_data_len = enc_len, leaked = False\<rparr>, e\<lparr>m_operating_iv := iv\<rparr>))))))))"

definition decrypt_padded :: "'a aes_lib \<Rightarrow> char list \<Rightarrow> int \<Rightarrow> 'a encryptor \<Rightarrow> (enc_out \<times> 'a encryptor) res" where
  "decrypt_padded lib input_buf sz e =
     rbind (read_bytes input_buf 0 sz) (\<lambda>x.
     let (ret, iv, out) = mbedtls_aes_crypt_cbc lib (m_aescontext e) False (m_operating_iv e) x in
     if ret \<noteq> 0 then Inr (no_out\<lparr>leaked := True\<rparr>, e\<lparr>m_operating_iv := iv\<rparr>)
     else rbind (write_bytes (replicate 1024 NUL) 0 out) (\<lambda>output_data.
          rbind (strlen_buf output_data) (\<lambda>len.
          rbind (peek output_data (len - 1)) (\<lambda>p.
          let pad = code p in
          rbind (write_bytes output_data (len - pad) (replicate (nat pad) NUL)) (\<lambda>output_data.
          Inr (\<lparr>output_buf = Some output_data, out_data_len = len - pad, leaked = False\<rparr>, e\<lparr>m_operating_iv := iv\<rparr>))))))"

definition encrypt_block :: "'a aes_lib \<Rightarrow> bool \<Rightarrow> bool \<Rightarrow> char list \<Rightarrow> int \<Rightarrow> 'a encryptor \<Rightarrow> (int \<times> enc_out \<times> 'a encryptor) res" where
  "encrypt_block lib mem encrypt input_buf sz e =
     (if \<not> mem then Inl BadAccess else
      rbind (read_bytes input_buf 0 sz) (\<lambda>x.
      rbind (write_bytes (replicate 1024 NUL) 0 x) (\<lambda>input_str.
      rbind (if encrypt then encrypt_padded lib input_buf input_str sz e else decrypt_padded lib input_buf sz e) (\<lambda>(r, e1).
      Inr (0, r, e1)))))"

definition aes_text :: "char list" where "aes_text = ''12345678765432112121''"

definition aes_main :: "'a aes_lib \<Rightarrow> bool \<Rightarrow> 'a encryptor \<Rightarrow> 'a encryptor \<Rightarrow> (int \<times> char list) res" where
  "aes_main lib mem e1 e2 =
     rbind (initialize lib True (''12345678'' @ [NUL]) e1) (\<lambda>(ret, e1).
     if ret \<noteq> 0 then Inr (- 1, []) else
     rbind (encrypt_block lib mem True (aes_text @ [NUL]) (int (length aes_text)) e1) (\<lambda>(ret, r, e1).
     if ret \<noteq> 0 then Inr (- 1, []) else
     rbind (initialize lib False (''12345678'' @ [NUL]) e2) (\<lambda>(ret, e2).
     if ret \<noteq> 0 then Inr (- 1, []) else
     case output_buf r of None \<Rightarrow> Inl BadAccess | Some c \<Rightarrow>
     rbind (encrypt_block lib mem False c (out_data_len r) e2) (\<lambda>(ret, r2, e2).
     if ret \<noteq> 0 then Inr (- 1, []) else
     case output_buf r2 of None \<Rightarrow> Inl BadAccess | Some t \<Rightarrow>
     rbind (strlen_buf t) (\<lambda>n. Inr (0, cstr t))))))"

subsection \<open>Encryption and decryption\<close>

definition aes_documented :: "'a aes_lib \<Rightarrow> bool" where
  \<comment> \<open>a key of 16 bytes is accepted, and CBC with that key and vector is undone by its inverse\<close>
  "aes_documented lib \<longleftrightarrow> (\<forall>key. length key = 16 \<longrightarrow>
     (\<exists>ce cd. mbedtls_aes_setkey_enc lib (mbedtls_aes_init lib) key 128 = (0, ce)
        \<and> mbedtls_aes_setkey_dec lib (mbedtls_aes_init lib) key 128 = (0, cd)
        \<and> (\<forall>iv x. length iv = 16 \<and> 16 dvd length x \<longrightarrow>
            (\<exists>y iv1 iv2. mbedtls_aes_crypt_cbc lib ce True iv x = (0, iv1, y) \<and> length y = length x
               \<and> mbedtls_aes_crypt_cbc lib cd False iv y = (0, iv2, x)))))"

definition padded :: "char list \<Rightarrow> char list" where
  "padded t = t @ replicate (16 - length t mod 16) (chr (int (16 - length t mod 16)))"

lemma int_pad: "16 - int n mod 16 = int (16 - n mod 16)"
  by (simp add: of_nat_diff zmod_int)

lemma padded_length: "16 dvd length (padded t)" "length t < length (padded t)" "length (padded t) = length t + (16 - length t mod 16)"
proof -
  have "length t + (16 - length t mod 16) = 16 * (length t div 16 + 1)"
    by presburger
  then show "16 dvd length (padded t)" by (simp add: padded_def)
  show "length t < length (padded t)" by (simp add: padded_def)
  show "length (padded t) = length t + (16 - length t mod 16)" by (simp add: padded_def)
qed

lemma initialize_runs:
  assumes "mbedtls_aes_setkey_enc lib (mbedtls_aes_init lib) key 128 = (0, ce)"
    and "mbedtls_aes_setkey_dec lib (mbedtls_aes_init lib) key 128 = (0, cd)" "length key = 16"
  shows "initialize lib b key e = Inr (0, e\<lparr>m_aescontext := (if b then ce else cd), m_encrypt := b, m_encryption_key := key,
     m_operating_iv := take 16 (m_original_iv e)\<rparr>)"
  using assms read_bytes_all [of key]
  by (simp add: initialize_def ENCRYPTION_KEY_SIZE_def ENCRYPTION_KEY_SIZE_IN_BYTES_def IV_SIZE_def)

lemma write_first: "length d \<le> 1024 \<Longrightarrow> write_bytes (replicate 1024 NUL) 0 d = Inr (d @ replicate (1024 - length d) NUL)"
  by (simp add: write_bytes_def)

lemma strlen_buf_terminated: "strlen_buf (d @ replicate (Suc n) NUL) = Inr (int (length (cstr d)))"
  using cstr_append_NUL_same [of d "replicate n NUL"] by (simp add: strlen_buf_def)

lemma padded_write:
  assumes "length (padded t) \<le> 1024"
  shows "write_bytes (t @ replicate (1024 - length t) NUL) (int (length t))
      (replicate (nat (16 - int (length t) mod 16)) (chr (16 - int (length t) mod 16)))
    = Inr (padded t @ replicate (1024 - length (padded t)) NUL)"
proof -
  define p where "p = 16 - length t mod 16"
  have "p \<le> 1024 - length t" "length (padded t) = length t + p" "padded t = t @ replicate p (chr (int p))"
    using assms padded_length(3) [of t] by (auto simp: p_def padded_def)
  then show ?thesis
    unfolding int_pad nat_int p_def [symmetric]
    by (subst write_bytes_append) simp_all
qed

lemma encrypt_block_runs:
  assumes "mbedtls_aes_crypt_cbc lib (m_aescontext e) True (m_operating_iv e) (padded t) = (0, iv, y)"
    and "length y = length (padded t)" "length (padded t) < 1024" "NUL \<in> set rest"
  shows "encrypt_block lib True True (t @ rest) (int (length t)) e
    = Inr (0, \<lparr>output_buf = Some (y @ replicate (1024 - length y) NUL), out_data_len = int (length y), leaked = False\<rparr>, e\<lparr>m_operating_iv := iv\<rparr>)"
proof -
  have l: "length t < 1024" using assms(3) padded_length(2) [of t] by linarith
  have r: "read_bytes (t @ rest) 0 (int (length t)) = Inr t" by (simp add: read_bytes_def)
  have e: "int (length t) + (16 - int (length t) mod 16) = int (length (padded t))"
    by (simp add: int_pad padded_length(3))
  obtain n where n: "1024 - length (padded t) = Suc n" using assms(3) by (cases "1024 - length (padded t)") auto
  have s: "\<exists>k. strlen_buf (y @ replicate (1024 - length y) NUL) = Inr k"
    using strlen_buf_terminated [of y n] n assms(2) by simp
  have p: "\<exists>k. strlen_buf (t @ rest) = Inr k" using assms(4) by (simp add: strlen_buf_def)
  show ?thesis
    using assms l r e s n p padded_write [of t] write_first [of y] write_first [of t]
    by (auto simp: encrypt_block_def encrypt_padded_def Let_def read_bytes_def)
qed

lemma decrypt_block_starts:
  assumes "mbedtls_aes_crypt_cbc lib (m_aescontext e) False (m_operating_iv e) y = (0, iv, x)" "length x < 1024" "length y < 1024"
  shows "encrypt_block lib True False (y @ rest) (int (length y)) e =
    (let len = int (length (cstr x)); b = x @ replicate (1024 - length x) NUL in
     rbind (peek b (len - 1)) (\<lambda>p.
     rbind (write_bytes b (len - code p) (replicate (nat (code p)) NUL)) (\<lambda>b'.
     Inr (0, \<lparr>output_buf = Some b', out_data_len = len - code p, leaked = False\<rparr>, e\<lparr>m_operating_iv := iv\<rparr>))))"
proof -
  have r: "read_bytes (y @ rest) 0 (int (length y)) = Inr y" by (simp add: read_bytes_def)
  obtain n where n: "1024 - length x = Suc n" using assms(2) by (cases "1024 - length x") auto
  have "strlen_buf (x @ replicate (1024 - length x) NUL) = Inr (int (length (cstr x)))"
    using strlen_buf_terminated [of x n] n by simp
  then show ?thesis
    using assms r write_first [of x] write_first [of y]
    by (simp add: encrypt_block_def decrypt_padded_def Let_def rbind_assoc)
qed

lemma peek_last: "u \<noteq> [] \<Longrightarrow> peek (u @ r) (int (length u) - 1) = Inr (last u)"
proof -
  assume "u \<noteq> []"
  moreover from this have "nat (int (length u) - 1) = length u - 1" by (simp add: nat_diff_distrib)
  ultimately show ?thesis by (simp add: peek_def nth_append last_conv_nth)
qed

lemma padded_no_NUL: "NUL \<notin> set t \<Longrightarrow> cstr (padded t) = padded t"
proof -
  define p where "p = 16 - length t mod 16"
  have "0 < p" "p < 256" by (simp_all add: p_def)
  then have "chr (int p) \<noteq> NUL" using code_chr [of "int p"] by (auto simp: code_def)
  then show "NUL \<notin> set t \<Longrightarrow> cstr (padded t) = padded t" by (auto simp: padded_def p_def intro!: cstr_no_NUL)
qed

lemma decrypt_block_runs:
  assumes "mbedtls_aes_crypt_cbc lib (m_aescontext e) False (m_operating_iv e) y = (0, iv, padded t)"
    and "length (padded t) < 1024" "length y < 1024" "NUL \<notin> set t"
  shows "encrypt_block lib True False (y @ rest) (int (length y)) e
    = Inr (0, \<lparr>output_buf = Some (t @ replicate (1024 - length t) NUL), out_data_len = int (length t), leaked = False\<rparr>, e\<lparr>m_operating_iv := iv\<rparr>)"
proof -
  define p where "p = 16 - length t mod 16"
  have p: "0 < p" "p < 256" "padded t = t @ replicate p (chr (int p))" by (simp_all add: p_def padded_def)
  let ?b = "padded t @ replicate (1024 - length (padded t)) NUL"
  have "peek ?b (int (length (padded t)) - 1) = Inr (chr (int p))"
    using peek_last [of "padded t"] p by (simp add: last_replicate)
  moreover have "code (chr (int p)) = int p" using p(2) by (simp add: code_chr)
  moreover have "write_bytes ?b (int (length (padded t)) - int p) (replicate p NUL) = Inr (t @ replicate (1024 - length t) NUL)"
  proof -
    have "int (length (padded t)) - int p = int (length t)" by (simp add: p(3))
    moreover have "write_bytes (t @ (replicate p (chr (int p)) @ replicate (1024 - length (padded t)) NUL)) (int (length t)) (replicate p NUL)
        = Inr (t @ replicate p NUL @ replicate (1024 - length (padded t)) NUL)"
      by (subst write_bytes_append) simp_all
    moreover have "replicate p NUL @ replicate (1024 - length (padded t)) NUL = replicate (1024 - length t) NUL"
      using assms(2) p(3) by (simp add: replicate_add [symmetric])
    ultimately show ?thesis by (simp add: p(3))
  qed
  ultimately show ?thesis
    unfolding decrypt_block_starts [OF assms(1,2,3)] padded_no_NUL [OF assms(4)] Let_def by (simp add: p(3))
qed

lemma unterminated_input_overread:
  \<comment> \<open>the message reads on until it finds a zero byte\<close>
  assumes "NUL \<notin> set t" "length t \<le> 1007"
  shows "encrypt_block lib True True t (int (length t)) e = Inl BadAccess"
proof -
  have "length (padded t) < 1024" unfolding padded_length(3) using assms(2) by presburger
  then show ?thesis
    using assms padded_write [of t] write_first [of t]
    by (auto simp: encrypt_block_def encrypt_padded_def Let_def read_bytes_def strlen_buf_def)
qed

text \<open>
  C39. A zero-terminated text of at most 1007 bytes before its terminator survives encryption and decryption under a key
  of 16 bytes, when the library behaves as documented: the ciphertext is the text rounded up to
  the next multiple of 16 that is greater, and what decryption returns is the text, terminated,
  with its length.
\<close>

theorem encryptor_round_trip:
  assumes "aes_documented lib" "length key = 16" "NUL \<notin> set t" "length t \<le> 1007"
  shows "\<exists>e1 e2 c e1' b e2'. initialize lib True key (Encryptor c1 iv1 k1) = Inr (0, e1)
    \<and> encrypt_block lib True True (t @ [NUL]) (int (length t)) e1
        = Inr (0, \<lparr>output_buf = Some c, out_data_len = 16 * (int (length t) div 16 + 1), leaked = False\<rparr>, e1')
    \<and> initialize lib False key (Encryptor c2 iv2 k2) = Inr (0, e2)
    \<and> encrypt_block lib True False c (16 * (int (length t) div 16 + 1)) e2
        = Inr (0, \<lparr>output_buf = Some b, out_data_len = int (length t), leaked = False\<rparr>, e2')
    \<and> cstr b = t"
proof -
  obtain ce cd where k: "mbedtls_aes_setkey_enc lib (mbedtls_aes_init lib) key 128 = (0, ce)"
    "mbedtls_aes_setkey_dec lib (mbedtls_aes_init lib) key 128 = (0, cd)"
    and law: "\<forall>iv x. length iv = 16 \<and> 16 dvd length x \<longrightarrow> (\<exists>y i1 i2. mbedtls_aes_crypt_cbc lib ce True iv x = (0, i1, y)
      \<and> length y = length x \<and> mbedtls_aes_crypt_cbc lib cd False iv y = (0, i2, x))"
    using assms(1,2) unfolding aes_documented_def by metis
  let ?e1 = "(Encryptor c1 iv1 k1)\<lparr>m_aescontext := ce, m_encrypt := True, m_encryption_key := key, m_operating_iv := take 16 (m_original_iv (Encryptor c1 iv1 k1))\<rparr>"
  let ?e2 = "(Encryptor c2 iv2 k2)\<lparr>m_aescontext := cd, m_encrypt := False, m_encryption_key := key, m_operating_iv := take 16 (m_original_iv (Encryptor c2 iv2 k2))\<rparr>"
  have iv: "m_operating_iv ?e1 = m_operating_iv ?e2" "length (m_operating_iv ?e2) = 16" by (simp_all add: Encryptor_def)
  obtain y i1 i2 where y: "mbedtls_aes_crypt_cbc lib ce True (m_operating_iv ?e2) (padded t) = (0, i1, y)" "length y = length (padded t)"
    "mbedtls_aes_crypt_cbc lib cd False (m_operating_iv ?e2) y = (0, i2, padded t)"
    using law iv(2) padded_length(1) by metis
  have n: "length (padded t) < 1024" "int (length y) = 16 * (int (length t) div 16 + 1)"
  proof -
    have "length (padded t) = 16 * (length t div 16 + 1)" unfolding padded_length(3) by presburger
    then show "length (padded t) < 1024" "int (length y) = 16 * (int (length t) div 16 + 1)"
      using assms(4) y(2) by (simp_all add: zdiv_int)
  qed
  have "cstr (t @ replicate (1024 - length t) NUL) = t"
    using assms(3,4) cstr_append_NUL [OF assms(3)] by (cases "1024 - length t") auto
  moreover have "encrypt_block lib True True (t @ [NUL]) (int (length t)) ?e1
      = Inr (0, \<lparr>output_buf = Some (y @ replicate (1024 - length y) NUL), out_data_len = int (length y), leaked = False\<rparr>, ?e1\<lparr>m_operating_iv := i1\<rparr>)"
    using y(1,2) n(1) iv(1) by (intro encrypt_block_runs) simp_all
  moreover have "encrypt_block lib True False (y @ replicate (1024 - length y) NUL) (int (length y)) ?e2
      = Inr (0, \<lparr>output_buf = Some (t @ replicate (1024 - length t) NUL), out_data_len = int (length t), leaked = False\<rparr>, ?e2\<lparr>m_operating_iv := i2\<rparr>)"
    using y(2,3) n(1) assms(3) by (intro decrypt_block_runs) simp_all
  ultimately show ?thesis
    using initialize_runs [OF k assms(2), of True "Encryptor c1 iv1 k1"] initialize_runs [OF k assms(2), of False "Encryptor c2 iv2 k2"]
    unfolding n(2) by fastforce
qed

definition plain_lib :: "unit aes_lib" where
  \<comment> \<open>a library that satisfies the documented laws\<close>
  "plain_lib = \<lparr>mbedtls_aes_init = (), mbedtls_aes_setkey_enc = (\<lambda>c k n. (0, ())), mbedtls_aes_setkey_dec = (\<lambda>c k n. (0, ())),
     mbedtls_aes_crypt_cbc = (\<lambda>c enc iv x. (0, iv, rev x))\<rparr>"

lemma plain_lib_documented: "aes_documented plain_lib"
  by (simp add: aes_documented_def plain_lib_def)

theorem encryptor_round_trip_witness:
  "\<exists>c e b e'. encrypt_block plain_lib True False c 32 e
      = Inr (0, \<lparr>output_buf = Some b, out_data_len = 20, leaked = False\<rparr>, e') \<and> cstr b = aes_text"
proof -
  have "length (replicate 16 CHR ''k'') = 16" "NUL \<notin> set aes_text" "length aes_text \<le> 1007" "length aes_text = 20"
    by (simp_all add: aes_text_def)
  then show ?thesis
    using encryptor_round_trip [OF plain_lib_documented, of "replicate 16 CHR ''k''" aes_text "()" "[]" "[]" "()" "[]" "[]"] by auto
qed

text \<open>
  A text with a zero byte is not restored: decryption finds the padding through the first zero
  byte of the plaintext and not through its length. For a text whose first zero byte follows the
  nonempty text \<open>u\<close>, the byte before it is taken for the padding: decryption returns fewer than
  \<open>length u\<close> bytes as a success or, when that byte is greater than \<open>length u\<close>, writes before
  the start of the buffer; when the text begins with a zero byte it reads before the buffer.
\<close>

theorem zero_bytes_break_decryption:
  assumes "mbedtls_aes_crypt_cbc lib (m_aescontext e) False (m_operating_iv e) y = (0, iv, padded (u @ NUL # v))"
    and "length (padded (u @ NUL # v)) < 1024" "length y < 1024" "NUL \<notin> set u"
  shows "encrypt_block lib True False y (int (length y)) e = Inl BadAccess
    \<or> u \<noteq> [] \<and> (\<exists>b. encrypt_block lib True False y (int (length y)) e
        = Inr (0, \<lparr>output_buf = Some b, out_data_len = int (length u) - code (last u), leaked = False\<rparr>, e\<lparr>m_operating_iv := iv\<rparr>))
      \<and> int (length u) - code (last u) < int (length (u @ NUL # v))"
proof -
  let ?x = "padded (u @ NUL # v)"
  let ?b = "?x @ replicate (1024 - length ?x) NUL"
  have x: "cstr ?x = u" using assms(4) cstr_append_NUL by (simp add: padded_def)
  note d = decrypt_block_starts [OF assms(1-3), of "[]", simplified append_Nil2 x Let_def]
  show ?thesis
  proof (cases "u = []")
    case True
    then show ?thesis unfolding d by (simp add: peek_def)
  next
    case False
    have p: "peek ?b (int (length u) - 1) = Inr (last u)"
      using peek_last [OF False] by (simp add: padded_def)
    show ?thesis
    proof (cases "write_bytes ?b (int (length u) - code (last u)) (replicate (nat (code (last u))) NUL)")
      case (Inl er)
      then have "er = BadAccess" by (auto simp: write_bytes_def split: if_splits)
      then show ?thesis unfolding d using p Inl by simp
    next
      case (Inr b)
      then show ?thesis unfolding d using p False code_range [of "last u"] by simp
    qed
  qed
qed

theorem zero_bytes_break_decryption_witness:
  "\<exists>y e. length y = 16 \<and> (encrypt_block plain_lib True False y 16 e = Inl BadAccess
     \<or> (\<exists>b e'. encrypt_block plain_lib True False y 16 e = Inr (0, \<lparr>output_buf = Some b, out_data_len = 0, leaked = False\<rparr>, e')))"
proof -
  let ?e = "Encryptor () (replicate 16 NUL) (replicate 16 NUL)"
  let ?y = "rev (padded ([CHR 0x01] @ NUL # [CHR ''x'']))"
  have y: "length ?y = 16" by (simp add: padded_length(3))
  have "mbedtls_aes_crypt_cbc plain_lib (m_aescontext ?e) False (m_operating_iv ?e) ?y
      = (0, m_operating_iv ?e, padded ([CHR 0x01] @ NUL # [CHR ''x'']))" by (simp add: plain_lib_def)
  from zero_bytes_break_decryption [OF this] y show ?thesis
    by (intro exI [of _ ?y] exI [of _ ?e]) (auto simp: code_def)
qed

subsection \<open>Keys and sizes\<close>

lemma short_key_overread: "length key < 16 \<Longrightarrow> initialize lib b key e = Inl BadAccess"
  by (simp add: initialize_def read_bytes_def ENCRYPTION_KEY_SIZE_def ENCRYPTION_KEY_SIZE_IN_BYTES_def)

lemma aes_main_overreads: "aes_main lib mem e1 e2 = Inl BadAccess"
  \<comment> \<open>the key of \<open>main\<close> has eight characters\<close>
  by (simp add: aes_main_def short_key_overread)

end
