(* ===== verification/Hier_Mutex.thy ===== *)
theory Hier_Mutex
  imports Monitor "HOL-Library.Word"
begin

text \<open>
  The hierarchical mutex of \<open>C++11/Cpp-Concurrency-in-Action/chap3/3_8.cpp\<close>: a thread may lock a
  mutex only when its level is below the levels of the mutexes the thread has locked, and the
  current level of the thread is kept in a \<open>thread_local\<close> variable. The mutexes are numbered,
  \<open>lvl m\<close> is the level of mutex \<open>m\<close> (an \<open>unsigned long\<close>), and a step is one statement of one
  thread. \<open>held\<close> lists the mutexes a thread has locked, the latest first; it only serves to say
  that the mutexes are unlocked in the reverse order, as \<open>std::lock_guard\<close> does.
\<close>

type_synonym ulong = "64 word"

definition ULONG_MAX :: ulong where "ULONG_MAX = - 1"

datatype hpc =
    H_idle
  | Lock_check nat | Lock_wait nat | Lock_update nat
  | Try_check nat | Try_inner nat | Try_update nat
  | Unlock_restore nat | Unlock_inner nat

datatype hret = Locked nat | Try_locked nat | Try_failed nat | Violated nat | Unlocked nat

datatype hchoice = Call_lock nat | Call_try_lock nat | Call_unlock nat | H_go

record hm =
  internal_mutex :: "nat \<Rightarrow> nat option"
  previous_hierarchy_value :: "nat \<Rightarrow> ulong"
  this_thread_hierarchy_value :: "nat \<Rightarrow> ulong"
  hpcs :: "hpc list"
  held :: "nat \<Rightarrow> nat list"
  hrets :: "(nat \<times> hret) list"

definition hierarchical_mutexes :: "nat \<Rightarrow> hm" where
  "hierarchical_mutexes n = \<lparr>internal_mutex = (\<lambda>m. None), previous_hierarchy_value = (\<lambda>m. 0),
     this_thread_hierarchy_value = (\<lambda>t. ULONG_MAX), hpcs = replicate n H_idle, held = (\<lambda>t. []), hrets = []\<rparr>"

definition h_goto :: "nat \<Rightarrow> hpc \<Rightarrow> hm \<Rightarrow> hm" where
  "h_goto t p s = s\<lparr>hpcs := (hpcs s)[t := p]\<rparr>"

definition h_return :: "nat \<Rightarrow> hret \<Rightarrow> hm \<Rightarrow> hm" where
  "h_return t r s = h_goto t H_idle (s\<lparr>hrets := hrets s @ [(t, r)]\<rparr>)"

definition check_for_hierarchy_violation :: "(nat \<Rightarrow> ulong) \<Rightarrow> nat \<Rightarrow> nat \<Rightarrow> hpc \<Rightarrow> hm \<Rightarrow> hm" where
  "check_for_hierarchy_violation lvl t m p s =
     (if this_thread_hierarchy_value s t \<le> lvl m then h_return t (Violated m) s else h_goto t p s)"

definition update_hierarchy_value :: "(nat \<Rightarrow> ulong) \<Rightarrow> nat \<Rightarrow> nat \<Rightarrow> hm \<Rightarrow> hm" where
  "update_hierarchy_value lvl t m s =
     s\<lparr>previous_hierarchy_value := (previous_hierarchy_value s)(m := this_thread_hierarchy_value s t),
       this_thread_hierarchy_value := (this_thread_hierarchy_value s)(t := lvl m),
       held := (held s)(t := m # held s t)\<rparr>"

fun h_lock :: "(nat \<Rightarrow> ulong) \<Rightarrow> nat \<Rightarrow> hpc \<Rightarrow> hm \<Rightarrow> hm option" where
  "h_lock lvl t (Lock_check m) s = Some (check_for_hierarchy_violation lvl t m (Lock_wait m) s)"
| "h_lock lvl t (Lock_wait m) s =
     (if internal_mutex s m = None
      then Some (h_goto t (Lock_update m) (s\<lparr>internal_mutex := (internal_mutex s)(m := Some t)\<rparr>)) else None)"
| "h_lock lvl t (Lock_update m) s = Some (h_return t (Locked m) (update_hierarchy_value lvl t m s))"
| "h_lock lvl t p s = None"

fun h_try_lock :: "(nat \<Rightarrow> ulong) \<Rightarrow> nat \<Rightarrow> hpc \<Rightarrow> hm \<Rightarrow> hm option" where
  "h_try_lock lvl t (Try_check m) s = Some (check_for_hierarchy_violation lvl t m (Try_inner m) s)"
| "h_try_lock lvl t (Try_inner m) s =
     Some (if internal_mutex s m = None
       then h_goto t (Try_update m) (s\<lparr>internal_mutex := (internal_mutex s)(m := Some t)\<rparr>) else h_return t (Try_failed m) s)"
| "h_try_lock lvl t (Try_update m) s = Some (h_return t (Try_locked m) (update_hierarchy_value lvl t m s))"
| "h_try_lock lvl t p s = None"

fun h_unlock :: "nat \<Rightarrow> hpc \<Rightarrow> hm \<Rightarrow> hm option" where
  "h_unlock t (Unlock_restore m) s =
     Some (h_goto t (Unlock_inner m) (s\<lparr>this_thread_hierarchy_value := (this_thread_hierarchy_value s)(t := previous_hierarchy_value s m),
       held := (held s)(t := remove1 m (held s t))\<rparr>))"
| "h_unlock t (Unlock_inner m) s = Some (h_return t (Unlocked m) (s\<lparr>internal_mutex := (internal_mutex s)(m := None)\<rparr>))"
| "h_unlock t p s = None"

fun h_call :: "nat \<Rightarrow> hchoice \<Rightarrow> hm \<Rightarrow> hm option" where
  \<comment> \<open>a mutex is unlocked by the thread that locked it\<close>
  "h_call t (Call_lock m) s = Some (h_goto t (Lock_check m) s)"
| "h_call t (Call_try_lock m) s = Some (h_goto t (Try_check m) s)"
| "h_call t (Call_unlock m) s = (if m \<in> set (held s t) then Some (h_goto t (Unlock_restore m) s) else None)"
| "h_call t H_go s = None"

definition hm_next :: "(nat \<Rightarrow> ulong) \<Rightarrow> nat \<Rightarrow> hchoice \<Rightarrow> hm \<Rightarrow> hm option" where
  "hm_next lvl t c s =
     (if \<not> t < length (hpcs s) then None else
      case hpcs s ! t of
        H_idle \<Rightarrow> h_call t c s
      | Lock_check m \<Rightarrow> h_lock lvl t (hpcs s ! t) s
      | Lock_wait m \<Rightarrow> h_lock lvl t (hpcs s ! t) s
      | Lock_update m \<Rightarrow> h_lock lvl t (hpcs s ! t) s
      | Try_check m \<Rightarrow> h_try_lock lvl t (hpcs s ! t) s
      | Try_inner m \<Rightarrow> h_try_lock lvl t (hpcs s ! t) s
      | Try_update m \<Rightarrow> h_try_lock lvl t (hpcs s ! t) s
      | Unlock_restore m \<Rightarrow> h_unlock t (hpcs s ! t) s
      | Unlock_inner m \<Rightarrow> h_unlock t (hpcs s ! t) s)"

definition scoped :: "nat \<Rightarrow> hchoice \<Rightarrow> hm \<Rightarrow> bool" where
  "scoped t c s \<longleftrightarrow> (case c of Call_unlock m \<Rightarrow> held s t \<noteq> [] \<and> hd (held s t) = m | _ \<Rightarrow> True)"

definition hm_scoped_next :: "(nat \<Rightarrow> ulong) \<Rightarrow> nat \<Rightarrow> hchoice \<Rightarrow> hm \<Rightarrow> hm option" where
  "hm_scoped_next lvl t c s = (if scoped t c s then hm_next lvl t c s else None)"

definition hm_step :: "(nat \<Rightarrow> ulong) \<Rightarrow> hm \<Rightarrow> hm \<Rightarrow> bool" where
  \<comment> \<open>the mutexes are unlocked in the reverse order\<close>
  "hm_step lvl s s' \<longleftrightarrow> (\<exists>t c. hm_scoped_next lvl t c s = Some s')"

subsection \<open>The levels of a thread\<close>

fun stacked :: "(nat \<Rightarrow> ulong) \<Rightarrow> (nat \<Rightarrow> ulong) \<Rightarrow> ulong \<Rightarrow> nat list \<Rightarrow> bool" where
  "stacked lvl prev l [] \<longleftrightarrow> l = ULONG_MAX"
| "stacked lvl prev l (m # ms) \<longleftrightarrow> l = lvl m \<and> lvl m < prev m \<and> stacked lvl prev (prev m) ms"

fun acquired :: "hpc \<Rightarrow> nat option" where
  \<comment> \<open>a mutex the thread owns that is not on its list\<close>
  "acquired (Lock_update m) = Some m"
| "acquired (Try_update m) = Some m"
| "acquired (Unlock_inner m) = Some m"
| "acquired p = None"

fun below :: "(nat \<Rightarrow> ulong) \<Rightarrow> ulong \<Rightarrow> nat list \<Rightarrow> hpc \<Rightarrow> bool" where
  "below lvl l ms (Lock_wait m) \<longleftrightarrow> lvl m < l"
| "below lvl l ms (Lock_update m) \<longleftrightarrow> lvl m < l"
| "below lvl l ms (Try_inner m) \<longleftrightarrow> lvl m < l"
| "below lvl l ms (Try_update m) \<longleftrightarrow> lvl m < l"
| "below lvl l ms (Unlock_restore m) \<longleftrightarrow> (\<exists>ns. ms = m # ns)"
| "below lvl l ms p \<longleftrightarrow> True"

definition hm_inv :: "(nat \<Rightarrow> ulong) \<Rightarrow> hm \<Rightarrow> bool" where
  "hm_inv lvl s \<longleftrightarrow>
     (\<forall>t<length (hpcs s). stacked lvl (previous_hierarchy_value s) (this_thread_hierarchy_value s t) (held s t)
        \<and> below lvl (this_thread_hierarchy_value s t) (held s t) (hpcs s ! t))
     \<and> (\<forall>t<length (hpcs s). \<forall>m. internal_mutex s m = Some t \<longleftrightarrow> m \<in> set (held s t) \<or> acquired (hpcs s ! t) = Some m)
     \<and> (\<forall>t<length (hpcs s). \<forall>m. \<not> (m \<in> set (held s t) \<and> acquired (hpcs s ! t) = Some m))
     \<and> (\<forall>m t. internal_mutex s m = Some t \<longrightarrow> t < length (hpcs s))"

lemma stacked_bound: "stacked lvl prev l ms \<Longrightarrow> m \<in> set ms \<Longrightarrow> l \<le> lvl m"
proof (induction ms arbitrary: l)
  case (Cons k ms)
  show ?case
  proof (cases "m = k")
    case False
    then have "prev k \<le> lvl m" using Cons by auto
    moreover have "l < prev k" using Cons(2) by simp
    ultimately show ?thesis by (meson less_imp_le order_trans)
  qed (use Cons(2) in simp)
qed simp

lemma stacked_distinct: "stacked lvl prev l (m # ms) \<Longrightarrow> m \<notin> set ms"
  using stacked_bound [of lvl prev "prev m" ms m] by auto

lemma stacked_cong: "(\<And>m. m \<in> set ms \<Longrightarrow> prev m = prev' m) \<Longrightarrow> stacked lvl prev l ms = stacked lvl prev' l ms"
  by (induction ms arbitrary: l) auto

lemma h_goto_fields [simp]:
  "internal_mutex (h_goto t p s) = internal_mutex s" "previous_hierarchy_value (h_goto t p s) = previous_hierarchy_value s"
  "this_thread_hierarchy_value (h_goto t p s) = this_thread_hierarchy_value s" "hpcs (h_goto t p s) = (hpcs s)[t := p]"
  "held (h_goto t p s) = held s" "hrets (h_goto t p s) = hrets s"
  by (simp_all add: h_goto_def)

lemma h_return_fields [simp]:
  "internal_mutex (h_return t r s) = internal_mutex s" "previous_hierarchy_value (h_return t r s) = previous_hierarchy_value s"
  "this_thread_hierarchy_value (h_return t r s) = this_thread_hierarchy_value s" "hpcs (h_return t r s) = (hpcs s)[t := H_idle]"
  "held (h_return t r s) = held s"
  by (simp_all add: h_return_def)

lemma hm_invD:
  assumes "hm_inv lvl s" "t < length (hpcs s)"
  shows "stacked lvl (previous_hierarchy_value s) (this_thread_hierarchy_value s t) (held s t)"
    and "below lvl (this_thread_hierarchy_value s t) (held s t) (hpcs s ! t)"
    and "internal_mutex s m = Some t \<longleftrightarrow> m \<in> set (held s t) \<or> acquired (hpcs s ! t) = Some m"
    and "m \<in> set (held s t) \<Longrightarrow> acquired (hpcs s ! t) \<noteq> Some m"
  using assms by (auto simp: hm_inv_def)

lemma hm_invI:
  assumes "hm_inv lvl s" "t < length (hpcs s)" "hpcs s' = (hpcs s)[t := p]"
    and "\<forall>u. u \<noteq> t \<longrightarrow> held s' u = held s u \<and> this_thread_hierarchy_value s' u = this_thread_hierarchy_value s u"
    and "\<forall>m u. u \<noteq> t \<longrightarrow> internal_mutex s' m = Some u \<longleftrightarrow> internal_mutex s m = Some u"
    and "\<forall>m. internal_mutex s m \<noteq> Some t \<longrightarrow> previous_hierarchy_value s' m = previous_hierarchy_value s m"
    and "stacked lvl (previous_hierarchy_value s') (this_thread_hierarchy_value s' t) (held s' t)"
    and "below lvl (this_thread_hierarchy_value s' t) (held s' t) p"
    and "\<forall>m. internal_mutex s' m = Some t \<longleftrightarrow> m \<in> set (held s' t) \<or> acquired p = Some m"
    and "\<forall>m. \<not> (m \<in> set (held s' t) \<and> acquired p = Some m)"
  shows "hm_inv lvl s'"
proof -
  have st: "stacked lvl (previous_hierarchy_value s') (this_thread_hierarchy_value s' u) (held s' u)" if "u < length (hpcs s)" "u \<noteq> t" for u
  proof -
    have "internal_mutex s m \<noteq> Some t" if "m \<in> set (held s u)" for m
      using hm_invD(3) [OF assms(1) \<open>u < length (hpcs s)\<close>, of m] that \<open>u \<noteq> t\<close> by auto
    then have "stacked lvl (previous_hierarchy_value s') (this_thread_hierarchy_value s u) (held s u)"
      using stacked_cong [of "held s u" "previous_hierarchy_value s'" "previous_hierarchy_value s"] assms(6) hm_invD(1) [OF assms(1) that(1)]
      by blast
    then show ?thesis using assms(4) that(2) by simp
  qed
  have own: "internal_mutex s m = Some u \<longleftrightarrow> m \<in> set (held s u) \<or> acquired (hpcs s ! u) = Some m" if "u < length (hpcs s)" for u m
    using hm_invD(3) [OF assms(1) that] .
  have pc: "(hpcs s)[t := p] ! u = (if u = t then p else hpcs s ! u)" for u using assms(2) by simp
  show ?thesis
    unfolding hm_inv_def assms(3) length_list_update pc
  proof (intro conjI allI impI)
    fix m u
    show "internal_mutex s' m = Some u \<Longrightarrow> u < length (hpcs s)"
      using assms(1,2,5) by (cases "u = t") (auto simp: hm_inv_def)
    assume u: "u < length (hpcs s)"
    show "stacked lvl (previous_hierarchy_value s') (this_thread_hierarchy_value s' u) (held s' u)"
      using st [OF u] assms(7) by (cases "u = t") simp_all
    show "below lvl (this_thread_hierarchy_value s' u) (held s' u) (if u = t then p else hpcs s ! u)"
      using hm_invD(2) [OF assms(1) u] assms(4,8) by (cases "u = t") simp_all
    show "(internal_mutex s' m = Some u) = (m \<in> set (held s' u) \<or> acquired (if u = t then p else hpcs s ! u) = Some m)"
      using own [OF u] assms(4,5,9) by (cases "u = t") simp_all
    show "\<not> (m \<in> set (held s' u) \<and> acquired (if u = t then p else hpcs s ! u) = Some m)"
      using hm_invD(4) [OF assms(1) u] assms(4,10) by (cases "u = t") auto
  qed
qed

lemma update_inv:
  assumes "hm_inv lvl s" "t < length (hpcs s)" "acquired (hpcs s ! t) = Some m" "lvl m < this_thread_hierarchy_value s t"
    and "hpcs s' = (hpcs s)[t := H_idle]" "internal_mutex s' = internal_mutex s"
    and "previous_hierarchy_value s' = (previous_hierarchy_value s)(m := this_thread_hierarchy_value s t)"
    and "this_thread_hierarchy_value s' = (this_thread_hierarchy_value s)(t := lvl m)" "held s' = (held s)(t := m # held s t)"
  shows "hm_inv lvl s'"
proof (rule hm_invI [OF assms(1,2,5)])
  have m: "m \<notin> set (held s t)" "internal_mutex s m = Some t" using hm_invD(3,4) [OF assms(1,2)] assms(3) by auto
  have "stacked lvl (previous_hierarchy_value s') (this_thread_hierarchy_value s t) (held s t)"
    using hm_invD(1) [OF assms(1,2)] stacked_cong [of "held s t" "previous_hierarchy_value s'" "previous_hierarchy_value s"] m(1) assms(7)
    by (metis fun_upd_other)
  then show "stacked lvl (previous_hierarchy_value s') (this_thread_hierarchy_value s' t) (held s' t)"
    using assms(4,7-9) by simp
  show "\<forall>k. internal_mutex s' k = Some t \<longleftrightarrow> k \<in> set (held s' t) \<or> acquired H_idle = Some k"
    using hm_invD(3) [OF assms(1,2)] assms(3,6,9) by auto
  show "\<forall>k. internal_mutex s k \<noteq> Some t \<longrightarrow> previous_hierarchy_value s' k = previous_hierarchy_value s k"
    using assms(7) m(2) by auto
qed (use assms(6,8,9) in auto)

lemma stay_inv:
  assumes "hm_inv lvl s" "t < length (hpcs s)" "acquired p = acquired (hpcs s ! t)"
    and "below lvl (this_thread_hierarchy_value s t) (held s t) p"
  shows "hm_inv lvl (h_goto t p s)"
proof (rule hm_invI [OF assms(1,2)])
  show "\<forall>m. \<not> (m \<in> set (held (h_goto t p s) t) \<and> acquired p = Some m)" using hm_invD(4) [OF assms(1,2)] assms(3) by auto
qed (use assms hm_invD(1,3) [OF assms(1,2)] in simp_all)

lemma take_inv:
  assumes "hm_inv lvl s" "t < length (hpcs s)" "acquired (hpcs s ! t) = None" "internal_mutex s m = None" "acquired p = Some m"
    and "below lvl (this_thread_hierarchy_value s t) (held s t) p"
  shows "hm_inv lvl (h_goto t p (s\<lparr>internal_mutex := (internal_mutex s)(m := Some t)\<rparr>))"
proof (rule hm_invI [OF assms(1,2)])
  have "m \<notin> set (held s t)" using hm_invD(3) [OF assms(1,2), of m] assms(4) by auto
  then show "\<forall>k. \<not> (k \<in> set (held (h_goto t p (s\<lparr>internal_mutex := (internal_mutex s)(m := Some t)\<rparr>)) t) \<and> acquired p = Some k)"
    using assms(5) by auto
  show "\<forall>k. internal_mutex (h_goto t p (s\<lparr>internal_mutex := (internal_mutex s)(m := Some t)\<rparr>)) k = Some t \<longleftrightarrow>
      k \<in> set (held (h_goto t p (s\<lparr>internal_mutex := (internal_mutex s)(m := Some t)\<rparr>)) t) \<or> acquired p = Some k"
    using hm_invD(3) [OF assms(1,2)] assms(3,5) by auto
qed (use assms hm_invD(1) [OF assms(1,2)] in auto)

lemma hm_inv_rets [simp]: "hm_inv lvl (s\<lparr>hrets := r\<rparr>) = hm_inv lvl s"
  by (simp add: hm_inv_def)

lemma return_inv: "hm_inv lvl s \<Longrightarrow> t < length (hpcs s) \<Longrightarrow> acquired (hpcs s ! t) = None \<Longrightarrow> hm_inv lvl (h_return t r s)"
  unfolding h_return_def by (rule stay_inv) simp_all

lemma check_inv:
  assumes "hm_inv lvl s" "t < length (hpcs s)" "acquired (hpcs s ! t) = None" "acquired p = None"
    and "lvl m < this_thread_hierarchy_value s t \<Longrightarrow> below lvl (this_thread_hierarchy_value s t) (held s t) p"
  shows "hm_inv lvl (check_for_hierarchy_violation lvl t m p s)"
  using assms return_inv [OF assms(1,2)] stay_inv [OF assms(1,2), of p]
  by (auto simp: check_for_hierarchy_violation_def not_le)

lemma hm_next_inv:
  assumes "hm_inv lvl s" "scoped t c s" "hm_next lvl t c s = Some s'"
  shows "hm_inv lvl s'"
proof -
  have t: "t < length (hpcs s)" using assms(3) by (auto simp: hm_next_def split: if_splits)
  note d = hm_invD [OF assms(1) t]
  show ?thesis
  proof (cases "hpcs s ! t")
    case H_idle
    then show ?thesis
      using assms t by (cases c; cases "held s t") (auto simp: hm_next_def scoped_def intro!: stay_inv split: if_splits)
  next
    case (Lock_check m)
    then show ?thesis using assms t by (auto simp: hm_next_def intro!: check_inv)
  next
    case (Try_check m)
    then show ?thesis using assms t by (auto simp: hm_next_def intro!: check_inv)
  next
    case (Lock_wait m)
    then show ?thesis using assms t d(2) by (auto simp: hm_next_def intro!: take_inv split: if_splits)
  next
    case (Try_inner m)
    then show ?thesis
      using assms t d(2) return_inv [OF assms(1) t] by (auto simp: hm_next_def intro!: take_inv split: if_splits)
  next
    case (Lock_update m)
    then show ?thesis
      using assms t d(2) by (auto simp: hm_next_def update_hierarchy_value_def intro!: update_inv [OF assms(1) t, of m])
  next
    case (Try_update m)
    then show ?thesis
      using assms t d(2) by (auto simp: hm_next_def update_hierarchy_value_def intro!: update_inv [OF assms(1) t, of m])
  next
    case (Unlock_restore m)
    then obtain ms where ms: "held s t = m # ms" using d(2) by auto
    let ?s = "h_goto t (Unlock_inner m) (s\<lparr>this_thread_hierarchy_value := (this_thread_hierarchy_value s)(t := previous_hierarchy_value s m),
       held := (held s)(t := ms)\<rparr>)"
    have s': "s' = ?s" using Unlock_restore assms(3) t ms by (simp add: hm_next_def)
    have m: "m \<notin> set ms" using d(1) stacked_distinct ms by metis
    have "hm_inv lvl ?s"
    proof (rule hm_invI [OF assms(1) t])
      show "stacked lvl (previous_hierarchy_value ?s) (this_thread_hierarchy_value ?s t) (held ?s t)" using d(1) ms by simp
      show "\<forall>k. internal_mutex ?s k = Some t \<longleftrightarrow> k \<in> set (held ?s t) \<or> acquired (Unlock_inner m) = Some k"
        using d(3) ms Unlock_restore by auto
      show "\<forall>k. \<not> (k \<in> set (held ?s t) \<and> acquired (Unlock_inner m) = Some k)" using m by auto
    qed simp_all
    then show ?thesis using s' by simp
  next
    case (Unlock_inner m)
    let ?s = "h_return t (Unlocked m) (s\<lparr>internal_mutex := (internal_mutex s)(m := None)\<rparr>)"
    have s': "s' = ?s" using Unlock_inner assms(3) t by (simp add: hm_next_def)
    have m: "internal_mutex s m = Some t" "m \<notin> set (held s t)" using d(3) [of m] d(4) [of m] Unlock_inner by auto
    have "hm_inv lvl ?s"
    proof (rule hm_invI [OF assms(1) t])
      show "\<forall>k. internal_mutex ?s k = Some t \<longleftrightarrow> k \<in> set (held ?s t) \<or> acquired H_idle = Some k"
        using d(3) m Unlock_inner by auto
      show "\<forall>k u. u \<noteq> t \<longrightarrow> internal_mutex ?s k = Some u \<longleftrightarrow> internal_mutex s k = Some u" using m(1) by auto
    qed (use d(1) in simp_all)
    then show ?thesis using s' by simp
  qed
qed

interpretation hl: invariant_of "hierarchical_mutexes n" "hm_step lvl" "hm_inv lvl" for n lvl
proof
  show "hm_inv lvl (hierarchical_mutexes n)" by (auto simp: hm_inv_def hierarchical_mutexes_def)
qed (auto simp: hm_step_def hm_scoped_next_def intro: hm_next_inv split: if_splits)

subsection \<open>Deadlocks\<close>

definition waits_for :: "hm \<Rightarrow> nat \<Rightarrow> nat \<Rightarrow> bool" where
  "waits_for s t u \<longleftrightarrow> t < length (hpcs s) \<and> (\<exists>m. hpcs s ! t = Lock_wait m \<and> internal_mutex s m = Some u)"

lemma waits_decreasing:
  assumes "hm_inv lvl s" "u < length (hpcs s)" "hpcs s ! u = Lock_wait k" "internal_mutex s m = Some u"
  shows "lvl k < lvl m"
proof -
  have "m \<in> set (held s u)" using hm_invD(3) [OF assms(1,2)] assms(3,4) by simp
  then have "this_thread_hierarchy_value s u \<le> lvl m" using hm_invD(1) [OF assms(1,2)] stacked_bound by blast
  moreover have "lvl k < this_thread_hierarchy_value s u" using hm_invD(2) [OF assms(1,2)] assms(3) by simp
  ultimately show ?thesis by simp
qed

lemma waits_path:
  assumes "hm_inv lvl s" "(waits_for s)\<^sup>+\<^sup>+ t u" "hpcs s ! t = Lock_wait m" "u < length (hpcs s)" "hpcs s ! u = Lock_wait k"
  shows "lvl k < lvl m"
  using assms(2,4,5)
proof (induction arbitrary: k rule: tranclp_induct)
  case (base u)
  then show ?case using waits_decreasing [OF assms(1)] assms(3) by (auto simp: waits_for_def)
next
  case (step u v)
  then obtain j where j: "u < length (hpcs s)" "hpcs s ! u = Lock_wait j" "internal_mutex s j = Some v" by (auto simp: waits_for_def)
  then have "lvl k < lvl j" using waits_decreasing [OF assms(1)] step by blast
  moreover have "lvl j < lvl m" using step j by blast
  ultimately show ?case by simp
qed

text \<open>
  C27. Hierarchical mutexes that are unlocked in the reverse order never deadlock: in no state that the
  threads can reach is there a circle of threads that wait for one another, and the levels of the
  mutexes a thread holds decrease strictly in the order in which it locked them. A thread that
  holds no mutex has the level \<open>ULONG_MAX\<close>.
\<close>

theorem hierarchy_prevents_deadlock:
  assumes "reach (hm_step lvl) (hierarchical_mutexes n) s"
  shows "\<not> (waits_for s)\<^sup>+\<^sup>+ t t
    \<and> (t < length (hpcs s) \<longrightarrow> sorted_wrt (\<lambda>a b. lvl a < lvl b) (held s t)
      \<and> this_thread_hierarchy_value s t = (case held s t of [] \<Rightarrow> ULONG_MAX | m # ms \<Rightarrow> lvl m))"
proof -
  have i: "hm_inv lvl s" by (rule hl.reach_inv [OF assms])
  have "\<not> (waits_for s)\<^sup>+\<^sup>+ t t"
  proof
    assume c: "(waits_for s)\<^sup>+\<^sup>+ t t"
    then obtain m where "t < length (hpcs s)" "hpcs s ! t = Lock_wait m"
      by (metis tranclpD waits_for_def)
    then show False using waits_path [OF i c] by blast
  qed
  moreover have "stacked lvl prev l ms \<Longrightarrow> sorted_wrt (\<lambda>a b. lvl a < lvl b) ms" for prev l ms
  proof (induction ms arbitrary: l)
    case (Cons m ms)
    then show ?case using stacked_bound [of lvl prev "prev m" ms] by (auto intro: less_le_trans)
  qed simp
  moreover have "stacked lvl prev l ms \<Longrightarrow> l = (case ms of [] \<Rightarrow> ULONG_MAX | m # ns \<Rightarrow> lvl m)" for prev l ms
    by (cases ms) auto
  ultimately show ?thesis using hm_invD(1) [OF i] by blast
qed

definition levels :: "nat \<Rightarrow> ulong" where
  "levels m = (if m = 0 then 10000 else if m = 1 then 6000 else 5000)"

definition nested :: "(nat \<times> hchoice) list" where
  \<comment> \<open>thread 0 locks mutexes 0 and 2, thread 1 waits for mutex 2 and fails to lock mutex 0 behind mutex 1\<close>
  "nested = [(0, Call_lock 0), (0, H_go), (0, H_go), (0, H_go), (0, Call_lock 2), (0, H_go), (0, H_go), (0, H_go),
     (1, Call_lock 1), (1, H_go), (1, H_go), (1, H_go), (1, Call_try_lock 0), (1, H_go), (1, Call_lock 2), (1, H_go)]"

theorem hierarchy_prevents_deadlock_witness:
  "\<exists>s. run_steps (hm_scoped_next levels) nested (hierarchical_mutexes 2) = Some s
     \<and> hrets s = [(0, Locked 0), (0, Locked 2), (1, Locked 1), (1, Violated 0)] \<and> waits_for s 1 0 \<and> \<not> (waits_for s)\<^sup>+\<^sup>+ 1 1"
proof -
  have "map_option (\<lambda>s. (hrets s, hpcs s, internal_mutex s 2)) (run_steps (hm_scoped_next levels) nested (hierarchical_mutexes 2))
      = Some ([(0, Locked 0), (0, Locked 2), (1, Locked 1), (1, Violated 0)], [H_idle, Lock_wait 2], Some 0)" by code_simp
  then obtain s where s: "run_steps (hm_scoped_next levels) nested (hierarchical_mutexes 2) = Some s"
    "hrets s = [(0, Locked 0), (0, Locked 2), (1, Locked 1), (1, Violated 0)]" "hpcs s = [H_idle, Lock_wait 2]" "internal_mutex s 2 = Some 0"
    by auto
  have "reach (hm_step levels) (hierarchical_mutexes 2) s" by (rule run_reach [OF s(1) reach.start]) (auto simp: hm_step_def)
  from hierarchy_prevents_deadlock [OF this, of 1] s show ?thesis by (auto simp: waits_for_def)
qed

definition out_of_order :: "(nat \<times> hchoice) list" where
  \<comment> \<open>thread 0 unlocks mutex 0 before mutex 2, which resets its level, and then locks mutex 1\<close>
  "out_of_order = [(0, Call_lock 0), (0, H_go), (0, H_go), (0, H_go), (0, Call_lock 2), (0, H_go), (0, H_go), (0, H_go),
     (0, Call_unlock 0), (0, H_go), (0, H_go), (1, Call_lock 1), (1, H_go), (1, H_go), (1, H_go),
     (0, Call_lock 1), (0, H_go), (1, Call_lock 2), (1, H_go)]"

text \<open>
  The order of unlocking matters: \<open>unlock\<close> restores the level that the thread had when it locked
  that mutex, whatever it has locked since. A thread that unlocks the outer mutex first passes the
  test for a mutex above one it still holds, and two threads wait for each other for ever.
\<close>

theorem unordered_unlock_deadlocks:
  "\<exists>s. run_steps (hm_next levels) out_of_order (hierarchical_mutexes 2) = Some s \<and> waits_for s 0 1 \<and> waits_for s 1 0
     \<and> (\<forall>t c. hm_next levels t c s = None)"
proof -
  have "map_option (\<lambda>s. (hpcs s, internal_mutex s 1, internal_mutex s 2)) (run_steps (hm_next levels) out_of_order (hierarchical_mutexes 2))
      = Some ([Lock_wait 1, Lock_wait 2], Some 1, Some 0)" by code_simp
  then obtain s where s: "run_steps (hm_next levels) out_of_order (hierarchical_mutexes 2) = Some s"
    "hpcs s = [Lock_wait 1, Lock_wait 2]" "internal_mutex s 1 = Some 1" "internal_mutex s 2 = Some 0" by auto
  have "hm_next levels t c s = None" for t c
    using s(2-) by (auto simp: hm_next_def nth_Cons less_Suc_eq split: nat.split)
  then show ?thesis using s by (auto simp: waits_for_def)
qed

end
