(* ===== verification/Thread_Pool.thy ===== *)
theory Thread_Pool
  imports Ts_Queue_Ptr "HOL-Library.Multiset"
begin

text \<open>
  The thread pool of \<open>C++11/Cpp-Concurrency-in-Action/chap9/9_1.cpp\<close> on top of the queue of
  \<open>Ts_Queue_Ptr\<close>. The threads of the queue are the workers, \<open>0\<close> to \<open>length (workers s) - 1\<close>, and
  the threads that call \<open>submit\<close>. A worker polls the queue with \<open>try_pop\<close> until \<open>done\<close> is set; its
  calls of the queue are interleaved statement by statement with those of the other threads.
  \<open>ran\<close> are the tasks the workers ran, in the order in which they started; what a task does is
  not modelled. The destructor sets \<open>done\<close> and joins the workers.
\<close>

datatype worker = W_loop | W_popping | W_task nat | W_exit

record 'v pool =
  work_queue :: "'v psq"
  pool_done :: bool
  workers :: "worker list"
  ran :: "'v list"

definition thread_pool :: "nat \<Rightarrow> nat \<Rightarrow> 'v pool" where
  \<comment> \<open>\<open>k\<close> workers and \<open>n\<close> threads that submit tasks\<close>
  "thread_pool k n = \<lparr>work_queue = thread_safe_queue (k + n), pool_done = False, workers = replicate k W_loop, ran = []\<rparr>"

fun after_pop :: "p_out \<Rightarrow> worker" where
  "after_pop (P_got p) = W_task p"
| "after_pop x = W_loop"

fun worker_thread :: "nat \<Rightarrow> 'v p_choice \<Rightarrow> worker \<Rightarrow> 'v pool \<Rightarrow> 'v pool option" where
  "worker_thread t c W_loop s =
     (if pool_done s then Some (s\<lparr>workers := (workers s)[t := W_exit]\<rparr>)
      else map_option (\<lambda>q. s\<lparr>work_queue := q, workers := (workers s)[t := W_popping]\<rparr>)
        (psq_next t (PCall_try_pop ByRef) (work_queue s)))"
| "worker_thread t c W_popping s =
     map_option (\<lambda>q. s\<lparr>work_queue := q, workers := (workers s)[t :=
         (case p_pcs (work_queue s) ! t of P_unlock x \<Rightarrow> after_pop x | _ \<Rightarrow> W_popping)]\<rparr>)
       (psq_next t c (work_queue s))"
| "worker_thread t c (W_task p) s = Some (s\<lparr>ran := ran s @ [cells (work_queue s) ! p], workers := (workers s)[t := W_loop]\<rparr>)"
| "worker_thread t c W_exit s = None"

definition pool_submit :: "nat \<Rightarrow> 'v p_choice \<Rightarrow> 'v pool \<Rightarrow> 'v pool option" where
  "pool_submit t c s =
     (if p_pcs (work_queue s) ! t = P_idle \<and> \<not> (case c of PCall_push v \<Rightarrow> True | _ \<Rightarrow> False) then None
      else map_option (\<lambda>q. s\<lparr>work_queue := q\<rparr>) (psq_next t c (work_queue s)))"

datatype 'v pool_choice = Step "'v p_choice" | Destroy

fun pool_next :: "nat \<Rightarrow> 'v pool_choice \<Rightarrow> 'v pool \<Rightarrow> 'v pool option" where
  "pool_next t Destroy s = Some (s\<lparr>pool_done := True\<rparr>)"
| "pool_next t (Step c) s =
     (if t < length (workers s) then worker_thread t c (workers s ! t) s else pool_submit t c s)"

definition pool_step :: "'v pool \<Rightarrow> 'v pool \<Rightarrow> bool" where
  "pool_step s s' \<longleftrightarrow> (\<exists>t c. pool_next t c s = Some s')"

subsection \<open>The tasks of a pool\<close>

fun got_of :: "p_out \<Rightarrow> nat list" where
  "got_of (P_got p) = [p]"
| "got_of x = []"

definition gots :: "'v psq \<Rightarrow> nat list" where
  "gots q = concat (map (got_of \<circ> snd) (p_rets q))"

fun task_of :: "worker \<Rightarrow> nat list" where
  "task_of (W_task p) = [p]"
| "task_of w = []"

fun worker_pc :: "worker \<Rightarrow> 'v p_pc \<Rightarrow> bool" where
  \<comment> \<open>where a worker can be inside of the queue\<close>
  "worker_pc W_popping p \<longleftrightarrow> (case p of PTry_lock md \<Rightarrow> True | PTry_test md \<Rightarrow> True | PTry_take md \<Rightarrow> True | PTry_remove v \<Rightarrow> True
     | P_unlock x \<Rightarrow> True | _ \<Rightarrow> False)"
| "worker_pc w p \<longleftrightarrow> p = P_idle"

fun client_pc :: "'v p_pc \<Rightarrow> bool" where
  \<comment> \<open>where a thread that submits tasks can be\<close>
  "client_pc P_idle = True"
| "client_pc (PPush_alloc v) = True"
| "client_pc (PPush_lock p) = True"
| "client_pc (PPush_store p) = True"
| "client_pc (PPush_notify p) = True"
| "client_pc (P_unlock (P_pushed p)) = True"
| "client_pc (P_unlock P_threw) = True"
| "client_pc p = False"

definition pool_inv :: "nat \<Rightarrow> 'v pool \<Rightarrow> bool" where
  "pool_inv n s \<longleftrightarrow> reach psq_step (thread_safe_queue n) (work_queue s)
     \<and> length (workers s) \<le> n
     \<and> (\<forall>t<length (workers s). worker_pc (workers s ! t) (p_pcs (work_queue s) ! t))
     \<and> (\<forall>t. length (workers s) \<le> t \<and> t < n \<longrightarrow> client_pc (p_pcs (work_queue s) ! t))
     \<and> (\<forall>p\<in>set (concat (map task_of (workers s))). p < length (cells (work_queue s)))
     \<and> mset (ran s) + mset (map ((!) (cells (work_queue s))) (concat (map task_of (workers s))))
         = mset (map ((!) (cells (work_queue s))) (gots (work_queue s)))"

lemma psq_threads: "reach psq_step (thread_safe_queue n) q \<Longrightarrow> length (p_pcs q) = n"
  using reach_threads [OF ps.reach_abs, of n q] by simp

lemma psq_allocated: "reach psq_step (thread_safe_queue n) q \<Longrightarrow> allocated q"
  by (rule ps.reach_inv)

lemma mset_concat_update:
  "t < length xs \<Longrightarrow> mset (concat (map f (xs[t := p]))) + mset (f (xs ! t)) = mset (concat (map f xs)) + mset (f p)"
proof (induction xs arbitrary: t)
  case (Cons x xs)
  then show ?case by (cases t) (auto simp: ac_simps)
qed simp

lemma p_notify_pcs:
  assumes "p_notify_one c s = Some s'" "\<not> p_asleep (p_pcs s ! u)"
  shows "p_pcs s' ! u = p_pcs s ! u" "p_rets s' = p_rets s" "length (p_pcs s') = length (p_pcs s)"
  using assms by (auto simp: p_notify_one_def p_wake_up_def nth_list_update split: p_choice.splits if_splits)

lemmas p_moves = p_acquire_def p_release_def p_take_front_def p_remove_front_def p_wake_up_def

lemma psq_next_frame:
  assumes "psq_next t c q = Some q'"
  shows "length (p_pcs q') = length (p_pcs q)"
    and "u \<noteq> t \<Longrightarrow> \<not> p_asleep (p_pcs q ! u) \<Longrightarrow> p_pcs q' ! u = p_pcs q ! u"
    and "p_rets q' = p_rets q @ (case p_pcs q ! t of P_unlock x \<Rightarrow> [(t, x)] | _ \<Rightarrow> [])"
    and "\<exists>vs. cells q' = cells q @ vs"
proof -
  have t: "t < length (p_pcs q)" using assms by (auto simp: psq_next_def split: if_splits)
  have "length (p_pcs q') = length (p_pcs q) \<and> (u \<noteq> t \<longrightarrow> \<not> p_asleep (p_pcs q ! u) \<longrightarrow> p_pcs q' ! u = p_pcs q ! u)
    \<and> p_rets q' = p_rets q @ (case p_pcs q ! t of P_unlock x \<Rightarrow> [(t, x)] | _ \<Rightarrow> []) \<and> (\<exists>vs. cells q' = cells q @ vs)"
  proof (cases "p_pcs q ! t")
    case (PPush_notify p)
    then obtain q1 where q1: "p_notify_one c q = Some q1" "q' = p_goto t (P_unlock (P_pushed p)) q1"
      using assms t by (auto simp: psq_next_def)
    then show ?thesis
      using PPush_notify p_notify_pcs [OF q1(1)] notify_simulates(2) [OF q1(1)]
        p_notify_pcs(2,3) [OF q1(1), of t] by auto
  next
    case P_idle
    then show ?thesis using assms t by (cases c) (auto simp: psq_next_def)
  qed (use assms t in \<open>auto simp: psq_next_def p_moves split: if_splits list.splits\<close>)
  then show "length (p_pcs q') = length (p_pcs q)"
    and "u \<noteq> t \<Longrightarrow> \<not> p_asleep (p_pcs q ! u) \<Longrightarrow> p_pcs q' ! u = p_pcs q ! u"
    and "p_rets q' = p_rets q @ (case p_pcs q ! t of P_unlock x \<Rightarrow> [(t, x)] | _ \<Rightarrow> [])"
    and "\<exists>vs. cells q' = cells q @ vs" by auto
qed

lemma worker_pc_next:
  assumes "psq_next t c q = Some q'" "worker_pc W_popping (p_pcs q ! t)"
  shows "case p_pcs q ! t of P_unlock x \<Rightarrow> p_pcs q' ! t = P_idle | _ \<Rightarrow> worker_pc W_popping (p_pcs q' ! t)"
proof -
  have t: "t < length (p_pcs q)" using assms by (auto simp: psq_next_def split: if_splits)
  then show ?thesis
    using assms by (cases "p_pcs q ! t") (auto simp: psq_next_def p_moves split: if_splits list.splits)
qed

lemma client_pc_next:
  assumes "psq_next t c q = Some q'" "client_pc (p_pcs q ! t)" "p_pcs q ! t = P_idle \<longrightarrow> (\<exists>v. c = PCall_push v)"
  shows "client_pc (p_pcs q' ! t)"
proof -
  have t: "t < length (p_pcs q)" using assms by (auto simp: psq_next_def split: if_splits)
  show ?thesis
  proof (cases "p_pcs q ! t")
    case (PPush_notify p)
    then obtain q1 where q1: "p_notify_one c q = Some q1" "q' = p_goto t (P_unlock (P_pushed p)) q1"
      using assms t by (auto simp: psq_next_def)
    then show ?thesis using p_notify_pcs(3) [OF q1(1), of t] PPush_notify t by simp
  next
    case (P_unlock x)
    then show ?thesis using assms t by (auto simp: psq_next_def p_moves)
  qed (use assms t in \<open>auto simp: psq_next_def p_moves split: if_splits\<close>)
qed

lemma inside_not_asleep: "worker_pc w p \<Longrightarrow> \<not> p_asleep p" "client_pc p \<Longrightarrow> \<not> p_asleep p"
  by (cases w; cases p; simp) (cases p; simp)

fun popped :: "'v p_pc \<Rightarrow> nat list" where
  "popped (P_unlock x) = got_of x"
| "popped p = []"

lemma pool_queue_step:
  assumes i: "pool_inv n s" and nx: "psq_next t c (work_queue s) = Some q'" and l: "length ws' = length (workers s)"
    and o: "\<forall>u<length (workers s). u \<noteq> t \<longrightarrow> ws' ! u = workers s ! u"
    and w: "t < length (workers s) \<longrightarrow> worker_pc (ws' ! t) (p_pcs q' ! t)"
    and k: "length (workers s) \<le> t \<longrightarrow> client_pc (p_pcs q' ! t)"
    and ts: "mset (concat (map task_of ws')) = mset (concat (map task_of (workers s))) + mset (popped (p_pcs (work_queue s) ! t))"
  shows "pool_inv n (s\<lparr>work_queue := q', workers := ws'\<rparr>)"
proof -
  let ?q = "work_queue s"
  have r: "reach psq_step (thread_safe_queue n) ?q" using i by (simp add: pool_inv_def)
  moreover have "psq_step ?q q'" using nx by (auto simp: psq_step_def)
  ultimately have r': "reach psq_step (thread_safe_queue n) q'" by (rule reach.step)
  note f = psq_next_frame [OF nx]
  obtain vs where vs: "cells q' = cells ?q @ vs" using f(4) by blast
  have t: "t < length (p_pcs ?q)" using nx by (auto simp: psq_next_def split: if_splits)
  have g: "gots q' = gots ?q @ popped (p_pcs ?q ! t)"
    using f(3) by (cases "p_pcs ?q ! t") (simp_all add: gots_def)
  have a: "\<forall>p\<in>set (gots ?q). p < length (cells ?q)"
  proof -
    have "p < length (cells ?q)" if "e \<in> set (p_rets ?q)" "p \<in> set (got_of (snd e))" for e p
    proof -
      have "p \<in> set (out_ptrs (snd e))" using that(2) by (cases "snd e") auto
      then show ?thesis using psq_allocated [OF r] that(1) unfolding allocated_def by blast
    qed
    then show ?thesis by (auto simp: gots_def)
  qed
  have pp: "\<forall>p\<in>set (popped (p_pcs ?q ! t)). p < length (cells ?q)"
  proof -
    have "set (popped pc) \<subseteq> set (pc_ptrs pc)" for pc :: "'a p_pc"
    proof (cases pc)
      case (P_unlock x)
      then show ?thesis by (cases x) auto
    qed auto
    then show ?thesis using allocated_at [OF psq_allocated [OF r] t] by blast
  qed
  have tk: "\<forall>p\<in>set (concat (map task_of (workers s))). p < length (cells ?q)" using i by (simp add: pool_inv_def)
  have same: "image_mset ((!) (cells q')) (mset ps) = image_mset ((!) (cells ?q)) (mset ps)" if "\<forall>p\<in>set ps. p < length (cells ?q)" for ps
    using that vs by (auto intro!: image_mset_cong simp: nth_append)
  have m: "mset (ran s) + image_mset ((!) (cells ?q)) (mset (concat (map task_of (workers s))))
      = image_mset ((!) (cells ?q)) (mset (gots ?q))" using i by (simp add: pool_inv_def)
  have "set (concat (map task_of ws')) = set (concat (map task_of (workers s))) \<union> set (popped (p_pcs ?q ! t))"
    using ts by (metis set_mset_mset set_mset_union)
  then have "\<forall>p\<in>set (concat (map task_of ws')). p < length (cells ?q)" using tk pp by blast
  then have al: "\<forall>p\<in>set (concat (map task_of ws')). p < length (cells q')" using vs by fastforce
  have "mset (ran s) + image_mset ((!) (cells q')) (mset (concat (map task_of ws'))) = image_mset ((!) (cells q')) (mset (gots q'))"
    unfolding ts g mset_append image_mset_union same [OF tk] same [OF pp] same [OF a] using m by (simp add: ac_simps)
  moreover have "worker_pc (ws' ! u) (p_pcs q' ! u)" if "u < length (workers s)" for u
  proof (cases "u = t")
    case False
    have "worker_pc (workers s ! u) (p_pcs ?q ! u)" using i that by (simp add: pool_inv_def)
    then show ?thesis using f(2) [OF False] inside_not_asleep(1) o that False by metis
  qed (use w that in simp)
  moreover have "client_pc (p_pcs q' ! u)" if "length (workers s) \<le> u" "u < n" for u
  proof (cases "u = t")
    case False
    have "client_pc (p_pcs ?q ! u)" using i that by (simp add: pool_inv_def)
    then show ?thesis using f(2) [OF False] inside_not_asleep(2) by metis
  qed (use k that in simp)
  ultimately show ?thesis using r' i al l by (simp add: pool_inv_def)
qed

lemma worker_thread_inv:
  assumes "pool_inv n s" "t < length (workers s)" "worker_thread t c (workers s ! t) s = Some s'"
  shows "pool_inv n s'"
proof -
  let ?q = "work_queue s"
  have w: "worker_pc (workers s ! t) (p_pcs ?q ! t)" using assms(1,2) by (simp add: pool_inv_def)
  note u = mset_concat_update [OF assms(2), of task_of]
  have bound: "t < length (p_pcs ?q)"
    using assms(1,2) psq_threads [of n ?q] by (auto simp: pool_inv_def)
  show ?thesis
  proof (cases "workers s ! t")
    case W_exit
    then show ?thesis using assms(3) by simp
  next
    case (W_task p)
    then have s': "s' = s\<lparr>ran := ran s @ [cells ?q ! p], workers := (workers s)[t := W_loop]\<rparr>" using assms(3) by simp
    have m: "mset (concat (map task_of (workers s))) = add_mset p (mset (concat (map task_of ((workers s)[t := W_loop]))))"
      using u [of W_loop] W_task by simp
    have "set (concat (map task_of ((workers s)[t := W_loop]))) \<subseteq> set (concat (map task_of (workers s)))"
      using m by (metis set_mset_add_mset_insert set_mset_mset subset_insertI)
    then show ?thesis
      using assms(1,2) w W_task m by (auto simp: s' pool_inv_def nth_list_update)
  next
    case W_popping
    then obtain q' where q': "psq_next t c ?q = Some q'"
      "s' = s\<lparr>work_queue := q', workers := (workers s)[t := (case p_pcs ?q ! t of P_unlock x \<Rightarrow> after_pop x | _ \<Rightarrow> W_popping)]\<rparr>"
      using assms(3) by auto
    let ?w = "case p_pcs ?q ! t of P_unlock x \<Rightarrow> after_pop x | _ \<Rightarrow> W_popping"
    have "task_of ?w = popped (p_pcs ?q ! t)"
    proof (cases "p_pcs ?q ! t")
      case (P_unlock x)
      then show ?thesis by (cases x) auto
    qed auto
    then have "mset (concat (map task_of ((workers s)[t := ?w]))) = mset (concat (map task_of (workers s))) + mset (popped (p_pcs ?q ! t))"
      using u [of ?w] W_popping by simp
    moreover have "worker_pc ?w (p_pcs q' ! t)"
    proof (cases "p_pcs ?q ! t")
      case (P_unlock x)
      then show ?thesis using worker_pc_next [OF q'(1)] w W_popping by (cases x) auto
    qed (use worker_pc_next [OF q'(1)] w W_popping in auto)
    ultimately show ?thesis
      unfolding q'(2) using assms(2) by (intro pool_queue_step [OF assms(1) q'(1)]) (auto simp: nth_list_update)
  next
    case W_loop
    show ?thesis
    proof (cases "pool_done s")
      case True
      then have s': "s' = s\<lparr>workers := (workers s)[t := W_exit]\<rparr>" using W_loop assms(3) by simp
      have "mset (concat (map task_of ((workers s)[t := W_exit]))) = mset (concat (map task_of (workers s)))" using u [of W_exit] W_loop by simp
      moreover from this have "set (concat (map task_of ((workers s)[t := W_exit]))) = set (concat (map task_of (workers s)))"
        by (metis set_mset_mset)
      ultimately show ?thesis using assms(1,2) w W_loop by (auto simp: s' pool_inv_def nth_list_update)
    next
      case False
      have idle: "p_pcs ?q ! t = P_idle" using w W_loop by simp
      obtain q' where q': "psq_next t (PCall_try_pop ByRef) ?q = Some q'" "s' = s\<lparr>work_queue := q', workers := (workers s)[t := W_popping]\<rparr>"
        using False W_loop assms(3) by auto
      have "p_pcs q' ! t = PTry_lock ByRef" using q'(1) idle bound by (auto simp: psq_next_def)
      then show ?thesis
        unfolding q'(2) using assms(2) u [of W_popping] W_loop idle
        by (intro pool_queue_step [OF assms(1) q'(1)]) (auto simp: nth_list_update)
    qed
  qed
qed

lemma pool_next_inv:
  assumes "pool_inv n s" "pool_next t c s = Some s'"
  shows "pool_inv n s'"
proof (cases c)
  case Destroy
  then show ?thesis using assms by (auto simp: pool_inv_def)
next
  case (Step d)
  show ?thesis
  proof (cases "t < length (workers s)")
    case True
    then show ?thesis using assms Step worker_thread_inv by auto
  next
    case False
    let ?q = "work_queue s"
    obtain q' where q': "psq_next t d ?q = Some q'" "s' = s\<lparr>work_queue := q'\<rparr>" "p_pcs ?q ! t = P_idle \<longrightarrow> (\<exists>v. d = PCall_push v)"
      using assms(2) False Step by (auto simp: pool_submit_def split: if_splits p_choice.splits)
    have "t < n" using q'(1) assms(1) psq_threads [of n ?q] by (auto simp: psq_next_def pool_inv_def split: if_splits)
    then have cl: "client_pc (p_pcs ?q ! t)" using assms(1) False by (simp add: pool_inv_def)
    then have "popped (p_pcs ?q ! t) = []"
    proof (cases "p_pcs ?q ! t")
      case (P_unlock x)
      then show ?thesis using cl by (cases x) auto
    qed auto
    then have "pool_inv n (s\<lparr>work_queue := q', workers := workers s\<rparr>)"
      using client_pc_next [OF q'(1) cl q'(3)] False by (intro pool_queue_step [OF assms(1) q'(1)]) auto
    then show ?thesis using q'(2) by simp
  qed
qed

interpretation tpool: invariant_of "thread_pool k n" pool_step "pool_inv (k + n)" for k n
proof
  show "pool_inv (k + n) (thread_pool k n :: 'v pool)"
    by (auto simp: pool_inv_def thread_pool_def gots_def thread_safe_queue_def nth_append intro: reach.start [unfolded thread_safe_queue_def])
qed (auto simp: pool_step_def intro: pool_next_inv)

subsection \<open>No task is lost or run twice\<close>

fun pushed_value :: "'v out \<Rightarrow> 'v list" where
  "pushed_value (Pushed v) = [v]"
| "pushed_value x = []"

fun got_value :: "'v out \<Rightarrow> 'v list" where
  "got_value (Got v) = [v]"
| "got_value x = []"

lemma replay_fifo:
  "replay queue_spec h q0 = Some q \<Longrightarrow> q0 @ concat (map pushed_value h) = concat (map got_value h) @ q"
proof (induction h arbitrary: q0)
  case (Cons x h)
  then obtain q1 where q1: "queue_spec x q0 = Some q1" "replay queue_spec h q1 = Some q" by (auto split: bind_splits)
  from Cons(1) [OF q1(2)] show ?case
    using q1(1) by (cases x) (auto split: list.splits if_splits)
qed simp

definition calls :: "'v psq \<Rightarrow> 'v out list" where
  \<comment> \<open>the results of the calls of the queue, one that still holds the mutex included\<close>
  "calls q = map (out_of (cells q) \<circ> snd) (p_rets q) @ (case tsq_pending (tsq_of q) of None \<Rightarrow> [] | Some x \<Rightarrow> [x])"

definition submitted :: "'v pool \<Rightarrow> 'v list" where
  "submitted s = concat (map pushed_value (calls (work_queue s)))"

definition started :: "'v pool \<Rightarrow> 'v list" where
  "started s = concat (map got_value (calls (work_queue s)))"

definition in_hands :: "'v pool \<Rightarrow> 'v list" where
  \<comment> \<open>the tasks that a worker has taken and not run\<close>
  "in_hands s = map ((!) (cells (work_queue s))) (concat (map task_of (workers s)))
     @ (case tsq_pending (tsq_of (work_queue s)) of Some (Got v) \<Rightarrow> [v] | _ \<Rightarrow> [])"

lemma got_value_out: "concat (map (got_value \<circ> (out_of cs \<circ> snd)) rs) = map ((!) cs) (concat (map (got_of \<circ> snd) rs))"
proof (induction rs)
  case (Cons r rs)
  then show ?case by (cases "snd r") auto
qed simp

text \<open>
  C28. The pool neither loses nor repeats a task: however its workers and the threads that submit are
  interleaved, the tasks that were put into the queue are exactly those that were run, those that
  a worker has taken and is about to run, and those still in the queue, each as often as it was
  submitted; and the workers take them in the order in which they were submitted.
\<close>

theorem pool_keeps_tasks:
  assumes "reach pool_step (thread_pool k n) s"
  shows "mset (submitted s) = mset (ran s) + mset (in_hands s) + mset (map ((!) (cells (work_queue s))) (p_queue (work_queue s)))
    \<and> submitted s = started s @ map ((!) (cells (work_queue s))) (p_queue (work_queue s))"
proof -
  let ?q = "work_queue s"
  have i: "pool_inv (k + n) s" by (rule tpool.reach_inv [OF assms])
  then have r: "reach tsq_step (threadsafe_queue (k + n)) (tsq_of ?q)" using ps.reach_abs by (auto simp: pool_inv_def)
  have "tsq_hist (tsq_of ?q) = map (out_of (cells ?q) \<circ> snd) (p_rets ?q)" by (simp add: tsq_hist_def tsq_of_def comp_def)
  then have "replay queue_spec (calls ?q) [] = Some (map ((!) (cells ?q)) (p_queue ?q))"
    using tq.explained [OF r] by (simp add: calls_def threadsafe_queue_def)
  then have f: "submitted s = started s @ map ((!) (cells ?q)) (p_queue ?q)"
    using replay_fifo by (fastforce simp: submitted_def started_def)
  have "started s = map ((!) (cells ?q)) (gots ?q) @ (case tsq_pending (tsq_of ?q) of Some (Got v) \<Rightarrow> [v] | _ \<Rightarrow> [])"
    using got_value_out [of "cells ?q" "p_rets ?q"]
    by (auto simp: started_def calls_def gots_def split: option.split out.split)
  then have "mset (started s) = mset (ran s) + mset (in_hands s)"
    using i by (simp add: pool_inv_def in_hands_def)
  then show ?thesis using f by simp
qed

definition two_tasks :: "(nat \<times> nat pool_choice) list" where
  \<comment> \<open>thread 1 submits tasks 7 and 8, worker 0 runs task 7 and the pool is destroyed\<close>
  "two_tasks = map (\<lambda>(t, c). (t, Step c)) ([(1, PCall_push 7), (1, P_go), (1, P_go), (1, P_go), (1, P_go), (1, P_go),
       (1, PCall_push 8), (1, P_go), (1, P_go), (1, P_go), (1, P_go), (1, P_go)] @ replicate 6 (0, P_go))
     @ [(1, Destroy)] @ map (\<lambda>c. (0, Step c)) [P_go, P_go]"

lemma pool_run_reach: "run_steps pool_next sched s = Some s' \<Longrightarrow> reach pool_step i s \<Longrightarrow> reach pool_step i s'"
  by (rule run_reach) (auto simp: pool_step_def)

theorem pool_keeps_tasks_witness:
  "\<exists>s. run_steps pool_next two_tasks (thread_pool 1 1) = Some s \<and> ran s = [7] \<and> workers s = [W_exit]
     \<and> submitted s = started s @ [8]"
proof -
  have "map_option (\<lambda>s. (ran s, workers s, map ((!) (cells (work_queue s))) (p_queue (work_queue s)))) (run_steps pool_next two_tasks (thread_pool 1 1))
      = Some ([7], [W_exit], [8])" by code_simp
  then obtain s where s: "run_steps pool_next two_tasks (thread_pool 1 1) = Some s" "ran s = [7]" "workers s = [W_exit]"
    "map ((!) (cells (work_queue s))) (p_queue (work_queue s)) = [8]" by auto
  have "reach pool_step (thread_pool 1 1) s" by (rule pool_run_reach [OF s(1) reach.start])
  from pool_keeps_tasks [OF this] s show ?thesis by auto
qed

end
