(* ===== verification/Cpp_Barrier.thy ===== *)
theory Cpp_Barrier
  imports Monitor
begin

text \<open>
  The class \<open>Barrier\<close> of \<open>barrier_cpp11/main.cpp\<close>, made of a counter, a mutex and a condition variable,
  and the threads that call \<open>wait\<close>, as the workers of that program do. A step is one statement of
  one thread; \<open>wait_for\<close> with its predicate is the loop the standard describes: test, sleep, test
  again, and a last test after the time is up. \<open>entered\<close> and \<open>passed\<close> count the calls of each thread
  that have been counted and that have returned, \<open>opened\<close> tells that the counter has been full,
  \<open>timed_out\<close> that a thread has reset it after its time was up.
\<close>

datatype bpc =
    B_idle | B_lock | B_inc | B_cmp | B_reset | B_notify
  | B_test bool | B_asleep | B_relock bool | B_timeout | B_unlock

datatype bchoice = B_call | B_go | B_time_up

record barrier =
  num_threads :: nat
  count :: nat
  b_mutex :: "nat option"
  bpcs :: "bpc list"
  entered :: "nat list"
  passed :: "nat list"
  opened :: bool
  timed_out :: bool

definition Barrier :: "nat \<Rightarrow> barrier" where
  \<comment> \<open>a barrier for the \<open>n\<close> threads that use it\<close>
  "Barrier n = \<lparr>num_threads = n, count = 0, b_mutex = None, bpcs = replicate n B_idle, entered = replicate n 0,
     passed = replicate n 0, opened = False, timed_out = False\<rparr>"

definition b_goto :: "nat \<Rightarrow> bpc \<Rightarrow> barrier \<Rightarrow> barrier" where
  "b_goto t p s = s\<lparr>bpcs := (bpcs s)[t := p]\<rparr>"

fun notified :: "bpc \<Rightarrow> bpc" where
  "notified B_asleep = B_relock False"
| "notified p = p"

definition b_acquire :: "nat \<Rightarrow> bpc \<Rightarrow> barrier \<Rightarrow> barrier option" where
  "b_acquire t p s = (if b_mutex s = None then Some (b_goto t p (s\<lparr>b_mutex := Some t\<rparr>)) else None)"

fun barrier_wait :: "nat \<Rightarrow> bchoice \<Rightarrow> bpc \<Rightarrow> barrier \<Rightarrow> barrier option" where
  "barrier_wait t c B_idle s = (if c = B_call then Some (b_goto t B_lock s) else None)"
| "barrier_wait t c B_lock s = b_acquire t B_inc s"
| "barrier_wait t c B_inc s =
     Some (b_goto t B_cmp (s\<lparr>count := Suc (count s), entered := (entered s)[t := Suc (entered s ! t)]\<rparr>))"
| "barrier_wait t c B_cmp s = Some (b_goto t (if count s = num_threads s then B_reset else B_test False) s)"
| "barrier_wait t c B_reset s = Some (b_goto t B_notify (s\<lparr>count := 0, opened := True\<rparr>))"
| "barrier_wait t c B_notify s = Some (b_goto t B_unlock (s\<lparr>bpcs := map notified (bpcs s)\<rparr>))"
| "barrier_wait t c (B_test late) s =
     Some (if count s = 0 then b_goto t B_unlock s
       else if late then b_goto t B_timeout s
       else b_goto t B_asleep (s\<lparr>b_mutex := None\<rparr>))"
| "barrier_wait t c B_asleep s = Some (b_goto t (B_relock (c = B_time_up)) s)"
| "barrier_wait t c (B_relock late) s = b_acquire t (B_test late) s"
| "barrier_wait t c B_timeout s = Some (b_goto t B_unlock (s\<lparr>count := 0, timed_out := True\<rparr>))"
| "barrier_wait t c B_unlock s =
     Some (b_goto t B_idle (s\<lparr>b_mutex := None, passed := (passed s)[t := Suc (passed s ! t)]\<rparr>))"

definition barrier_next :: "nat \<Rightarrow> bchoice \<Rightarrow> barrier \<Rightarrow> barrier option" where
  "barrier_next t c s = (if t < length (bpcs s) then barrier_wait t c (bpcs s ! t) s else None)"

definition barrier_step :: "barrier \<Rightarrow> barrier \<Rightarrow> bool" where
  "barrier_step s s' \<longleftrightarrow> (\<exists>t c. barrier_next t c s = Some s')"

subsection \<open>The first round\<close>

fun outside :: "bpc \<Rightarrow> bool" where
  "outside B_idle = True"
| "outside B_lock = True"
| "outside B_inc = True"
| "outside p = False"

fun early :: "bpc \<Rightarrow> bool" where
  \<comment> \<open>the statements a thread can be at before the barrier has opened\<close>
  "early B_notify = False"
| "early B_unlock = False"
| "early p = True"

definition closed :: "barrier \<Rightarrow> bool" where
  "closed s \<longleftrightarrow> count s = sum_list (entered s) \<and> list_all early (bpcs s)
     \<and> entered s = map (\<lambda>p. if outside p then 0 else 1) (bpcs s) \<and> passed s = replicate (length (bpcs s)) 0
     \<and> (B_reset \<in> set (bpcs s) \<longrightarrow> count s = num_threads s)"

definition barrier_inv :: "barrier \<Rightarrow> bool" where
  "barrier_inv s \<longleftrightarrow> length (bpcs s) = num_threads s \<and> length (entered s) = num_threads s \<and> length (passed s) = num_threads s
     \<and> (timed_out s \<or> (if opened s then list_all (\<lambda>e. 0 < e) (entered s) else closed s))"

lemma b_goto_fields [simp]:
  "num_threads (b_goto t p s) = num_threads s" "count (b_goto t p s) = count s" "bpcs (b_goto t p s) = (bpcs s)[t := p]"
  "entered (b_goto t p s) = entered s" "passed (b_goto t p s) = passed s" "opened (b_goto t p s) = opened s"
  "timed_out (b_goto t p s) = timed_out s"
  by (simp_all add: b_goto_def)

lemma full_count:
  fixes es :: "nat list"
  assumes "sum_list es = length es" "\<forall>e\<in>set es. e \<le> 1"
  shows "list_all (\<lambda>e. 0 < e) es"
  using assms
proof (induction es)
  case (Cons e es)
  have "sum_list es \<le> length es" using Cons(3) by (induction es) auto
  moreover have "e \<le> 1" using Cons(3) by simp
  ultimately have "e = 1" "sum_list es = length es" using Cons(2) by auto
  then show ?case using Cons(1,3) by simp
qed simp

lemma closed_all_entered:
  assumes "closed s" "count s = num_threads s" "length (bpcs s) = num_threads s"
  shows "list_all (\<lambda>e. 0 < e) (entered s)" "t < length (bpcs s) \<Longrightarrow> \<not> outside (bpcs s ! t)"
proof -
  have e: "entered s = map (\<lambda>p. if outside p then 0 else 1) (bpcs s)" using assms(1) by (simp add: closed_def)
  have "sum_list (entered s) = length (entered s)" using assms by (simp add: closed_def e)
  then show a: "list_all (\<lambda>e. 0 < e) (entered s)" by (rule full_count) (auto simp: e)
  show "t < length (bpcs s) \<Longrightarrow> \<not> outside (bpcs s ! t)" using a by (auto simp: e list_all_length split: if_splits)
qed

lemma closed_mutex [simp]: "closed (s\<lparr>b_mutex := h\<rparr>) = closed s"
  by (simp add: closed_def)

lemma closed_goto:
  assumes "closed s" "t < length (bpcs s)" "early p" "outside p = outside (bpcs s ! t)" "p = B_reset \<longrightarrow> count s = num_threads s"
  shows "closed (b_goto t p (s\<lparr>b_mutex := h\<rparr>))" "closed (b_goto t p s)"
proof -
  have e: "map (\<lambda>p. if outside p then 0 else (1::nat)) ((bpcs s)[t := p]) = map (\<lambda>p. if outside p then 0 else 1) (bpcs s)"
    using assms(2,4) by (simp add: map_update list_update_same_conv)
  have "list_all early ((bpcs s)[t := p])" "B_reset \<in> set ((bpcs s)[t := p]) \<Longrightarrow> p = B_reset \<or> B_reset \<in> set (bpcs s)"
    using assms(1,3) by (auto simp: closed_def list_all_iff dest!: set_update_subset_insert [THEN subsetD])
  then show "closed (b_goto t p (s\<lparr>b_mutex := h\<rparr>))" "closed (b_goto t p s)" using assms(1,5) e by (auto simp: closed_def)
qed

lemma closed_enter:
  assumes "closed s" "t < length (bpcs s)" "bpcs s ! t = B_inc" "length (bpcs s) = num_threads s"
  shows "closed (b_goto t B_cmp (s\<lparr>count := Suc (count s), entered := (entered s)[t := Suc (entered s ! t)]\<rparr>))"
proof -
  have e: "entered s = map (\<lambda>p. if outside p then 0 else 1) (bpcs s)" using assms(1) by (simp add: closed_def)
  have z: "entered s ! t = 0" "t < length (entered s)" using assms(2,3) by (simp_all add: e)
  have "sum_list ((entered s)[t := 1]) = Suc (sum_list (entered s))"
    using sum_list_update [OF z(2), of "\<lambda>x. x" 1] z(1) by simp
  moreover have "B_reset \<notin> set (bpcs s)"
    using closed_all_entered(2) [OF assms(1) _ assms(4,2)] assms(1,3) by (auto simp: closed_def)
  moreover have "list_all early ((bpcs s)[t := B_cmp])"
    using assms(1) by (auto simp: closed_def list_all_iff dest!: set_update_subset_insert [THEN subsetD])
  moreover have "B_reset \<notin> set ((bpcs s)[t := B_cmp])" using calculation(2) by (auto dest!: set_update_subset_insert [THEN subsetD])
  ultimately show ?thesis using assms(1) z by (simp add: closed_def map_update)
qed

lemma barrier_next_inv:
  assumes "barrier_inv s" "barrier_next t c s = Some s'"
  shows "barrier_inv s'"
proof -
  have t: "t < length (bpcs s)" and w: "barrier_wait t c (bpcs s ! t) s = Some s'"
    using assms(2) by (auto simp: barrier_next_def split: if_splits)
  have l: "length (bpcs s) = num_threads s" "length (bpcs s') = num_threads s'" "length (entered s') = num_threads s'" "length (passed s') = num_threads s'"
    using assms(1) w by (cases "bpcs s ! t"; auto simp: barrier_inv_def b_acquire_def split: if_splits)+
  have "timed_out s \<Longrightarrow> timed_out s'" using w by (cases "bpcs s ! t") (auto simp: b_acquire_def split: if_splits)
  moreover have "timed_out s' \<or> opened s' \<and> list_all (\<lambda>e. 0 < e) (entered s')" if "opened s" "list_all (\<lambda>e. 0 < e) (entered s)"
    using that w by (cases "bpcs s ! t") (auto simp: b_acquire_def list_all_iff split: if_splits dest!: set_update_subset_insert [THEN subsetD])
  moreover have "timed_out s' \<or> (if opened s' then list_all (\<lambda>e. 0 < e) (entered s') else closed s')" if cl: "closed s" "\<not> opened s"
  proof -
    have ea: "early (bpcs s ! t)" using cl(1) t by (simp add: closed_def list_all_length)
    have cnt: "count s \<noteq> 0" if "\<not> outside (bpcs s ! t)"
    proof -
      have "entered s ! t = 1" "t < length (entered s)" using cl(1) t that by (auto simp: closed_def)
      then have "1 \<le> sum_list (entered s)" by (metis elem_le_sum_list)
      moreover have "count s = sum_list (entered s)" using cl(1) by (simp add: closed_def)
      ultimately show ?thesis by linarith
    qed
    show ?thesis
    proof (cases "bpcs s ! t")
      case B_inc
      then show ?thesis using w closed_enter [OF cl(1) t B_inc l(1)] cl(2) by auto
    next
      case B_reset
      then have "count s = num_threads s" using cl(1) t by (auto simp: closed_def in_set_conv_nth)
      then show ?thesis using w B_reset closed_all_entered(1) [OF cl(1) _ l(1)] by auto
    next
      case (B_test late)
      have "closed (b_goto t B_asleep (s\<lparr>b_mutex := None\<rparr>))" "closed (b_goto t B_timeout s)"
        by (intro closed_goto [OF cl(1) t]; simp add: B_test)+
      then show ?thesis using w B_test cnt cl(2) by (cases late) auto
    qed (use w cl t ea in \<open>auto simp: b_acquire_def intro!: closed_goto split: if_splits\<close>)
  qed
  ultimately show ?thesis using assms(1) l by (auto simp: barrier_inv_def split: if_splits)
qed

interpretation br: invariant_of "Barrier n" barrier_step barrier_inv for n
proof
  show "barrier_inv (Barrier n)" by (auto simp: barrier_inv_def closed_def Barrier_def sum_list_replicate list_all_iff)
qed (auto simp: barrier_step_def intro: barrier_next_inv)

text \<open>
  C30. The first round of the barrier holds: as long as no thread has run out of time, no call of
  \<open>wait\<close> returns before every thread has called it.
\<close>

theorem barrier_first_round:
  assumes "reach barrier_step (Barrier n) s" "\<not> timed_out s" "t < n" "0 < passed s ! t" "u < n"
  shows "0 < entered s ! u"
proof -
  have i: "barrier_inv s" by (rule br.reach_inv [OF assms(1)])
  have n: "num_threads s = n"
  proof -
    have "barrier_wait t c p s = Some s' \<Longrightarrow> num_threads s' = num_threads s" for t c p s s'
      by (cases p) (auto simp: b_acquire_def split: if_splits)
    then have "barrier_step s s' \<Longrightarrow> num_threads s' = num_threads s" for s s'
      by (auto simp: barrier_step_def barrier_next_def split: if_splits)
    with assms(1) show ?thesis by (induction rule: reach.induct) (auto simp: Barrier_def)
  qed
  have "opened s" using i assms(2-4) n by (auto simp: barrier_inv_def closed_def split: if_splits)
  then show ?thesis using i assms(2,5) n by (auto simp: barrier_inv_def list_all_length)
qed

definition one_round :: "(nat \<times> bchoice) list" where
  \<comment> \<open>thread 0 sleeps, thread 1 opens the barrier and both return\<close>
  "one_round = [(0, B_call), (0, B_go), (0, B_go), (0, B_go), (0, B_go), (1, B_call), (1, B_go), (1, B_go), (1, B_go), (1, B_go),
     (1, B_go), (1, B_go), (0, B_go), (0, B_go), (0, B_go)]"

lemma barrier_run_reach: "run_steps barrier_next sched s = Some s' \<Longrightarrow> reach barrier_step i s \<Longrightarrow> reach barrier_step i s'"
  by (rule run_reach) (auto simp: barrier_step_def)

theorem barrier_first_round_witness:
  "\<exists>s. run_steps barrier_next one_round (Barrier 2) = Some s \<and> passed s = [1, 1] \<and> 0 < entered s ! 1"
proof -
  have "map_option (\<lambda>s. (passed s, timed_out s)) (run_steps barrier_next one_round (Barrier 2)) = Some ([1, 1], False)" by code_simp
  then obtain s where s: "run_steps barrier_next one_round (Barrier 2) = Some s" "passed s = [1, 1]" "\<not> timed_out s" by auto
  have "reach barrier_step (Barrier 2) s" by (rule barrier_run_reach [OF s(1) reach.start])
  from barrier_first_round [OF this s(3), of 0 1] s show ?thesis by auto
qed

subsection \<open>The next round\<close>

definition overtaken :: "(nat \<times> bchoice) list" where
  \<comment> \<open>thread 1 opens the barrier and calls \<open>wait\<close> again before thread 0 has woken up\<close>
  "overtaken = take 12 one_round @ [(1, B_call), (1, B_go), (1, B_go), (1, B_go), (1, B_go), (0, B_go), (0, B_go)]"

text \<open>
  The barrier cannot be used again at once: a thread that calls \<open>wait\<close> a second time before a
  sleeping thread has tested the counter makes that test fail. Both threads then sleep although
  both have arrived, the notification is spent, and only the time-out of five seconds releases
  them, which resets the counter of the next round.
\<close>

theorem barrier_overtaken:
  "\<exists>s. run_steps barrier_next overtaken (Barrier 2) = Some s \<and> reach barrier_step (Barrier 2) s
     \<and> bpcs s = [B_asleep, B_asleep] \<and> opened s \<and> \<not> timed_out s \<and> entered s = [1, 2] \<and> passed s = [0, 1]"
proof -
  have "map_option (\<lambda>s. (bpcs s, opened s, timed_out s, entered s, passed s)) (run_steps barrier_next overtaken (Barrier 2))
      = Some ([B_asleep, B_asleep], True, False, [1, 2], [0, 1])" by code_simp
  then obtain s where s: "run_steps barrier_next overtaken (Barrier 2) = Some s" "bpcs s = [B_asleep, B_asleep]" "opened s" "\<not> timed_out s"
    "entered s = [1, 2]" "passed s = [0, 1]" by auto
  have "reach barrier_step (Barrier 2) s" by (rule barrier_run_reach [OF s(1) reach.start])
  then show ?thesis using s by blast
qed

end
