(* ===== verification/Nice_Session.thy ===== *)
theory Nice_Session
  imports Sds_Text
begin

text \<open>
  The exchange of candidates in \<open>libnice/examples/simple-example.c\<close> (\<open>threaded-example.c\<close> has the same
  \<open>parse_candidate\<close>, \<open>print_local_data\<close> and \<open>parse_remote_data\<close>): each client prints one line with its
  credentials and candidates, and reads the line of the other client.

  GLib and libnice are the record \<open>nice\<close> of the functions the program calls; \<open>glib_laws\<close> and
  \<open>address_laws\<close> state what their documentation says of splitting strings and of addresses as text.
  An address is any type \<open>'a\<close> and an agent any type \<open>'g\<close>. \<open>nmem\<close> counts the vectors of strings, the
  candidates and the single strings that the program has allocated and not freed.
\<close>

record 'a NiceCandidate =
  nc_type :: nat
  component_id :: nat
  cand_stream_id :: nat
  is_udp :: bool
  foundation :: "char list"
  priority :: int
  nc_addr :: 'a

record ('a, 'g) nice =
  g_strsplit :: "char list \<Rightarrow> char list \<Rightarrow> nat \<Rightarrow> char list list"
  g_strsplit_set :: "char list \<Rightarrow> char list \<Rightarrow> nat \<Rightarrow> char list list"
  NICE_CANDIDATE_MAX_FOUNDATION :: nat
  nice_candidate_new :: "nat \<Rightarrow> 'a NiceCandidate"
  nice_address_set_from_string :: "'a \<Rightarrow> char list \<Rightarrow> 'a option"
  nice_address_set_port :: "'a \<Rightarrow> int \<Rightarrow> 'a"
  nice_address_get_port :: "'a \<Rightarrow> int"
  nice_address_to_string :: "'a \<Rightarrow> char list"
  nice_agent_get_local_credentials :: "'g \<Rightarrow> nat \<Rightarrow> (char list \<times> char list) option"
  nice_agent_get_local_candidates :: "'g \<Rightarrow> nat \<Rightarrow> nat \<Rightarrow> 'a NiceCandidate list"
  nice_agent_set_remote_credentials :: "'g \<Rightarrow> nat \<Rightarrow> char list \<Rightarrow> char list \<Rightarrow> bool \<times> 'g"
  nice_agent_set_remote_candidates :: "'g \<Rightarrow> nat \<Rightarrow> nat \<Rightarrow> 'a NiceCandidate list \<Rightarrow> int \<times> 'g"
  nice_agent_get_selected_pair :: "'g \<Rightarrow> nat \<Rightarrow> nat \<Rightarrow> ('a \<times> 'a) option"

record nmem =
  vecs :: int
  cands :: int
  strs :: int

definition EXIT_SUCCESS :: int where "EXIT_SUCCESS = 0"
definition EXIT_FAILURE :: int where "EXIT_FAILURE = 1"
definition INET6_ADDRSTRLEN :: nat where "INET6_ADDRSTRLEN = 46"

definition candidate_type_name :: "char list list" where
  "candidate_type_name = [''host'', ''srflx'', ''prflx'', ''relay'']"

definition state_name :: "char list list" where
  "state_name = [''disconnected'', ''gathering'', ''connecting'', ''connected'', ''ready'', ''failed'']"

definition atoi :: "char list \<Rightarrow> int res" where
  \<comment> \<open>a number that is no \<open>int\<close> is undefined\<close>
  "atoi t = c32 (strtol10 t)"

subsection \<open>Reading the line of the other client\<close>

fun find_type :: "char list \<Rightarrow> char list list \<Rightarrow> nat \<Rightarrow> nat" where
  "find_type t [] i = i"
| "find_type t (n # ns) i = (if cstr t = n then i else find_type t ns (Suc i))"

definition parse_candidate :: "('a, 'g) nice \<Rightarrow> char list \<Rightarrow> nat \<Rightarrow> nmem \<Rightarrow> ('a NiceCandidate option \<times> nmem) res" where
  "parse_candidate L scand sid m =
     (let tokens = g_strsplit L scand '','' 5;
          m1 = m\<lparr>vecs := vecs m + 1\<rparr>;
          strfreev = (\<lambda>m. m\<lparr>vecs := vecs m - 1\<rparr>);
          i = find_type (tokens ! 4) candidate_type_name 0 in
      if length tokens \<noteq> 5 then Inr (None, strfreev m1)
      else if i = length candidate_type_name then Inr (None, strfreev m1)
      else
        let cand = (nice_candidate_new L i)\<lparr>component_id := 1, cand_stream_id := sid, is_udp := True\<rparr>;
            m2 = m1\<lparr>cands := cands m1 + 1\<rparr>;
            k = NICE_CANDIDATE_MAX_FOUNDATION L in
        rbind (write_bytes (foundation cand) 0 (take k (cstr (tokens ! 0) @ replicate k NUL))) (\<lambda>f.
        rbind (poke f (int k - 1) NUL) (\<lambda>f.
        rbind (atoi (tokens ! 1)) (\<lambda>prio.
        case nice_address_set_from_string L (nc_addr cand) (tokens ! 2) of
          None \<Rightarrow> Inr (None, strfreev (m2\<lparr>cands := cands m2 - 1\<rparr>))
        | Some a \<Rightarrow>
            rbind (atoi (tokens ! 3)) (\<lambda>port.
            Inr (Some (cand\<lparr>foundation := f, priority := u32 prio, nc_addr := nice_address_set_port L a (u32 port)\<rparr>), strfreev m2))))))"

fun remote_loop ::
  "('a, 'g) nice \<Rightarrow> nat \<Rightarrow> char list list \<Rightarrow> char list option \<Rightarrow> char list option \<Rightarrow> 'a NiceCandidate list \<Rightarrow> nmem
    \<Rightarrow> (bool \<times> char list option \<times> char list option \<times> 'a NiceCandidate list \<times> nmem) res" where
  "remote_loop L sid [] ufrag passwd cs m = Inr (True, ufrag, passwd, cs, m)"
| "remote_loop L sid (w # ws) ufrag passwd cs m =
     (if strlen w = 0 then remote_loop L sid ws ufrag passwd cs m
      else if ufrag = None then remote_loop L sid ws (Some w) passwd cs m
      else if passwd = None then remote_loop L sid ws ufrag (Some w) cs m
      else rbind (parse_candidate L w sid m) (\<lambda>(c, m1).
        case c of
          None \<Rightarrow> Inr (False, ufrag, passwd, cs, m1)
        | Some c \<Rightarrow> remote_loop L sid ws ufrag passwd (c # cs) m1))"

definition parse_remote_data :: "('a, 'g) nice \<Rightarrow> 'g \<Rightarrow> nat \<Rightarrow> nat \<Rightarrow> char list \<Rightarrow> nmem \<Rightarrow> (int \<times> 'g \<times> nmem) res" where
  "parse_remote_data L agent sid cid line m =
     (let argv = g_strsplit_set L line [CHR '' '', CHR 0x09, CHR 0x0A] 0;
          m1 = m\<lparr>vecs := vecs m + 1\<rparr> in
      rbind (remote_loop L sid argv None None [] m1) (\<lambda>(ok, ufrag, passwd, cs, m2).
        let m3 = m2\<lparr>vecs := vecs m2 - 1, cands := cands m2 - int (length cs)\<rparr> in
        if \<not> ok then Inr (EXIT_FAILURE, agent, m3)
        else case (ufrag, passwd) of
          (Some u, Some p) \<Rightarrow>
            if cs = [] then Inr (EXIT_FAILURE, agent, m3)
            else (case nice_agent_set_remote_credentials L agent sid u p of (good, agent1) \<Rightarrow>
              if \<not> good then Inr (EXIT_FAILURE, agent1, m3)
              else (case nice_agent_set_remote_candidates L agent1 sid cid cs of (n, agent2) \<Rightarrow>
                if n < 1 then Inr (EXIT_FAILURE, agent2, m3) else Inr (EXIT_SUCCESS, agent2, m3)))
        | _ \<Rightarrow> Inr (EXIT_FAILURE, agent, m3)))"

subsection \<open>Printing the own line\<close>

definition address_text :: "('a, 'g) nice \<Rightarrow> 'a \<Rightarrow> char list res" where
  \<comment> \<open>\<open>nice_address_to_string\<close> fills the buffer \<open>ipaddr\<close>, which is then printed\<close>
  "address_text L a = rbind (write_bytes (replicate INET6_ADDRSTRLEN NUL) 0 (nice_address_to_string L a @ [NUL])) (\<lambda>b. Inr (cstr b))"

definition print_candidate :: "('a, 'g) nice \<Rightarrow> 'a NiceCandidate \<Rightarrow> char list res" where
  "print_candidate L c =
     rbind (address_text L (nc_addr c)) (\<lambda>ip.
     if NUL \<notin> set (foundation c) \<or> length candidate_type_name \<le> nc_type c then Inl BadAccess
     else Inr ('' '' @ cstr (foundation c) @ '','' @ dec (nat (u32 (priority c))) @ '','' @ ip @ '',''
       @ dec (nat (u32 (nice_address_get_port L (nc_addr c)))) @ '','' @ candidate_type_name ! nc_type c))"

fun print_candidates :: "('a, 'g) nice \<Rightarrow> 'a NiceCandidate list \<Rightarrow> char list res" where
  "print_candidates L [] = Inr []"
| "print_candidates L (c # cs) = rbind (print_candidate L c) (\<lambda>t. rbind (print_candidates L cs) (\<lambda>ts. Inr (t @ ts)))"

definition print_local_data :: "('a, 'g) nice \<Rightarrow> 'g \<Rightarrow> nat \<Rightarrow> nat \<Rightarrow> nmem \<Rightarrow> (int \<times> char list \<times> nmem) res" where
  "print_local_data L agent sid cid m =
     (case nice_agent_get_local_credentials L agent sid of
        None \<Rightarrow> Inr (EXIT_FAILURE, [], m)
      | Some (ufrag, password) \<Rightarrow>
          let m1 = m\<lparr>strs := strs m + 2\<rparr>;
              cs = nice_agent_get_local_candidates L agent sid cid;
              m2 = m1\<lparr>cands := cands m1 + int (length cs)\<rparr>;
              m3 = m2\<lparr>strs := strs m2 - 2, cands := cands m2 - int (length cs)\<rparr> in
          if cs = [] then Inr (EXIT_FAILURE, [], m3)
          else rbind (print_candidates L cs) (\<lambda>t.
            Inr (EXIT_SUCCESS, cstr ufrag @ '' '' @ cstr password @ t @ [CHR 0x0A], m3)))"

subsection \<open>The callbacks of the main loop\<close>

text \<open>
  The state of a running client: the agent, what was written to standard output, the functions that
  watch standard input, the messages handed to \<open>nice_agent_send\<close>, and whether the main loop was told
  to quit. A line of standard input is \<open>Some\<close> text, and \<open>None\<close> at its end.
\<close>

datatype watch = Remote_info | Send_data

record 'g session =
  agent :: 'g
  stream_id :: nat
  nice_mem :: nmem
  stdout :: "char list"
  watches :: "watch list"
  sent :: "char list list"
  quitted :: bool

definition print_out :: "char list \<Rightarrow> 'g session \<Rightarrow> 'g session" where
  "print_out t s = s\<lparr>stdout := stdout s @ t\<rparr>"

definition newline :: "char list" where
  "newline = [CHR 0x0A]"

definition cb_candidate_gathering_done :: "('a, 'g) nice \<Rightarrow> nat \<Rightarrow> 'g session \<Rightarrow> 'g session res" where
  "cb_candidate_gathering_done L sid s =
     rbind (print_local_data L (agent s) sid 1 (nice_mem s)) (\<lambda>(r, t, m).
     Inr (print_out (''Copy this line to remote client:'' @ newline @ newline @ ''  '' @ t @ newline
         @ ''Enter remote data (single line, no wrapping):'' @ newline @ ''> '')
       (s\<lparr>nice_mem := m, watches := watches s @ [Remote_info]\<rparr>)))"

definition stdin_remote_info_cb :: "('a, 'g) nice \<Rightarrow> char list option \<Rightarrow> 'g session \<Rightarrow> (bool \<times> 'g session) res" where
  "stdin_remote_info_cb L line s =
     (case line of
        None \<Rightarrow> Inr (True, s)
      | Some l \<Rightarrow>
          rbind (parse_remote_data L (agent s) (stream_id s) 1 l (nice_mem s)) (\<lambda>(rval, g, m).
          let s1 = s\<lparr>agent := g, nice_mem := m\<rparr> in
          if rval = EXIT_SUCCESS then Inr (False, s1)
          else Inr (True, print_out (''Enter remote data (single line, no wrapping):'' @ newline @ ''> '') s1)))"

definition cb_component_state_changed :: "('a, 'g) nice \<Rightarrow> nat \<Rightarrow> nat \<Rightarrow> nat \<Rightarrow> 'g session \<Rightarrow> 'g session res" where
  \<comment> \<open>the states are numbered as in \<open>state_name\<close>\<close>
  "cb_component_state_changed L sid cid state s =
     (if length state_name \<le> state then Inl BadAccess
      else if state_name ! state = ''connected'' then
        rbind (case nice_agent_get_selected_pair L (agent s) sid cid of
            None \<Rightarrow> Inr []
          | Some (l, r) \<Rightarrow>
              rbind (address_text L l) (\<lambda>a. rbind (address_text L r) (\<lambda>b.
              Inr (newline @ ''Negotiation complete: (['' @ a @ '']:'' @ dec_int (s32 (nice_address_get_port L l)) @ '',''
                @ '' ['' @ b @ '']:'' @ dec_int (s32 (nice_address_get_port L r)) @ '')'' @ newline)))) (\<lambda>t.
        Inr (print_out (t @ newline @ ''Send lines to remote (Ctrl-D to quit):'' @ newline @ ''> '')
          (s\<lparr>watches := watches s @ [Send_data]\<rparr>)))
      else if state_name ! state = ''failed'' then Inr (s\<lparr>quitted := True\<rparr>)
      else Inr s)"

definition stdin_send_data_cb :: "char list option \<Rightarrow> 'g session \<Rightarrow> bool \<times> 'g session" where
  "stdin_send_data_cb line s =
     (case line of
        Some l \<Rightarrow> (True, print_out ''> '' (s\<lparr>sent := sent s @ [cstr l]\<rparr>))
      | None \<Rightarrow> (True, s\<lparr>sent := sent s @ [[NUL]], quitted := True\<rparr>))"

definition cb_nice_recv :: "char list \<Rightarrow> 'g session \<Rightarrow> 'g session" where
  "cb_nice_recv bf s =
     print_out (cstr bf) (if length bf = 1 \<and> bf ! 0 = NUL then s\<lparr>quitted := True\<rparr> else s)"

datatype event = Gathering_done | State_changed nat | Stdin nat "char list option" | Received "char list"

definition dispatch :: "('a, 'g) nice \<Rightarrow> event \<Rightarrow> 'g session \<Rightarrow> 'g session res" where
  \<comment> \<open>one round of the main loop; \<open>Stdin i\<close> is the \<open>i\<close>-th function that watches standard input\<close>
  "dispatch L e s =
     (if quitted s then Inr s else
      case e of
        Gathering_done \<Rightarrow> cb_candidate_gathering_done L (stream_id s) s
      | State_changed st \<Rightarrow> cb_component_state_changed L (stream_id s) 1 st s
      | Received bf \<Rightarrow> Inr (cb_nice_recv bf s)
      | Stdin i line \<Rightarrow>
          if length (watches s) \<le> i then Inr s else
          rbind (case watches s ! i of Remote_info \<Rightarrow> stdin_remote_info_cb L line s | Send_data \<Rightarrow> Inr (stdin_send_data_cb line s))
            (\<lambda>(keep, s1). Inr (if keep then s1 else s1\<lparr>watches := take i (watches s1) @ drop (Suc i) (watches s1)\<rparr>)))"

fun dispatch_all :: "('a, 'g) nice \<Rightarrow> event list \<Rightarrow> 'g session \<Rightarrow> 'g session res" where
  "dispatch_all L [] s = Inr s"
| "dispatch_all L (e # es) s = rbind (dispatch L e s) (dispatch_all L es)"

definition simple_main :: "char list list \<Rightarrow> (int + bool \<times> (char list \<times> int) option) res" where
  \<comment> \<open>the arguments after the name of the program: the exit code, or the mode and the STUN server\<close>
  "simple_main argv =
     (if 3 < length argv \<or> argv = [] then Inr (Inl EXIT_FAILURE)
      else rbind (peek (argv ! 0 @ [NUL]) 1) (\<lambda>c1.
      if c1 \<noteq> NUL then Inr (Inl EXIT_FAILURE)
      else rbind (peek (argv ! 0 @ [NUL]) 0) (\<lambda>c0.
      let controlling = code c0 - 48 in
      if controlling \<noteq> 0 \<and> controlling \<noteq> 1 then Inr (Inl EXIT_FAILURE)
      else if length argv = 1 then Inr (Inr (controlling = 1, None))
      else rbind (if length argv = 2 then Inr 3478 else atoi (argv ! 2)) (\<lambda>port.
        Inr (Inr (controlling = 1, Some (argv ! 1, u32 port)))))))"

subsection \<open>What the libraries promise\<close>

fun joined :: "char \<Rightarrow> char list list \<Rightarrow> char list" where
  "joined d [] = []"
| "joined d [w] = w"
| "joined d (w # v # ws) = w @ d # joined d (v # ws)"

fun split_set :: "char list \<Rightarrow> char list \<Rightarrow> char list list" where
  "split_set ds [] = [[]]"
| "split_set ds (c # cs) =
     (if c \<in> set ds then [] # split_set ds cs
      else case split_set ds cs of [] \<Rightarrow> [[c]] | w # ws \<Rightarrow> (c # w) # ws)"

definition blanks :: "char list" where
  "blanks = [CHR '' '', CHR 0x09, CHR 0x0A]"

definition glib_laws :: "('a, 'g) nice \<Rightarrow> bool" where
  \<comment> \<open>at most \<open>n\<close> pieces come back as they were joined; \<open>g_strsplit_set\<close> cuts at every delimiter\<close>
  "glib_laws L \<longleftrightarrow>
     (\<forall>ws d n. ws \<noteq> [] \<and> length ws \<le> n \<and> (\<forall>w\<in>set ws. d \<notin> set w \<and> NUL \<notin> set w) \<and> joined d ws \<noteq> [] \<longrightarrow> g_strsplit L (joined d ws) [d] n = ws)
     \<and> (\<forall>s ds. s \<noteq> [] \<and> NUL \<notin> set s \<longrightarrow> g_strsplit_set L s ds 0 = split_set ds s)"

definition word :: "char list \<Rightarrow> bool" where
  "word w \<longleftrightarrow> (\<forall>c\<in>set w. c \<notin> set blanks \<and> c \<noteq> NUL)"

definition field :: "char list \<Rightarrow> bool" where
  "field w \<longleftrightarrow> word w \<and> CHR '','' \<notin> set w"

definition address_laws :: "('a, 'g) nice \<Rightarrow> bool" where
  \<comment> \<open>an address is text without blanks that fits its buffer, and is read back but for its port\<close>
  "address_laws L \<longleftrightarrow>
     (\<forall>a. field (nice_address_to_string L a) \<and> length (nice_address_to_string L a) < INET6_ADDRSTRLEN
        \<and> 0 \<le> nice_address_get_port L a \<and> nice_address_get_port L a < 65536
        \<and> (\<forall>a0. \<exists>b. nice_address_set_from_string L a0 (nice_address_to_string L a) = Some b \<and> nice_address_set_port L b (nice_address_get_port L a) = a))
     \<and> (\<forall>t. nc_type (nice_candidate_new L t) = t \<and> length (foundation (nice_candidate_new L t)) = NICE_CANDIDATE_MAX_FOUNDATION L)"

definition printable :: "('a, 'g) nice \<Rightarrow> 'a NiceCandidate \<Rightarrow> bool" where
  "printable L c \<longleftrightarrow> nc_type c < length candidate_type_name \<and> 0 \<le> priority c \<and> priority c < 2147483648
     \<and> field (cstr (foundation c)) \<and> length (cstr (foundation c)) < NICE_CANDIDATE_MAX_FOUNDATION L \<and> NUL \<in> set (foundation c)"

definition received :: "('a, 'g) nice \<Rightarrow> nat \<Rightarrow> 'a NiceCandidate \<Rightarrow> 'a NiceCandidate" where
  \<comment> \<open>the candidate \<open>c\<close> of the other client\<close>
  "received L sid c = (nice_candidate_new L (nc_type c))\<lparr>component_id := 1, cand_stream_id := sid, is_udp := True,
     foundation := cstr (foundation c) @ replicate (NICE_CANDIDATE_MAX_FOUNDATION L - length (cstr (foundation c))) NUL,
     priority := priority c, nc_addr := nc_addr c\<rparr>"

definition cand_text :: "('a, 'g) nice \<Rightarrow> 'a NiceCandidate \<Rightarrow> char list" where
  "cand_text L c = joined CHR '','' [cstr (foundation c), dec (nat (priority c)), nice_address_to_string L (nc_addr c),
     dec (nat (nice_address_get_port L (nc_addr c))), candidate_type_name ! nc_type c]"

lemma split_set_nonempty [simp]: "split_set ds s \<noteq> []"
  by (cases s) (auto split: list.split)

lemma split_set_word: "(\<forall>c\<in>set w. c \<notin> set ds) \<Longrightarrow> d \<in> set ds \<Longrightarrow> split_set ds (w @ d # r) = w # split_set ds r"
  by (induction w) auto

lemma digits_field: "field (dec n)"
proof -
  have "c \<notin> set blanks \<and> c \<noteq> NUL \<and> c \<noteq> CHR '',''" if "c \<in> set (dec n)" for c
    using dec_digits [OF that] by (auto simp: blanks_def code_def)
  then show ?thesis by (auto simp: field_def word_def)
qed

lemma atoi_dec:
  assumes "int n < 2147483648"
  shows "atoi (dec n) = Inr (int n)"
proof -
  have v: "Prelude.dec_value (dec n) = int n"
    using dec_round_trip [of n] by (simp add: Prelude.dec_value_def Sds_Text.dec_value_def)
  have "strtol10 ([] @ dec n @ []) = Prelude.dec_value (dec n)"
    by (rule strtol10_digits) (use v assms dec_digits in \<open>auto simp: list_all_iff isdigit_def\<close>)
  then show ?thesis using v assms by (simp add: atoi_def cint_simps)
qed

lemma type_names: "i < 4 \<Longrightarrow> find_type (candidate_type_name ! i) candidate_type_name 0 = i \<and> field (candidate_type_name ! i)"
  by (auto simp: candidate_type_name_def less_Suc_eq numeral_eq_Suc field_def word_def blanks_def cstr_def)

lemma padded_foundation:
  assumes "length f < k"
  shows "(take k (f @ replicate k NUL))[k - 1 := NUL] = f @ replicate (k - length f) NUL"
proof -
  have "(f @ replicate (k - length f) NUL)[k - 1 := NUL] = f @ replicate (k - length f) NUL"
    using assms by (intro nth_equalityI) (auto simp: nth_append nth_list_update)
  then show ?thesis using assms by simp
qed

lemma address_text_eq:
  assumes "address_laws L"
  shows "address_text L a = Inr (nice_address_to_string L a)"
proof -
  let ?t = "nice_address_to_string L a"
  have "length ?t < INET6_ADDRSTRLEN" and f: "field ?t" using assms by (simp_all add: address_laws_def)
  then have "write_bytes (replicate INET6_ADDRSTRLEN NUL) 0 (?t @ [NUL]) = Inr (?t @ NUL # replicate (INET6_ADDRSTRLEN - Suc (length ?t)) NUL)"
    by (simp add: write_bytes_def drop_replicate)
  moreover have "NUL \<notin> set ?t" using f by (auto simp: field_def word_def)
  ultimately show ?thesis by (simp add: address_text_def cstr_append_NUL)
qed

lemma print_candidate_eq:
  assumes "address_laws L" "printable L c"
  shows "print_candidate L c = Inr ('' '' @ cand_text L c)"
proof -
  have "0 \<le> nice_address_get_port L (nc_addr c)" "nice_address_get_port L (nc_addr c) < 65536"
    using assms(1) by (simp_all add: address_laws_def)
  then show ?thesis
    using assms(2) by (simp add: print_candidate_def address_text_eq [OF assms(1)] printable_def cand_text_def cint_simps)
qed

lemma print_candidates_eq:
  assumes "address_laws L" "\<forall>c\<in>set cs. printable L c"
  shows "print_candidates L cs = Inr (concat (map (\<lambda>c. '' '' @ cand_text L c) cs))"
  using assms(2) by (induction cs) (simp_all add: print_candidate_eq [OF assms(1)])

lemma cand_text_fields:
  assumes "address_laws L" "printable L c"
  shows "\<forall>w\<in>set [cstr (foundation c), dec (nat (priority c)), nice_address_to_string L (nc_addr c),
     dec (nat (nice_address_get_port L (nc_addr c))), candidate_type_name ! nc_type c]. field w"
  using assms digits_field type_names [of "nc_type c"]
  by (simp add: printable_def address_laws_def candidate_type_name_def)

lemma cand_text_word:
  assumes "address_laws L" "printable L c"
  shows "word (cand_text L c)" "cand_text L c \<noteq> []"
proof -
  have "word w \<Longrightarrow> word v \<Longrightarrow> word (w @ CHR '','' # v)" for w v by (auto simp: word_def blanks_def)
  then show "word (cand_text L c)"
    using cand_text_fields [OF assms] by (simp add: cand_text_def field_def)
  show "cand_text L c \<noteq> []" by (simp add: cand_text_def)
qed

lemma fieldD: "field w \<Longrightarrow> CHR '','' \<notin> set w \<and> NUL \<notin> set w"
  by (auto simp: field_def word_def)

lemma parse_candidate_text:
  assumes "glib_laws L" "address_laws L" "printable L c"
  shows "parse_candidate L (cand_text L c) sid m = Inr (Some (received L sid c), m\<lparr>cands := cands m + 1\<rparr>)"
proof -
  let ?k = "NICE_CANDIDATE_MAX_FOUNDATION L" and ?f = "cstr (foundation c)"
  let ?ws = "[?f, dec (nat (priority c)), nice_address_to_string L (nc_addr c), dec (nat (nice_address_get_port L (nc_addr c))), candidate_type_name ! nc_type c]"
  have "\<forall>w\<in>set ?ws. CHR '','' \<notin> set w \<and> NUL \<notin> set w"
    using cand_text_fields [OF assms(2,3)] fieldD by blast
  moreover have "joined CHR '','' ?ws \<noteq> []" by simp
  moreover have "length ?ws \<le> 5" by simp
  moreover have "ws \<noteq> [] \<and> length ws \<le> n \<and> (\<forall>w\<in>set ws. d \<notin> set w \<and> NUL \<notin> set w) \<and> joined d ws \<noteq> [] \<longrightarrow> g_strsplit L (joined d ws) [d] n = ws" for ws d n
    using assms(1) by (simp add: glib_laws_def)
  ultimately have "g_strsplit L (joined CHR '','' ?ws) [CHR '',''] 5 = ?ws" by blast
  then have tok: "g_strsplit L (cand_text L c) '','' 5 = ?ws" by (simp add: cand_text_def)
  have ty: "nc_type c < 4" "find_type (candidate_type_name ! nc_type c) candidate_type_name 0 = nc_type c"
    using assms(3) type_names by (simp_all add: printable_def candidate_type_name_def)
  have port: "0 \<le> nice_address_get_port L (nc_addr c)" "nice_address_get_port L (nc_addr c) < 65536"
    using assms(2) by (simp_all add: address_laws_def)
  have prio: "0 \<le> priority c" "priority c < 2147483648" and len: "length ?f < ?k" using assms(3) by (simp_all add: printable_def)
  have new: "nc_type (nice_candidate_new L t) = t" "length (foundation (nice_candidate_new L t)) = ?k" for t
    using assms(2) by (simp_all add: address_laws_def)
  obtain b where b: "nice_address_set_from_string L (nc_addr (nice_candidate_new L (nc_type c))) (nice_address_to_string L (nc_addr c)) = Some b"
    "nice_address_set_port L b (nice_address_get_port L (nc_addr c)) = nc_addr c"
    using assms(2) unfolding address_laws_def by meson
  have w: "write_bytes (foundation (nice_candidate_new L t)) 0 (take ?k (?f @ replicate ?k NUL)) = Inr (take ?k (?f @ replicate ?k NUL))" for t
    using new(2) by (simp add: write_bytes_def)
  have pk: "poke (take ?k (?f @ replicate ?k NUL)) (int ?k - 1) NUL = Inr (?f @ replicate (?k - length ?f) NUL)"
  proof -
    have "int ?k - 1 = int (?k - 1)" "?k - 1 < length (take ?k (?f @ replicate ?k NUL))" using len by simp_all
    then have "poke (take ?k (?f @ replicate ?k NUL)) (int ?k - 1) NUL = Inr ((take ?k (?f @ replicate ?k NUL))[?k - 1 := NUL])"
      by (simp only: poke_in)
    then show ?thesis by (simp only: padded_foundation [OF len])
  qed
  show ?thesis
    unfolding parse_candidate_def tok Let_def
    using ty port prio w pk b new(1)
    by (simp add: atoi_dec cint_simps received_def candidate_type_name_def)
qed

lemma wordD: "word w \<Longrightarrow> (\<forall>c\<in>set w. c \<notin> set blanks) \<and> NUL \<notin> set w"
  by (auto simp: word_def)

lemma word_strlen: "word w \<Longrightarrow> w \<noteq> [] \<Longrightarrow> strlen w \<noteq> 0"
  using wordD [of w] by (simp add: strlen_def)

lemma remote_loop_cands:
  assumes "glib_laws L" "address_laws L" "\<forall>c\<in>set ks. printable L c"
  shows "remote_loop L sid (map (cand_text L) ks @ [[]]) (Some u) (Some p) cs m
    = Inr (True, Some u, Some p, rev (map (received L sid) ks) @ cs, m\<lparr>cands := cands m + int (length ks)\<rparr>)"
  using assms(3)
proof (induction ks arbitrary: cs m)
  case Nil
  then show ?case by (simp add: strlen_def cstr_def)
next
  case (Cons k ks)
  have k: "printable L k" "\<forall>c\<in>set ks. printable L c" using Cons(2) by simp_all
  have "strlen (cand_text L k) \<noteq> 0" using cand_text_word [OF assms(2) k(1)] word_strlen by blast
  then show ?case
    using Cons(1) [OF k(2)] by (simp add: parse_candidate_text [OF assms(1,2) k(1)] algebra_simps)
qed

lemma split_line:
  assumes "word u" "word p" "\<forall>w\<in>set ws. word w"
  shows "split_set blanks (u @ '' '' @ p @ concat (map (\<lambda>w. '' '' @ w) ws) @ [CHR 0x0A]) = u # p # ws @ [[]]"
proof -
  have b: "CHR '' '' \<in> set blanks" "CHR 0x0A \<in> set blanks" by (simp_all add: blanks_def)
  have "split_set blanks (p @ concat (map (\<lambda>w. '' '' @ w) ws) @ [CHR 0x0A]) = p # ws @ [[]]" if "word p" for p
    using that assms(3)
  proof (induction ws arbitrary: p)
    case Nil
    then show ?case using split_set_word [of p blanks "CHR 0x0A" "[]"] wordD b by simp
  next
    case (Cons w ws)
    then show ?case
      using split_set_word [of p blanks "CHR '' ''" "w @ concat (map (\<lambda>w. '' '' @ w) ws) @ [CHR 0x0A]"] wordD b by simp
  qed
  then show ?thesis using split_set_word [of u blanks "CHR '' ''"] wordD [OF assms(1)] assms(2) b by simp
qed

text \<open>
  C17. Two clients understand each other: the line that one client prints is read by the other, which
  hands to its agent the same user name and password and the same candidates (type, foundation,
  priority, address and port), in the reverse order; everything that either of them allocated is
  freed. It holds for the credentials and candidates that ICE allows: words without blanks,
  priorities below \<open>2^31\<close>, and foundations shorter than their array.
\<close>

theorem candidate_line_round_trip:
  assumes "glib_laws L" "address_laws L"
    and "nice_agent_get_local_credentials L a sa = Some (u, p)" "word u" "u \<noteq> []" "word p" "p \<noteq> []"
    and "nice_agent_get_local_candidates L a sa ca = cs" "cs \<noteq> []" "\<forall>c\<in>set cs. printable L c"
    and "nice_agent_set_remote_credentials L b sb u p = (True, b1)"
    and "nice_agent_set_remote_candidates L b1 sb cb (rev (map (received L sb) cs)) = (k, b2)" "1 \<le> k"
  shows "\<exists>line. print_local_data L a sa ca m = Inr (EXIT_SUCCESS, line, m)
    \<and> parse_remote_data L b sb cb line n = Inr (EXIT_SUCCESS, b2, n)"
proof -
  let ?line = "u @ '' '' @ p @ concat (map (\<lambda>w. '' '' @ w) (map (cand_text L) cs)) @ [CHR 0x0A]"
  have nul: "NUL \<notin> set u" "NUL \<notin> set p" using assms(4,6) wordD by blast+
  have words: "\<forall>w\<in>set (map (cand_text L) cs). word w" using assms(2,10) cand_text_word by auto
  have print: "print_local_data L a sa ca m = Inr (EXIT_SUCCESS, ?line, m)"
    using assms(3,8,9) nul by (simp add: print_local_data_def print_candidates_eq [OF assms(2,10)] comp_def)
  have "NUL \<notin> set ?line" using nul words wordD by auto
  moreover have "?line \<noteq> []" by simp
  ultimately have "g_strsplit_set L ?line blanks 0 = split_set blanks ?line" using assms(1) unfolding glib_laws_def by blast
  then have argv: "g_strsplit_set L ?line [CHR '' '', CHR 0x09, CHR 0x0A] 0 = u # p # map (cand_text L) cs @ [[]]"
    using split_line [OF assms(4,6) words] by (simp only: blanks_def)
  have "remote_loop L sb (u # p # map (cand_text L) cs @ [[]]) None None [] m1
      = Inr (True, Some u, Some p, rev (map (received L sb) cs), m1\<lparr>cands := cands m1 + int (length cs)\<rparr>)" for m1
    using remote_loop_cands [OF assms(1,2,10), of sb u p "[]" m1] word_strlen assms(4-7) by simp
  then have "parse_remote_data L b sb cb ?line n = Inr (EXIT_SUCCESS, b2, n)"
    unfolding parse_remote_data_def argv Let_def using assms(9,11-13) by simp
  then show ?thesis using print by blast
qed

subsection \<open>A library that keeps the laws\<close>

fun split_max :: "nat \<Rightarrow> char \<Rightarrow> char list \<Rightarrow> char list list" where
  "split_max 0 d s = []"
| "split_max (Suc n) d s =
     (if n = 0 \<or> d \<notin> set s then [s] else takeWhile (\<lambda>c. c \<noteq> d) s # split_max n d (tl (dropWhile (\<lambda>c. c \<noteq> d) s)))"

type_synonym host_port = "bool \<times> 16 word"

type_synonym sample_agent =
  "(char list \<times> char list) \<times> host_port NiceCandidate list \<times> (char list \<times> char list) option \<times> host_port NiceCandidate list"

definition host_text :: "host_port \<Rightarrow> char list" where
  "host_text a = (if fst a then ''10.0.0.1'' else ''10.0.0.2'')"

definition sample_nice :: "(host_port, sample_agent) nice" where
  "sample_nice = \<lparr>
     g_strsplit = (\<lambda>s d n. if s = [] then [] else split_max n (hd d) s),
     g_strsplit_set = (\<lambda>s ds n. if s = [] then [] else split_set ds s),
     NICE_CANDIDATE_MAX_FOUNDATION = 33,
     nice_candidate_new = (\<lambda>t. \<lparr>nc_type = t, component_id = 0, cand_stream_id = 0, is_udp = False, foundation = replicate 33 NUL, priority = 0, nc_addr = (True, 0)\<rparr>),
     nice_address_set_from_string = (\<lambda>a t. if t = ''10.0.0.1'' then Some (True, 0) else if t = ''10.0.0.2'' then Some (False, 0) else None),
     nice_address_set_port = (\<lambda>a p. (fst a, word_of_int p)),
     nice_address_get_port = (\<lambda>a. uint (snd a)),
     nice_address_to_string = host_text,
     nice_agent_get_local_credentials = (\<lambda>g sid. Some (fst g)),
     nice_agent_get_local_candidates = (\<lambda>g sid cid. fst (snd g)),
     nice_agent_set_remote_credentials = (\<lambda>g sid u p. (True, (fst g, fst (snd g), Some (u, p), snd (snd (snd g))))),
     nice_agent_set_remote_candidates = (\<lambda>g sid cid cs. (int (length cs), (fst g, fst (snd g), fst (snd (snd g)), cs))),
     nice_agent_get_selected_pair = (\<lambda>g sid cid. None)\<rparr>"

lemma split_max_joined: "ws \<noteq> [] \<Longrightarrow> length ws \<le> n \<Longrightarrow> \<forall>w\<in>set ws. d \<notin> set w \<Longrightarrow> split_max n d (joined d ws) = ws"
proof (induction d ws arbitrary: n rule: joined.induct)
  case (2 d w)
  then show ?case by (cases n) auto
next
  case (3 d w v ws)
  then obtain k where k: "n = Suc k" by (cases n) auto
  have d: "d \<notin> set w" using 3(4) by simp
  have "takeWhile (\<lambda>c. c \<noteq> d) (w @ d # joined d (v # ws)) = w" "dropWhile (\<lambda>c. c \<noteq> d) (w @ d # joined d (v # ws)) = d # joined d (v # ws)"
    using d by (auto simp: takeWhile_append dropWhile_append)
  then show ?case using 3 k by auto
qed simp

lemma sample_glib: "glib_laws sample_nice"
  unfolding glib_laws_def by (auto simp: sample_nice_def intro!: split_max_joined)

lemma sample_addresses: "address_laws sample_nice"
  unfolding address_laws_def
proof (intro conjI allI)
  fix a :: host_port and a0 t
  have port: "word_of_int (uint (snd a)) = snd a" "uint (snd a) < 65536" by simp (use uint_bounded [of "snd a"] in simp)
  show "field (nice_address_to_string sample_nice a)" "length (nice_address_to_string sample_nice a) < INET6_ADDRSTRLEN"
    by (auto simp: sample_nice_def host_text_def field_def word_def blanks_def INET6_ADDRSTRLEN_def)
  show "0 \<le> nice_address_get_port sample_nice a" "nice_address_get_port sample_nice a < 65536"
    using port(2) by (simp_all add: sample_nice_def)
  show "\<exists>b. nice_address_set_from_string sample_nice a0 (nice_address_to_string sample_nice a) = Some b
      \<and> nice_address_set_port sample_nice b (nice_address_get_port sample_nice a) = a"
    using port(1) by (cases a) (auto simp: sample_nice_def host_text_def)
  show "nc_type (nice_candidate_new sample_nice t) = t"
    "length (foundation (nice_candidate_new sample_nice t)) = NICE_CANDIDATE_MAX_FOUNDATION sample_nice" by (simp_all add: sample_nice_def)
qed

definition sample_cand :: "bool \<Rightarrow> 16 word \<Rightarrow> host_port NiceCandidate" where
  "sample_cand h p = \<lparr>nc_type = 1, component_id = 1, cand_stream_id = 7, is_udp = True, foundation = ''1'' @ replicate 32 NUL,
     priority = 2130706431, nc_addr = (h, p)\<rparr>"

definition client :: "char list \<Rightarrow> host_port NiceCandidate list \<Rightarrow> sample_agent" where
  "client u cs = ((u, ''secret''), cs, None, [])"

theorem candidate_line_round_trip_witness:
  "\<exists>line. print_local_data sample_nice (client ''ann'' [sample_cand True 5000, sample_cand False 5001]) 7 1 \<lparr>vecs = 0, cands = 0, strs = 0\<rparr>
      = Inr (EXIT_SUCCESS, line, \<lparr>vecs = 0, cands = 0, strs = 0\<rparr>)
    \<and> parse_remote_data sample_nice (client ''bob'' []) 2 1 line \<lparr>vecs = 0, cands = 0, strs = 0\<rparr>
      = Inr (EXIT_SUCCESS, ((''bob'', ''secret''), [], Some (''ann'', ''secret''),
          [(sample_cand False 5001)\<lparr>cand_stream_id := 2\<rparr>, (sample_cand True 5000)\<lparr>cand_stream_id := 2\<rparr>]), \<lparr>vecs = 0, cands = 0, strs = 0\<rparr>)"
proof -
  let ?a = "client ''ann'' [sample_cand True 5000, sample_cand False 5001]" and ?b = "client ''bob'' []"
  have c: "cstr (CHR ''1'' # replicate 32 NUL) = ''1''" by code_simp
  have r: "received sample_nice 2 (sample_cand h p) = (sample_cand h p)\<lparr>cand_stream_id := 2\<rparr>" for h p
    by (simp add: received_def sample_cand_def c) (simp add: sample_nice_def)
  have "printable sample_nice (sample_cand h p)" for h p
    unfolding printable_def by (simp add: sample_cand_def c candidate_type_name_def) (simp add: sample_nice_def field_def word_def blanks_def)
  then have pr: "\<forall>c\<in>set [sample_cand True 5000, sample_cand False 5001]. printable sample_nice c" by simp
  have w: "word ''ann''" "word ''secret''" by (simp_all add: word_def blanks_def)
  show ?thesis
    by (rule candidate_line_round_trip [where k = 2 and ?b1.0 = "((''bob'', ''secret''), [], Some (''ann'', ''secret''), [])", OF sample_glib sample_addresses _ w(1) _ w(2) _ _ _ pr])
      (simp_all add: sample_nice_def client_def r [unfolded sample_nice_def])
qed

subsection \<open>Every line and every event\<close>

definition new_laws :: "('a, 'g) nice \<Rightarrow> bool" where
  \<comment> \<open>a new candidate has an array for its foundation\<close>
  "new_laws L \<longleftrightarrow> 0 < NICE_CANDIDATE_MAX_FOUNDATION L
     \<and> (\<forall>t. length (foundation (nice_candidate_new L t)) = NICE_CANDIDATE_MAX_FOUNDATION L)"

lemma atoi_cases: "atoi t = Inl SignedOverflow \<or> (\<exists>v. atoi t = Inr v)"
  by (auto simp: atoi_def c32_def)

definition balanced :: "nmem \<Rightarrow> ('a NiceCandidate option \<times> nmem) res \<Rightarrow> bool" where
  "balanced m r \<longleftrightarrow> (case r of Inl e \<Rightarrow> e = SignedOverflow | Inr (c, m') \<Rightarrow> m' = m\<lparr>cands := cands m + (if c = None then 0 else 1)\<rparr>)"

lemma parse_candidate_balanced:
  assumes "new_laws L"
  shows "balanced m (parse_candidate L w sid m)"
proof -
  let ?k = "NICE_CANDIDATE_MAX_FOUNDATION L"
  have k: "0 < ?k" "length (foundation (nice_candidate_new L t)) = ?k" for t using assms by (simp_all add: new_laws_def)
  have w: "\<exists>f. write_bytes (foundation (nice_candidate_new L t)) 0 (take ?k (x @ replicate ?k NUL)) = Inr f \<and> length f = ?k" for t x
    using k by (simp add: write_bytes_def) linarith
  have p: "\<exists>f'. poke f (int ?k - 1) NUL = Inr f'" if "length f = ?k" for f using k(1) that by (simp add: poke_def)
  define i where "i = find_type (g_strsplit L w '','' 5 ! 4) candidate_type_name 0"
  obtain f where f: "write_bytes (foundation (nice_candidate_new L i)) 0 (take ?k (cstr (g_strsplit L w '','' 5 ! 0) @ replicate ?k NUL)) = Inr f" "length f = ?k"
    using w by blast
  obtain f' where f': "poke f (int ?k - 1) NUL = Inr f'" using p [OF f(2)] by blast
  show ?thesis
    using atoi_cases [of "g_strsplit L w '','' 5 ! 1"] atoi_cases [of "g_strsplit L w '','' 5 ! 3"] f(1) f'
    by (auto simp: parse_candidate_def balanced_def Let_def i_def [symmetric] split: option.split)
qed

lemma remote_loop_balanced:
  assumes "new_laws L"
  shows "case remote_loop L sid ws ufrag passwd cs m of
      Inl e \<Rightarrow> e = SignedOverflow
    | Inr (ok, u, p, cs', m') \<Rightarrow> m' = m\<lparr>cands := cands m + int (length cs') - int (length cs)\<rparr>"
proof (induction ws arbitrary: ufrag passwd cs m)
  case (Cons w ws)
  have b: "balanced m (parse_candidate L w sid m)" by (rule parse_candidate_balanced [OF assms])
  show ?case
  proof (cases "parse_candidate L w sid m")
    case (Inl e)
    then show ?thesis using b Cons by (auto simp: balanced_def)
  next
    case (Inr r)
    obtain c m1 where r: "r = (c, m1)" by (cases r)
    then have m1: "m1 = m\<lparr>cands := cands m + (if c = None then 0 else 1)\<rparr>" using b Inr by (simp add: balanced_def)
    show ?thesis
    proof (cases c)
      case None
      then show ?thesis using Inr r m1 Cons by simp
    next
      case (Some d)
      from Cons [of m1 "d # cs" ufrag passwd] show ?thesis using Inr r m1 Some Cons by (auto split: sum.splits)
    qed
  qed
qed simp

lemma remote_data_outcome:
  assumes "new_laws L"
  shows "case parse_remote_data L g sid cid line m of
      Inl e \<Rightarrow> e = SignedOverflow
    | Inr (r, g', m') \<Rightarrow> m' = m \<and> r \<in> {EXIT_SUCCESS, EXIT_FAILURE}
        \<and> (r = EXIT_SUCCESS \<longrightarrow> (\<exists>u p g1 cs k. nice_agent_set_remote_credentials L g sid u p = (True, g1) \<and> cs \<noteq> []
             \<and> nice_agent_set_remote_candidates L g1 sid cid cs = (k, g') \<and> 1 \<le> k))"
proof -
  define argv where "argv = g_strsplit_set L line [CHR '' '', CHR 0x09, CHR 0x0A] 0"
  define m1 where "m1 = m\<lparr>vecs := vecs m + 1\<rparr>"
  have b: "case remote_loop L sid argv None None [] m1 of
      Inl e \<Rightarrow> e = SignedOverflow | Inr (ok, u, p, cs', m') \<Rightarrow> m' = m1\<lparr>cands := cands m1 + int (length cs')\<rparr>"
    using remote_loop_balanced [OF assms, where m = m1 and sid = sid and ws = argv and ufrag = None and passwd = None and cs = "[]"] by (auto split: sum.splits)
  show ?thesis
  proof (cases "remote_loop L sid argv None None [] m1")
    case (Inl e)
    then show ?thesis using b by (simp add: parse_remote_data_def Let_def argv_def m1_def)
  next
    case (Inr r)
    obtain ok u p cs m2 where r: "r = (ok, u, p, cs, m2)" by (cases r)
    then have m2: "m2\<lparr>vecs := vecs m2 - 1, cands := cands m2 - int (length cs)\<rparr> = m" using b Inr by (simp add: m1_def)
    have e: "EXIT_FAILURE \<noteq> EXIT_SUCCESS" by (simp add: EXIT_FAILURE_def EXIT_SUCCESS_def)
    show ?thesis
      unfolding parse_remote_data_def Let_def argv_def [symmetric] m1_def [symmetric] Inr r
      using m2 e by (auto simp: not_less split: option.split prod.split) blast
  qed
qed

lemma remote_data_balanced: "new_laws L \<Longrightarrow> parse_remote_data L g sid cid line m = Inr (r, g', m') \<Longrightarrow> m' = m"
  using remote_data_outcome [of L, where g = g and sid = sid and cid = cid and line = line and m = m] by simp

text \<open>
  Whatever line is entered, \<open>parse_remote_data\<close> stays inside of its arrays and frees everything it
  allocated, and it reports success only after the agent has accepted the credentials and at least
  one of the candidates. The one thing that can go wrong is a priority or a port that is no \<open>int\<close>,
  for which the result of \<open>atoi\<close> is undefined.
\<close>

theorem remote_data_frees_all:
  assumes "new_laws L"
  shows "case parse_remote_data L g sid cid line m of
      Inl e \<Rightarrow> e = SignedOverflow
    | Inr (r, g', m') \<Rightarrow> m' = m \<and> r \<in> {EXIT_SUCCESS, EXIT_FAILURE}
        \<and> (r = EXIT_SUCCESS \<longrightarrow> (\<exists>u p g1 cs k. nice_agent_set_remote_credentials L g sid u p = (True, g1) \<and> cs \<noteq> []
             \<and> nice_agent_set_remote_candidates L g1 sid cid cs = (k, g') \<and> 1 \<le> k))"
  by (rule remote_data_outcome [OF assms])

lemma sample_new: "new_laws sample_nice"
  by (simp add: new_laws_def sample_nice_def)

theorem remote_data_frees_all_witness:
  "case parse_remote_data sample_nice (client ''bob'' []) 2 1 ''ann secret 1,7,10.0.0.1,80,host 1,7,10.0.0.9,80,host'' \<lparr>vecs = 0, cands = 0, strs = 0\<rparr> of
      Inl e \<Rightarrow> e = SignedOverflow
    | Inr (r, g', m') \<Rightarrow> m' = \<lparr>vecs = 0, cands = 0, strs = 0\<rparr> \<and> r \<in> {EXIT_SUCCESS, EXIT_FAILURE}"
  using remote_data_frees_all [OF sample_new, where g = "client ''bob'' []" and sid = 2 and cid = 1
      and line = "''ann secret 1,7,10.0.0.1,80,host 1,7,10.0.0.9,80,host''" and m = "\<lparr>vecs = 0, cands = 0, strs = 0\<rparr>"]
  by (auto split: sum.splits)

definition session_ok :: "nmem \<Rightarrow> 'g session \<Rightarrow> bool" where
  "session_ok m s \<longleftrightarrow> nice_mem s = m \<and> [NUL] \<notin> set (butlast (sent s)) \<and> ([NUL] \<in> set (sent s) \<longrightarrow> quitted s)"

lemma print_local_data_balanced: "print_local_data L g sid cid m = Inr (r, t, m') \<Longrightarrow> m' = m"
  by (auto simp: print_local_data_def Let_def rbind_eq_Inr split: option.splits if_splits)

lemma callbacks_keep:
  assumes "new_laws L"
  shows "cb_candidate_gathering_done L sid s = Inr s' \<Longrightarrow> nice_mem s' = nice_mem s \<and> sent s' = sent s \<and> quitted s' = quitted s"
    and "stdin_remote_info_cb L line s = Inr (k, s') \<Longrightarrow> nice_mem s' = nice_mem s \<and> sent s' = sent s \<and> quitted s' = quitted s"
    and "cb_component_state_changed L sid cid st s = Inr s' \<Longrightarrow> nice_mem s' = nice_mem s \<and> sent s' = sent s"
proof -
  show "cb_candidate_gathering_done L sid s = Inr s' \<Longrightarrow> nice_mem s' = nice_mem s \<and> sent s' = sent s \<and> quitted s' = quitted s"
    by (auto simp: cb_candidate_gathering_done_def rbind_eq_Inr print_out_def dest: print_local_data_balanced)
  have "parse_remote_data L g i c l m = Inr (r, g', m') \<Longrightarrow> m' = m" for g i c l m r g' m'
    by (rule remote_data_balanced [OF assms])
  then show "stdin_remote_info_cb L line s = Inr (k, s') \<Longrightarrow> nice_mem s' = nice_mem s \<and> sent s' = sent s \<and> quitted s' = quitted s"
    by (auto simp: stdin_remote_info_cb_def rbind_eq_Inr print_out_def Let_def split: option.splits if_splits)
  show "cb_component_state_changed L sid cid st s = Inr s' \<Longrightarrow> nice_mem s' = nice_mem s \<and> sent s' = sent s"
    by (auto simp: cb_component_state_changed_def rbind_eq_Inr print_out_def split: if_splits)
qed

lemma send_ok:
  assumes "session_ok m s" "\<not> quitted s" "stdin_send_data_cb line s = (k, s')"
  shows "session_ok m s'"
proof -
  have "cstr l \<noteq> [NUL]" "[NUL] \<noteq> cstr l" for l using NUL_notin_cstr [of l] by (metis list.set_intros(1))+
  then show ?thesis
    using assms by (auto simp: session_ok_def stdin_send_data_cb_def print_out_def butlast_append split: option.splits)
qed

lemma dispatch_ok:
  assumes "new_laws L" "session_ok m s" "dispatch L e s = Inr s'"
  shows "session_ok m s'"
proof (cases "quitted s")
  case False
  note k = callbacks_keep [OF assms(1)]
  show ?thesis
  proof (cases e)
    case (Stdin i line)
    show ?thesis
    proof (cases "i < length (watches s)")
      case True
      then obtain b s1 where s1: "(case watches s ! i of Remote_info \<Rightarrow> stdin_remote_info_cb L line s | Send_data \<Rightarrow> Inr (stdin_send_data_cb line s)) = Inr (b, s1)"
        "s' = (if b then s1 else s1\<lparr>watches := take i (watches s1) @ drop (Suc i) (watches s1)\<rparr>)"
        using assms(3) False Stdin by (auto simp: dispatch_def rbind_eq_Inr)
      have "session_ok m s1"
        using s1(1) k(2) [of line s b s1] send_ok [OF assms(2) False, of line b s1] assms(2)
        by (cases "watches s ! i") (auto simp: session_ok_def)
      then show ?thesis using s1(2) by (simp add: session_ok_def)
    qed (use assms False Stdin in \<open>auto simp: dispatch_def\<close>)
  next
    case Gathering_done
    then show ?thesis using assms False k(1) [of "stream_id s" s s'] by (auto simp: dispatch_def session_ok_def)
  next
    case (State_changed st)
    then show ?thesis using assms False k(3) [of "stream_id s" 1 st s s'] by (auto simp: dispatch_def session_ok_def)
  next
    case (Received bf)
    then show ?thesis
      using assms False by (cases "length bf = 1 \<and> bf ! 0 = NUL") (auto simp: dispatch_def session_ok_def cb_nice_recv_def print_out_def)
  qed
qed (use assms in \<open>simp add: dispatch_def\<close>)

text \<open>
  A session of events leaks nothing, whatever is entered and received: its memory is what it was
  at the start. The message of one zero byte, on which the other client quits, is sent only at the
  end of the input, after which this client quits too and sends nothing more.
\<close>

theorem session_says_goodbye_once:
  assumes "new_laws L" "dispatch_all L es s = Inr s'" "sent s = []"
  shows "nice_mem s' = nice_mem s \<and> [NUL] \<notin> set (butlast (sent s')) \<and> ([NUL] \<in> set (sent s') \<longrightarrow> quitted s')
    \<and> (\<not> quitted (r :: 'h session) \<longrightarrow> quitted (cb_nice_recv msg r) \<longleftrightarrow> msg = [NUL])"
proof -
  have "session_ok (nice_mem s) s" using assms(3) by (simp add: session_ok_def)
  with assms(2) have "session_ok (nice_mem s) s'"
  proof (induction es arbitrary: s)
    case (Cons e es)
    then obtain s1 where s1: "dispatch L e s = Inr s1" "dispatch_all L es s1 = Inr s'" by (auto simp: rbind_eq_Inr)
    have "session_ok (nice_mem s) s1" by (rule dispatch_ok [OF assms(1) Cons(3) s1(1)])
    then show ?case using Cons(1) [OF s1(2)] by (auto simp: session_ok_def)
  qed simp
  moreover have "length msg = 1 \<and> msg ! 0 = NUL \<longleftrightarrow> msg = [NUL]" by (auto simp: length_Suc_conv)
  ultimately show ?thesis by (auto simp: session_ok_def cb_nice_recv_def print_out_def)
qed

definition sample_session :: "sample_agent session" where
  "sample_session = \<lparr>agent = client ''bob'' [sample_cand True 80], stream_id = 2, nice_mem = \<lparr>vecs = 0, cands = 0, strs = 0\<rparr>, stdout = [],
     watches = [Remote_info], sent = [], quitted = False\<rparr>"

definition sample_events :: "event list" where
  "sample_events = [Stdin 0 (Some ''rubbish''), Stdin 0 (Some ''ann secret 1,7,10.0.0.1,80,host''), State_changed 3,
     Stdin 0 (Some ''hello''), Received ''hi'', Stdin 0 None, Stdin 0 (Some ''late'')]"

theorem session_says_goodbye_once_witness:
  "\<exists>s'. dispatch_all sample_nice sample_events sample_session = Inr s' \<and> sent s' = [''hello'', [NUL]] \<and> quitted s' \<and> watches s' = [Send_data]
     \<and> nice_mem s' = nice_mem sample_session"
proof -
  have "map_sum id (\<lambda>s. (sent s, quitted s, watches s)) (dispatch_all sample_nice sample_events sample_session)
      = Inr ([''hello'', [NUL]], True, [Send_data])" by code_simp
  then obtain s' where s': "dispatch_all sample_nice sample_events sample_session = Inr s'" "sent s' = [''hello'', [NUL]]" "quitted s'" "watches s' = [Send_data]"
    by (cases "dispatch_all sample_nice sample_events sample_session") auto
  from session_says_goodbye_once [OF sample_new s'(1)] s' show ?thesis by (auto simp: sample_session_def)
qed

end
