(* ===== verification/Nice_Threads.thy ===== *)
theory Nice_Threads
  imports Monitor
begin

text \<open>
  The two threads of \<open>libnice/examples/threaded-example.c\<close> and \<open>sdp-example.c\<close>: the main thread runs the main loop with
  the callbacks of the agent and then waits for the example thread, which waits for the callbacks at
  two condition variables and reads standard input in between. A step is one statement of one
  thread: the test of a waiting loop and the call of \<open>g_cond_wait\<close> after it are two, and only the
  mutex keeps a callback out between them; the events of the agent and what standard input has to offer are choices, and so is a
  wake-up that no signal caused, which \<open>g_cond_wait\<close> allows.
\<close>

datatype who = Main_thread | Example_thread

datatype main_pc =
    M_loop
  | Gd_lock | Gd_set | Gd_signal | Gd_unlock
  | Rd_lock | Rd_set | Rd_signal | Rd_unlock
  | M_quit | M_join | M_finished

datatype ex_pc =
    G_lock | G_test | G_wait | G_asleep | G_unlock | G_exit
  | E_remote
  | N_lock | N_test | N_wait | N_asleep | N_unlock | N_exit
  | E_send | E_end | E_finished

datatype nchoice =
    Ev_gathered | Ev_ready | Ev_failed | Ev_goodbye | Ev_other
  | In_good | In_bad | In_again | In_eof
  | N_go | Spurious

record threaded =
  mpc :: main_pc
  epc :: ex_pc
  g_relock :: bool
  n_relock :: bool
  gather_mutex :: "who option"
  negotiate_mutex :: "who option"
  loop_quit :: bool
  exit_thread :: bool
  candidate_gathering_done :: bool
  negotiation_done :: bool

definition threaded_main :: threaded where
  \<comment> \<open>the example thread has set up its agent and the main loop runs\<close>
  "threaded_main = \<lparr>mpc = M_loop, epc = G_lock, g_relock = False, n_relock = False, gather_mutex = None, negotiate_mutex = None, loop_quit = False,
     exit_thread = False, candidate_gathering_done = False, negotiation_done = False\<rparr>"

fun loop_event :: "nchoice \<Rightarrow> threaded \<Rightarrow> threaded" where
  \<comment> \<open>the callbacks for the events of the agent\<close>
  "loop_event Ev_gathered s = s\<lparr>mpc := Gd_lock\<rparr>"
| "loop_event Ev_ready s = s\<lparr>mpc := Rd_lock\<rparr>"
| "loop_event Ev_failed s = s\<lparr>loop_quit := True\<rparr>"
| "loop_event Ev_goodbye s = s\<lparr>loop_quit := True\<rparr>"
| "loop_event c s = s"

fun main_next :: "nchoice \<Rightarrow> main_pc \<Rightarrow> threaded \<Rightarrow> threaded option" where
  "main_next c M_loop s = Some (if loop_quit s then s\<lparr>mpc := M_quit\<rparr> else loop_event c s)"
| "main_next c Gd_lock s = (if gather_mutex s = None then Some (s\<lparr>mpc := Gd_set, gather_mutex := Some Main_thread\<rparr>) else None)"
| "main_next c Gd_set s = Some (s\<lparr>mpc := Gd_signal, candidate_gathering_done := True\<rparr>)"
| "main_next c Gd_signal s = Some (if epc s = G_asleep then s\<lparr>mpc := Gd_unlock, g_relock := True\<rparr> else s\<lparr>mpc := Gd_unlock\<rparr>)"
| "main_next c Gd_unlock s = Some (s\<lparr>mpc := M_loop, gather_mutex := None\<rparr>)"
| "main_next c Rd_lock s = (if negotiate_mutex s = None then Some (s\<lparr>mpc := Rd_set, negotiate_mutex := Some Main_thread\<rparr>) else None)"
| "main_next c Rd_set s = Some (s\<lparr>mpc := Rd_signal, negotiation_done := True\<rparr>)"
| "main_next c Rd_signal s = Some (if epc s = N_asleep then s\<lparr>mpc := Rd_unlock, n_relock := True\<rparr> else s\<lparr>mpc := Rd_unlock\<rparr>)"
| "main_next c Rd_unlock s = Some (s\<lparr>mpc := M_loop, negotiate_mutex := None\<rparr>)"
| "main_next c M_quit s = Some (s\<lparr>mpc := M_join, exit_thread := True\<rparr>)"
| "main_next c M_join s = (if epc s = E_finished then Some (s\<lparr>mpc := M_finished\<rparr>) else None)"
| "main_next c M_finished s = None"

fun example_thread :: "nchoice \<Rightarrow> ex_pc \<Rightarrow> threaded \<Rightarrow> threaded option" where
  "example_thread c G_lock s = (if gather_mutex s = None then Some (s\<lparr>epc := G_test, gather_mutex := Some Example_thread\<rparr>) else None)"
| "example_thread c G_test s =
     Some (if \<not> exit_thread s \<and> \<not> candidate_gathering_done s then s\<lparr>epc := G_wait\<rparr> else s\<lparr>epc := G_unlock\<rparr>)"
| "example_thread c G_wait s = Some (s\<lparr>epc := G_asleep, g_relock := False, gather_mutex := None\<rparr>)"
| "example_thread c G_asleep s =
     (if g_relock s \<or> c = Spurious
      then if gather_mutex s = None then Some (s\<lparr>epc := G_test, gather_mutex := Some Example_thread\<rparr>) else None
      else None)"
| "example_thread c G_unlock s = Some (s\<lparr>epc := G_exit, gather_mutex := None\<rparr>)"
| "example_thread c G_exit s = Some (s\<lparr>epc := (if exit_thread s then E_end else E_remote)\<rparr>)"
| "example_thread c E_remote s = Some (if exit_thread s \<or> c = In_good then s\<lparr>epc := N_lock\<rparr> else s)"
| "example_thread c N_lock s = (if negotiate_mutex s = None then Some (s\<lparr>epc := N_test, negotiate_mutex := Some Example_thread\<rparr>) else None)"
| "example_thread c N_test s =
     Some (if \<not> exit_thread s \<and> \<not> negotiation_done s then s\<lparr>epc := N_wait\<rparr> else s\<lparr>epc := N_unlock\<rparr>)"
| "example_thread c N_wait s = Some (s\<lparr>epc := N_asleep, n_relock := False, negotiate_mutex := None\<rparr>)"
| "example_thread c N_asleep s =
     (if n_relock s \<or> c = Spurious
      then if negotiate_mutex s = None then Some (s\<lparr>epc := N_test, negotiate_mutex := Some Example_thread\<rparr>) else None
      else None)"
| "example_thread c N_unlock s = Some (s\<lparr>epc := N_exit, negotiate_mutex := None\<rparr>)"
| "example_thread c N_exit s = Some (s\<lparr>epc := (if exit_thread s then E_end else E_send)\<rparr>)"
| "example_thread c E_send s = Some (if exit_thread s \<or> c = In_eof then s\<lparr>epc := E_end\<rparr> else s)"
| "example_thread c E_end s = Some (s\<lparr>epc := E_finished, loop_quit := True\<rparr>)"
| "example_thread c E_finished s = None"

definition threaded_next :: "who \<Rightarrow> nchoice \<Rightarrow> threaded \<Rightarrow> threaded option" where
  "threaded_next w c s = (case w of Main_thread \<Rightarrow> main_next c (mpc s) s | Example_thread \<Rightarrow> example_thread c (epc s) s)"

definition threaded_step :: "threaded \<Rightarrow> threaded \<Rightarrow> bool" where
  "threaded_step s s' \<longleftrightarrow> (\<exists>w c. threaded_next w c s = Some s')"

subsection \<open>Wake-ups\<close>

fun m_gather :: "main_pc \<Rightarrow> bool" where
  \<comment> \<open>the statements between locking and unlocking \<open>gather_mutex\<close>\<close>
  "m_gather Gd_set = True" | "m_gather Gd_signal = True" | "m_gather Gd_unlock = True" | "m_gather p = False"

fun e_gather :: "ex_pc \<Rightarrow> bool" where
  "e_gather G_test = True" | "e_gather G_wait = True" | "e_gather G_unlock = True" | "e_gather p = False"

fun m_negotiate :: "main_pc \<Rightarrow> bool" where
  "m_negotiate Rd_set = True" | "m_negotiate Rd_signal = True" | "m_negotiate Rd_unlock = True" | "m_negotiate p = False"

fun e_negotiate :: "ex_pc \<Rightarrow> bool" where
  "e_negotiate N_test = True" | "e_negotiate N_wait = True" | "e_negotiate N_unlock = True" | "e_negotiate p = False"

fun left_loop :: "main_pc \<Rightarrow> bool" where
  "left_loop M_join = True" | "left_loop M_finished = True" | "left_loop p = False"

definition threaded_inv :: "threaded \<Rightarrow> bool" where
  "threaded_inv s \<longleftrightarrow>
     (gather_mutex s = Some Main_thread \<longleftrightarrow> m_gather (mpc s)) \<and> (gather_mutex s = Some Example_thread \<longleftrightarrow> e_gather (epc s))
     \<and> (negotiate_mutex s = Some Main_thread \<longleftrightarrow> m_negotiate (mpc s)) \<and> (negotiate_mutex s = Some Example_thread \<longleftrightarrow> e_negotiate (epc s))
     \<and> (epc s = G_wait \<longrightarrow> \<not> candidate_gathering_done s) \<and> (epc s = N_wait \<longrightarrow> \<not> negotiation_done s)
     \<and> (epc s = G_asleep \<longrightarrow> \<not> g_relock s \<longrightarrow> candidate_gathering_done s \<longrightarrow> mpc s = Gd_signal)
     \<and> (epc s = N_asleep \<longrightarrow> \<not> n_relock s \<longrightarrow> negotiation_done s \<longrightarrow> mpc s = Rd_signal)
     \<and> (exit_thread s \<longleftrightarrow> left_loop (mpc s)) \<and> (mpc s = M_finished \<longrightarrow> epc s = E_finished)"

lemma main_keeps: "threaded_inv s \<Longrightarrow> pred_option threaded_inv (main_next c (mpc s) s)"
proof (cases "mpc s")
  case M_loop
  then show "threaded_inv s \<Longrightarrow> ?thesis" by (cases c) (auto simp: threaded_inv_def)
qed (auto simp: threaded_inv_def)

lemma example_keeps: "threaded_inv s \<Longrightarrow> pred_option threaded_inv (example_thread c (epc s) s)"
  by (cases "epc s") (auto simp: threaded_inv_def)

interpretation nt: invariant_of threaded_main threaded_step threaded_inv
proof
  show "threaded_inv threaded_main" by (simp add: threaded_inv_def threaded_main_def)
next
  fix s s'
  assume i: "threaded_inv s" and "threaded_step s s'"
  then obtain w c where "threaded_next w c s = Some s'" by (auto simp: threaded_step_def)
  then show "threaded_inv s'"
    using main_keeps [OF i, of c] example_keeps [OF i, of c] by (cases w) (simp_all add: threaded_next_def)
qed

definition blocked :: "threaded \<Rightarrow> bool" where
  \<comment> \<open>no thread can move, unless a wait ends for no reason\<close>
  "blocked s \<longleftrightarrow> (\<forall>w c. c \<noteq> Spurious \<longrightarrow> threaded_next w c s = None)"

lemma mutex_free:
  assumes "threaded_inv s"
  shows "gather_mutex s = None \<longleftrightarrow> \<not> m_gather (mpc s) \<and> \<not> e_gather (epc s)"
    and "negotiate_mutex s = None \<longleftrightarrow> \<not> m_negotiate (mpc s) \<and> \<not> e_negotiate (epc s)"
proof -
  have none: "m = None \<longleftrightarrow> m \<noteq> Some Main_thread \<and> m \<noteq> Some Example_thread" for m
    by (metis not_None_eq who.exhaust)
  have "gather_mutex s = Some Main_thread \<longleftrightarrow> m_gather (mpc s)" "gather_mutex s = Some Example_thread \<longleftrightarrow> e_gather (epc s)"
    "negotiate_mutex s = Some Main_thread \<longleftrightarrow> m_negotiate (mpc s)" "negotiate_mutex s = Some Example_thread \<longleftrightarrow> e_negotiate (epc s)"
    using assms unfolding threaded_inv_def by blast+
  then show "gather_mutex s = None \<longleftrightarrow> \<not> m_gather (mpc s) \<and> \<not> e_gather (epc s)"
    and "negotiate_mutex s = None \<longleftrightarrow> \<not> m_negotiate (mpc s) \<and> \<not> e_negotiate (epc s)"
    using none by blast+
qed

lemma blocked_where:
  assumes "threaded_inv s" "main_next N_go (mpc s) s = None" "example_thread N_go (epc s) s = None"
  shows "mpc s = M_finished \<and> epc s = E_finished \<or> mpc s = M_join \<and> epc s \<in> {G_asleep, N_asleep}"
proof -
  note free = mutex_free [OF assms(1)]
  have e: "epc s = E_finished \<or> epc s \<in> {G_asleep, N_asleep} \<or> epc s = G_lock \<and> m_gather (mpc s) \<or> epc s = N_lock \<and> m_negotiate (mpc s)"
    using assms(3) free by (cases "epc s") auto
  have m: "mpc s = M_finished \<or> mpc s = M_join \<or> mpc s = Gd_lock \<and> e_gather (epc s) \<or> mpc s = Rd_lock \<and> e_negotiate (epc s)"
    using assms(2) free by (cases "mpc s") auto
  then have "mpc s = M_finished \<or> mpc s = M_join" using e by auto
  then show ?thesis
  proof
    assume "mpc s = M_finished"
    then show ?thesis using assms(1) unfolding threaded_inv_def by blast
  next
    assume j: "mpc s = M_join"
    then have "epc s \<noteq> E_finished" using assms(2) by auto
    then show ?thesis using e j by auto
  qed
qed

text \<open>
  C29. The callbacks lose no wake-up: while the example thread sleeps although the event it waits for
  has happened, the callback is about to signal. The two threads can block only after both have
  ended, or when the main thread has set \<open>exit_thread\<close> and waits for the example thread while that
  sleeps at one of the condition variables.
\<close>

theorem threads_wake_up:
  assumes "reach threaded_step threaded_main s"
  shows "(epc s = G_asleep \<and> \<not> g_relock s \<and> candidate_gathering_done s \<longrightarrow> mpc s = Gd_signal)
    \<and> (epc s = N_asleep \<and> \<not> n_relock s \<and> negotiation_done s \<longrightarrow> mpc s = Rd_signal)
    \<and> (blocked s \<longrightarrow> mpc s = M_finished \<and> epc s = E_finished \<or> mpc s = M_join \<and> exit_thread s \<and> epc s \<in> {G_asleep, N_asleep})"
proof -
  have i: "threaded_inv s" by (rule nt.reach_inv [OF assms])
  have "main_next N_go (mpc s) s = None \<and> example_thread N_go (epc s) s = None" if "blocked s"
  proof -
    have "threaded_next w N_go s = None" for w using that by (simp add: blocked_def)
    from this [of Main_thread] this [of Example_thread] show ?thesis by (simp add: threaded_next_def)
  qed
  then have "blocked s \<Longrightarrow> mpc s = M_finished \<and> epc s = E_finished \<or> mpc s = M_join \<and> epc s \<in> {G_asleep, N_asleep}"
    using blocked_where [OF i] by blast
  moreover have "mpc s = M_join \<longrightarrow> exit_thread s"
    "epc s = G_asleep \<longrightarrow> \<not> g_relock s \<longrightarrow> candidate_gathering_done s \<longrightarrow> mpc s = Gd_signal"
    "epc s = N_asleep \<longrightarrow> \<not> n_relock s \<longrightarrow> negotiation_done s \<longrightarrow> mpc s = Rd_signal"
    using i unfolding threaded_inv_def by (metis left_loop.simps(1), blast, blast)
  ultimately show ?thesis by blast
qed

definition to_negotiation :: "(who \<times> nchoice) list" where
  \<comment> \<open>the candidates are gathered while the example thread sleeps, and the line of the other client is read\<close>
  "to_negotiation = replicate 3 (Example_thread, N_go) @ (Main_thread, Ev_gathered) # replicate 4 (Main_thread, N_go)
     @ replicate 4 (Example_thread, N_go) @ [(Example_thread, In_again), (Example_thread, In_good)] @ replicate 3 (Example_thread, N_go)"

lemma threaded_run_reach: "run_steps threaded_next sched s = Some s' \<Longrightarrow> reach threaded_step i s \<Longrightarrow> reach threaded_step i s'"
  by (rule run_reach) (auto simp: threaded_step_def)

theorem threads_wake_up_witness:
  "\<exists>s. run_steps threaded_next (to_negotiation @ [(Main_thread, Ev_ready), (Main_thread, N_go), (Main_thread, N_go)]) threaded_main = Some s
     \<and> epc s = N_asleep \<and> negotiation_done s \<and> mpc s = Rd_signal"
proof -
  let ?sched = "to_negotiation @ [(Main_thread, Ev_ready), (Main_thread, N_go), (Main_thread, N_go)]"
  have "map_option (\<lambda>s. (epc s, n_relock s, negotiation_done s)) (run_steps threaded_next ?sched threaded_main) = Some (N_asleep, False, True)" by code_simp
  then obtain s where s: "run_steps threaded_next ?sched threaded_main = Some s" "epc s = N_asleep" "\<not> n_relock s" "negotiation_done s" by auto
  have "reach threaded_step threaded_main s" by (rule threaded_run_reach [OF s(1) reach.start])
  from threads_wake_up [OF this] s show ?thesis by blast
qed

definition sleeps_unsignalled :: "threaded \<Rightarrow> bool" where
  "sleeps_unsignalled s \<longleftrightarrow> epc s = G_asleep \<and> \<not> g_relock s \<or> epc s = N_asleep \<and> \<not> n_relock s"

lemma quit_steps:
  \<comment> \<open>what can still happen after the main loop was told to quit\<close>
  assumes "sleeps_unsignalled s" "d \<noteq> Spurious" "threaded_next w d s = Some s1"
  shows "mpc s = M_loop \<Longrightarrow> loop_quit s \<Longrightarrow> s1 = s\<lparr>mpc := M_quit\<rparr>"
    and "mpc s = M_quit \<Longrightarrow> s1 = s\<lparr>mpc := M_join, exit_thread := True\<rparr>"
    and "mpc s \<noteq> M_join"
  using assms by (cases w; auto simp: threaded_next_def sleeps_unsignalled_def)+

fun steps_left :: "main_pc \<Rightarrow> nat" where
  \<comment> \<open>the statements of the main thread after the loop was told to quit, up to the join\<close>
  "steps_left M_loop = 2" | "steps_left M_quit = 1" | "steps_left p = 0"

lemma hang_bound:
  assumes "run_steps threaded_next sched s = Some s'" "Spurious \<notin> snd ` set sched"
    and "sleeps_unsignalled s" "mpc s \<in> {M_loop, M_quit, M_join}" "loop_quit s"
  shows "length sched \<le> steps_left (mpc s) \<and> epc s' = epc s \<and> mpc s' \<in> {M_loop, M_quit, M_join}"
  using assms
proof (induction sched arbitrary: s)
  case (Cons x sched)
  obtain s1 where s1: "threaded_next (fst x) (snd x) s = Some s1" "run_steps threaded_next sched s1 = Some s'"
    using Cons(2) by (auto split: bind_splits)
  have quiet: "snd x \<noteq> Spurious" "Spurious \<notin> snd ` set sched" using Cons(3) by auto
  note q = quit_steps [OF Cons(4) quiet(1) s1(1)]
  consider "mpc s = M_loop" "s1 = s\<lparr>mpc := M_quit\<rparr>" | "mpc s = M_quit" "s1 = s\<lparr>mpc := M_join, exit_thread := True\<rparr>"
    using q Cons(5,6) by blast
  then show ?case using Cons(1) [OF s1(2) quiet(2)] Cons(4-6) by cases (auto simp: sleeps_unsignalled_def)
qed auto

text \<open>
  C40. A negotiation that fails hangs the program when the example thread is asleep: the callback for the
  state \<open>failed\<close>, like the farewell of the other client, only quits the main loop. From any state in
  which the example thread sleeps at one of its condition variables, not signalled, and the main
  loop handles such an event, the main thread sets \<open>exit_thread\<close> without the mutex and without a
  signal and then joins the sleeping thread; there no thread can move. In every continuation without
  a spurious wake-up there are at most two more steps, the example thread stays where it sleeps and
  the main thread does not end.
\<close>

theorem failed_negotiation_hangs:
  assumes "sleeps_unsignalled s" "mpc s = M_loop" "\<not> loop_quit s" "c \<in> {Ev_failed, Ev_goodbye}"
  shows "(\<exists>s'. run_steps threaded_next [(Main_thread, c), (Main_thread, N_go), (Main_thread, N_go)] s = Some s'
       \<and> mpc s' = M_join \<and> exit_thread s' \<and> blocked s')
    \<and> (\<forall>sched s'. run_steps threaded_next ((Main_thread, c) # sched) s = Some s' \<and> Spurious \<notin> snd ` set sched \<longrightarrow>
         length sched \<le> 2 \<and> epc s' = epc s \<and> mpc s' \<noteq> M_finished)"
proof
  let ?q = "s\<lparr>loop_quit := True\<rparr>"
  have first: "threaded_next Main_thread c s = Some ?q" using assms(2-4) by (auto simp: threaded_next_def)
  have "length sched \<le> 2 \<and> epc s' = epc s \<and> mpc s' \<noteq> M_finished"
    if "run_steps threaded_next ((Main_thread, c) # sched) s = Some s'" "Spurious \<notin> snd ` set sched" for sched s'
    using hang_bound [of sched ?q s'] that first assms by (auto simp: sleeps_unsignalled_def)
  then show "\<forall>sched s'. run_steps threaded_next ((Main_thread, c) # sched) s = Some s' \<and> Spurious \<notin> snd ` set sched \<longrightarrow>
      length sched \<le> 2 \<and> epc s' = epc s \<and> mpc s' \<noteq> M_finished" by blast
  let ?j = "s\<lparr>loop_quit := True, mpc := M_join, exit_thread := True\<rparr>"
  have "run_steps threaded_next [(Main_thread, c), (Main_thread, N_go), (Main_thread, N_go)] s = Some ?j"
    using assms(2) by (simp add: first) (simp add: threaded_next_def)
  moreover have "threaded_next w d ?j = None" if "d \<noteq> Spurious" for w d
    using assms(1) that by (cases w) (auto simp: threaded_next_def sleeps_unsignalled_def)
  then have "blocked ?j" by (simp add: blocked_def)
  ultimately show "\<exists>s'. run_steps threaded_next [(Main_thread, c), (Main_thread, N_go), (Main_thread, N_go)] s = Some s'
      \<and> mpc s' = M_join \<and> exit_thread s' \<and> blocked s'" by auto
qed

theorem failed_negotiation_hangs_witness:
  "\<exists>s s'. reach threaded_step threaded_main s \<and> epc s = N_asleep
     \<and> run_steps threaded_next [(Main_thread, Ev_failed), (Main_thread, N_go), (Main_thread, N_go)] s = Some s' \<and> blocked s'"
proof -
  have "map_option (\<lambda>s. (mpc s, epc s, n_relock s, loop_quit s)) (run_steps threaded_next to_negotiation threaded_main)
     = Some (M_loop, N_asleep, False, False)" by code_simp
  then obtain s where s: "run_steps threaded_next to_negotiation threaded_main = Some s" "mpc s = M_loop" "epc s = N_asleep"
      "\<not> n_relock s" "\<not> loop_quit s" by auto
  have "reach threaded_step threaded_main s" by (rule threaded_run_reach [OF s(1) reach.start])
  moreover obtain s' where "run_steps threaded_next [(Main_thread, Ev_failed), (Main_thread, N_go), (Main_thread, N_go)] s = Some s'" "blocked s'"
    using failed_negotiation_hangs [of s Ev_failed] s by (auto simp: sleeps_unsignalled_def)
  ultimately show ?thesis using s(3) by blast
qed

end
