(* ===== verification/Account_Service.thy ===== *)
theory Account_Service
  imports Prelude
begin

text \<open>
  The account service of \<open>googletest/gmock/account_service\<close>: a transfer between two accounts over the
  interface \<open>AccountManager\<close>, and the implementation of that interface that the unit test uses, a map.
  A balance is a \<open>long\<close>; the default constructor leaves it uninitialised, which is \<open>None\<close>, and reading
  it then is \<open>BadAccess\<close>. The interface is the locale \<open>account_manager\<close>; the properties of a transfer
  are proved there once.
\<close>

record account =
  accountId :: "char list"
  balance :: "int option"

definition Account_default :: account where
  "Account_default = \<lparr>accountId = [], balance = None\<rparr>"

definition Account :: "char list \<Rightarrow> int \<Rightarrow> account" where
  "Account i b = \<lparr>accountId = i, balance = Some b\<rparr>"

definition getBalance :: "account \<Rightarrow> int res" where
  "getBalance a = (case balance a of None \<Rightarrow> Inl BadAccess | Some b \<Rightarrow> Inr b)"

definition debit :: "int \<Rightarrow> account \<Rightarrow> account res" where
  "debit amount a = rbind (getBalance a) (\<lambda>b. rbind (c64 (b - amount)) (\<lambda>b'. Inr (a\<lparr>balance := Some b'\<rparr>)))"

definition credit :: "int \<Rightarrow> account \<Rightarrow> account res" where
  "credit amount a = rbind (getBalance a) (\<lambda>b. rbind (c64 (b + amount)) (\<lambda>b'. Inr (a\<lparr>balance := Some b'\<rparr>)))"

definition transfer ::
  "('m \<Rightarrow> char list \<Rightarrow> account) \<Rightarrow> ('m \<Rightarrow> account \<Rightarrow> 'm) \<Rightarrow> 'm option \<Rightarrow> char list \<Rightarrow> char list \<Rightarrow> int \<Rightarrow> 'm res" where
  \<comment> \<open>\<open>None\<close> is a service whose manager was not set\<close>
  "transfer findAccountForUser updateAccount pm senderId beneficiaryId amount =
     (case pm of
        None \<Rightarrow> Inl BadAccess
      | Some m \<Rightarrow>
          let sender = findAccountForUser m senderId; beneficiary = findAccountForUser m beneficiaryId in
          rbind (debit amount sender) (\<lambda>sender'.
          rbind (credit amount beneficiary) (\<lambda>beneficiary'.
          Inr (updateAccount (updateAccount m sender') beneficiary'))))"

subsection \<open>The map of the unit test\<close>

type_synonym helper = "char list \<rightharpoonup> account"

definition helper_update :: "helper \<Rightarrow> account \<Rightarrow> helper" where
  "helper_update m a = m(accountId a \<mapsto> a)"

definition helper_find :: "helper \<Rightarrow> char list \<Rightarrow> account" where
  "helper_find m i = (case m i of Some a \<Rightarrow> a | None \<Rightarrow> Account_default)"

subsection \<open>Transfers over any account manager\<close>

locale account_manager =
  fixes findAccountForUser :: "'m \<Rightarrow> char list \<Rightarrow> account" and updateAccount :: "'m \<Rightarrow> account \<Rightarrow> 'm"
  assumes find_update: "findAccountForUser (updateAccount m a) i = (if i = accountId a then a else findAccountForUser m i)"
begin

definition holds :: "'m \<Rightarrow> char list \<Rightarrow> int \<Rightarrow> bool" where
  "holds m i b \<longleftrightarrow> findAccountForUser m i = Account i b"

lemma transfer_runs:
  assumes "holds m s x" "holds m t y" "c64 (x - amount) = Inr (x - amount)" "c64 (y + amount) = Inr (y + amount)"
  shows "transfer findAccountForUser updateAccount (Some m) s t amount = Inr (updateAccount (updateAccount m (Account s (x - amount))) (Account t (y + amount)))"
  using assms by (simp add: transfer_def holds_def debit_def credit_def getBalance_def Account_def)

lemma find_after:
  "findAccountForUser (updateAccount (updateAccount m (Account s x)) (Account t y)) i = (if i = t then Account t y else if i = s then Account s x else findAccountForUser m i)"
  by (simp add: find_update Account_def)

lemma transfer_moves:
  assumes "holds m s x" "holds m t y" "s \<noteq> t" "c64 (x - amount) = Inr (x - amount)" "c64 (y + amount) = Inr (y + amount)"
  obtains m' where "transfer findAccountForUser updateAccount (Some m) s t amount = Inr m'"
    "holds m' s (x - amount)" "holds m' t (y + amount)" "\<And>i. i \<noteq> s \<Longrightarrow> i \<noteq> t \<Longrightarrow> findAccountForUser m' i = findAccountForUser m i"
proof
  show "transfer findAccountForUser updateAccount (Some m) s t amount = Inr (updateAccount (updateAccount m (Account s (x - amount))) (Account t (y + amount)))"
    by (rule transfer_runs [OF assms(1,2,4,5)])
qed (use assms(3) in \<open>simp_all add: holds_def find_after\<close>)

definition total :: "'m \<Rightarrow> char list set \<Rightarrow> int" where
  "total m I = (\<Sum>i\<in>I. case balance (findAccountForUser m i) of Some b \<Rightarrow> b | None \<Rightarrow> 0)"

lemma total_change:
  assumes "finite I" "s \<in> I" "t \<in> I" "s \<noteq> t" "holds m s x" "holds m t y" "holds m' s x'" "holds m' t y'"
    and "\<And>i. i \<noteq> s \<Longrightarrow> i \<noteq> t \<Longrightarrow> findAccountForUser m' i = findAccountForUser m i"
  shows "total m' I - total m I = (x' - x) + (y' - y)"
proof -
  let ?v = "\<lambda>m i. case balance (findAccountForUser m i) of Some b \<Rightarrow> b | None \<Rightarrow> (0 :: int)"
  have I: "I = insert s (insert t (I - {s, t}))" using assms(2,3) by blast
  have sum: "total k I = ?v k s + (?v k t + (\<Sum>i\<in>I - {s, t}. ?v k i))" for k
    unfolding total_def by (subst I) (use assms(1,4) in \<open>simp add: insert_Diff_if\<close>)
  have "(\<Sum>i\<in>I - {s, t}. ?v m' i) = (\<Sum>i\<in>I - {s, t}. ?v m i)" by (rule sum.cong) (use assms(9) in auto)
  then show ?thesis using assms(5-8) sum [of m] sum [of m'] by (simp add: holds_def Account_def)
qed

lemma self_transfer:
  assumes "holds m s x" "c64 (x - amount) = Inr (x - amount)" "c64 (x + amount) = Inr (x + amount)"
  obtains m' where "transfer findAccountForUser updateAccount (Some m) s s amount = Inr m'" "holds m' s (x + amount)"
    "\<And>i. i \<noteq> s \<Longrightarrow> findAccountForUser m' i = findAccountForUser m i"
proof
  show "transfer findAccountForUser updateAccount (Some m) s s amount = Inr (updateAccount (updateAccount m (Account s (x - amount))) (Account s (x + amount)))"
    by (rule transfer_runs [OF assms(1,1,2,3)])
qed (simp_all add: holds_def find_after)

end

interpretation am: account_manager helper_find helper_update
  by unfold_locales (auto simp: helper_find_def helper_update_def)

definition total_balance :: "helper \<Rightarrow> char list set \<Rightarrow> int" where
  "total_balance m I = (\<Sum>i\<in>I. case balance (helper_find m i) of Some b \<Rightarrow> b | None \<Rightarrow> 0)"

lemma total_balance_eq: "total_balance m I = am.total m I"
  by (simp add: total_balance_def am.total_def)

text \<open>
  C24. A transfer between two different accounts moves the amount from one to the other, leaves every
  other account alone and keeps the sum of all balances; a transfer of an account to itself
  instead adds the amount to it. The balances must not leave the type \<open>long\<close>.
\<close>

theorem transfer_between_accounts:
  assumes "m s = Some (Account s x)" "m t = Some (Account t y)"
    and "c64 (x - amount) = Inr (x - amount)" "c64 (y + amount) = Inr (y + amount)"
  shows "\<exists>m'. transfer helper_find helper_update (Some m) s t amount = Inr m'
    \<and> (\<forall>i. i \<noteq> s \<and> i \<noteq> t \<longrightarrow> helper_find m' i = helper_find m i)
    \<and> helper_find m' t = Account t (y + amount)
    \<and> (s \<noteq> t \<longrightarrow> helper_find m' s = Account s (x - amount) \<and> (\<forall>I. finite I \<and> {s, t} \<subseteq> I \<longrightarrow> total_balance m' I = total_balance m I))"
proof -
  have h: "am.holds m s x" "am.holds m t y" using assms(1,2) by (simp_all add: am.holds_def helper_find_def)
  show ?thesis
  proof (cases "s = t")
    case True
    then have "x = y" using assms(1,2) by (simp add: Account_def)
    then show ?thesis
      using True assms am.self_transfer [OF h(1), of amount] by (metis am.holds_def)
  next
    case False
    obtain m' where m': "transfer helper_find helper_update (Some m) s t amount = Inr m'"
      "am.holds m' s (x - amount)" "am.holds m' t (y + amount)" "\<And>i. i \<noteq> s \<Longrightarrow> i \<noteq> t \<Longrightarrow> helper_find m' i = helper_find m i"
      using am.transfer_moves [OF h False assms(3,4)] by metis
    have "total_balance m' I = total_balance m I" if "finite I" "{s, t} \<subseteq> I" for I
      using am.total_change [OF that(1) _ _ False h m'(2,3,4)] that(2) by (simp add: total_balance_eq)
    then show ?thesis using m' by (auto simp: am.holds_def)
  qed
qed

definition test_accounts :: helper where
  "test_accounts = [''A'' \<mapsto> Account ''A'' 3000, ''B'' \<mapsto> Account ''B'' 2000]"

theorem transfer_between_accounts_witness:
  "\<exists>m'. transfer helper_find helper_update (Some test_accounts) ''A'' ''B'' 1005 = Inr m'
    \<and> getBalance (helper_find m' ''A'') = Inr 1995 \<and> getBalance (helper_find m' ''B'') = Inr 3005"
proof -
  have "test_accounts ''A'' = Some (Account ''A'' 3000)" "test_accounts ''B'' = Some (Account ''B'' 2000)"
    "c64 (3000 - 1005) = Inr (3000 - 1005)" "c64 (2000 + 1005) = Inr (2000 + 1005)" by (simp_all add: test_accounts_def c64_def)
  from transfer_between_accounts [OF this] obtain m' where
    "transfer helper_find helper_update (Some test_accounts) ''A'' ''B'' 1005 = Inr m'"
    "helper_find m' ''A'' = Account ''A'' 1995" "helper_find m' ''B'' = Account ''B'' 3005" by auto
  then show ?thesis by (auto simp: getBalance_def Account_def)
qed

lemma unknown_account_read:
  \<comment> \<open>an account the map does not know has no balance that could be read\<close>
  assumes "m i = None"
  shows "\<exists>e. transfer helper_find helper_update (Some m) s i amount = Inl e"
proof -
  have "credit amount (helper_find m i) = Inl BadAccess"
    using assms by (simp add: helper_find_def Account_default_def credit_def getBalance_def)
  then show ?thesis by (cases "debit amount (helper_find m s)") (simp_all add: transfer_def)
qed

end
