(* ===== verification/Jpeg.thy ===== *)
theory Jpeg
  imports Prelude
begin

text \<open>
  The wrappers around libjpeg in \<open>jpeg2/main.cpp\<close>: decoding a JPEG file or buffer into one array of samples, and
  encoding such an array. The library is the record \<open>jpeg\<close>: decoding bytes gives a header and the rows of
  samples, encoding takes the parameters and the rows; where it cannot go on, its standard error
  handler ends the program with \<open>exit(EXIT_FAILURE)\<close>. \<open>jpeg_laws\<close> states what its documentation says of the
  header. The sizes and offsets are computed in \<open>int\<close> and \<open>unsigned int\<close> as in the source, rows are stored
  and fetched with checked accesses. The file system maps names to contents; \<open>denied\<close> are the names
  that cannot be opened for writing. \<open>new\<close> does not fail, and the memory it gives is filled with \<open>junk\<close>.
\<close>

datatype jstop = Exit int | Fault stop

fun jlift :: "'a res \<Rightarrow> jstop + 'a" where
  "jlift (Inl e) = Inl (Fault e)"
| "jlift (Inr x) = Inr x"

definition JCS_GRAYSCALE :: int where "JCS_GRAYSCALE = 1"
definition JCS_RGB :: int where "JCS_RGB = 2"
definition JCS_YCbCr :: int where "JCS_YCbCr = 3"

record decoded =
  image_width :: int
  output_width :: int
  output_components :: int
  num_components :: int
  jpeg_color_space :: int
  out_color_space :: int
  scanlines :: "char list list"

record params =
  par_width :: int
  par_height :: int
  input_components :: int
  in_color_space :: int
  quality :: int
  sampling :: "(nat \<times> nat) option"

record jpeg =
  jpeg_decode :: "char list \<Rightarrow> decoded option"
  jpeg_accepts :: "params \<Rightarrow> bool"
  jpeg_encode :: "params \<Rightarrow> char list list \<Rightarrow> char list option"
  jpeg_defaults :: "int \<Rightarrow> int \<Rightarrow> int"

definition output_height :: "decoded \<Rightarrow> int" where
  "output_height d = int (length (scanlines d))"

definition start_decompress :: "jpeg \<Rightarrow> char list \<Rightarrow> jstop + decoded" where
  "start_decompress J src = (case jpeg_decode J src of None \<Rightarrow> Inl (Exit 1) | Some d \<Rightarrow> Inr d)"

definition start_compress :: "jpeg \<Rightarrow> params \<Rightarrow> jstop + params" where
  "start_compress J p = (if jpeg_accepts J p then Inr p else Inl (Exit 1))"

definition finish_compress :: "jpeg \<Rightarrow> params \<Rightarrow> char list list \<Rightarrow> jstop + char list" where
  "finish_compress J p rows = (case jpeg_encode J p rows of None \<Rightarrow> Inl (Exit 1) | Some out \<Rightarrow> Inr out)"

subsection \<open>The loops over the rows\<close>

fun read_rows :: "char list list \<Rightarrow> int \<Rightarrow> int \<Rightarrow> char list \<Rightarrow> char list res" where
  \<comment> \<open>\<open>jpeg_read_scanlines\<close> stores row \<open>output_scanline\<close> at its place\<close>
  "read_rows [] row_stride output_scanline dst = Inr dst"
| "read_rows (r # rs) row_stride output_scanline dst =
     rbind (write_bytes dst (u32 (output_scanline * u32 row_stride)) r) (read_rows rs row_stride (output_scanline + 1))"

fun write_rows :: "nat \<Rightarrow> int \<Rightarrow> int \<Rightarrow> int \<Rightarrow> char list \<Rightarrow> char list list res" where
  \<comment> \<open>\<open>jpeg_write_scanlines\<close> takes a row of \<open>row_len\<close> samples\<close>
  "write_rows 0 row_stride row_len next_scanline src = Inr []"
| "write_rows (Suc n) row_stride row_len next_scanline src =
     rbind (read_bytes src (u32 (next_scanline * u32 row_stride)) row_len) (\<lambda>r.
     rbind (write_rows n row_stride row_len (next_scanline + 1) src) (\<lambda>rs. Inr (r # rs)))"

definition mul3 :: "int \<Rightarrow> int \<Rightarrow> int \<Rightarrow> int res" where
  \<comment> \<open>a product of three \<open>int\<close>s\<close>
  "mul3 a b c = rbind (c32 (a * b)) (\<lambda>ab. c32 (ab * c))"

subsection \<open>Decoding\<close>

record image =
  img_dst :: "char list"
  img_len :: int
  img_width :: int
  img_height :: int
  img_components :: int
  img_color_space :: int

definition decompress_jpeg_from_mem :: "jpeg \<Rightarrow> char \<Rightarrow> char list \<Rightarrow> jstop + image" where
  "decompress_jpeg_from_mem J junk src =
     rbind (start_decompress J src) (\<lambda>cinfo.
     let width = s32 (output_width cinfo); height = s32 (output_height cinfo); components = num_components cinfo in
     rbind (jlift (mul3 width height components)) (\<lambda>product.
     let dstLen = u64 product; row_stride = s32 (u32 (output_width cinfo * num_components cinfo)) in
     rbind (jlift (read_rows (scanlines cinfo) row_stride 0 (replicate (nat dstLen) junk))) (\<lambda>dst.
     Inr \<lparr>img_dst = dst, img_len = dstLen, img_width = width, img_height = height, img_components = components,
       img_color_space = jpeg_color_space cinfo\<rparr>)))"

definition decompress_jpeg_from_file :: "jpeg \<Rightarrow> char \<Rightarrow> (char list \<rightharpoonup> char list) \<Rightarrow> char list \<Rightarrow> jstop + image option" where
  \<comment> \<open>\<open>None\<close> is the result 0: the file cannot be opened\<close>
  "decompress_jpeg_from_file J junk fs src_filename =
     (case fs src_filename of
        None \<Rightarrow> Inr None
      | Some infile \<Rightarrow> rbind (decompress_jpeg_from_mem J junk infile) (\<lambda>img. Inr (Some img)))"

definition DeompressJPEG :: "jpeg \<Rightarrow> char \<Rightarrow> char list \<Rightarrow> jstop + image" where
  "DeompressJPEG J junk src =
     rbind (start_decompress J src) (\<lambda>cinfo.
     let width = s32 (output_width cinfo); height = s32 (output_height cinfo); depth = num_components cinfo in
     rbind (jlift (mul3 width height depth)) (\<lambda>product.
     let dstLen = u64 product; row_stride = s32 (u32 (image_width cinfo * num_components cinfo)) in
     rbind (jlift (read_rows (scanlines cinfo) row_stride 0 (replicate (nat dstLen) junk))) (\<lambda>dst.
     Inr \<lparr>img_dst = dst, img_len = dstLen, img_width = width, img_height = height, img_components = depth, img_color_space = 0\<rparr>)))"

subsection \<open>Encoding\<close>

definition compress_jpeg_to_mem :: "jpeg \<Rightarrow> char list \<Rightarrow> int \<Rightarrow> int \<Rightarrow> int \<Rightarrow> int \<Rightarrow> int \<Rightarrow> jstop + char list" where
  \<comment> \<open>the bytes that the destination manager leaves in \<open>*dst\<close>\<close>
  "compress_jpeg_to_mem J src width height components color_space qual =
     (let p = \<lparr>par_width = u32 width, par_height = u32 height, input_components = components, in_color_space = color_space, quality = qual,
            sampling = None\<rparr>;
          row_stride = s32 (u32 (par_width p * u32 components)) in
      rbind (start_compress J p) (\<lambda>p.
      rbind (jlift (write_rows (nat (par_height p)) row_stride (par_width p * components) 0 src)) (finish_compress J p)))"

definition compress_jpeg_to_file ::
  "jpeg \<Rightarrow> (char list \<Rightarrow> bool) \<Rightarrow> char list \<Rightarrow> int \<Rightarrow> int \<Rightarrow> int \<Rightarrow> int \<Rightarrow> int \<Rightarrow> char list \<Rightarrow> (char list \<rightharpoonup> char list) \<Rightarrow> jstop + (char list \<rightharpoonup> char list)" where
  "compress_jpeg_to_file J denied src width height components color_space qual dst_filename fs =
     (if denied dst_filename then Inl (Exit 1)
      else rbind (compress_jpeg_to_mem J src width height components color_space qual) (\<lambda>out. Inr (fs(dst_filename \<mapsto> out))))"

definition CompressJPEG :: "jpeg \<Rightarrow> char list \<Rightarrow> int \<Rightarrow> int \<Rightarrow> int \<Rightarrow> jstop + char list" where
  \<comment> \<open>the rows are as far apart as the components of the JPEG image need, not those of the source\<close>
  "CompressJPEG J src width height depth =
     (let p = \<lparr>par_width = u32 width, par_height = u32 height, input_components = depth, in_color_space = JCS_RGB, quality = 80,
            sampling = Some (2, 2)\<rparr>;
          row_stride = s32 (u32 (par_width p * u32 (jpeg_defaults J JCS_RGB depth))) in
      rbind (start_compress J p) (\<lambda>p.
      rbind (jlift (write_rows (nat (par_height p)) row_stride (par_width p * depth) 0 src)) (finish_compress J p)))"

definition test_decompress_from_file ::
  "jpeg \<Rightarrow> char \<Rightarrow> (char list \<Rightarrow> bool) \<Rightarrow> char list \<Rightarrow> char list \<Rightarrow> (char list \<rightharpoonup> char list) \<Rightarrow> jstop + (char list \<rightharpoonup> char list)" where
  \<comment> \<open>without the source file \<open>dst\<close> is a null pointer and the sizes are uninitialised\<close>
  "test_decompress_from_file J junk denied sFile dFile fs =
     rbind (decompress_jpeg_from_file J junk fs sFile) (\<lambda>img.
     case img of
       None \<Rightarrow> Inl (Fault BadAccess)
     | Some i \<Rightarrow> compress_jpeg_to_file J denied (img_dst i) (img_width i) (img_height i) (img_components i) (img_color_space i) 100 dFile fs)"

definition test_decompress_from_mem ::
  "jpeg \<Rightarrow> char \<Rightarrow> (char list \<Rightarrow> bool) \<Rightarrow> (char list \<rightharpoonup> char list) \<Rightarrow> jstop + (char list \<rightharpoonup> char list)" where
  \<comment> \<open>a missing source file has the size -1, and \<open>new\<close> of that many bytes throws\<close>
  "test_decompress_from_mem J junk denied fs =
     (case fs ''../image/compress/to_file.jpg'' of
        None \<Rightarrow> Inl (Fault (OutOfMemory (nat (u64 (- 1)))))
      | Some src \<Rightarrow>
          rbind (decompress_jpeg_from_mem J junk src) (\<lambda>i.
          compress_jpeg_to_file J denied (img_dst i) (img_width i) (img_height i) (img_components i) JCS_GRAYSCALE 90
            ''../image/compress/decompress_from_mem_and_then_to_file.jpg'' fs))"

definition test_image :: "char list" where
  \<comment> \<open>2000 by 1000 samples, white in the rows 100 to 299\<close>
  "test_image = concat (map (\<lambda>i. replicate 2000 (if 100 \<le> i \<and> i < 300 then chr 255 else NUL)) [0..<1000])"

definition test_compress_to_file :: "jpeg \<Rightarrow> (char list \<Rightarrow> bool) \<Rightarrow> (char list \<rightharpoonup> char list) \<Rightarrow> jstop + (char list \<rightharpoonup> char list)" where
  "test_compress_to_file J denied fs =
     compress_jpeg_to_file J denied test_image 2000 1000 1 JCS_GRAYSCALE 90 ''../image/compress/to_file.jpg'' fs"

subsection \<open>What the library promises\<close>

definition jpeg_laws :: "jpeg \<Rightarrow> bool" where
  \<comment> \<open>the limits of the format; without scaling and quantization rows have the components of the image\<close>
  "jpeg_laws J \<longleftrightarrow>
     (\<forall>src d. jpeg_decode J src = Some d \<longrightarrow>
        0 < output_width d \<and> output_width d \<le> 65500 \<and> 0 < output_height d \<and> output_height d \<le> 65500
        \<and> 0 < num_components d \<and> num_components d \<le> 10
        \<and> image_width d = output_width d \<and> output_components d = num_components d
        \<and> (\<forall>r\<in>set (scanlines d). int (length r) = output_width d * output_components d))
     \<and> (\<forall>p. jpeg_accepts J p \<and> in_color_space p = JCS_RGB \<longrightarrow> input_components p = 3)
     \<and> (\<forall>n. jpeg_defaults J JCS_RGB n = 3)"

definition samples :: "decoded \<Rightarrow> int" where
  "samples d = output_width d * output_height d * num_components d"

subsection \<open>The rows\<close>

lemma row_offset:
  assumes "(i + n) * k < 2147483648" "0 < n"
  shows "u32 (int i * u32 (int k)) = int (i * k)"
proof -
  have "(i + 1) * k \<le> (i + n) * k" using assms(2) by (intro mult_le_mono1) simp
  with assms(1) have "(i + 1) * k < 2147483648" by (rule le_less_trans [rotated])
  then have "i * k + k < 2147483648" by simp
  then have "int (i * k) < 2147483648" "int k < 2147483648" by linarith+
  then show ?thesis by (simp add: cint_simps)
qed

lemma read_rows_fill:
  assumes "\<forall>r\<in>set rs. length r = k" "length pre = i * k" "length post = length rs * k" "(i + length rs) * k < 2147483648"
  shows "read_rows rs (int k) (int i) (pre @ post) = Inr (pre @ concat rs)"
  using assms
proof (induction rs arbitrary: i pre post)
  case (Cons r rs)
  have r: "length r = k" and k: "length r \<le> length post" using Cons(2,4) by simp_all
  have off: "u32 (int i * u32 (int k)) = int (length pre)" using row_offset [of i "length (r # rs)" k] Cons(5,3) by simp
  have "read_rows rs (int k) (int (Suc i)) ((pre @ r) @ drop (length r) post) = Inr ((pre @ r) @ concat rs)"
    by (rule Cons(1)) (use Cons r in \<open>simp_all add: algebra_simps\<close>)
  then show ?case using write_bytes_append [OF k, of pre] by (simp add: off add.commute)
qed simp

lemma write_rows_take:
  assumes "\<forall>r\<in>set rs. length r = k" "length pre = i * k" "(i + length rs) * k < 2147483648"
  shows "write_rows (length rs) (int k) (int k) (int i) (pre @ concat rs) = Inr rs"
  using assms
proof (induction rs arbitrary: i pre)
  case (Cons r rs)
  have r: "length r = k" using Cons(2) by simp
  have off: "u32 (int i * u32 (int k)) = int (length pre)" using row_offset [of i "length (r # rs)" k] Cons(4,3) by simp
  have "read_bytes (pre @ r @ concat rs) (int (length pre)) (int k) = Inr r" using r by (simp add: mem_simps)
  moreover have "write_rows (length rs) (int k) (int k) (int (Suc i)) ((pre @ r) @ concat rs) = Inr rs"
    by (rule Cons(1)) (use Cons r in \<open>simp_all add: algebra_simps\<close>)
  ultimately show ?case by (simp add: off add.commute)
qed simp

lemma jpeg_lawsD:
  assumes "jpeg_laws J" "jpeg_decode J src = Some d"
  shows "0 < output_width d" "output_width d \<le> 65500" "0 < output_height d" "output_height d \<le> 65500"
    "0 < num_components d" "num_components d \<le> 10" "image_width d = output_width d"
    "\<forall>r\<in>set (scanlines d). int (length r) = output_width d * num_components d"
  using assms unfolding jpeg_laws_def by metis+

lemma mul3_eq:
  assumes "0 < a" "0 < b" "0 < c"
  shows "mul3 a b c = (if a * b * c < 2147483648 then Inr (a * b * c) else Inl SignedOverflow)"
proof -
  have p: "0 < a * b" using assms(1,2) by (rule mult_pos_pos)
  then have pc: "0 < a * b * c" using assms(3) by (rule mult_pos_pos)
  have "a * b * 1 \<le> a * b * c" by (rule mult_left_mono) (use assms(3) p in simp_all)
  then show ?thesis using p pc by (auto simp: mul3_def c32_def)
qed

lemma row_bytes:
  assumes "jpeg_laws J" "jpeg_decode J src = Some d" "samples d < 2147483648"
  obtains k where "int k = output_width d * num_components d" "s32 (u32 (output_width d * num_components d)) = int k"
    "\<forall>r\<in>set (scanlines d). length r = k" "length (scanlines d) * k < 2147483648" "samples d = int (length (scanlines d) * k)"
proof
  note l = jpeg_lawsD [OF assms(1,2)]
  let ?k = "nat (output_width d * num_components d)"
  have pos: "0 < output_width d * num_components d" using l(1,5) by simp
  then show k: "int ?k = output_width d * num_components d" by simp
  have s: "samples d = output_height d * (output_width d * num_components d)" by (simp add: samples_def)
  then show e: "samples d = int (length (scanlines d) * ?k)" using pos by (simp add: output_height_def)
  have "1 * (output_width d * num_components d) \<le> output_height d * (output_width d * num_components d)"
    by (rule mult_right_mono) (use l(3) pos in simp_all)
  then have "output_width d * num_components d < 2147483648" using s assms(3) by simp
  then show "s32 (u32 (output_width d * num_components d)) = int ?k" using pos by (simp add: cint_simps)
  show "\<forall>r\<in>set (scanlines d). length r = ?k" using l(8) by auto
  show "length (scanlines d) * ?k < 2147483648" using e assms(3) by linarith
qed

definition decoded_image :: "decoded \<Rightarrow> int \<Rightarrow> image" where
  "decoded_image d cs = \<lparr>img_dst = concat (scanlines d), img_len = samples d, img_width = output_width d, img_height = output_height d,
     img_components = num_components d, img_color_space = cs\<rparr>"

lemma decode_runs:
  assumes "jpeg_laws J" "jpeg_decode J src = Some d"
  shows "decompress_jpeg_from_mem J junk src
      = (if samples d < 2147483648 then Inr (decoded_image d (jpeg_color_space d)) else Inl (Fault SignedOverflow))"
    and "DeompressJPEG J junk src = (if samples d < 2147483648 then Inr (decoded_image d 0) else Inl (Fault SignedOverflow))"
proof -
  note l = jpeg_lawsD [OF assms]
  have dims: "s32 (output_width d) = output_width d" "s32 (output_height d) = output_height d" using l(1-4) by (simp_all add: cint_simps)
  have m: "mul3 (output_width d) (output_height d) (num_components d) = (if samples d < 2147483648 then Inr (samples d) else Inl SignedOverflow)"
    using mul3_eq [OF l(1,3,5)] by (simp add: samples_def)
  have rows: "read_rows (scanlines d) (s32 (u32 (output_width d * num_components d))) 0 (replicate (nat (u64 (samples d))) junk) = Inr (concat (scanlines d))"
    and len: "u64 (samples d) = samples d" if small: "samples d < 2147483648"
  proof -
    obtain k where k: "int k = output_width d * num_components d" "s32 (u32 (output_width d * num_components d)) = int k"
      "\<forall>r\<in>set (scanlines d). length r = k" "length (scanlines d) * k < 2147483648" "samples d = int (length (scanlines d) * k)"
      by (rule row_bytes [OF assms small])
    show "u64 (samples d) = samples d" using small k(5) by (simp add: cint_simps)
    then have n: "nat (u64 (samples d)) = length (scanlines d) * k" using k(5) by (metis nat_int)
    have "read_rows (scanlines d) (int k) (int 0) ([] @ replicate (length (scanlines d) * k) junk) = Inr ([] @ concat (scanlines d))"
      by (rule read_rows_fill) (use k in simp_all)
    then show "read_rows (scanlines d) (s32 (u32 (output_width d * num_components d))) 0 (replicate (nat (u64 (samples d))) junk) = Inr (concat (scanlines d))"
      using k(2) n by simp
  qed
  show "decompress_jpeg_from_mem J junk src
      = (if samples d < 2147483648 then Inr (decoded_image d (jpeg_color_space d)) else Inl (Fault SignedOverflow))"
    using rows len by (simp add: decompress_jpeg_from_mem_def start_decompress_def assms(2) dims m decoded_image_def)
  show "DeompressJPEG J junk src = (if samples d < 2147483648 then Inr (decoded_image d 0) else Inl (Fault SignedOverflow))"
    using rows len l(7) by (simp add: DeompressJPEG_def start_decompress_def assms(2) dims m decoded_image_def)
qed

lemma encode_rows:
  assumes "jpeg_laws J" "jpeg_decode J src = Some d" "samples d < 2147483648"
  shows "compress_jpeg_to_mem J (concat (scanlines d)) (output_width d) (output_height d) (num_components d) cs q =
    (let p = \<lparr>par_width = output_width d, par_height = output_height d, input_components = num_components d, in_color_space = cs, quality = q, sampling = None\<rparr> in
     if jpeg_accepts J p then finish_compress J p (scanlines d) else Inl (Exit 1))"
proof -
  note l = jpeg_lawsD [OF assms(1,2)]
  obtain k where k: "int k = output_width d * num_components d" "s32 (u32 (output_width d * num_components d)) = int k"
    "\<forall>r\<in>set (scanlines d). length r = k" "length (scanlines d) * k < 2147483648" "samples d = int (length (scanlines d) * k)"
    by (rule row_bytes [OF assms])
  have u: "u32 (output_width d) = output_width d" "u32 (output_height d) = output_height d" "u32 (num_components d) = num_components d"
    using l(1-6) by (simp_all add: cint_simps)
  have "write_rows (length (scanlines d)) (int k) (int k) (int 0) ([] @ concat (scanlines d)) = Inr (scanlines d)"
    by (rule write_rows_take) (use k in simp_all)
  then have "write_rows (nat (output_height d)) (int k) (output_width d * num_components d) 0 (concat (scanlines d)) = Inr (scanlines d)"
    using k(1) by (simp add: output_height_def)
  then show ?thesis using k(2) by (simp add: compress_jpeg_to_mem_def start_compress_def u Let_def)
qed

text \<open>
  C23. Decoding a file and encoding it again hands the encoder exactly the rows that the decoder gave,
  with their width, height and number of components: every row is stored and fetched inside of the
  array. The rows are declared to be in the colour space of the file, not in the one they were
  decoded to. An image of \<open>2^31\<close> samples or more makes the product of its dimensions overflow.
\<close>

theorem recompress_same_rows:
  assumes "jpeg_laws J" "fs sFile = Some src" "jpeg_decode J src = Some d"
  shows "test_decompress_from_file J junk denied sFile dFile fs =
    (let p = \<lparr>par_width = output_width d, par_height = output_height d, input_components = num_components d,
               in_color_space = jpeg_color_space d, quality = 100, sampling = None\<rparr> in
     if \<not> samples d < 2147483648 then Inl (Fault SignedOverflow)
     else if denied dFile \<or> \<not> jpeg_accepts J p then Inl (Exit 1)
     else case jpeg_encode J p (scanlines d) of None \<Rightarrow> Inl (Exit 1) | Some out \<Rightarrow> Inr (fs(dFile \<mapsto> out)))"
proof (cases "samples d < 2147483648")
  case True
  then show ?thesis
    using encode_rows [OF assms(1,3) True]
    by (simp add: test_decompress_from_file_def decompress_jpeg_from_file_def assms(2) decode_runs(1) [OF assms(1,3)]
        compress_jpeg_to_file_def decoded_image_def finish_compress_def Let_def split: option.split)
next
  case False
  then show ?thesis
    by (simp add: test_decompress_from_file_def decompress_jpeg_from_file_def assms(2) decode_runs(1) [OF assms(1,3)] Let_def)
qed

definition sample_decoded :: decoded where
  "sample_decoded = \<lparr>image_width = 2, output_width = 2, output_components = 3, num_components = 3, jpeg_color_space = JCS_YCbCr,
     out_color_space = JCS_RGB, scanlines = [''RGBrgb'', ''redblu'']\<rparr>"

definition sample_jpeg :: jpeg where
  \<comment> \<open>one image, and an encoder that writes the number of its colour space and the samples\<close>
  "sample_jpeg = \<lparr>jpeg_decode = (\<lambda>src. if src = ''jpg'' then Some sample_decoded else None),
     jpeg_accepts = (\<lambda>p. in_color_space p = JCS_RGB \<longrightarrow> input_components p = 3),
     jpeg_encode = (\<lambda>p rows. Some (chr (48 + in_color_space p) # concat rows)), jpeg_defaults = (\<lambda>c n. 3)\<rparr>"

lemma sample_jpeg_laws: "jpeg_laws sample_jpeg"
  by (auto simp: jpeg_laws_def sample_jpeg_def sample_decoded_def output_height_def)

theorem recompress_same_rows_witness:
  "test_decompress_from_file sample_jpeg NUL (\<lambda>f. False) ''in'' ''out'' [''in'' \<mapsto> ''jpg''] = Inr [''in'' \<mapsto> ''jpg'', ''out'' \<mapsto> ''3RGBrgbredblu'']"
proof -
  have "jpeg_decode sample_jpeg ''jpg'' = Some sample_decoded" "[''in'' \<mapsto> ''jpg''] ''in'' = Some ''jpg''" by (simp_all add: sample_jpeg_def)
  moreover have "samples sample_decoded < 2147483648" by (simp add: samples_def sample_decoded_def output_height_def)
  moreover have "chr (48 + JCS_YCbCr) # concat [''RGBrgb'', ''redblu''] = ''3RGBrgbredblu''" by code_simp
  ultimately show ?thesis
    using recompress_same_rows [OF sample_jpeg_laws, of "[''in'' \<mapsto> ''jpg'']" "''in''" "''jpg''" sample_decoded NUL "\<lambda>f. False" "''out''"]
    by (simp add: sample_jpeg_def sample_decoded_def JCS_YCbCr_def JCS_RGB_def)
qed

lemma CompressJPEG_colour:
  \<comment> \<open>an image whose pixels are not three bytes is refused by the library before a row is read\<close>
  assumes "jpeg_laws J" "depth \<noteq> 3"
  shows "CompressJPEG J src width height depth = Inl (Exit 1)"
proof -
  have "\<not> jpeg_accepts J \<lparr>par_width = u32 width, par_height = u32 height, input_components = depth, in_color_space = JCS_RGB, quality = 80, sampling = Some (2, 2)\<rparr>"
  proof
    assume "jpeg_accepts J \<lparr>par_width = u32 width, par_height = u32 height, input_components = depth, in_color_space = JCS_RGB, quality = 80, sampling = Some (2, 2)\<rparr>"
    then show False using assms unfolding jpeg_laws_def by fastforce
  qed
  then show ?thesis by (simp add: CompressJPEG_def start_compress_def Let_def)
qed

lemma decoders_agree:
  \<comment> \<open>the two decoders differ in the colour space they report only\<close>
  assumes "jpeg_laws J" "jpeg_decode J src = Some d"
  shows "DeompressJPEG J junk src = rbind (decompress_jpeg_from_mem J junk src) (\<lambda>i. Inr (i\<lparr>img_color_space := 0\<rparr>))"
  by (simp add: decode_runs [OF assms] decoded_image_def)

end
