(* ===== verification/Spec2Isabelle.thy ===== *)
theory Spec2Isabelle
  imports Prelude Zmalloc Sds Sds_Text Sds_Build Sds_Split Sds_Args Heap_Region Ae_Epoll Ae Ae_Inv Ae_Life Ae_Run Ae_Time Ae_Spec Ae_Loop_Spec Anet Anet_Spec Crypt_Hash Crypt_Spec Crypt_Main Crypt_Safety Zmalloc_Proc Endianconv Primes Sample_Queue Epoll_Server Monitor Ts_Queue Ts_Queue_Ptr Ts_Stack Cpp_Timer Encryptor Hier_Mutex Thread_Pool Cpp_Barrier Nice_Session Nice_Threads Account_Service Jpeg
begin

text \<open>
  A verification library for the programs of the repository: a networking runtime in C taken from
  Redis 3.0, an authenticated file encryption tool, and a collection of smaller C and C++ programs
  (threads and locks, servers, codecs, samples). All paths below are relative to \<open>src/\<close>.

  \<^bold>\<open>How the code is modelled.\<close> A C function is a HOL function with the state it reads and writes as argument
  and result; what the process does not survive is a value of \<open>stop\<close> (\<open>Prelude\<close>), so that "stays inside of
  its arrays" or "does not overflow" are statements about the model. Integers are HOL integers with
  the conversions and the wrap-around of their C type written out, or machine words where bits
  matter. Loads and stores are checked. Multithreaded classes are step relations in which one
  thread executes one statement, so that any interleaving is a run. The kernel, the clock, fresh
  memory and the application's callbacks are arbitrary functions. Libraries whose sources are not in
  the repository (Mbed TLS, libjpeg, GLib and libnice) are records of functions that the definitions
  take as an argument; what their documentation promises is a named hypothesis, and every theorem
  with such a hypothesis is applied to a concrete library that keeps it.

  \<^bold>\<open>The networking runtime\<close>, \<open>redis-3.0-network/src\<close>. The event loop \<open>ae\<close> and the strings \<open>sds\<close> allocate through
  \<open>zmalloc\<close>; the sockets of \<open>anet\<close> are what programs register with the loop.

  \<^item> \<open>Zmalloc\<close>, \<open>Zmalloc_Proc\<close>, \<open>Heap_Region\<close> (\<open>zmalloc.c\<close>): allocation wrappers, the counter of used memory, the
    out-of-memory handler, the readers of the proc file system. \<open>used_memory\<close> is the sum of the rounded
    sizes of the live blocks in every reachable state (locale \<open>accounted_heap\<close>); \<open>region\<close> tells which blocks
    a computation added, which is how the absence of leaks is stated.
  \<^item> \<open>Sds\<close>, \<open>Sds_Text\<close>, \<open>Sds_Build\<close>, \<open>Sds_Split\<close>, \<open>Sds_Args\<close> (\<open>sds.c\<close>, \<open>sds.h\<close>): every operation on dynamic strings,
    from growth and append (with the doubling policy and the \<open>int\<close> fields) over number printing,
    \<open>sdscatvprintf\<close>, \<open>sdscatfmt\<close>, trimming and ranges to quoting, joining, splitting and the parser of
    command lines. The operations are shown to stay in their buffers and to have the effect of a pure
    function on the contents; \<open>sdssplitargs\<close> refines the parser \<open>words\<close>, which inverts \<open>sdscatrepr\<close>.
  \<^item> \<open>Ae_Epoll\<close>, \<open>Ae\<close> (definitions), \<open>Ae_Inv\<close>, \<open>Ae_Life\<close>, \<open>Ae_Run\<close>, \<open>Ae_Time\<close> (lemmas), \<open>Ae_Spec\<close>, \<open>Ae_Loop_Spec\<close> (properties), for
    \<open>ae.c\<close>, \<open>ae.h\<close>, \<open>ae_epoll.c\<close>: the invariant of the loop (kernel interest set, \<open>maxfd\<close>, identifiers of timers, live
    blocks) and its preservation by every call of the API and by callbacks that use the API (locale
    \<open>kept_by_calls\<close>); creation, resizing and deletion; order of dispatch; deadlines, the length of the
    sleep, and that all due timers fire; memory safety of \<open>aeMain\<close> for applications that keep two rules,
    and the use after free when one of them is broken.
  \<^item> \<open>Anet\<close>, \<open>Anet_Spec\<close> (\<open>anet.c\<close>, \<open>anet.h\<close>): name resolution, options, connecting, listening, accepting, reading
    and writing. What opens a socket returns the only new descriptor or leaves none (locale \<open>opener\<close>),
    with the two exits of the code that break this.
  \<^item> \<open>Endianconv\<close> (\<open>endianconv.c\<close>, \<open>endianconv.h\<close>): reversal of bytes on hosts of either byte order (locale
    \<open>byte_reversal\<close>).

  \<^bold>\<open>Encryption.\<close>

  \<^item> \<open>Crypt_Hash\<close> (definitions), \<open>Crypt_Spec\<close>, \<open>Crypt_Main\<close>, \<open>Crypt_Safety\<close>, for \<open>mbedtls/crypt_and_hash/main.cpp\<close>: the whole \<open>main\<close>
    with its key derivation, both loops, short transfers and every exit. Decryption restores the file,
    accepts only authentic files, every exit wipes the secrets, and large files overrun the buffer.
  \<^item> \<open>Encryptor\<close> (\<open>aes/encryptor.cpp\<close>, \<open>aes/main.cpp\<close>): CBC with padding, its round trip and where that fails.

  \<^bold>\<open>Threads.\<close> \<open>Monitor\<close> has the interfaces that the following theories interpret: \<open>invariant_of\<close> (reachable states),
  \<open>atomic_object\<close> (linearizability), \<open>progressing\<close> (calls come to an end) and \<open>simulation\<close>.

  \<^item> \<open>Ts_Queue\<close>, \<open>Ts_Queue_Ptr\<close>, \<open>Ts_Stack\<close> (\<open>C++11/Cpp-Concurrency-in-Action/chap6\<close>): two queues with a condition
    variable and a stack; linearizable for any number of threads, no lost wake-up, calls end; the
    second queue simulates the first.
  \<^item> \<open>Thread_Pool\<close> (\<open>chap9/9_1.cpp\<close>): workers that poll such a queue; no task is lost or run twice.
  \<^item> \<open>Hier_Mutex\<close> (\<open>chap3/3_8.cpp\<close>): mutexes with levels; no circle of waiting threads while they are unlocked in
    reverse order, and a deadlock when they are not.
  \<^item> \<open>Cpp_Timer\<close> (\<open>timer/timer.h\<close>): at most one worker under one controlling thread, \<open>stop\<close> returns; the races and
    the copy that break this.
  \<^item> \<open>Cpp_Barrier\<close> (\<open>barrier_cpp11/main.cpp\<close>): the first round waits for all threads, the next one need not.
  \<^item> \<open>Nice_Threads\<close> (\<open>libnice/examples/threaded-example.c\<close>): the callbacks wake the waiting thread, which tests
    its condition and goes to sleep in two steps under the mutex; a failed negotiation does not.

  \<^bold>\<open>Further programs.\<close>

  \<^item> \<open>Nice_Session\<close> (\<open>libnice/examples/simple-example.c\<close>): the line with credentials and candidates that two
    clients exchange, printed and parsed, with the callbacks of the session.
  \<^item> \<open>Jpeg\<close> (\<open>jpeg2/main.cpp\<close>): the rows of an image between decoder, array and encoder.
  \<^item> \<open>Account_Service\<close> (\<open>googletest/gmock/account_service\<close>): transfers over any account manager (locale
    \<open>account_manager\<close>), interpreted on the map of the unit test.
  \<^item> \<open>Primes\<close>, \<open>Sample_Queue\<close> (\<open>googletest/gtest\<close>): primality tests and prime tables (locale \<open>prime_table\<close>), the
    linked queue (locale \<open>fifo\<close>), the string class and the counter.
  \<^item> \<open>Epoll_Server\<close> (\<open>epoll/server.c\<close>): the demonstration server in both trigger modes.

  \<^bold>\<open>Loops and fuel.\<close> Loops over data are recursive functions with a termination proof. Fuel is used where the
  code may run for ever: \<open>processTimeEvents\<close> (a callback can keep itself due; when the clock advances
  by less than the delays the callbacks ask for, fuel for as many events as there are is enough), \<open>aeMain\<close> and the server's main loop (they
  stop when the application stops them, or never; their safety theorems hold for every number of
  rounds and admit \<open>NoFuel\<close>), the reads and writes of \<open>anet\<close> and of the server, which a kernel that always
  answers could prolong, and \<open>accept\<close> interrupted by signals. The loops of \<open>crypt_and_hash\<close> run once per
  chunk of the file, and their theorems state the fuel.

  \<^bold>\<open>Not modelled.\<close> Third-party code and what only calls it: the headers of acl, opencv, turbojpeg, zlib, jrtp
  and GLib demonstrations, the padding example of Mbed TLS, and the SDP example of libnice, whose SDP text
  is the library's (its threads follow the protocol of \<open>Nice_Threads\<close>). Code whose result is a floating-point number: \<open>system/cpu.cpp\<close>, \<open>system/memory.cpp\<close> and
  the fragmentation ratio of \<open>zmalloc\<close>. \<open>read_jpeg_file\<close> of \<open>jpeg2/main.cpp\<close>, which is not C++, and its timing tests.
  Unit tests and programs of a few lines that print (cmake, makefile, android, docker,
  coredump and the other listings of \<open>C++11\<close>). In the threaded classes the memory model is sequentially consistent,
  and what a move leaves behind in a value is not represented. Configurations of the runtime other than
  Linux with the C library's allocator are left out.
\<close>

end
